(* ===== verification/Prelude.thy ===== *)
theory Prelude
  imports Main "HOL-Library.Word"
begin

text \<open>
  Shared vocabulary of the Stardust model: the machine types of \<^verbatim>\<open>include/os/types.h\<close>, the
  ways a kernel routine can fail to return (\<open>fault\<close>), and the generic lemmas on results,
  lists and bits that the component theories use.

  A routine that can hit a \<^verbatim>\<open>BUG_ON\<close>, call \<^verbatim>\<open>crash()\<close> or leave the bounds of an object has a
  result in \<open>'a res\<close>: \<open>Inr x\<close> when it returns \<open>x\<close>, \<open>Inl f\<close> when it ends in the
  fault \<open>f\<close>.  Error codes that the C code returns as ordinary values stay ordinary values.
\<close>

unbundle bit_operations_syntax

section \<open>Machine types\<close>

type_synonym u8 = "8 word"
type_synonym u16 = "16 word"
type_synonym u32 = "32 word"
type_synonym u64 = "64 word"

section \<open>Faults and results\<close>

text \<open>
  \<open>Bug\<close>: \<^verbatim>\<open>BUG()\<close> or \<^verbatim>\<open>BUG_ON\<close>, which prints a backtrace and powers the domain off
  (\<^verbatim>\<open>include/os/bug.h\<close>).  \<open>Crash\<close>: \<^verbatim>\<open>crash()\<close> or \<^verbatim>\<open>crash_with_message()\<close>
  (\<^verbatim>\<open>include/os/crash.h\<close>).  \<open>Undef\<close>: an access outside an object, the use of an
  indeterminate value, or the deliberate null store \<^verbatim>\<open>*(int*)0=0\<close>.
\<close>

datatype fault = Bug | Crash | Undef

type_synonym 'a res = "fault + 'a"

named_theorems res_simps \<open>equations of the result type\<close>

definition rbind :: "'a res \<Rightarrow> ('a \<Rightarrow> 'b res) \<Rightarrow> 'b res" where
  "rbind m f = (case m of Inl e \<Rightarrow> Inl e | Inr x \<Rightarrow> f x)"

definition bug_on :: "bool \<Rightarrow> 'a res \<Rightarrow> 'a res" where
  "bug_on c k = (if c then Inl Bug else k)"

lemma rbind_Inl [simp, res_simps]: "rbind (Inl e) f = Inl e"
  by (simp add: rbind_def)

lemma rbind_Inr [simp, res_simps]: "rbind (Inr x) f = f x"
  by (simp add: rbind_def)

lemma rbind_eq_Inr [res_simps]: "rbind m f = Inr y \<longleftrightarrow> (\<exists>x. m = Inr x \<and> f x = Inr y)"
  by (cases m) auto

lemma rbind_eq_Inl: "rbind m f = Inl e \<longleftrightarrow> m = Inl e \<or> (\<exists>x. m = Inr x \<and> f x = Inl e)"
  by (cases m) auto

lemma rbind_cong:
  "m = m' \<Longrightarrow> (\<And>x. m' = Inr x \<Longrightarrow> f x = f' x) \<Longrightarrow> rbind m f = rbind m' f'"
  by (cases m') auto

lemma bug_on_False [simp, res_simps]: "bug_on False k = k"
  by (simp add: bug_on_def)

lemma bug_on_True [simp, res_simps]: "bug_on True k = Inl Bug"
  by (simp add: bug_on_def)

lemma bug_on_eq_Inr [res_simps]: "bug_on c k = Inr y \<longleftrightarrow> \<not> c \<and> k = Inr y"
  by (simp add: bug_on_def)

text \<open>A routine with a loop that may not end gives \<open>None\<close> while it has not ended.\<close>

definition dbind :: "'a res option \<Rightarrow> ('a \<Rightarrow> 'b res option) \<Rightarrow> 'b res option" where
  "dbind m f = (case m of None \<Rightarrow> None | Some (Inl e) \<Rightarrow> Some (Inl e) | Some (Inr x) \<Rightarrow> f x)"

lemma dbind_simps [simp]:
  "dbind None f = None" "dbind (Some (Inl e)) f = Some (Inl e)" "dbind (Some (Inr x)) f = f x"
  by (simp_all add: dbind_def)

section \<open>Bounded array access\<close>

text \<open>
  An array is a list; a read or write at an index outside it is \<open>Undef\<close>.
\<close>

definition aget :: "'a list \<Rightarrow> nat \<Rightarrow> 'a res" where
  "aget xs i = (if i < length xs then Inr (xs ! i) else Inl Undef)"

definition aset :: "'a list \<Rightarrow> nat \<Rightarrow> 'a \<Rightarrow> 'a list res" where
  "aset xs i v = (if i < length xs then Inr (xs[i := v]) else Inl Undef)"

lemma aget_in [simp]: "i < length xs \<Longrightarrow> aget xs i = Inr (xs ! i)"
  by (simp add: aget_def)

lemma aset_in [simp]: "i < length xs \<Longrightarrow> aset xs i v = Inr (xs[i := v])"
  by (simp add: aset_def)

lemma aget_eq_Inr: "aget xs i = Inr v \<longleftrightarrow> i < length xs \<and> v = xs ! i"
  by (auto simp: aget_def)

lemma aset_eq_Inr: "aset xs i v = Inr ys \<longleftrightarrow> i < length xs \<and> ys = xs[i := v]"
  by (auto simp: aset_def)

section \<open>Lists\<close>

lemma remove1_eq_append: "x \<notin> set ys \<Longrightarrow> remove1 x (ys @ x # zs) = ys @ zs"
  by (simp add: remove1_append)

lemma set_remove1_distinct: "distinct xs \<Longrightarrow> set (remove1 x xs) = set xs - {x}"
  by simp

section \<open>Words\<close>

lemma unat_less_pow: "unat (w :: 'a::len word) < 2 ^ LENGTH('a)"
  by (rule unsigned_less)

lemma uint_drop_bit: "uint (drop_bit n w) = uint w div 2 ^ n" for w :: "'a::len word"
proof -
  have "uint (drop_bit n w) = drop_bit n (uint w)"
    by (rule bit_eqI) (auto simp: bit_uint_iff bit_drop_bit_eq bit_simps dest: bit_imp_le_length)
  then show ?thesis by (simp add: drop_bit_eq_div [where 'a = int])
qed

lemma uint_take_bit: "uint (take_bit n w) = uint w mod 2 ^ n" for w :: "'a::len word"
  by (simp add: unsigned_take_bit_eq take_bit_eq_mod [where 'a = int])

end
