(* ===== verification/Klist.thy ===== *)
theory Klist
  imports Prelude
begin

text \<open>
  The intrusive doubly linked lists of \<^verbatim>\<open>include/os/list.h\<close>.  A \<^verbatim>\<open>struct list_head\<close> lives
  inside another structure, so a node is an address; the two pointer fields of all nodes form
  the store \<open>'a links\<close>.  Every operation is the sequence of pointer writes of the C code.

  \<open>ring h head xs\<close> says that the circular list headed at \<open>head\<close> holds the nodes \<open>xs\<close> in
  order; \<open>rings h Q\<close> says that a whole family of heads have disjoint lists.  The lemmas show
  what each operation does to such a family, which is all the scheduler needs.
\<close>

section \<open>Nodes and pointer writes\<close>

record 'a links =
  next_of :: "'a \<Rightarrow> 'a"
  prev_of :: "'a \<Rightarrow> 'a"

definition set_next :: "'a links \<Rightarrow> 'a \<Rightarrow> 'a \<Rightarrow> 'a links" where
  "set_next h p q = h\<lparr>next_of := (next_of h)(p := q)\<rparr>"

definition set_prev :: "'a links \<Rightarrow> 'a \<Rightarrow> 'a \<Rightarrow> 'a links" where
  "set_prev h p q = h\<lparr>prev_of := (prev_of h)(p := q)\<rparr>"

section \<open>The operations of list.h\<close>

definition init_list_head :: "'a links \<Rightarrow> 'a \<Rightarrow> 'a links" where
  "init_list_head h p = set_prev (set_next h p p) p p"

definition list_add_between :: "'a links \<Rightarrow> 'a \<Rightarrow> 'a \<Rightarrow> 'a \<Rightarrow> 'a links" where
  "list_add_between h new prv nxt =
     (let h1 = set_prev h nxt new;
          h2 = set_next h1 new nxt;
          h3 = set_prev h2 new prv
      in set_next h3 prv new)"

definition list_add :: "'a links \<Rightarrow> 'a \<Rightarrow> 'a \<Rightarrow> 'a links res" where
  "list_add h new head =
     (let h' = list_add_between h new head (next_of h head)
      in bug_on (next_of h' new = new) (Inr h'))"

definition list_add_tail :: "'a links \<Rightarrow> 'a \<Rightarrow> 'a \<Rightarrow> 'a links res" where
  "list_add_tail h new head =
     (let h' = list_add_between h new (prev_of h head) head
      in bug_on (next_of h' new = new) (Inr h'))"

definition list_del_between :: "'a links \<Rightarrow> 'a \<Rightarrow> 'a \<Rightarrow> 'a links" where
  "list_del_between h prv nxt = set_next (set_prev h nxt prv) prv nxt"

definition list_del :: "'a links \<Rightarrow> 'a \<Rightarrow> 'a links" where
  "list_del h entry = list_del_between h (prev_of h entry) (next_of h entry)"

definition list_del_init :: "'a links \<Rightarrow> 'a \<Rightarrow> 'a links" where
  "list_del_init h entry =
     init_list_head (list_del_between h (prev_of h entry) (next_of h entry)) entry"

definition list_empty :: "'a links \<Rightarrow> 'a \<Rightarrow> bool" where
  "list_empty h head = (next_of h head = head)"

definition list_splice :: "'a links \<Rightarrow> 'a \<Rightarrow> 'a \<Rightarrow> 'a links" where
  "list_splice h lst head =
     (let first = next_of h lst
      in if first \<noteq> lst then
           let lastn = prev_of h lst;
               at = next_of h head;
               h1 = set_prev h first head;
               h2 = set_next h1 head first;
               h3 = set_next h2 lastn at
           in set_prev h3 at lastn
         else h)"

text \<open>
  The nodes that \<^verbatim>\<open>list_for_each(pos, head)\<close> visits.  A corrupted list may be traversed for
  ever, so the traversal carries fuel; \<open>None\<close> is "not back at the head yet".
\<close>

fun list_for_each :: "nat \<Rightarrow> 'a links \<Rightarrow> 'a \<Rightarrow> 'a \<Rightarrow> 'a list option" where
  "list_for_each 0 h head pos = None"
| "list_for_each (Suc n) h head pos =
     (if pos = head then Some []
      else map_option (\<lambda>xs. pos # xs) (list_for_each n h head (next_of h pos)))"

definition list_nodes :: "nat \<Rightarrow> 'a links \<Rightarrow> 'a \<Rightarrow> 'a list option" where
  "list_nodes n h head = list_for_each n h head (next_of h head)"

section \<open>Chains and rings\<close>

text \<open>
  \<open>chain h a xs b\<close>: starting at \<open>a\<close>, the next pointers lead through \<open>xs\<close> to \<open>b\<close>, and
  the previous pointers lead back.
\<close>

fun chain :: "'a links \<Rightarrow> 'a \<Rightarrow> 'a list \<Rightarrow> 'a \<Rightarrow> bool" where
  "chain h a [] b = (next_of h a = b \<and> prev_of h b = a)"
| "chain h a (x # xs) b = (next_of h a = x \<and> prev_of h x = a \<and> chain h x xs b)"

definition ring :: "'a links \<Rightarrow> 'a \<Rightarrow> 'a list \<Rightarrow> bool" where
  "ring h head xs = (distinct (head # xs) \<and> chain h head xs head)"

text \<open>A node in no list points to itself (\<^verbatim>\<open>INIT_LIST_HEAD\<close>, \<^verbatim>\<open>list_del_init\<close>).\<close>

definition unlinked :: "'a links \<Rightarrow> 'a \<Rightarrow> bool" where
  "unlinked h n = (next_of h n = n \<and> prev_of h n = n)"

lemma set_next_simps [simp]:
  "next_of (set_next h p q) = (next_of h)(p := q)"
  "prev_of (set_next h p q) = prev_of h"
  by (simp_all add: set_next_def)

lemma set_prev_simps [simp]:
  "prev_of (set_prev h p q) = (prev_of h)(p := q)"
  "next_of (set_prev h p q) = next_of h"
  by (simp_all add: set_prev_def)

lemma links_eqI: "next_of h = next_of h' \<Longrightarrow> prev_of h = prev_of h' \<Longrightarrow> h = (h' :: 'a links)"
  by (cases h; cases h') simp

lemma chain_append:
  "chain h a (xs @ x # ys) b \<longleftrightarrow> chain h a xs x \<and> chain h x ys b"
  by (induction xs arbitrary: a) auto

text \<open>A chain only depends on the next pointers of its front and the previous pointers of its back.\<close>

lemma chain_cong:
  assumes "\<And>p. p \<in> set (a # xs) \<Longrightarrow> next_of h' p = next_of h p"
    and "\<And>p. p \<in> set (xs @ [b]) \<Longrightarrow> prev_of h' p = prev_of h p"
  shows "chain h' a xs b = chain h a xs b"
  using assms by (induction xs arbitrary: a) auto

lemma chain_last:
  "chain h a xs b \<Longrightarrow> prev_of h b = last (a # xs)"
  by (induction xs arbitrary: a) auto

lemma chain_first:
  "chain h a xs b \<Longrightarrow> next_of h a = hd (xs @ [b])"
  by (cases xs) auto

lemma ring_singleton: "unlinked h head \<Longrightarrow> ring h head []"
  by (simp add: ring_def unlinked_def)

lemma ring_distinct: "ring h head xs \<Longrightarrow> distinct (head # xs)"
  by (simp add: ring_def)

lemma ring_empty_iff: "ring h head xs \<Longrightarrow> list_empty h head = (xs = [])"
  by (cases xs) (auto simp: ring_def list_empty_def)

lemma init_list_head_unlinked: "unlinked (init_list_head h p) p"
  by (simp add: init_list_head_def unlinked_def)

lemma init_list_head_id: "unlinked h p \<Longrightarrow> init_list_head h p = h"
  by (rule links_eqI) (auto simp: init_list_head_def unlinked_def)

section \<open>Traversal\<close>

lemma list_for_each_chain:
  "chain h a xs head \<Longrightarrow> head \<notin> set xs \<Longrightarrow> length xs < n
     \<Longrightarrow> list_for_each n h head (next_of h a) = Some xs"
proof (induction xs arbitrary: a n)
  case Nil
  then show ?case by (cases n) auto
next
  case (Cons x xs)
  then show ?case by (cases n) auto
qed

lemma list_nodes_ring:
  "ring h head xs \<Longrightarrow> length xs < n \<Longrightarrow> list_nodes n h head = Some xs"
  by (simp add: ring_def list_nodes_def list_for_each_chain)

section \<open>What each operation does to a ring\<close>

lemma list_add_between_next:
  "next_of (list_add_between h new a b) = (next_of h)(new := b, a := new)"
  by (simp add: list_add_between_def Let_def)

lemma list_add_between_prev:
  "prev_of (list_add_between h new a b) = (prev_of h)(b := new, new := a)"
  by (simp add: list_add_between_def Let_def)

lemma chain_insert:
  assumes "chain h a (xs @ ys) b" and "new \<notin> set (a # b # xs @ ys)"
    and "distinct (a # xs @ ys)" and "b \<notin> set (xs @ ys)"
  shows "chain (list_add_between h new (last (a # xs)) (hd (ys @ [b]))) a (xs @ new # ys) b"
  using assms
proof (induction xs arbitrary: a)
  case Nil
  then show ?case
  proof (cases ys)
    case Nil
    with Nil.prems show ?thesis
      by (auto simp: list_add_between_next list_add_between_prev)
  next
    case (Cons y zs)
    have "chain (list_add_between h new a y) y zs b = chain h y zs b"
      using Nil.prems Cons
      by (intro chain_cong) (auto simp: list_add_between_next list_add_between_prev)
    with Nil.prems Cons show ?thesis
      by (auto simp: list_add_between_next list_add_between_prev)
  qed
next
  case (Cons x xs)
  let ?h = "list_add_between h new (last (x # xs)) (hd (ys @ [b]))"
  have "chain ?h x (xs @ new # ys) b"
    using Cons.prems by (intro Cons.IH) auto
  moreover have "a \<noteq> last (x # xs)" and "x \<noteq> hd (ys @ [b])"
    using Cons.prems by (auto split: if_splits) (metis hd_append hd_in_set list.sel(1) list.set_intros(1))+
  ultimately show ?case
    using Cons.prems by (auto simp: list_add_between_next list_add_between_prev)
qed

lemma list_add_between_other:
  assumes "p \<noteq> new"
  shows "p \<noteq> a \<Longrightarrow> next_of (list_add_between h new a b) p = next_of h p"
    and "p \<noteq> b \<Longrightarrow> prev_of (list_add_between h new a b) p = prev_of h p"
  using assms by (simp_all add: list_add_between_next list_add_between_prev)

lemma ring_add_tail:
  assumes "ring h head xs" and "new \<notin> set (head # xs)"
  shows "list_add_tail h new head = Inr (list_add_between h new (prev_of h head) head)"
    and "ring (list_add_between h new (prev_of h head) head) head (xs @ [new])"
proof -
  have c: "chain h head (xs @ []) head" and d: "distinct (head # xs)"
    using assms by (auto simp: ring_def)
  have l: "prev_of h head = last (head # xs)"
    using chain_last c by fastforce
  show "list_add_tail h new head = Inr (list_add_between h new (prev_of h head) head)"
    using assms l by (auto simp: list_add_tail_def Let_def list_add_between_next bug_on_def split: if_splits)
  show "ring (list_add_between h new (prev_of h head) head) head (xs @ [new])"
    using chain_insert [OF c, of new] assms d l by (auto simp: ring_def)
qed

lemma ring_add:
  assumes "ring h head xs" and "new \<notin> set (head # xs)"
  shows "list_add h new head = Inr (list_add_between h new head (next_of h head))"
    and "ring (list_add_between h new head (next_of h head)) head (new # xs)"
proof -
  have c: "chain h head ([] @ xs) head" and d: "distinct (head # xs)"
    using assms by (auto simp: ring_def)
  have f: "next_of h head = hd (xs @ [head])"
    using chain_first c by fastforce
  have "next_of h head \<noteq> new"
    using assms f by (cases xs) auto
  then show "list_add h new head = Inr (list_add_between h new head (next_of h head))"
    using assms by (auto simp: list_add_def Let_def list_add_between_next bug_on_def)
  show "ring (list_add_between h new head (next_of h head)) head (new # xs)"
    using chain_insert [OF c, of new] assms d f by (auto simp: ring_def)
qed

lemma list_del_next:
  "next_of (list_del h n) = (next_of h)(prev_of h n := next_of h n)"
  by (simp add: list_del_def list_del_between_def)

lemma list_del_prev:
  "prev_of (list_del h n) = (prev_of h)(next_of h n := prev_of h n)"
  by (simp add: list_del_def list_del_between_def)

lemma list_del_init_eq: "list_del_init h n = init_list_head (list_del h n) n"
  by (simp add: list_del_init_def list_del_def)

lemma chain_delete:
  assumes "chain h a (xs @ n # ys) b" and "distinct (a # xs @ n # ys)"
    and "b \<notin> set (xs @ n # ys)"
  shows "chain (list_del h n) a (xs @ ys) b"
  using assms
proof (induction xs arbitrary: a)
  case Nil
  show ?case
  proof (cases ys)
    case Nil
    with Nil.prems show ?thesis by (auto simp: list_del_next list_del_prev)
  next
    case (Cons y zs)
    have "chain (list_del h n) y zs b = chain h y zs b"
      using Nil.prems Cons by (intro chain_cong) (auto simp: list_del_next list_del_prev)
    with Nil.prems Cons show ?thesis by (auto simp: list_del_next list_del_prev)
  qed
next
  case (Cons x xs)
  from Cons.prems have c: "chain h x (xs @ n # ys) b" by simp
  have "prev_of h n = last (x # xs)"
    using c by (simp only: chain_append) (auto dest: chain_last)
  moreover have "next_of h n = hd (ys @ [b])"
    using c by (simp only: chain_append) (auto dest: chain_first)
  moreover have "a \<noteq> last (x # xs)" and "x \<noteq> hd (ys @ [b])"
    using Cons.prems by (auto split: if_splits) (metis hd_append hd_in_set list.sel(1) list.set_intros(1))+
  moreover have "chain (list_del h n) x (xs @ ys) b"
    using Cons.prems by (intro Cons.IH) auto
  ultimately show ?case
    using Cons.prems by (auto simp: list_del_next list_del_prev)
qed

lemma ring_del:
  assumes "ring h head xs" and "n \<in> set xs"
  shows "ring (list_del h n) head (remove1 n xs)"
proof -
  obtain ys zs where xs: "xs = ys @ n # zs"
    using assms(2) by (auto simp: in_set_conv_decomp)
  have "chain (list_del h n) head (ys @ zs) head"
    using assms(1) xs by (intro chain_delete) (auto simp: ring_def)
  then show ?thesis
    using assms xs by (auto simp: ring_def remove1_append)
qed

lemma ring_init_other:
  assumes "ring h head xs" and "n \<notin> set (head # xs)"
  shows "ring (init_list_head h n) head xs"
proof -
  have "chain (init_list_head h n) head xs head = chain h head xs head"
    using assms by (intro chain_cong) (auto simp: init_list_head_def)
  with assms show ?thesis by (simp add: ring_def)
qed

lemma ring_del_init:
  assumes "ring h head xs" and "n \<in> set xs"
  shows "ring (list_del_init h n) head (remove1 n xs)" and "unlinked (list_del_init h n) n"
proof -
  have "n \<notin> set (head # remove1 n xs)"
    using assms by (auto simp: ring_def)
  then show "ring (list_del_init h n) head (remove1 n xs)"
    using ring_init_other ring_del assms unfolding list_del_init_eq by fast
  show "unlinked (list_del_init h n) n"
    by (simp add: list_del_init_eq init_list_head_unlinked)
qed

lemma list_del_init_unlinked: "unlinked h n \<Longrightarrow> list_del_init h n = h"
  by (rule links_eqI) (auto simp: unlinked_def list_del_init_eq init_list_head_def list_del_next list_del_prev)

lemma list_del_unlinked: "unlinked h n \<Longrightarrow> list_del h n = h"
  by (rule links_eqI) (auto simp: unlinked_def list_del_next list_del_prev)

section \<open>Neighbours stay inside a ring\<close>

lemma ring_neighbours:
  assumes "ring h head xs" and "p \<in> set (head # xs)"
  shows "next_of h p \<in> set (head # xs)" and "prev_of h p \<in> set (head # xs)"
proof -
  have c: "chain h head xs head" using assms by (simp add: ring_def)
  have nx: "\<And>a b. chain h a ys b \<Longrightarrow> p \<in> set (a # ys) \<Longrightarrow> next_of h p \<in> set (ys @ [b])" for ys
    by (induction ys) auto
  have pv: "\<And>a b. chain h a ys b \<Longrightarrow> p \<in> set (ys @ [b]) \<Longrightarrow> prev_of h p \<in> set (a # ys)" for ys
  proof (induction ys)
    case (Cons y ys)
    then show ?case by (cases "p = y") auto
  qed auto
  show "next_of h p \<in> set (head # xs)" using nx [OF c] assms(2) by auto
  show "prev_of h p \<in> set (head # xs)" using pv [OF c] assms(2) by auto
qed

lemma ring_frame:
  assumes "ring h head xs"
    and "\<And>p. p \<in> set (head # xs) \<Longrightarrow> next_of h' p = next_of h p"
    and "\<And>p. p \<in> set (head # xs) \<Longrightarrow> prev_of h' p = prev_of h p"
  shows "ring h' head xs"
proof -
  have "chain h' head xs head = chain h head xs head"
    using assms by (intro chain_cong) auto
  with assms show ?thesis by (simp add: ring_def)
qed

section \<open>Families of disjoint rings\<close>

text \<open>
  \<open>Q head = Some xs\<close>: there is a list headed at \<open>head\<close>, with nodes \<open>xs\<close>.  A node is free
  when it is neither a head nor a member.  In a \<open>store\<close> every free node points to itself.
\<close>

definition free_node :: "('a \<rightharpoonup> 'a list) \<Rightarrow> 'a \<Rightarrow> bool" where
  "free_node Q n = (\<forall>head xs. Q head = Some xs \<longrightarrow> n \<notin> set (head # xs))"

definition rings :: "'a links \<Rightarrow> ('a \<rightharpoonup> 'a list) \<Rightarrow> bool" where
  "rings h Q =
     ((\<forall>head xs. Q head = Some xs \<longrightarrow> ring h head xs) \<and>
      (\<forall>hd1 hd2 xs ys. Q hd1 = Some xs \<longrightarrow> Q hd2 = Some ys \<longrightarrow> hd1 \<noteq> hd2 \<longrightarrow>
         set (hd1 # xs) \<inter> set (hd2 # ys) = {}))"

definition store :: "'a links \<Rightarrow> ('a \<rightharpoonup> 'a list) \<Rightarrow> bool" where
  "store h Q = (rings h Q \<and> (\<forall>n. free_node Q n \<longrightarrow> unlinked h n))"

lemma rings_ring: "rings h Q \<Longrightarrow> Q head = Some xs \<Longrightarrow> ring h head xs"
  by (simp add: rings_def)

lemma store_ring: "store h Q \<Longrightarrow> Q head = Some xs \<Longrightarrow> ring h head xs"
  by (simp add: store_def rings_def)

lemma store_unlinked: "store h Q \<Longrightarrow> free_node Q n \<Longrightarrow> unlinked h n"
  by (simp add: store_def)

lemma rings_disjoint:
  "rings h Q \<Longrightarrow> Q hd1 = Some xs \<Longrightarrow> Q hd2 = Some ys \<Longrightarrow> p \<in> set (hd1 # xs)
     \<Longrightarrow> p \<in> set (hd2 # ys) \<Longrightarrow> hd1 = hd2"
  unfolding rings_def by blast

text \<open>
  An operation on one ring leaves the others alone when it writes only nodes of that ring and
  nodes in no ring.
\<close>

lemma rings_update:
  assumes r: "rings h Q" and q: "Q head = Some xs"
    and r': "ring h' head ys"
    and new: "\<And>p. p \<in> set ys \<Longrightarrow> p \<in> set xs \<or> free_node Q p"
    and frame: "\<And>p. p \<notin> set (head # xs) \<Longrightarrow> \<not> free_node Q p \<Longrightarrow>
                  next_of h' p = next_of h p \<and> prev_of h' p = prev_of h p"
  shows "rings h' (Q(head \<mapsto> ys))"
proof -
  have other: "ring h' k zs" if k: "Q k = Some zs" "k \<noteq> head" for k zs
  proof (rule ring_frame [OF rings_ring [OF r k(1)]])
    fix p assume p: "p \<in> set (k # zs)"
    have "p \<notin> set (head # xs)" using rings_disjoint [OF r k(1) q p] k(2) by blast
    moreover have "\<not> free_node Q p" using k(1) p unfolding free_node_def by blast
    ultimately show "next_of h' p = next_of h p" and "prev_of h' p = prev_of h p"
      using frame by blast+
  qed
  have disj: "set (head # ys) \<inter> set (k # zs) = {}" if k: "Q k = Some zs" "k \<noteq> head" for k zs
  proof -
    have "p \<notin> set (k # zs)" if p: "p \<in> set (head # ys)" for p
    proof
      assume pz: "p \<in> set (k # zs)"
      then have "\<not> free_node Q p" using k(1) unfolding free_node_def by blast
      then have "p \<in> set (head # xs)" using new p by auto
      then show False using rings_disjoint [OF r q k(1) _ pz] k(2) by blast
    qed
    then show ?thesis by blast
  qed
  show ?thesis
    unfolding rings_def
  proof (intro conjI allI impI)
    fix k zs assume "(Q(head \<mapsto> ys)) k = Some zs"
    then show "ring h' k zs" using r' other by (auto split: if_splits)
  next
    fix k1 k2 zs1 zs2
    assume "(Q(head \<mapsto> ys)) k1 = Some zs1" "(Q(head \<mapsto> ys)) k2 = Some zs2" "k1 \<noteq> k2"
    then show "set (k1 # zs1) \<inter> set (k2 # zs2) = {}"
      using disj r unfolding rings_def
      by (cases "k1 = head"; cases "k2 = head") (simp_all, blast+)
  qed
qed

lemma free_node_update:
  assumes "Q head = Some xs"
  shows "free_node (Q(head \<mapsto> ys)) p \<longleftrightarrow>
     (p \<noteq> head \<and> p \<notin> set ys \<and> (free_node Q p \<or> p \<in> set xs \<and>
        (\<forall>k zs. k \<noteq> head \<longrightarrow> Q k = Some zs \<longrightarrow> p \<notin> set (k # zs))))"
  using assms unfolding free_node_def by (auto split: if_splits)

lemma free_node_not_in:
  "free_node Q n \<Longrightarrow> Q head = Some xs \<Longrightarrow> n \<notin> set (head # xs)"
  unfolding free_node_def by blast

lemma store_add_at:
  assumes s: "store h Q" and q: "Q head = Some xs" and f: "free_node Q n"
    and a: "a \<in> set (head # xs)" and b: "b \<in> set (head # xs)"
    and r: "ring (list_add_between h n a b) head ys" and ys: "set ys = insert n (set xs)"
  shows "store (list_add_between h n a b) (Q(head \<mapsto> ys))"
proof -
  have n: "n \<notin> set (head # xs)" using free_node_not_in [OF f q] .
  have "rings (list_add_between h n a b) (Q(head \<mapsto> ys))"
  proof (rule rings_update [where Q = Q and head = head and xs = xs, OF _ q r])
    show "rings h Q" using s by (simp add: store_def)
    show "\<And>p. p \<in> set ys \<Longrightarrow> p \<in> set xs \<or> free_node Q p" using ys f by auto
    show "next_of (list_add_between h n a b) p = next_of h p \<and>
          prev_of (list_add_between h n a b) p = prev_of h p"
      if p: "p \<notin> set (head # xs)" "\<not> free_node Q p" for p
      using list_add_between_other [of p n] p f a b by metis
  qed
  moreover have "unlinked (list_add_between h n a b) p" if "free_node (Q(head \<mapsto> ys)) p" for p
  proof -
    from that have fp: "free_node Q p" and "p \<noteq> n" and "p \<noteq> head"
      using ys unfolding free_node_update [of Q head xs, OF q] by auto
    moreover have "p \<notin> set (head # xs)" using free_node_not_in [OF fp q] .
    ultimately show ?thesis
      using store_unlinked [OF s fp] list_add_between_other [of p n] a b
      unfolding unlinked_def by metis
  qed
  ultimately show ?thesis by (simp add: store_def)
qed

lemma store_add_tail:
  assumes s: "store h Q" and q: "Q head = Some xs" and f: "free_node Q n"
  obtains h' where "list_add_tail h n head = Inr h'" and "store h' (Q(head \<mapsto> xs @ [n]))"
proof -
  have r: "ring h head xs" using store_ring [OF s q] .
  have n: "n \<notin> set (head # xs)" using free_node_not_in [OF f q] .
  show thesis
    using store_add_at [OF s q f _ _ ring_add_tail(2) [OF r n]] ring_neighbours [OF r, of head]
      ring_add_tail(1) [OF r n] that by auto
qed

lemma store_add:
  assumes s: "store h Q" and q: "Q head = Some xs" and f: "free_node Q n"
  obtains h' where "list_add h n head = Inr h'" and "store h' (Q(head \<mapsto> n # xs))"
proof -
  have r: "ring h head xs" using store_ring [OF s q] .
  have n: "n \<notin> set (head # xs)" using free_node_not_in [OF f q] .
  show thesis
    using store_add_at [OF s q f _ _ ring_add(2) [OF r n]] ring_neighbours [OF r, of head]
      ring_add(1) [OF r n] that by auto
qed

lemma store_insert_before:
  assumes s: "store h Q" and q: "Q head = Some (xs @ ys)" and f: "free_node Q n"
  obtains h' where "list_add_tail h n (hd (ys @ [head])) = Inr h'" and "store h' (Q(head \<mapsto> xs @ n # ys))"
proof -
  let ?a = "last (head # xs)" and ?b = "hd (ys @ [head])"
  have r: "ring h head (xs @ ys)" using store_ring [OF s q] .
  have c: "chain h head (xs @ ys) head" and d: "distinct (head # xs @ ys)" using r by (auto simp: ring_def)
  have n: "n \<notin> set (head # xs @ ys)" using free_node_not_in [OF f q] .
  have p: "prev_of h ?b = ?a"
  proof (cases ys)
    case Nil
    then show ?thesis using chain_last [OF c] by simp
  next
    case (Cons y zs)
    then have "chain h head xs y" using c by (simp add: chain_append)
    then show ?thesis using chain_last Cons by fastforce
  qed
  have a: "?a \<in> set (head # xs @ ys)" by (cases xs) auto
  have b: "?b \<in> set (head # xs @ ys)" by (cases ys) auto
  have "n \<noteq> ?a" using n a by metis
  moreover have "n \<noteq> ?b" using n b by metis
  ultimately have l: "list_add_tail h n ?b = Inr (list_add_between h n ?a ?b)"
    by (simp only: list_add_tail_def p Let_def list_add_between_next bug_on_def) simp
  have "ring (list_add_between h n ?a ?b) head (xs @ n # ys)"
    using chain_insert [OF c, of n] n d by (auto simp: ring_def)
  from store_add_at [OF s q f a b this] l that show thesis by simp
qed

lemma list_del_init_other:
  assumes "p \<noteq> n" "p \<noteq> prev_of h n" "p \<noteq> next_of h n"
  shows "next_of (list_del_init h n) p = next_of h p" and "prev_of (list_del_init h n) p = prev_of h p"
  using assms by (simp_all add: list_del_init_eq init_list_head_def list_del_next list_del_prev)

lemma store_del_init:
  assumes s: "store h Q" and q: "Q head = Some xs" and n: "n \<in> set xs"
  shows "store (list_del_init h n) (Q(head \<mapsto> remove1 n xs))"
proof -
  have r: "ring h head xs" using store_ring [OF s q] .
  have d: "distinct (head # xs)" using ring_distinct [OF r] .
  have nb: "next_of h n \<in> set (head # xs)" "prev_of h n \<in> set (head # xs)"
    using ring_neighbours [OF r, of n] n by auto
  have other: "next_of (list_del_init h n) p = next_of h p \<and> prev_of (list_del_init h n) p = prev_of h p"
    if "p \<notin> set (head # xs)" for p
    using list_del_init_other [of p n h] that n nb by (metis list.set_intros(2))
  have "rings (list_del_init h n) (Q(head \<mapsto> remove1 n xs))"
  proof (rule rings_update [where Q = Q and head = head and xs = xs, OF _ q ring_del_init(1) [OF r n]])
    show "rings h Q" using s by (simp add: store_def)
    show "p \<in> set xs \<or> free_node Q p" if "p \<in> set (remove1 n xs)" for p
      using that notin_set_remove1 by fast
  qed (use other in blast)
  moreover have "unlinked (list_del_init h n) p" if fp: "free_node (Q(head \<mapsto> remove1 n xs)) p" for p
  proof (cases "p = n")
    case True
    then show ?thesis using ring_del_init(2) [OF r n] by simp
  next
    case False
    with fp d have "free_node Q p"
      unfolding free_node_update [of Q head xs, OF q] by auto
    moreover from this have "p \<notin> set (head # xs)" using free_node_not_in q by metis
    ultimately show ?thesis using store_unlinked [OF s] other unfolding unlinked_def by metis
  qed
  ultimately show ?thesis by (simp add: store_def)
qed

lemma store_del_init_free:
  "store h Q \<Longrightarrow> free_node Q n \<Longrightarrow> list_del_init h n = h"
  by (simp add: store_unlinked list_del_init_unlinked)

lemma free_node_after_del:
  assumes s: "store h Q" and q: "Q head = Some xs" and n: "n \<in> set xs"
  shows "free_node (Q(head \<mapsto> remove1 n xs)) n"
proof -
  have "distinct (head # xs)" using ring_distinct [OF store_ring [OF s q]] .
  moreover have "n \<notin> set (k # zs)" if "k \<noteq> head" "Q k = Some zs" for k zs
    using rings_disjoint [OF _ that(2) q] s that(1) n unfolding store_def by auto
  ultimately show ?thesis
    using n unfolding free_node_update [of Q head xs, OF q] by auto
qed

lemma store_nodes:
  "store h Q \<Longrightarrow> Q head = Some xs \<Longrightarrow> length xs < n \<Longrightarrow> list_nodes n h head = Some xs"
  by (blast intro: list_nodes_ring store_ring)

lemma store_empty_iff: "store h Q \<Longrightarrow> Q head = Some xs \<Longrightarrow> list_empty h head = (xs = [])"
  using ring_empty_iff [OF store_ring] .

section \<open>Splicing\<close>

text \<open>The inside of a chain can be hung between two other nodes.\<close>

lemma chain_rehang:
  assumes "chain h a (x # xs) b"
    and "next_of h' a' = x" and "prev_of h' x = a'"
    and "next_of h' (last (x # xs)) = b'" and "prev_of h' b' = last (x # xs)"
    and "\<And>p. p \<in> set (butlast (x # xs)) \<Longrightarrow> next_of h' p = next_of h p"
    and "\<And>p. p \<in> set xs \<Longrightarrow> prev_of h' p = prev_of h p"
  shows "chain h' a' (x # xs) b'"
  using assms
proof (induction xs arbitrary: a a' x)
  case Nil
  then show ?case by simp
next
  case (Cons y ys)
  have c: "chain h x (y # ys) b" "next_of h x = y" "prev_of h y = x" using Cons.prems(1) by auto
  have "chain h' x (y # ys) b'"
    by (rule Cons.IH [OF c(1)]) (use c Cons.prems in auto)
  with Cons.prems show ?case by auto
qed

lemma list_splice_nonempty:
  assumes "next_of h l \<noteq> l"
  shows "next_of (list_splice h l head) =
           (next_of h)(head := next_of h l, prev_of h l := next_of h head)"
    and "prev_of (list_splice h l head) =
           (prev_of h)(next_of h l := head, next_of h head := prev_of h l)"
  using assms by (simp_all add: list_splice_def Let_def)

lemma distinct_last_butlast: "distinct xs \<Longrightarrow> p \<in> set (butlast xs) \<Longrightarrow> p \<noteq> last xs"
  by (cases xs rule: rev_cases) auto

lemma list_splice_ring:
  assumes l: "ring h l xs" and r: "ring h head ys"
    and dj: "set (l # xs) \<inter> set (head # ys) = {}"
  shows "ring (list_splice h l head) head (xs @ ys)"
proof (cases xs)
  case Nil
  then have "next_of h l = l" using l by (simp add: ring_def)
  with Nil r show ?thesis by (simp add: list_splice_def)
next
  case (Cons x xs')
  let ?h = "list_splice h l head"
  have cl: "chain h l (x # xs') l" and dl: "distinct (l # x # xs')"
    and cr: "chain h head ys head" and dr: "distinct (head # ys)"
    using l r Cons by (auto simp: ring_def)
  have nl: "next_of h l = x" "prev_of h l = last (x # xs')"
    using chain_first [OF cl] chain_last [OF cl] by simp_all
  define at where "at = next_of h head"
  have at: "at = hd (ys @ [head])" using chain_first [OF cr] at_def by simp
  then have atr: "at \<in> set (head # ys)" by (cases ys) auto
  have last_in: "last (x # xs') \<in> set (x # xs')" by (rule last_in_set) simp
  have ne: "next_of h l \<noteq> l" using nl(1) dl by auto
  note ns = list_splice_nonempty(1) [OF ne, of head, unfolded nl at_def [symmetric]]
  note ps = list_splice_nonempty(2) [OF ne, of head, unfolded nl at_def [symmetric]]
  have out: "p \<noteq> head" "p \<noteq> at" if "p \<in> set (x # xs')" for p
    using that dj atr Cons by auto
  have out': "p \<noteq> last (x # xs')" "p \<noteq> x" if "p \<in> set (head # ys)" for p
    using that dj last_in Cons by auto
  have first: "chain ?h head (x # xs') at"
  proof (rule chain_rehang [OF cl])
    show "next_of ?h head = x" using ns out'(1) [of head] by simp
    show "prev_of ?h x = head" using ps out(2) [of x] by simp
    show "next_of ?h (last (x # xs')) = at" using ns by simp
    show "prev_of ?h at = last (x # xs')" using ps by simp
    show "next_of ?h p = next_of h p" if "p \<in> set (butlast (x # xs'))" for p
      using that ns out(1) [of p] distinct_last_butlast [of "x # xs'" p] dl in_set_butlastD [OF that]
      by simp
    show "prev_of ?h p = prev_of h p" if "p \<in> set xs'" for p
      using that ps out(2) [of p] dl by auto
  qed
  have "chain ?h head (x # xs' @ ys) head"
  proof (cases ys)
    case Nil
    with first at show ?thesis by simp
  next
    case y: (Cons y ys')
    have "chain ?h y ys' head = chain h y ys' head"
    proof (rule chain_cong)
      fix p assume "p \<in> set (y # ys')"
      then show "next_of ?h p = next_of h p" using ns out'(1) [of p] dr y by auto
    next
      fix p assume p: "p \<in> set (ys' @ [head])"
      then have "p \<noteq> at" using at y dr by auto
      with p show "prev_of ?h p = prev_of h p" using ps out'(2) [of p] y by auto
    qed
    with first at y cr show ?thesis
      using chain_append [of ?h head "x # xs'" y ys' head] by simp
  qed
  moreover have "distinct (head # (x # xs') @ ys)" using dl dr dj Cons by auto
  ultimately show ?thesis using Cons by (simp add: ring_def)
qed

section \<open>Properties\<close>

text \<open>Three nodes; node 0 heads a list holding node 1, node 2 is in no list, 3 heads an empty list.\<close>

definition small_ring :: "nat links" where
  "small_ring = \<lparr>next_of = (\<lambda>p. p)(0 := 1, 1 := 0), prev_of = (\<lambda>p. p)(0 := 1, 1 := 0)\<rparr>"

lemma small_ring_rings: "ring small_ring 0 [1]" "ring small_ring 3 []" "unlinked small_ring 2"
  by (simp_all add: small_ring_def ring_def unlinked_def)

text \<open>
  C37: \<open>list_add_tail\<close> puts an unlinked node at the end of the list, \<open>list_add\<close> at its front,
  neither trips its \<open>LIST_BUG_ON\<close>, and \<open>list_del_init\<close> of the node undoes either and leaves
  the node unlinked.
\<close>

theorem list_add_then_del_init:
  assumes "ring h head xs" and "new \<notin> set (head # xs)"
  shows "\<exists>h' h''. list_add_tail h new head = Inr h' \<and> ring h' head (xs @ [new]) \<and>
           ring (list_del_init h' new) head xs \<and> unlinked (list_del_init h' new) new \<and>
           list_add h new head = Inr h'' \<and> ring h'' head (new # xs) \<and>
           ring (list_del_init h'' new) head xs \<and> unlinked (list_del_init h'' new) new"
proof -
  note t = ring_add_tail [OF assms] and a = ring_add [OF assms]
  have "new \<in> set (xs @ [new])" "new \<in> set (new # xs)" by simp_all
  note dt = ring_del_init [OF t(2) this(1)] and da = ring_del_init [OF a(2) this(2)]
  have r: "remove1 new (xs @ [new]) = xs" "remove1 new (new # xs) = xs"
    using assms(2) by (simp_all add: remove1_append)
  show ?thesis
    by (intro exI conjI) (rule t a dt [unfolded r] da [unfolded r])+
qed

theorem list_add_then_del_init_witness:
  "\<exists>h' h''. list_add_tail small_ring 2 0 = Inr h' \<and> ring h' 0 ([1] @ [2]) \<and>
     ring (list_del_init h' 2) 0 [1] \<and> unlinked (list_del_init h' 2) 2 \<and>
     list_add small_ring 2 0 = Inr h'' \<and> ring h'' 0 [2, 1] \<and>
     ring (list_del_init h'' 2) 0 [1] \<and> unlinked (list_del_init h'' 2) 2"
proof -
  have "2 \<notin> set [0, 1 :: nat]" by simp
  from list_add_then_del_init [OF small_ring_rings(1) this] show ?thesis .
qed

text \<open>
  \<open>list_splice\<close> moves the whole of one list, in order, to the front of another one, and
  traversing the result visits exactly the nodes of both.
\<close>

theorem list_splice_concat:
  assumes "ring h lst xs" and "ring h head ys" and "set (lst # xs) \<inter> set (head # ys) = {}"
    and "length (xs @ ys) < n"
  shows "ring (list_splice h lst head) head (xs @ ys) \<and>
         list_nodes n (list_splice h lst head) head = Some (xs @ ys)"
  using list_splice_ring [OF assms(1-3)] list_nodes_ring [OF list_splice_ring [OF assms(1-3)] assms(4)]
  by simp

theorem list_splice_concat_witness:
  "ring (list_splice small_ring 0 3) 3 ([1] @ []) \<and>
   list_nodes 5 (list_splice small_ring 0 3) 3 = Some ([1] @ [])"
  by (rule list_splice_concat [OF small_ring_rings(1,2)]) simp_all

end
