(* ===== verification/Page_Alloc.thy ===== *)
theory Page_Alloc
  imports Prelude
begin

text \<open>
  The page allocator of \<^verbatim>\<open>mm.c\<close> (with \<^verbatim>\<open>include/os/bitmap.h\<close>): a bitmap with one bit per page
  frame, a small region searched first and a bulk region behind it, and memory holes that can
  be populated when both are full.

  Page frame numbers are \<open>nat\<close>: they index real memory, so they stay far below \<open>2 ^ 52\<close> and the
  \<^verbatim>\<open>unsigned long\<close> arithmetic on them does not wrap.  The bitmap words are 64-bit words and the
  masks are computed as the code computes them.  The two page counters, which only statistics
  read, are 64-bit words.
\<close>

section \<open>bitmap.h\<close>

definition entries_per_mapword :: nat where
  "entries_per_mapword = 64"

definition allocated_in_map :: "u64 list \<Rightarrow> nat \<Rightarrow> bool res" where
  "allocated_in_map m s =
     rbind (aget m (s div entries_per_mapword)) (\<lambda>w.
       Inr (w AND push_bit (s AND (entries_per_mapword - 1)) 1 \<noteq> 0))"

section \<open>The allocator's state\<close>

record memory_hole =
  start_pfn :: nat
  end_pfn :: nat

record mm =
  alloc_bitmap :: "u64 list"
  first_alloc_page :: nat
  end_alloc_page :: nat
  max_end_alloc_page :: nat
  first_free_page :: nat
  first_bulk_page :: nat
  first_free_bulk_page :: nat
  num_free_pages :: u64
  num_free_bulk_pages :: u64
  phys_to_machine_mapping :: "nat list"
  memory_hole_list :: "memory_hole list"
  in_increase_memory :: bool
  max_pfn_table :: nat
  mm_in_irq :: bool \<comment> \<open>the value of \<^verbatim>\<open>in_irq()\<close> on the calling processor\<close>

definition bulk_allocation :: int where
  "bulk_allocation = 512"

definition is_bulk :: "int \<Rightarrow> bool" where
  "is_bulk n = (n \<ge> bulk_allocation)"

text \<open>\<^verbatim>\<open>_text\<close> is linked at address 0 (\<^verbatim>\<open>arch/loader.lds\<close>), so \<^verbatim>\<open>VIRT_START\<close> is 0.\<close>

definition virt_start :: nat where
  "virt_start = 0"

definition page_shift :: nat where
  "page_shift = 12"

definition to_virt :: "nat \<Rightarrow> nat" where
  "to_virt x = x + virt_start"

definition pfn_phys :: "nat \<Rightarrow> nat" where
  "pfn_phys x = push_bit page_shift x"

definition virt_to_pfn :: "nat \<Rightarrow> nat" where
  "virt_to_pfn v = drop_bit page_shift (v - virt_start)"

text \<open>Conversion of an \<^verbatim>\<open>int\<close> argument to \<^verbatim>\<open>unsigned long\<close>.\<close>

definition unsigned_long :: "int \<Rightarrow> nat" where
  "unsigned_long n = nat (n mod 2 ^ 64)"

section \<open>Setting and clearing a run of bits\<close>

text \<open>
  \<^verbatim>\<open>while (++curr_idx < end_idx) alloc_bitmap[curr_idx] = ~0L;\<close> of \<open>map_alloc\<close>: the whole
  words strictly between the first and the last one.  The index the loop ends at is returned.
\<close>

function fill_words :: "u64 list \<Rightarrow> u64 \<Rightarrow> nat \<Rightarrow> nat \<Rightarrow> (u64 list \<times> nat) res" where
  "fill_words m v curr_idx end_idx =
     (let i = Suc curr_idx in
      if i < end_idx then
        (case aset m i v of Inl e \<Rightarrow> Inl e | Inr m' \<Rightarrow> fill_words m' v i end_idx)
      else Inr (m, i))"
  by pat_completeness auto
termination
  by (relation "measure (\<lambda>(m, v, c, e). e - c)") auto

declare fill_words.simps [simp del]

definition map_alloc :: "u64 list \<Rightarrow> nat \<Rightarrow> nat \<Rightarrow> u64 list res" where
  "map_alloc m first_page nr_pages =
     (let curr_idx = first_page div entries_per_mapword;
          start_off = first_page AND (entries_per_mapword - 1);
          end_idx = (first_page + nr_pages) div entries_per_mapword;
          end_off = (first_page + nr_pages) AND (entries_per_mapword - 1)
      in if curr_idx = end_idx then
           rbind (aget m curr_idx) (\<lambda>w.
             aset m curr_idx (w OR ((push_bit end_off 1 - 1) AND - push_bit start_off 1)))
         else
           rbind (aget m curr_idx) (\<lambda>w.
           rbind (aset m curr_idx (w OR - push_bit start_off 1)) (\<lambda>m1.
           rbind (fill_words m1 (NOT 0) curr_idx end_idx) (\<lambda>(m2, i).
           rbind (aget m2 i) (\<lambda>w'.
             aset m2 i (w' OR (push_bit end_off 1 - 1)))))))"

text \<open>
  The loop of \<open>map_free\<close> is written with \<^verbatim>\<open>!=\<close> instead of \<^verbatim>\<open><\<close>.  It is entered only when
  \<^verbatim>\<open>curr_idx < end_idx\<close>, so the two tests stop at the same index.
\<close>

definition map_free :: "u64 list \<Rightarrow> nat \<Rightarrow> nat \<Rightarrow> u64 list res" where
  "map_free m first_page nr_pages =
     (let curr_idx = first_page div entries_per_mapword;
          start_off = first_page AND (entries_per_mapword - 1);
          end_idx = (first_page + nr_pages) div entries_per_mapword;
          end_off = (first_page + nr_pages) AND (entries_per_mapword - 1)
      in if curr_idx = end_idx then
           rbind (aget m curr_idx) (\<lambda>w.
             aset m curr_idx (w AND (- push_bit end_off 1 OR (push_bit start_off 1 - 1))))
         else
           rbind (aget m curr_idx) (\<lambda>w.
           rbind (aset m curr_idx (w AND (push_bit start_off 1 - 1))) (\<lambda>m1.
           rbind (fill_words m1 0 curr_idx end_idx) (\<lambda>(m2, i).
           rbind (aget m2 i) (\<lambda>w'.
             aset m2 i (w' AND - push_bit end_off 1))))))"

section \<open>Searching\<close>

function next_free :: "u64 list \<Rightarrow> nat \<Rightarrow> nat \<Rightarrow> nat res" where
  "next_free m last_page page =
     (if page < last_page then
        (case allocated_in_map m page of
           Inl e \<Rightarrow> Inl e
         | Inr a \<Rightarrow> if \<not> a then Inr page else next_free m last_page (page + 1))
      else Inr page)"
  by pat_completeness auto
termination
  by (relation "measure (\<lambda>(m, e, p). e - p)") auto

declare next_free.simps [simp del]

text \<open>
  The inner loop of \<^verbatim>\<open>_allocate_pages\<close>: with \<open>nn\<close> pages wanted and the run so far ending
  before \<open>npage\<close>.  The result is the new value of \<open>page\<close> (moved to the obstructing page when
  the run is broken) and of \<open>nn\<close>.
\<close>

function extend_run :: "u64 list \<Rightarrow> nat \<Rightarrow> nat \<Rightarrow> int \<Rightarrow> nat \<Rightarrow> (nat \<times> int) res" where
  "extend_run m end_page page nn npage =
     (if nn > 1 \<and> npage < end_page then
        (case allocated_in_map m npage of
           Inl e \<Rightarrow> Inl e
         | Inr a \<Rightarrow>
             if \<not> a then extend_run m end_page page (nn - 1) (npage + 1)
             else Inr (npage, nn))
      else Inr (page, nn))"
  by pat_completeness auto
termination
  by (relation "measure (\<lambda>(m, e, p, nn, np). e - np)") auto

declare extend_run.simps [simp del]

lemma extend_run_ge:
  "extend_run m e p nn np = Inr (p', nn') \<Longrightarrow> p < np \<Longrightarrow> p \<le> p'"
proof (induction m e p nn np rule: extend_run.induct)
  case (1 m e p nn np)
  show ?case
  proof (cases "nn > 1 \<and> np < e")
    case True
    with "1.prems"(1) obtain a where a: "allocated_in_map m np = Inr a"
      by (subst (asm) extend_run.simps) (simp split: sum.splits)
    with True "1.prems" "1.IH" [OF True a] show ?thesis
      by (subst (asm) extend_run.simps) (simp split: if_splits)
  next
    case False
    with "1.prems"(1) show ?thesis by (subst (asm) extend_run.simps) simp
  qed
qed

text \<open>
  The outer search loop: the page where a run of \<open>n\<close> free pages below \<open>end_page\<close> starts, or
  \<open>None\<close> when \<open>page\<close> reaches \<open>end_page\<close>.
\<close>

function find_run :: "u64 list \<Rightarrow> nat \<Rightarrow> int \<Rightarrow> nat \<Rightarrow> nat option res" where
  "find_run m end_page n page =
     (if page < end_page then
        (case allocated_in_map m page of
           Inl e \<Rightarrow> Inl e
         | Inr a \<Rightarrow>
             if \<not> a then
               (case extend_run m end_page page n (page + 1) of
                  Inl e \<Rightarrow> Inl e
                | Inr (page', nn) \<Rightarrow>
                    if nn = 1 then Inr (Some page')
                    else find_run m end_page n (page' + 1))
             else find_run m end_page n (page + 1))
      else Inr None)"
  by pat_completeness auto
termination
  by (relation "measure (\<lambda>(m, e, n, p). e - p)")
     (auto dest!: extend_run_ge intro!: diff_less_mono2)

declare find_run.simps [simp del]

section \<open>Growing into the memory holes\<close>

text \<open>
  What growing needs from outside this theory: the result of the hypercall
  \<^verbatim>\<open>XENMEM_populate_physmap\<close> on the extents starting at a frame (the number of frames
  populated, and the physical-to-machine table with the frames it wrote back), and
  \<^verbatim>\<open>build_pagetable\<close> of \<^verbatim>\<open>arch/mm.c\<close>, which maps a range of frames and may call the
  allocator again for page-table frames, so it takes and returns the state.
\<close>

record mm_env =
  populate_physmap :: "nat list \<Rightarrow> nat \<Rightarrow> nat \<Rightarrow> int \<times> nat list"
  build_pagetable :: "mm \<Rightarrow> nat \<Rightarrow> nat \<Rightarrow> bool \<times> mm"

fun can_increase :: "memory_hole list \<Rightarrow> nat \<Rightarrow> nat" where
  "can_increase [] n = 0"
| "can_increase (h # hs) n =
     (let hole = end_pfn h - start_pfn h
      in if hole \<ge> n then n else can_increase hs (n - hole))"

fun memory_hole_add :: "memory_hole \<Rightarrow> memory_hole list \<Rightarrow> memory_hole list" where
  "memory_hole_add new [] = [new]"
| "memory_hole_add new (h # hs) =
     (if start_pfn h > start_pfn new then new # h # hs else h # memory_hole_add new hs)"

text \<open>
  The part of \<^verbatim>\<open>arch_update_p2m\<close> that every call runs: the highest frame in the table that
  the domain shares with Xen.  (The part run only for \<^verbatim>\<open>start_pfn == 0\<close> builds the table at
  boot; a hole never starts at frame 0.)
\<close>

definition update_max_pfn :: "mm \<Rightarrow> nat \<Rightarrow> nat \<Rightarrow> bool \<Rightarrow> mm" where
  "update_max_pfn s start_p end_p adding =
     (if adding then
        (if end_p > max_pfn_table s then s\<lparr>max_pfn_table := end_p\<rparr> else s)
      else
        (if end_p = max_pfn_table s then s\<lparr>max_pfn_table := start_p\<rparr> else s))"

text \<open>\<^verbatim>\<open>phys_to_machine_mapping[start_pfn + pfn] = start_pfn + pfn\<close> for all \<open>pfn < nr\<close>.\<close>

fun identity_p2m :: "nat list \<Rightarrow> nat \<Rightarrow> nat \<Rightarrow> nat list res" where
  "identity_p2m t start_p 0 = Inr t"
| "identity_p2m t start_p (Suc k) =
     rbind (identity_p2m t start_p k) (\<lambda>t'. aset t' (start_p + k) (start_p + k))"

definition increase_reservation :: "mm_env \<Rightarrow> mm \<Rightarrow> nat \<Rightarrow> memory_hole \<Rightarrow> (int \<times> mm) res" where
  "increase_reservation env s nr_pages hole =
     (let start_p = start_pfn hole in
      bug_on (end_pfn hole - start_pfn hole < nr_pages)
        (rbind (identity_p2m (phys_to_machine_mapping s) start_p nr_pages) (\<lambda>t.
           let (rc, t') = populate_physmap env t start_p nr_pages;
               s1 = s\<lparr>phys_to_machine_mapping := t'\<rparr>
           in if rc > 0 then
                (case build_pagetable env s1 start_p (start_p + nat rc) of
                   (True, s2) \<Rightarrow> Inr (rc, update_max_pfn s2 start_p (start_p + nat rc) True)
                 | (False, s2) \<Rightarrow> Inr (0, s2))
              else Inr (rc, s1))))"

text \<open>
  The loop of \<^verbatim>\<open>increase_memory_holding_lock\<close>.  \<^verbatim>\<open>memory_hole\<close> is a pointer to the head of the
  list, so what is read and written through it after the reservation is the head as it is
  then.  The hypercall reports at most the frames it was asked for; a larger count would make
  \<^verbatim>\<open>n -= rc\<close> wrap, and is \<open>Undef\<close> here.  The loop takes at least one page per round, so \<open>n\<close>
  rounds of fuel are enough; running out is \<open>None\<close>.
\<close>

fun increase_loop :: "nat \<Rightarrow> mm_env \<Rightarrow> mm \<Rightarrow> nat \<Rightarrow> int \<Rightarrow> (int \<times> mm) res option" where
  "increase_loop fuel env s 0 result = Some (Inr (result, s))"
| "increase_loop 0 env s (Suc n) result = None"
| "increase_loop (Suc fuel) env s (Suc n) result =
     (case memory_hole_list s of
        [] \<Rightarrow> Some (Inl Undef)
      | hole # _ \<Rightarrow>
          let hole_size = end_pfn hole - start_pfn hole;
              nn = (if hole_size \<le> Suc n then hole_size else Suc n)
          in case increase_reservation env s nn hole of
               Inl e \<Rightarrow> Some (Inl e)
             | Inr (rc, s1) \<Rightarrow>
                 if rc > 0 then
                   (case memory_hole_list s1 of
                      [] \<Rightarrow> Some (Inl Undef)
                    | h # hs \<Rightarrow>
                        (case map_free (alloc_bitmap s1) (start_pfn h) (nat rc) of
                           Inl e \<Rightarrow> Some (Inl e)
                         | Inr m \<Rightarrow>
                             let s2 = s1\<lparr>alloc_bitmap := m,
                                    end_alloc_page := max (end_alloc_page s1) (start_pfn h + nat rc),
                                    num_free_pages := num_free_pages s1 + of_int rc,
                                    num_free_bulk_pages := num_free_bulk_pages s1 + of_int rc,
                                    memory_hole_list :=
                                      (if int hole_size = rc then hs
                                       else h\<lparr>start_pfn := start_pfn h + nat rc\<rparr> # hs)\<rparr>
                             in if rc \<le> int (Suc n)
                                then increase_loop fuel env s2 (Suc n - nat rc) (result + rc)
                                else Some (Inl Undef)))
                 else Some (Inr (result, s1)))"

definition increase_memory_holding_lock :: "mm_env \<Rightarrow> mm \<Rightarrow> nat \<Rightarrow> (int \<times> mm) res option" where
  "increase_memory_holding_lock env s n =
     (if in_increase_memory s then Some (Inr (0, s\<lparr>in_increase_memory := False\<rparr>))
      else
        let s1 = s\<lparr>in_increase_memory := True\<rparr> in
        if can_increase (memory_hole_list s1) n \<noteq> 0 then
          map_option (\<lambda>r. rbind r (\<lambda>(result, s2). Inr (result, s2\<lparr>in_increase_memory := False\<rparr>)))
            (increase_loop n env s1 n 0)
        else Some (Inr (0, s1\<lparr>in_increase_memory := False\<rparr>)))"

section \<open>Allocation\<close>

text \<open>
  One pass of the outer loop of \<^verbatim>\<open>_allocate_pages\<close>: search one region and, when a run is found,
  take it.  \<open>None\<close> is \<^verbatim>\<open>result == 0\<close> after the pass.
\<close>

definition take_run :: "mm \<Rightarrow> int \<Rightarrow> bool \<Rightarrow> nat \<Rightarrow> mm res" where
  "take_run s n is_bulk_alloc page =
     rbind (if is_bulk_alloc then
              let s1 = s\<lparr>num_free_bulk_pages := num_free_bulk_pages s - of_int n\<rparr> in
              if page = first_free_bulk_page s then
                rbind (next_free (alloc_bitmap s) (end_alloc_page s) (page + nat n)) (\<lambda>p.
                  Inr (s1\<lparr>first_free_bulk_page := p\<rparr>))
              else Inr s1
            else if page = first_free_page s then
              rbind (next_free (alloc_bitmap s) (end_alloc_page s) (page + nat n)) (\<lambda>p.
                Inr (s\<lparr>first_free_page := p\<rparr>))
            else Inr s) (\<lambda>s1.
     rbind (map_alloc (alloc_bitmap s1) page (nat n)) (\<lambda>m.
       Inr (s1\<lparr>num_free_pages := num_free_pages s1 - of_int n, alloc_bitmap := m\<rparr>)))"

definition search_pass :: "mm \<Rightarrow> int \<Rightarrow> bool \<Rightarrow> (nat \<times> mm) option res" where
  "search_pass s n is_bulk_alloc =
     (let end_page = (if is_bulk_alloc then end_alloc_page s else first_bulk_page s);
          page = (if is_bulk_alloc then first_free_bulk_page s else first_free_page s)
      in rbind (find_run (alloc_bitmap s) end_page n page) (\<lambda>r.
           case r of
             None \<Rightarrow> Inr None
           | Some p \<Rightarrow> rbind (take_run s n is_bulk_alloc p) (\<lambda>s'.
               Inr (Some (to_virt (pfn_phys p), s')))))"

text \<open>
  \<^verbatim>\<open>while (result == 0)\<close>: the small region first unless the request is bulk, then the bulk
  region, then the bulk region again after each successful growth.  The number of growths is
  bounded by the pages in the holes, so fuel bounds the rounds; out of fuel is \<open>None\<close>.
\<close>

fun allocate_loop :: "nat \<Rightarrow> mm_env \<Rightarrow> mm \<Rightarrow> int \<Rightarrow> bool \<Rightarrow> (nat \<times> mm) res option" where
  "allocate_loop 0 env s n is_bulk_alloc = None"
| "allocate_loop (Suc fuel) env s n is_bulk_alloc =
     (case search_pass s n is_bulk_alloc of
        Inl e \<Rightarrow> Some (Inl e)
      | Inr (Some (result, s')) \<Rightarrow>
          if result > 0 then Some (Inr (result, s'))
          else if \<not> is_bulk_alloc then allocate_loop fuel env s' n True
          else (case increase_memory_holding_lock env s' (unsigned_long n) of
                  None \<Rightarrow> None
                | Some (Inl e) \<Rightarrow> Some (Inl e)
                | Some (Inr (grown, s'')) \<Rightarrow>
                    if grown = 0 then Some (Inr (0, s'')) else allocate_loop fuel env s'' n True)
      | Inr None \<Rightarrow>
          if \<not> is_bulk_alloc then allocate_loop fuel env s n True
          else (case increase_memory_holding_lock env s (unsigned_long n) of
                  None \<Rightarrow> None
                | Some (Inl e) \<Rightarrow> Some (Inl e)
                | Some (Inr (grown, s'')) \<Rightarrow>
                    if grown = 0 then Some (Inr (0, s'')) else allocate_loop fuel env s'' n True))"

definition hole_pages :: "mm \<Rightarrow> nat" where
  "hole_pages s = (\<Sum>h \<leftarrow> memory_hole_list s. end_pfn h - start_pfn h)"

definition allocate_fuel :: "mm \<Rightarrow> nat" where
  "allocate_fuel s = hole_pages s + 3"

definition allocate_pages_locked :: "mm_env \<Rightarrow> mm \<Rightarrow> int \<Rightarrow> (nat \<times> mm) res option" where
  "allocate_pages_locked env s n =
     (if mm_in_irq s then Some (Inl Bug)
      else case allocate_loop (allocate_fuel s) env s n (is_bulk n) of
             None \<Rightarrow> None
           | Some (Inl e) \<Rightarrow> Some (Inl e)
           | Some (Inr (result, s')) \<Rightarrow>
               if result = 0 \<and> \<not> is_bulk n then Some (Inl Crash) else Some (Inr (result, s')))"

definition allocate_pages :: "mm_env \<Rightarrow> mm \<Rightarrow> int \<Rightarrow> (nat \<times> mm) res option" where
  "allocate_pages env s n = allocate_pages_locked env s n"

definition alloc_pages :: "mm_env \<Rightarrow> mm \<Rightarrow> nat \<Rightarrow> (nat \<times> mm) res option" where
  "alloc_pages env s order = allocate_pages_locked env s (push_bit order 1)"

definition deallocate_pages :: "mm \<Rightarrow> nat \<Rightarrow> int \<Rightarrow> mm res" where
  "deallocate_pages s pointer n =
     bug_on (mm_in_irq s)
       (let page = virt_to_pfn pointer;
            s1 = (if is_bulk n then
                    (if page < first_free_bulk_page s then s\<lparr>first_free_bulk_page := page\<rparr> else s)
                      \<lparr>num_free_bulk_pages := num_free_bulk_pages s + of_int n\<rparr>
                  else if page < first_free_page s then s\<lparr>first_free_page := page\<rparr> else s)
        in rbind (map_free (alloc_bitmap s1) page (unsigned_long n)) (\<lambda>m.
             Inr (s1\<lparr>alloc_bitmap := m, num_free_pages := num_free_pages s1 + of_int n\<rparr>)))"

definition free_pages :: "mm \<Rightarrow> nat \<Rightarrow> nat \<Rightarrow> mm res" where
  "free_pages s pointer order = deallocate_pages s pointer (push_bit order 1)"

section \<open>Initialisation\<close>

definition bits_per_page :: nat where
  "bits_per_page = 4096 * 8"

definition default_small_percentage :: nat where
  "default_small_percentage = 2"

text \<open>
  \<open>max_reservation\<close> is the answer of \<^verbatim>\<open>XENMEM_maximum_reservation\<close>.  The bitmap is the
  \<open>bitmap_pages\<close> pages at frame \<open>min_pfn\<close>, as an array of 512 words per page; an access past
  it is \<open>Undef\<close> (in the machine it lands in the pages the allocator is about to hand out), and
  so is a bitmap that leaves no page (\<^verbatim>\<open>max - min\<close> would wrap).
\<close>

definition init_page_allocator :: "nat \<Rightarrow> nat \<Rightarrow> nat \<Rightarrow> mm \<Rightarrow> mm res" where
  "init_page_allocator max_reservation min_pfn max_pfn s =
     (let bitmap_pages = max_reservation div bits_per_page;
          first = min_pfn + bitmap_pages;
          bulk = first + (max_reservation * default_small_percentage) div 100;
          bulk' = (if bulk > max_pfn then max_pfn else bulk);
          bitmap = replicate (bitmap_pages * (4096 div 8)) (NOT 0 :: u64)
      in rbind (if max_pfn < first then Inl Undef
                else map_free bitmap first (max_pfn - first)) (\<lambda>m.
           Inr (s\<lparr>max_end_alloc_page := max_reservation,
                 first_alloc_page := first,
                 end_alloc_page := max_pfn,
                 num_free_pages := of_nat max_pfn - of_nat first,
                 first_free_page := first,
                 first_bulk_page := bulk',
                 first_free_bulk_page := bulk',
                 num_free_bulk_pages := of_nat max_pfn - of_nat bulk',
                 alloc_bitmap := m\<rparr>)))"

section \<open>What the bitmap operations do, bit by bit\<close>

definition alloc_bit :: "u64 list \<Rightarrow> nat \<Rightarrow> bool" where
  "alloc_bit m i = bit (m ! (i div 64)) (i mod 64)"

lemma and_63: "(x :: nat) AND (entries_per_mapword - 1) = x mod 64"
  using take_bit_eq_mask [of 6 x] by (simp add: entries_per_mapword_def take_bit_eq_mod mask_eq_exp_minus_1)

lemma word_and_bit_nonzero: "(w AND push_bit k 1 \<noteq> 0) = bit w k" if "k < 64" for w :: u64
proof
  assume "w AND push_bit k 1 \<noteq> 0"
  then obtain j where "bit (w AND push_bit k 1) j"
    by (auto simp: bit_eq_iff)
  then show "bit w k" by (auto simp: bit_simps)
next
  assume "bit w k"
  then have "bit (w AND push_bit k 1) k" using that by (simp add: bit_simps)
  then show "w AND push_bit k 1 \<noteq> 0" by force
qed

lemma allocated_in_map_eq:
  "i < 64 * length m \<Longrightarrow> allocated_in_map m i = Inr (alloc_bit m i)"
  unfolding allocated_in_map_def and_63
  by (simp add: word_and_bit_nonzero alloc_bit_def entries_per_mapword_def aget_def less_mult_imp_div_less mult.commute
        del: push_bit_of_1)

lemma bit_low_mask: "bit (push_bit e 1 - 1 :: u64) i \<longleftrightarrow> i < e \<and> i < 64" if "e < 64"
  using bit_mask_iff [of e i, where 'a = u64] by (auto simp: mask_eq_exp_minus_1 push_bit_eq_mult)

lemma bit_high_mask: "bit (- push_bit b 1 :: u64) i \<longleftrightarrow> b \<le> i \<and> i < 64"
proof -
  have "(- push_bit b 1 :: u64) = NOT (mask b)"
    by (simp add: push_bit_eq_mult minus_exp_eq_not_mask)
  then show ?thesis by (auto simp: bit_simps)
qed

lemma fill_words_spec:
  assumes "c < e" and "e \<le> length m"
  shows "\<exists>m'. fill_words m v c e = Inr (m', e) \<and> length m' = length m \<and>
           (\<forall>j < length m. m' ! j = (if c < j \<and> j < e then v else m ! j))"
  using assms
proof (induction m v c e rule: fill_words.induct)
  case (1 m v c e)
  show ?case
  proof (cases "Suc c < e")
    case True
    then have a: "aset m (Suc c) v = Inr (m[Suc c := v])"
      using "1.prems" by simp
    from True "1.prems" "1.IH" [OF refl True a] obtain m' where
      m': "fill_words (m[Suc c := v]) v (Suc c) e = Inr (m', e)" "length m' = length m"
        "\<forall>j < length m. m' ! j = (if Suc c < j \<and> j < e then v else m[Suc c := v] ! j)"
      by auto
    show ?thesis
    proof (intro exI conjI)
      show "fill_words m v c e = Inr (m', e)"
        using True a m'(1) by (subst fill_words.simps) simp
      show "length m' = length m" by (rule m'(2))
      show "\<forall>j < length m. m' ! j = (if c < j \<and> j < e then v else m ! j)"
        using True m'(3) by (auto simp: nth_list_update)
    qed
  next
    case False
    with "1.prems" have "fill_words m v c e = Inr (m, e)"
      by (subst fill_words.simps) simp
    with False show ?thesis by auto
  qed
qed

lemma alloc_bit_div: "q < 64 \<Longrightarrow> alloc_bit m (64 * k + q) = bit (m ! k) q"
  by (simp add: alloc_bit_def)

lemma page_split:
  obtains k q where "i = 64 * k + q" and "q < (64 :: nat)"
  using mult_div_mod_eq [of 64 i] mod_less_divisor [of 64 i] by (metis zero_less_numeral)

lemma bit_update_lemmas:
  fixes w :: u64
  assumes "q < 64" and "e < 64"
  shows "bit (w OR ((push_bit e 1 - 1) AND - push_bit b 1)) q = (bit w q \<or> b \<le> q \<and> q < e)"
    and "bit (w OR - push_bit b 1) q = (bit w q \<or> b \<le> q)"
    and "bit (w OR (push_bit e 1 - 1)) q = (bit w q \<or> q < e)"
  using assms bit_low_mask [OF assms(2), of q] bit_high_mask [of b q]
  by (auto simp: bit_or_iff bit_and_iff simp del: push_bit_of_1)

lemma bit_clear_lemmas:
  fixes w :: u64
  assumes "q < 64" and "b < 64"
  shows "bit (w AND (- push_bit e 1 OR (push_bit b 1 - 1))) q = (bit w q \<and> (e \<le> q \<or> q < b))"
    and "bit (w AND (push_bit b 1 - 1)) q = (bit w q \<and> q < b)"
    and "bit (w AND - push_bit e 1) q = (bit w q \<and> e \<le> q)"
  using assms bit_low_mask [OF assms(2), of q] bit_high_mask [of e q]
  by (auto simp: bit_or_iff bit_and_iff simp del: push_bit_of_1)

lemma map_alloc_spec:
  assumes "(p + n) div 64 < length m"
  shows "\<exists>m'. map_alloc m p n = Inr m' \<and> length m' = length m \<and>
           (\<forall>i < 64 * length m. alloc_bit m' i = (alloc_bit m i \<or> p \<le> i \<and> i < p + n))"
proof -
  obtain k b where p: "p = 64 * k + b" and b: "b < 64" by (rule page_split)
  obtain l e where pn: "p + n = 64 * l + e" and e: "e < 64" by (rule page_split)
  have kb: "p div 64 = k" "p mod 64 = b" and le: "(p + n) div 64 = l" "(p + n) mod 64 = e"
    using p b pn e by auto
  have l: "l < length m" and kl: "k \<le> l" using assms le p pn b e by auto
  show ?thesis
  proof (cases "k = l")
    case True
    let ?m = "m[k := m ! k OR ((push_bit e 1 - 1) AND - push_bit b 1)]"
    have "map_alloc m p n = Inr ?m"
      using True l unfolding map_alloc_def and_63 by (simp add: Let_def entries_per_mapword_def kb le)
    moreover have "alloc_bit ?m i = (alloc_bit m i \<or> p \<le> i \<and> i < p + n)" if "i < 64 * length m" for i
    proof -
      obtain j q where i: "i = 64 * j + q" and q: "q < 64" by (rule page_split)
      show ?thesis
        using that b q e l True
        unfolding pn unfolding i p
        by (cases "j = k") (auto simp: alloc_bit_div nth_list_update bit_update_lemmas [OF q e] simp del: push_bit_of_1)
    qed
    ultimately show ?thesis by auto
  next
    case False
    then have kl: "k < l" using kl by simp
    let ?m1 = "m[k := m ! k OR - push_bit b 1]"
    obtain m2 where m2: "fill_words ?m1 (NOT 0) k l = Inr (m2, l)" "length m2 = length m"
      "\<forall>j < length m. m2 ! j = (if k < j \<and> j < l then NOT 0 else ?m1 ! j)"
      using fill_words_spec [OF kl, of ?m1 "NOT 0"] l by auto
    let ?m3 = "m2[l := m2 ! l OR (push_bit e 1 - 1)]"
    have "map_alloc m p n = Inr ?m3"
      using False kl l m2 unfolding map_alloc_def and_63
      by (simp add: Let_def entries_per_mapword_def kb le)
    moreover have "alloc_bit ?m3 i = (alloc_bit m i \<or> p \<le> i \<and> i < p + n)" if "i < 64 * length m" for i
    proof -
      obtain j q where i: "i = 64 * j + q" and q: "q < 64" by (rule page_split)
      then have j: "j < length m" using that by auto
      show ?thesis
        using b q e l kl m2 j
        unfolding pn unfolding i p
        by (cases "j = k"; cases "j = l")
           (auto simp: alloc_bit_div nth_list_update bit_update_lemmas [OF q e] bit_not_iff simp del: push_bit_of_1)
    qed
    ultimately show ?thesis using m2 by auto
  qed
qed

lemma map_free_spec:
  assumes "(p + n) div 64 < length m"
  shows "\<exists>m'. map_free m p n = Inr m' \<and> length m' = length m \<and>
           (\<forall>i < 64 * length m. alloc_bit m' i = (alloc_bit m i \<and> \<not> (p \<le> i \<and> i < p + n)))"
proof -
  obtain k b where p: "p = 64 * k + b" and b: "b < 64" by (rule page_split)
  obtain l e where pn: "p + n = 64 * l + e" and e: "e < 64" by (rule page_split)
  have kb: "p div 64 = k" "p mod 64 = b" and le: "(p + n) div 64 = l" "(p + n) mod 64 = e"
    using p b pn e by auto
  have l: "l < length m" and kl: "k \<le> l" using assms le p pn b e by auto
  show ?thesis
  proof (cases "k = l")
    case True
    let ?m = "m[k := m ! k AND (- push_bit e 1 OR (push_bit b 1 - 1))]"
    have "map_free m p n = Inr ?m"
      using True l unfolding map_free_def and_63 by (simp add: Let_def entries_per_mapword_def kb le)
    moreover have "alloc_bit ?m i = (alloc_bit m i \<and> \<not> (p \<le> i \<and> i < p + n))" if "i < 64 * length m" for i
    proof -
      obtain j q where i: "i = 64 * j + q" and q: "q < 64" by (rule page_split)
      show ?thesis
        using that b q e l True
        unfolding pn unfolding i p
        by (cases "j = k") (auto simp: alloc_bit_div nth_list_update bit_clear_lemmas [OF q b] simp del: push_bit_of_1)
    qed
    ultimately show ?thesis by auto
  next
    case False
    then have kl: "k < l" using kl by simp
    let ?m1 = "m[k := m ! k AND (push_bit b 1 - 1)]"
    obtain m2 where m2: "fill_words ?m1 0 k l = Inr (m2, l)" "length m2 = length m"
      "\<forall>j < length m. m2 ! j = (if k < j \<and> j < l then 0 else ?m1 ! j)"
      using fill_words_spec [OF kl, of ?m1 0] l by auto
    let ?m3 = "m2[l := m2 ! l AND - push_bit e 1]"
    have "map_free m p n = Inr ?m3"
      using False kl l m2 unfolding map_free_def and_63
      by (simp add: Let_def entries_per_mapword_def kb le)
    moreover have "alloc_bit ?m3 i = (alloc_bit m i \<and> \<not> (p \<le> i \<and> i < p + n))" if "i < 64 * length m" for i
    proof -
      obtain j q where i: "i = 64 * j + q" and q: "q < 64" by (rule page_split)
      then have j: "j < length m" using that by auto
      show ?thesis
        using b q e l kl m2 j
        unfolding pn unfolding i p
        by (cases "j = k"; cases "j = l")
           (auto simp: alloc_bit_div nth_list_update bit_clear_lemmas [OF q b] simp del: push_bit_of_1)
    qed
    ultimately show ?thesis using m2 by auto
  qed
qed

section \<open>The search is first fit\<close>

definition free_run :: "u64 list \<Rightarrow> nat \<Rightarrow> nat \<Rightarrow> bool" where
  "free_run m p n = (\<forall>i. p \<le> i \<and> i < p + n \<longrightarrow> \<not> alloc_bit m i)"

lemma next_free_spec:
  assumes "p \<le> e" and "e \<le> 64 * length m"
  shows "\<exists>q. next_free m e p = Inr q \<and> p \<le> q \<and> q \<le> e \<and>
           (\<forall>i. p \<le> i \<and> i < q \<longrightarrow> alloc_bit m i) \<and> (q < e \<longrightarrow> \<not> alloc_bit m q)"
  using assms
proof (induction m e p rule: next_free.induct)
  case (1 m e p)
  show ?case
  proof (cases "p < e \<and> alloc_bit m p")
    case True
    then have a: "allocated_in_map m p = Inr True"
      using "1.prems" by (simp add: allocated_in_map_eq)
    obtain q where q: "next_free m e (p + 1) = Inr q" "p + 1 \<le> q" "q \<le> e"
      "\<forall>i. p + 1 \<le> i \<and> i < q \<longrightarrow> alloc_bit m i" "q < e \<longrightarrow> \<not> alloc_bit m q"
      using "1.IH" [OF _ a] True "1.prems" by auto
    have "alloc_bit m i" if "p \<le> i" "i < q" for i
      using that q(4) True by (cases "i = p") auto
    then show ?thesis using q True a by (subst next_free.simps) auto
  next
    case False
    then have "next_free m e p = Inr p"
      using "1.prems" by (subst next_free.simps) (auto simp: allocated_in_map_eq)
    with False "1.prems" show ?thesis by auto
  qed
qed

lemma next_free_past: "e \<le> p \<Longrightarrow> next_free m e p = Inr p"
  by (subst next_free.simps) simp

text \<open>
  The state of the inner loop: \<open>n - nn + 1\<close> pages from \<open>page\<close> on are known free.  It ends with
  the whole run, with the end of the region, or at an allocated page inside the run.
\<close>

lemma extend_run_spec:
  assumes "e \<le> 64 * length m" and "nn \<ge> 1" and "p < np" and "np \<le> e"
    and "int np + nn = int p + int n + 1" and "free_run m p (np - p)"
  shows "\<exists>p' nn'. extend_run m e p nn np = Inr (p', nn') \<and> p \<le> p' \<and> p' < e \<and> p' < p + n \<and>
           (if nn' = 1 then p' = p \<and> p + n \<le> e \<and> free_run m p n
            else (p' = p \<and> e < p + n) \<or> alloc_bit m p')"
  using assms
proof (induction m e p nn np rule: extend_run.induct)
  case (1 m e p nn np)
  note pre = "1.prems"
  show ?case
  proof (cases "nn > 1 \<and> np < e")
    case True
    show ?thesis
    proof (cases "alloc_bit m np")
      case True: True
      have "extend_run m e p nn np = Inr (np, nn)"
        using \<open>nn > 1 \<and> np < e\<close> True pre
        by (subst extend_run.simps) (simp add: allocated_in_map_eq)
      moreover have "np < p + n" using pre \<open>nn > 1 \<and> np < e\<close> by linarith
      ultimately show ?thesis using True \<open>nn > 1 \<and> np < e\<close> pre by auto
    next
      case False
      have a: "allocated_in_map m np = Inr False"
        using False \<open>nn > 1 \<and> np < e\<close> pre by (simp add: allocated_in_map_eq)
      have f: "free_run m p (np + 1 - p)"
        using pre(6) pre(3) False unfolding free_run_def by (auto simp: less_Suc_eq)
      have "extend_run m e p nn np = extend_run m e p (nn - 1) (np + 1)"
        using \<open>nn > 1 \<and> np < e\<close> a by (subst extend_run.simps) simp
      then show ?thesis
        using "1.IH" [OF \<open>nn > 1 \<and> np < e\<close> a] pre \<open>nn > 1 \<and> np < e\<close> f by simp
    qed
  next
    case False
    then have r: "extend_run m e p nn np = Inr (p, nn)"
      by (subst extend_run.simps) auto
    show ?thesis
    proof (cases "nn = 1")
      case True
      then have "np - p = n" "np = p + n" using pre by linarith+
      with r True pre show ?thesis by auto
    next
      case nn: False
      then have "np = e" "e < p + n" using False pre by linarith+
      with r nn pre show ?thesis by auto
    qed
  qed
qed

text \<open>What the outer loop answers when it starts at \<open>p\<close>: the first fit, or that none exists.\<close>

definition first_fit :: "u64 list \<Rightarrow> nat \<Rightarrow> nat \<Rightarrow> nat \<Rightarrow> nat option res \<Rightarrow> bool" where
  "first_fit m e n p r =
     (case r of
        Inl _ \<Rightarrow> False
      | Inr None \<Rightarrow> \<forall>q \<ge> p. q + n \<le> e \<longrightarrow> \<not> free_run m q n
      | Inr (Some q) \<Rightarrow> p \<le> q \<and> q + n \<le> e \<and> free_run m q n \<and>
          (\<forall>q'. p \<le> q' \<and> q' < q \<longrightarrow> \<not> free_run m q' n))"

lemma first_fit_skip:
  assumes "first_fit m e n p2 r" and "p \<le> p2"
    and none: "\<And>q. p \<le> q \<Longrightarrow> q < p2 \<Longrightarrow> q + n \<le> e \<Longrightarrow> \<not> free_run m q n"
  shows "first_fit m e n p r"
proof (cases r)
  case (Inl f)
  with assms show ?thesis by (simp add: first_fit_def)
next
  case (Inr a)
  show ?thesis
  proof (cases a)
    case None
    have "\<not> free_run m q n" if "q \<ge> p" "q + n \<le> e" for q
      using that none [of q] assms(1) Inr None by (cases "q < p2") (auto simp: first_fit_def)
    with Inr None show ?thesis by (simp add: first_fit_def)
  next
    case (Some q)
    with Inr assms(1) have q: "p2 \<le> q" "q + n \<le> e" "free_run m q n"
      and q': "\<And>q'. p2 \<le> q' \<Longrightarrow> q' < q \<Longrightarrow> \<not> free_run m q' n"
      by (auto simp: first_fit_def)
    have "\<not> free_run m k n" if "p \<le> k" "k < q" for k
      using that none [of k] q' [of k] q(2) by (cases "k < p2") auto
    with q assms(2) Inr Some show ?thesis by (auto simp: first_fit_def)
  qed
qed

lemma find_run_spec:
  assumes "e \<le> 64 * length m" and "n \<ge> 1"
  shows "first_fit m e n p (find_run m e (int n) p)"
  using assms
proof (induction m e "int n" p rule: find_run.induct)
  case (1 m e p)
  show ?case
  proof (cases "p < e")
    case False
    then show ?thesis using "1.prems" by (subst find_run.simps) (simp add: first_fit_def)
  next
    case pe: True
    show ?thesis
    proof (cases "alloc_bit m p")
      case True
      then have a: "allocated_in_map m p = Inr True"
        using pe "1.prems" by (simp add: allocated_in_map_eq)
      have eq: "find_run m e (int n) p = find_run m e (int n) (p + 1)"
        using pe a by (subst find_run.simps) simp
      have "first_fit m e n (p + 1) (find_run m e (int n) (p + 1))"
        using "1.hyps"(2) [OF pe a] "1.prems" by simp
      then show ?thesis unfolding eq
        by (rule first_fit_skip) (use True "1.prems" in \<open>auto simp: free_run_def intro!: exI [of _ p]\<close>)
    next
      case False
      then have a: "allocated_in_map m p = Inr False"
        using pe "1.prems" by (simp add: allocated_in_map_eq)
      have f: "free_run m p 1"
        unfolding free_run_def using False le_antisym [of p] by (metis Suc_eq_plus1 less_Suc_eq_le)
      obtain p' nn' where x: "extend_run m e p (int n) (p + 1) = Inr (p', nn')"
        and b: "p \<le> p'" "p' < e" "p' < p + n"
        and r: "if nn' = 1 then p' = p \<and> p + n \<le> e \<and> free_run m p n
               else (p' = p \<and> e < p + n) \<or> alloc_bit m p'"
        using extend_run_spec [of e m "int n" p "p + 1" n] f pe "1.prems" by auto
      show ?thesis
      proof (cases "nn' = 1")
        case True
        then have "find_run m e (int n) p = Inr (Some p)"
          using r pe a x by (subst find_run.simps) simp
        with True r show ?thesis by (auto simp: first_fit_def)
      next
        case nn: False
        have eq: "find_run m e (int n) p = find_run m e (int n) (p' + 1)"
          using pe a x nn by (subst find_run.simps) simp
        have "first_fit m e n (p' + 1) (find_run m e (int n) (p' + 1))"
          using "1.hyps"(1) [OF pe a _ x refl nn] "1.prems" by simp
        then show ?thesis unfolding eq
          by (rule first_fit_skip) (use r nn b in \<open>auto simp: free_run_def intro!: exI [of _ p']\<close>)
      qed
    qed
  qed
qed

lemma find_run_nonpos:
  assumes "e \<le> 64 * length m" and "n \<le> 0"
  shows "find_run m e n p = Inr None"
  using assms
proof (induction m e n p rule: find_run.induct)
  case (1 m e n p)
  have x: "extend_run m e p n (p + 1) = Inr (p, n)"
    using "1.prems" by (subst extend_run.simps) simp
  show ?case
  proof (cases "p < e")
    case True
    then have a: "allocated_in_map m p = Inr (alloc_bit m p)"
      using "1.prems" by (simp add: allocated_in_map_eq)
    show ?thesis
    proof (cases "alloc_bit m p")
      case True
      with \<open>p < e\<close> a "1.IH"(2) [OF \<open>p < e\<close> a] "1.prems" show ?thesis
        by (subst find_run.simps) simp
    next
      case False
      with \<open>p < e\<close> a x "1.IH"(1) [OF \<open>p < e\<close> a _ x refl] "1.prems" show ?thesis
        by (subst find_run.simps) simp
    qed
  next
    case False
    then show ?thesis by (subst find_run.simps) simp
  qed
qed

section \<open>The invariant\<close>

definition in_hole :: "mm \<Rightarrow> nat \<Rightarrow> bool" where
  "in_hole s i = (\<exists>h \<in> set (memory_hole_list s). start_pfn h \<le> i \<and> i < end_pfn h)"

text \<open>The pages somebody holds: allocatable, allocated in the bitmap and not in a hole.\<close>

definition owned :: "mm \<Rightarrow> nat set" where
  "owned s = {i. first_alloc_page s \<le> i \<and> i < end_alloc_page s \<and>
                 alloc_bit (alloc_bitmap s) i \<and> \<not> in_hole s i}"

definition hole_ok :: "mm \<Rightarrow> memory_hole \<Rightarrow> bool" where
  "hole_ok s h =
     (first_alloc_page s \<le> start_pfn h \<and> start_pfn h \<le> end_pfn h \<and>
      end_pfn h < 64 * length (alloc_bitmap s) \<and>
      end_pfn h \<le> length (phys_to_machine_mapping s))"

text \<open>Holes are disjoint, in the order of the list, and marked as allocated.\<close>

definition mm_ok :: "mm \<Rightarrow> bool" where
  "mm_ok s =
     (0 < first_alloc_page s \<and> first_alloc_page s \<le> first_free_page s \<and>
      first_alloc_page s \<le> first_free_bulk_page s \<and> first_bulk_page s \<le> end_alloc_page s \<and>
      end_alloc_page s < 64 * length (alloc_bitmap s) \<and>
      list_all (hole_ok s) (memory_hole_list s) \<and>
      sorted_wrt (\<lambda>h k. end_pfn h \<le> start_pfn k) (memory_hole_list s) \<and>
      (\<forall>i. in_hole s i \<longrightarrow> alloc_bit (alloc_bitmap s) i))"

text \<open>
  The two maps of arch-dependent code are constrained as far as the allocator relies on them:
  the hypercall populates at most what was asked and leaves the table's length, and building
  page tables keeps the invariant, the holes, the table's length and every owned page.
\<close>

definition env_ok :: "mm_env \<Rightarrow> bool" where
  "env_ok env =
     ((\<forall>t a n. fst (populate_physmap env t a n) \<le> int n \<and>
        length (snd (populate_physmap env t a n)) = length t) \<and>
      (\<forall>s a b. mm_ok s \<longrightarrow>
        (let s' = snd (build_pagetable env s a b) in
           mm_ok s' \<and> memory_hole_list s' = memory_hole_list s \<and> owned s \<subseteq> owned s' \<and>
           length (alloc_bitmap s') = length (alloc_bitmap s) \<and>
           first_alloc_page s' = first_alloc_page s \<and> mm_in_irq s' = mm_in_irq s \<and>
           length (phys_to_machine_mapping s') = length (phys_to_machine_mapping s))))"

lemma env_okD:
  assumes "env_ok env"
  shows "populate_physmap env t a n = (rc, t') \<Longrightarrow> rc \<le> int n \<and> length t' = length t"
    and "build_pagetable env s a b = (ok, s') \<Longrightarrow> mm_ok s \<Longrightarrow>
           mm_ok s' \<and> memory_hole_list s' = memory_hole_list s \<and> owned s \<subseteq> owned s' \<and>
           length (alloc_bitmap s') = length (alloc_bitmap s) \<and>
           first_alloc_page s' = first_alloc_page s \<and> mm_in_irq s' = mm_in_irq s \<and>
           length (phys_to_machine_mapping s') = length (phys_to_machine_mapping s)"
proof -
  show "rc \<le> int n \<and> length t' = length t" if "populate_physmap env t a n = (rc, t')"
    using assms that by (metis env_ok_def fst_conv snd_conv)
  show "mm_ok s' \<and> memory_hole_list s' = memory_hole_list s \<and> owned s \<subseteq> owned s' \<and>
           length (alloc_bitmap s') = length (alloc_bitmap s) \<and>
           first_alloc_page s' = first_alloc_page s \<and> mm_in_irq s' = mm_in_irq s \<and>
           length (phys_to_machine_mapping s') = length (phys_to_machine_mapping s)"
    if "build_pagetable env s a b = (ok, s')" "mm_ok s"
    using assms that unfolding env_ok_def Let_def by (metis snd_conv)
qed

lemma in_hole_cong: "memory_hole_list s' = memory_hole_list s \<Longrightarrow> in_hole s' = in_hole s"
  by (simp add: in_hole_def fun_eq_iff)

lemma owned_cong:
  "memory_hole_list s' = memory_hole_list s \<Longrightarrow> alloc_bitmap s' = alloc_bitmap s \<Longrightarrow>
   first_alloc_page s' = first_alloc_page s \<Longrightarrow> end_alloc_page s' = end_alloc_page s \<Longrightarrow>
   owned s' = owned s"
  by (simp add: owned_def in_hole_def)

text \<open>Fields that neither the invariant nor ownership reads.\<close>

lemma mm_ok_frame [simp]:
  "mm_ok (s\<lparr>num_free_pages := a\<rparr>) = mm_ok s"
  "mm_ok (s\<lparr>num_free_bulk_pages := a\<rparr>) = mm_ok s"
  "mm_ok (s\<lparr>in_increase_memory := b\<rparr>) = mm_ok s"
  "mm_ok (s\<lparr>max_pfn_table := c\<rparr>) = mm_ok s"
  by (simp_all add: mm_ok_def hole_ok_def list_all_iff in_hole_def)

lemma owned_frame [simp]:
  "owned (s\<lparr>num_free_pages := a\<rparr>) = owned s"
  "owned (s\<lparr>num_free_bulk_pages := a\<rparr>) = owned s"
  "owned (s\<lparr>in_increase_memory := b\<rparr>) = owned s"
  "owned (s\<lparr>max_pfn_table := c\<rparr>) = owned s"
  "owned (s\<lparr>first_free_page := c\<rparr>) = owned s"
  "owned (s\<lparr>first_free_bulk_page := c\<rparr>) = owned s"
  "owned (s\<lparr>phys_to_machine_mapping := t\<rparr>) = owned s"
  by (simp_all add: owned_def in_hole_def)

lemma map_alloc_in:
  assumes "p + n < 64 * length m" and "n > 0"
  obtains m' where "map_alloc m p n = Inr m'" and "length m' = length m"
    and "\<And>i. i < 64 * length m \<Longrightarrow> alloc_bit m' i = (alloc_bit m i \<or> p \<le> i \<and> i < p + n)"
  using map_alloc_spec [of p n m] assms by (auto simp: less_mult_imp_div_less mult.commute)

lemma map_free_in:
  assumes "p + n < 64 * length m"
  obtains m' where "map_free m p n = Inr m'" and "length m' = length m"
    and "\<And>i. i < 64 * length m \<Longrightarrow> alloc_bit m' i = (alloc_bit m i \<and> \<not> (p \<le> i \<and> i < p + n))"
  using map_free_spec [of p n m] assms by (auto simp: less_mult_imp_div_less mult.commute)

definition after_take :: "mm \<Rightarrow> int \<Rightarrow> bool \<Rightarrow> nat \<Rightarrow> nat \<Rightarrow> u64 list \<Rightarrow> mm" where
  "after_take s n b p q m =
     s\<lparr>alloc_bitmap := m,
       first_free_page := (if \<not> b \<and> p = first_free_page s then q else first_free_page s),
       first_free_bulk_page := (if b \<and> p = first_free_bulk_page s then q else first_free_bulk_page s),
       num_free_pages := num_free_pages s - of_int n,
       num_free_bulk_pages := (if b then num_free_bulk_pages s - of_int n else num_free_bulk_pages s)\<rparr>"

lemma take_run_eq:
  assumes "map_alloc (alloc_bitmap s) p (nat n) = Inr m"
    and "next_free (alloc_bitmap s) (end_alloc_page s) (p + nat n) = Inr q"
  shows "take_run s n b p = Inr (after_take s n b p q m)"
  using assms unfolding take_run_def after_take_def Let_def
  by (cases b; cases "p = first_free_page s"; cases "p = first_free_bulk_page s") simp_all

definition same_layout :: "mm \<Rightarrow> mm \<Rightarrow> bool" where
  "same_layout s s' =
     (memory_hole_list s' = memory_hole_list s \<and> end_alloc_page s' = end_alloc_page s \<and>
      first_alloc_page s' = first_alloc_page s \<and> first_bulk_page s' = first_bulk_page s \<and>
      length (alloc_bitmap s') = length (alloc_bitmap s) \<and>
      phys_to_machine_mapping s' = phys_to_machine_mapping s \<and> mm_in_irq s' = mm_in_irq s)"

lemma mm_ok_same_layout:
  assumes "mm_ok s" and "same_layout s s'"
    and "first_alloc_page s \<le> first_free_page s'" and "first_alloc_page s \<le> first_free_bulk_page s'"
    and "\<And>i. in_hole s i \<Longrightarrow> alloc_bit (alloc_bitmap s') i"
  shows "mm_ok s'"
  using assms by (auto simp: mm_ok_def same_layout_def hole_ok_def list_all_iff in_hole_def)

lemma in_hole_bound: "mm_ok s \<Longrightarrow> in_hole s i \<Longrightarrow> i < 64 * length (alloc_bitmap s)"
  by (force simp: mm_ok_def in_hole_def hole_ok_def list_all_iff)

lemma in_hole_alloc: "mm_ok s \<Longrightarrow> in_hole s i \<Longrightarrow> alloc_bit (alloc_bitmap s) i"
  by (simp add: mm_ok_def)

lemma take_run_spec:
  assumes ok: "mm_ok s" and n: "n \<ge> 1" and p: "first_alloc_page s \<le> p" "p + n \<le> end_alloc_page s"
  obtains q m' where "take_run s (int n) b p = Inr (after_take s (int n) b p q m')"
    and "same_layout s (after_take s (int n) b p q m')" and "mm_ok (after_take s (int n) b p q m')"
    and "p + n \<le> q" and "\<forall>i. p + n \<le> i \<and> i < q \<longrightarrow> alloc_bit (alloc_bitmap s) i"
    and "\<forall>i < 64 * length (alloc_bitmap s).
        alloc_bit m' i = (alloc_bit (alloc_bitmap s) i \<or> p \<le> i \<and> i < p + n)"
proof -
  have len: "end_alloc_page s < 64 * length (alloc_bitmap s)" using ok by (simp add: mm_ok_def)
  obtain m' where m': "map_alloc (alloc_bitmap s) p n = Inr m'"
      "length m' = length (alloc_bitmap s)"
    and bits: "\<And>i. i < 64 * length (alloc_bitmap s) \<Longrightarrow>
      alloc_bit m' i = (alloc_bit (alloc_bitmap s) i \<or> p \<le> i \<and> i < p + n)"
    by (rule map_alloc_in [of p n "alloc_bitmap s"]) (use len p n in auto)
  obtain q where q: "next_free (alloc_bitmap s) (end_alloc_page s) (p + n) = Inr q" "p + n \<le> q"
      "\<forall>i. p + n \<le> i \<and> i < q \<longrightarrow> alloc_bit (alloc_bitmap s) i"
    using next_free_spec [of "p + n" "end_alloc_page s" "alloc_bitmap s"] p len by auto
  have sl: "same_layout s (after_take s (int n) b p q m')"
    using m'(2) by (simp add: same_layout_def after_take_def)
  have fa: "first_alloc_page s \<le> first_free_page s" "first_alloc_page s \<le> first_free_bulk_page s"
    using ok by (auto simp: mm_ok_def)
  have "mm_ok (after_take s (int n) b p q m')"
    using fa p(1) q(2) in_hole_alloc [OF ok] in_hole_bound [OF ok] bits
    by (intro mm_ok_same_layout [OF ok sl]) (simp_all add: after_take_def)
  with that q m' bits sl show ?thesis
    using take_run_eq [of s p "int n" m' q b] by simp
qed

section \<open>Growing keeps the invariant and every owned page\<close>

text \<open>The relation between the states before and after a growth.\<close>

definition grown :: "mm \<Rightarrow> mm \<Rightarrow> bool" where
  "grown s s' =
     (mm_ok s' \<and> owned s \<subseteq> owned s' \<and> first_alloc_page s' = first_alloc_page s \<and>
      mm_in_irq s' = mm_in_irq s \<and>
      length (alloc_bitmap s') = length (alloc_bitmap s) \<and>
      length (phys_to_machine_mapping s') = length (phys_to_machine_mapping s))"

lemma grown_refl: "mm_ok s \<Longrightarrow> grown s s"
  by (simp add: grown_def)

lemma grown_trans: "grown s s' \<Longrightarrow> grown s' s'' \<Longrightarrow> grown s s''"
  by (auto simp: grown_def)

lemma grown_frame [simp]:
  "grown s (s'\<lparr>in_increase_memory := b\<rparr>) = grown s s'"
  "grown s (s'\<lparr>max_pfn_table := c\<rparr>) = grown s s'"
  "grown (s\<lparr>in_increase_memory := b\<rparr>) s' = grown s s'"
  by (simp_all add: grown_def)

lemma hole_pages_frame [simp]:
  "hole_pages (s\<lparr>in_increase_memory := b\<rparr>) = hole_pages s"
  "hole_pages (s\<lparr>max_pfn_table := c\<rparr>) = hole_pages s"
  by (simp_all add: hole_pages_def)

lemma identity_p2m_ok:
  "a + n \<le> length t \<Longrightarrow> \<exists>t'. identity_p2m t a n = Inr t' \<and> length t' = length t"
  by (induction n) (auto simp: res_simps)

lemma update_max_pfn_frame:
  "mm_ok s \<Longrightarrow> grown s (update_max_pfn s a b ad)"
  "memory_hole_list (update_max_pfn s a b ad) = memory_hole_list s"
  by (simp_all add: update_max_pfn_def grown_refl)

lemma increase_reservation_spec:
  assumes env: "env_ok env" and ok: "mm_ok s" and h: "h \<in> set (memory_hole_list s)"
    and n: "n \<le> end_pfn h - start_pfn h"
  obtains rc s1 where "increase_reservation env s n h = Inr (rc, s1)" and "rc \<le> int n"
    and "grown s s1" and "memory_hole_list s1 = memory_hole_list s"
proof -
  have hk: "hole_ok s h" using ok h by (auto simp: mm_ok_def list_all_iff)
  then obtain t where t: "identity_p2m (phys_to_machine_mapping s) (start_pfn h) n = Inr t"
      "length t = length (phys_to_machine_mapping s)"
    using identity_p2m_ok [of "start_pfn h" n "phys_to_machine_mapping s"] n
    by (force simp: hole_ok_def)
  obtain rc t' where pp: "populate_physmap env t (start_pfn h) n = (rc, t')" by force
  with env t have rc: "rc \<le> int n" and lt: "length t' = length (phys_to_machine_mapping s)"
    using env_okD(1) [OF env] by force+
  let ?s1 = "s\<lparr>phys_to_machine_mapping := t'\<rparr>"
  have ok1: "mm_ok ?s1" using ok lt by (auto simp: mm_ok_def hole_ok_def list_all_iff in_hole_def)
  have g1: "grown s ?s1" using ok1 lt by (simp add: grown_def)
  show thesis
  proof (cases "rc > 0")
    case False
    show ?thesis
      by (rule that [of rc ?s1])
         (use False t pp rc g1 n in \<open>simp_all add: increase_reservation_def Let_def\<close>)
  next
    case True
    obtain ok' s2 where b: "build_pagetable env ?s1 (start_pfn h) (start_pfn h + nat rc) = (ok', s2)"
      by force
    note b' = env_okD(2) [OF env b ok1]
    have g2: "grown s s2" using b' lt by (auto simp: grown_def)
    have ok2: "mm_ok s2" using b' by simp
    show ?thesis
    proof (cases ok')
      case True': True
      let ?s3 = "update_max_pfn s2 (start_pfn h) (start_pfn h + nat rc) True"
      show ?thesis
        by (rule that [of rc ?s3])
           (use True True' t pp rc b b' n grown_trans [OF g2 update_max_pfn_frame(1) [OF ok2]] in
             \<open>simp_all add: increase_reservation_def Let_def update_max_pfn_frame\<close>)
    next
      case False
      show ?thesis
        by (rule that [of 0 s2])
           (use True False t pp rc b b' n g2 in \<open>simp_all add: increase_reservation_def Let_def\<close>)
    qed
  qed
qed

text \<open>The frames populated leave the hole at the head of the list and become free pages.\<close>

definition populate_head :: "mm \<Rightarrow> memory_hole \<Rightarrow> memory_hole list \<Rightarrow> bool \<Rightarrow> int \<Rightarrow> u64 list \<Rightarrow> mm" where
  "populate_head s h hs whole rc m =
     s\<lparr>alloc_bitmap := m,
       end_alloc_page := max (end_alloc_page s) (start_pfn h + nat rc),
       num_free_pages := num_free_pages s + of_int rc,
       num_free_bulk_pages := num_free_bulk_pages s + of_int rc,
       memory_hole_list :=
         (if whole then hs else h\<lparr>start_pfn := start_pfn h + nat rc\<rparr> # hs)\<rparr>"

lemma populate_head_spec:
  assumes ok: "mm_ok s" and hl: "memory_hole_list s = h # hs" and rc: "0 < rc"
    and le: "rc \<le> int (end_pfn h - start_pfn h)"
    and whole: "whole \<longleftrightarrow> int (end_pfn h - start_pfn h) = rc"
  obtains m where "map_free (alloc_bitmap s) (start_pfn h) (nat rc) = Inr m"
    and "grown s (populate_head s h hs whole rc m)"
    and "hole_pages (populate_head s h hs whole rc m) + nat rc = hole_pages s"
proof -
  have hk: "hole_ok s h" and hsk: "list_all (hole_ok s) hs"
    using ok hl by (auto simp: mm_ok_def)
  have r: "start_pfn h + nat rc \<le> end_pfn h" using le rc hk by (auto simp: hole_ok_def)
  then have lt: "start_pfn h + nat rc < 64 * length (alloc_bitmap s)"
    using hk unfolding hole_ok_def by linarith
  obtain m where m: "map_free (alloc_bitmap s) (start_pfn h) (nat rc) = Inr m"
      "length m = length (alloc_bitmap s)"
    and bits: "\<And>i. i < 64 * length (alloc_bitmap s) \<Longrightarrow> alloc_bit m i =
      (alloc_bit (alloc_bitmap s) i \<and> \<not> (start_pfn h \<le> i \<and> i < start_pfn h + nat rc))"
    using map_free_in [OF lt] by blast
  let ?s' = "populate_head s h hs whole rc m"
  have so: "sorted_wrt (\<lambda>h k. end_pfn h \<le> start_pfn k) (h # hs)"
    using ok hl by (simp add: mm_ok_def)
  have hole': "in_hole s i \<and> \<not> (start_pfn h \<le> i \<and> i < start_pfn h + nat rc)" if "in_hole ?s' i" for i
    using that hl r rc so whole by (fastforce simp: in_hole_def populate_head_def split: if_splits)
  have "alloc_bit m i" if "in_hole ?s' i" for i
    using hole' [OF that] in_hole_alloc [OF ok] in_hole_bound [OF ok] bits by auto
  moreover have "sorted_wrt (\<lambda>h k. end_pfn h \<le> start_pfn k) (memory_hole_list ?s')"
    using so r by (auto simp: populate_head_def)
  moreover have "list_all (hole_ok ?s') (memory_hole_list ?s')"
    using ok hl m(2) r hk hsk
    by (auto simp: hole_ok_def list_all_iff populate_head_def)
  ultimately have "mm_ok ?s'"
    using ok m(2) r hk unfolding mm_ok_def
    by (auto simp: hole_ok_def populate_head_def)
  moreover have "owned s \<subseteq> owned ?s'"
  proof
    fix i assume i: "i \<in> owned s"
    then have "\<not> (start_pfn h \<le> i \<and> i < end_pfn h)" "\<not> in_hole ?s' i"
      using hl r by (auto simp: owned_def in_hole_def populate_head_def split: if_splits)
    moreover have "i < 64 * length (alloc_bitmap s)" using i ok by (simp add: owned_def mm_ok_def)
    ultimately show "i \<in> owned ?s'" using i m(2) bits r
      by (auto simp: owned_def populate_head_def)
  qed
  ultimately have "grown s ?s'" using m(2) by (simp add: grown_def populate_head_def)
  moreover have "hole_pages ?s' + nat rc = hole_pages s"
    using hl r rc whole by (auto simp: hole_pages_def populate_head_def)
  ultimately show ?thesis using m(1) that by blast
qed

lemma increase_loop_spec:
  assumes "env_ok env" and "mm_ok s" and "n \<le> fuel" and "n \<le> hole_pages s"
  shows "\<exists>r s'. increase_loop fuel env s n res = Some (Inr (r, s')) \<and> grown s s' \<and>
           res \<le> r \<and> int (hole_pages s') + (r - res) \<le> int (hole_pages s)"
  using assms
proof (induction fuel arbitrary: s n res)
  case 0
  then show ?case by (auto simp: grown_refl)
next
  case (Suc fuel)
  show ?case
  proof (cases n)
    case 0
    with Suc.prems show ?thesis by (auto simp: grown_refl)
  next
    case n: (Suc k)
    then obtain h hs where hl: "memory_hole_list s = h # hs"
      using Suc.prems(4) by (cases "memory_hole_list s") (auto simp: hole_pages_def)
    define hole_size where "hole_size = end_pfn h - start_pfn h"
    define nn where "nn = (if hole_size \<le> Suc k then hole_size else Suc k)"
    obtain rc s1 where i: "increase_reservation env s nn h = Inr (rc, s1)" "rc \<le> int nn"
        "grown s s1" "memory_hole_list s1 = memory_hole_list s"
      by (rule increase_reservation_spec [of env s h nn])
         (use Suc.prems hl in \<open>auto simp: nn_def hole_size_def\<close>)
    have hp1: "hole_pages s1 = hole_pages s" using i(4) by (simp add: hole_pages_def)
    show ?thesis
    proof (cases "rc > 0")
      case False
      then have "increase_loop (Suc fuel) env s n res = Some (Inr (res, s1))"
        unfolding n increase_loop.simps hl list.case Let_def hole_size_def [symmetric]
        unfolding nn_def [symmetric] i(1) by simp
      with i hp1 show ?thesis by auto
    next
      case True
      have ok1: "mm_ok s1" using i(3) by (simp add: grown_def)
      have hl1: "memory_hole_list s1 = h # hs" using i(4) hl by simp
      have rcle: "rc \<le> int (end_pfn h - start_pfn h)" "rc \<le> int (Suc k)"
        using i(2) by (auto simp: nn_def hole_size_def split: if_splits)
      define whole where "whole = (int (end_pfn h - start_pfn h) = rc)"
      obtain m where m: "map_free (alloc_bitmap s1) (start_pfn h) (nat rc) = Inr m"
        "grown s1 (populate_head s1 h hs whole rc m)"
        "hole_pages (populate_head s1 h hs whole rc m) + nat rc = hole_pages s1"
        by (rule populate_head_spec [OF ok1 hl1 True rcle(1), of whole]) (simp_all add: whole_def)
      let ?s2 = "populate_head s1 h hs whole rc m"
      have step: "increase_loop (Suc fuel) env s n res =
          increase_loop fuel env ?s2 (Suc k - nat rc) (res + rc)"
        using True rcle(2)
        unfolding n increase_loop.simps hl list.case Let_def hole_size_def [symmetric]
        unfolding nn_def [symmetric] i(1) sum.case prod.case hl1 list.case m(1)
        unfolding populate_head_def whole_def hole_size_def by simp
      have "mm_ok ?s2" using m(2) by (simp add: grown_def)
      moreover have "Suc k - nat rc \<le> fuel" using Suc.prems(3) n True by linarith
      moreover have "Suc k - nat rc \<le> hole_pages ?s2"
        using Suc.prems(4) m(3) hp1 n True by linarith
      ultimately obtain r s' where r: "increase_loop fuel env ?s2 (Suc k - nat rc) (res + rc) =
          Some (Inr (r, s'))" "grown ?s2 s'" "res + rc \<le> r"
          "int (hole_pages s') + (r - (res + rc)) \<le> int (hole_pages ?s2)"
        using Suc.IH [OF Suc.prems(1)] by blast
      have "grown s s'" using i(3) m(2) r(2) grown_trans by blast
      moreover have "int (hole_pages s') + (r - res) \<le> int (hole_pages s)"
        using r(4) m(3) hp1 True by linarith
      ultimately show ?thesis using r(1,3) True unfolding step by auto
    qed
  qed
qed

lemma can_increase_le: "can_increase hs n \<noteq> 0 \<Longrightarrow> n \<le> (\<Sum>h \<leftarrow> hs. end_pfn h - start_pfn h)"
proof (induction hs arbitrary: n)
  case (Cons h hs)
  show ?case
  proof (cases "n \<le> end_pfn h - start_pfn h")
    case False
    then have "n - (end_pfn h - start_pfn h) \<le> (\<Sum>h \<leftarrow> hs. end_pfn h - start_pfn h)"
      using Cons.prems by (intro Cons.IH) (simp add: Let_def)
    then show ?thesis by simp
  qed simp
qed simp

lemma increase_memory_spec:
  assumes "env_ok env" and "mm_ok s"
  shows "\<exists>r s'. increase_memory_holding_lock env s n = Some (Inr (r, s')) \<and> grown s s' \<and>
           0 \<le> r \<and> int (hole_pages s') + r \<le> int (hole_pages s)"
proof (cases "\<not> in_increase_memory s \<and> can_increase (memory_hole_list s) n \<noteq> 0")
  case True
  let ?s1 = "s\<lparr>in_increase_memory := True\<rparr>"
  have "n \<le> hole_pages ?s1" using True can_increase_le [of "memory_hole_list s" n]
    by (simp add: hole_pages_def)
  then obtain r s' where r: "increase_loop n env ?s1 n 0 = Some (Inr (r, s'))" "grown ?s1 s'"
      "0 \<le> r" "int (hole_pages s') + (r - 0) \<le> int (hole_pages ?s1)"
    using increase_loop_spec [of env ?s1 n n 0] assms by auto
  then show ?thesis using True by (auto simp: increase_memory_holding_lock_def Let_def)
next
  case False
  then show ?thesis using assms(2)
    by (auto simp: increase_memory_holding_lock_def Let_def grown_refl)
qed

section \<open>Allocation\<close>

definition search_lo :: "mm \<Rightarrow> bool \<Rightarrow> nat" where
  "search_lo s b = (if b then first_free_bulk_page s else first_free_page s)"

definition search_hi :: "mm \<Rightarrow> bool \<Rightarrow> nat" where
  "search_hi s b = (if b then end_alloc_page s else first_bulk_page s)"

lemma search_pass_spec:
  assumes ok: "mm_ok s" and n: "n \<ge> 1"
  shows "(search_pass s (int n) b = Inr None \<and>
            (\<forall>p \<ge> search_lo s b. p + n \<le> search_hi s b \<longrightarrow> \<not> free_run (alloc_bitmap s) p n)) \<or>
         (\<exists>p q m. search_pass s (int n) b = Inr (Some (4096 * p, after_take s (int n) b p q m)) \<and>
            search_lo s b \<le> p \<and> p + n \<le> search_hi s b \<and> free_run (alloc_bitmap s) p n \<and>
            (\<forall>p'. search_lo s b \<le> p' \<and> p' < p \<longrightarrow> \<not> free_run (alloc_bitmap s) p' n) \<and>
            same_layout s (after_take s (int n) b p q m) \<and> mm_ok (after_take s (int n) b p q m) \<and>
            p + n \<le> q \<and> (\<forall>i. p + n \<le> i \<and> i < q \<longrightarrow> alloc_bit (alloc_bitmap s) i) \<and>
            (\<forall>i < 64 * length (alloc_bitmap s).
               alloc_bit m i = (alloc_bit (alloc_bitmap s) i \<or> p \<le> i \<and> i < p + n)))"
proof -
  have hi: "search_hi s b \<le> end_alloc_page s" "search_hi s b \<le> 64 * length (alloc_bitmap s)"
    using ok by (auto simp: mm_ok_def search_hi_def)
  have lo: "first_alloc_page s \<le> search_lo s b"
    using ok by (auto simp: mm_ok_def search_lo_def)
  have sp: "search_pass s (int n) b = rbind (find_run (alloc_bitmap s) (search_hi s b) (int n) (search_lo s b))
     (\<lambda>r. case r of None \<Rightarrow> Inr None
           | Some p \<Rightarrow> rbind (take_run s (int n) b p) (\<lambda>s'. Inr (Some (4096 * p, s'))))"
    by (simp add: search_pass_def Let_def search_hi_def search_lo_def to_virt_def virt_start_def
        pfn_phys_def page_shift_def push_bit_eq_mult mult.commute cong: option.case_cong)
  note ff = find_run_spec [OF hi(2) n, of "search_lo s b"]
  show ?thesis
  proof (cases "find_run (alloc_bitmap s) (search_hi s b) (int n) (search_lo s b)")
    case (Inl e)
    with ff show ?thesis by (simp add: first_fit_def)
  next
    case (Inr r)
    show ?thesis
    proof (cases r)
      case None
      with Inr ff sp show ?thesis by (simp add: first_fit_def)
    next
      case (Some p)
      with Inr ff have p: "search_lo s b \<le> p" "p + n \<le> search_hi s b"
          "free_run (alloc_bitmap s) p n"
        and p': "\<forall>p'. search_lo s b \<le> p' \<and> p' < p \<longrightarrow> \<not> free_run (alloc_bitmap s) p' n"
        by (auto simp: first_fit_def)
      have a: "first_alloc_page s \<le> p" "p + n \<le> end_alloc_page s" using p hi lo by auto
      obtain q m where t: "take_run s (int n) b p = Inr (after_take s (int n) b p q m)"
        and t': "same_layout s (after_take s (int n) b p q m)" "mm_ok (after_take s (int n) b p q m)"
          "p + n \<le> q" "\<forall>i. p + n \<le> i \<and> i < q \<longrightarrow> alloc_bit (alloc_bitmap s) i"
        and bits: "\<forall>i < 64 * length (alloc_bitmap s).
          alloc_bit m i = (alloc_bit (alloc_bitmap s) i \<or> p \<le> i \<and> i < p + n)"
        by (rule take_run_spec [OF ok n a, of b])
      have "search_pass s (int n) b = Inr (Some (4096 * p, after_take s (int n) b p q m))"
        using sp Inr Some t by simp
      with p p' t' bits show ?thesis by blast
    qed
  qed
qed

text \<open>
  What a caller of the allocator relies on: the \<open>n\<close> pages at \<open>r\<close> were owned by nobody, they are
  now, and nobody lost a page.
\<close>

definition run :: "nat \<Rightarrow> nat \<Rightarrow> nat set" where
  "run p n = {p ..< p + n}"

definition handed_out :: "mm \<Rightarrow> nat \<Rightarrow> nat \<Rightarrow> mm \<Rightarrow> bool" where
  "handed_out s n r s' =
     (r mod 4096 = 0 \<and> first_alloc_page s \<le> virt_to_pfn r \<and>
      run (virt_to_pfn r) n \<inter> owned s = {} \<and> owned s \<union> run (virt_to_pfn r) n \<subseteq> owned s' \<and>
      mm_ok s')"

lemma virt_to_pfn_page [simp]: "virt_to_pfn (4096 * p) = p"
  by (simp add: virt_to_pfn_def virt_start_def page_shift_def drop_bit_eq_div)

lemma owned_after_take:
  assumes ok: "mm_ok s" and len: "first_alloc_page s \<le> p" "p + n \<le> end_alloc_page s"
    and free: "free_run (alloc_bitmap s) p n"
    and lm: "same_layout s (after_take s (int n) b p q m)"
    and bits: "\<forall>i < 64 * length (alloc_bitmap s).
               alloc_bit m i = (alloc_bit (alloc_bitmap s) i \<or> p \<le> i \<and> i < p + n)"
  shows "owned (after_take s (int n) b p q m) = owned s \<union> run p n" and "run p n \<inter> owned s = {}"
proof -
  have h: "in_hole (after_take s (int n) b p q m) = in_hole s"
    by (simp add: in_hole_def after_take_def fun_eq_iff)
  have nh: "\<not> in_hole s i" if "p \<le> i" "i < p + n" for i
    using free in_hole_alloc [OF ok] that by (auto simp: free_run_def)
  have "end": "end_alloc_page s < 64 * length (alloc_bitmap s)" using ok by (simp add: mm_ok_def)
  have l: "length m = length (alloc_bitmap s)" "alloc_bitmap (after_take s (int n) b p q m) = m"
    using lm by (auto simp: same_layout_def after_take_def)
  show "owned (after_take s (int n) b p q m) = owned s \<union> run p n"
    using bits nh len lm "end" unfolding owned_def h l by (auto simp: run_def same_layout_def)
  show "run p n \<inter> owned s = {}"
    using free by (auto simp: free_run_def run_def owned_def)
qed

lemma allocate_loop_spec:
  assumes "env_ok env" and "mm_ok s" and "n \<ge> 1" and "n < 2 ^ 64"
    and "hole_pages s + (if b then 1 else 2) \<le> fuel"
  shows "\<exists>r s'. allocate_loop fuel env s (int n) b = Some (Inr (r, s')) \<and> grown s s' \<and>
           (r \<noteq> 0 \<longrightarrow> handed_out s n r s')"
  using assms
proof (induction fuel arbitrary: s b)
  case 0
  then show ?case by (cases b) auto
next
  case (Suc fuel)
  note sp = search_pass_spec [OF Suc.prems(2,3), of b]
  show ?case
  proof (cases "search_pass s (int n) b = Inr None")
    case False
    with sp obtain p q m where e: "search_pass s (int n) b =
        Inr (Some (4096 * p, after_take s (int n) b p q m))"
      and p: "search_lo s b \<le> p" "p + n \<le> search_hi s b" "free_run (alloc_bitmap s) p n"
      and l: "same_layout s (after_take s (int n) b p q m)" "mm_ok (after_take s (int n) b p q m)"
      and bits: "\<forall>i < 64 * length (alloc_bitmap s).
               alloc_bit m i = (alloc_bit (alloc_bitmap s) i \<or> p \<le> i \<and> i < p + n)"
      by blast
    let ?s' = "after_take s (int n) b p q m"
    have le: "p + n \<le> end_alloc_page s" and p0: "p > 0" "first_alloc_page s \<le> p"
      using Suc.prems(2) p by (auto simp: mm_ok_def search_hi_def search_lo_def split: if_splits)
    note o = owned_after_take [OF Suc.prems(2) p0(2) le p(3) l(1) bits]
    have "allocate_loop (Suc fuel) env s (int n) b = Some (Inr (4096 * p, ?s'))"
      using e p0 by simp
    moreover have "handed_out s n (4096 * p) ?s'"
      using o p0 l by (simp add: handed_out_def)
    moreover have "grown s ?s'" using o l by (auto simp: grown_def same_layout_def)
    ultimately show ?thesis by blast
  next
    case None: True
    show ?thesis
    proof (cases b)
      case False
      have "allocate_loop (Suc fuel) env s (int n) b = allocate_loop fuel env s (int n) True"
        using None False by simp
      with Suc.IH [of s True] Suc.prems False show ?thesis by simp
    next
      case True
      obtain g s1 where g: "increase_memory_holding_lock env s (unsigned_long (int n)) =
          Some (Inr (g, s1))" "grown s s1" "0 \<le> g" "int (hole_pages s1) + g \<le> int (hole_pages s)"
        using increase_memory_spec [OF Suc.prems(1,2)] by blast
      show ?thesis
      proof (cases "g = 0")
        case g0: True
        have "allocate_loop (Suc fuel) env s (int n) b = Some (Inr (0, s1))"
          using None True g(1) g0 by simp
        with g(2) show ?thesis by auto
      next
        case False
        have st: "allocate_loop (Suc fuel) env s (int n) b = allocate_loop fuel env s1 (int n) True"
          using None True g(1) False by simp
        have "mm_ok s1" using g(2) by (simp add: grown_def)
        moreover have "hole_pages s1 + 1 \<le> fuel" using g False Suc.prems(5) True by simp
        ultimately obtain r s' where r: "allocate_loop fuel env s1 (int n) True = Some (Inr (r, s'))"
            "grown s1 s'" "r \<noteq> 0 \<longrightarrow> handed_out s1 n r s'"
          using Suc.IH [of s1 True] Suc.prems by auto
        have "r \<noteq> 0 \<longrightarrow> handed_out s n r s'"
          using r(3) g(2) by (auto simp: handed_out_def grown_def)
        with r grown_trans [OF g(2) r(2)] st show ?thesis by auto
      qed
    qed
  qed
qed

section \<open>The interface the allocator offers\<close>

text \<open>
  A provider of runs of pages: what its clients rely on, whatever the provider's state is.
  \<open>held\<close> are the pages somebody owns.
\<close>

locale page_provider =
  fixes alloc :: "'e \<Rightarrow> 's \<Rightarrow> int \<Rightarrow> (nat \<times> 's) res option"
    and free :: "'s \<Rightarrow> nat \<Rightarrow> int \<Rightarrow> 's res"
    and held :: "'s \<Rightarrow> nat set"
    and inv :: "'s \<Rightarrow> bool"
    and legal :: "'e \<Rightarrow> bool"
  assumes alloc_law:
      "legal e \<Longrightarrow> inv s \<Longrightarrow> 1 \<le> n \<Longrightarrow> n < 2 ^ 31 \<Longrightarrow>
         alloc e s (int n) = Some (Inl Crash) \<or>
         (\<exists>r s'. alloc e s (int n) = Some (Inr (r, s')) \<and> inv s' \<and> held s \<subseteq> held s' \<and>
            (r \<noteq> 0 \<longrightarrow> r mod 4096 = 0 \<and> run (virt_to_pfn r) n \<inter> held s = {} \<and>
               run (virt_to_pfn r) n \<subseteq> held s'))"
    and free_law:
      "inv s \<Longrightarrow> 1 \<le> n \<Longrightarrow> n < 2 ^ 31 \<Longrightarrow> r mod 4096 = 0 \<Longrightarrow>
         run (virt_to_pfn r) n \<subseteq> held s \<Longrightarrow>
         \<exists>s'. free s r (int n) = Inr s' \<and> inv s' \<and> held s' = held s - run (virt_to_pfn r) n"
begin

lemma alloc_returns: "legal e \<Longrightarrow> inv s \<Longrightarrow> 1 \<le> n \<Longrightarrow> n < 2 ^ 31 \<Longrightarrow> alloc e s (int n) \<noteq> None"
  using alloc_law [of e s n] by auto

text \<open>What one client got is not handed to another one.\<close>

lemma alloc_alloc_disjoint:
  assumes "legal e" and "inv s" and "1 \<le> n" "n < 2 ^ 31" and "1 \<le> k" "k < 2 ^ 31"
    and "alloc e s (int n) = Some (Inr (r, s1))" "r \<noteq> 0"
    and "alloc e s1 (int k) = Some (Inr (q, s2))" "q \<noteq> 0"
  shows "run (virt_to_pfn r) n \<inter> run (virt_to_pfn q) k = {}"
proof -
  have 1: "inv s1" "run (virt_to_pfn r) n \<subseteq> held s1" using alloc_law [of e s n] assms by auto
  then have "run (virt_to_pfn q) k \<inter> held s1 = {}" using alloc_law [of e s1 k] assms by auto
  with 1 show ?thesis by auto
qed

text \<open>Giving back what was just got succeeds, and takes nothing else away.\<close>

lemma alloc_free:
  assumes "legal e" and "inv s" and "1 \<le> n" "n < 2 ^ 31"
    and "alloc e s (int n) = Some (Inr (r, s1))" "r \<noteq> 0"
  shows "\<exists>s2. free s1 r (int n) = Inr s2 \<and> inv s2 \<and> held s \<subseteq> held s2 \<and> held s2 \<subseteq> held s1 \<and>
           run (virt_to_pfn r) n \<inter> held s2 = {}"
proof -
  have 1: "inv s1" "held s \<subseteq> held s1" "r mod 4096 = 0" "run (virt_to_pfn r) n \<inter> held s = {}"
    "run (virt_to_pfn r) n \<subseteq> held s1" using alloc_law [of e s n] assms by auto
  then obtain s2 where "free s1 r (int n) = Inr s2" "inv s2" "held s2 = held s1 - run (virt_to_pfn r) n"
    using free_law [of s1 n r] assms by auto
  with 1 show ?thesis by auto
qed

end

lemma hole_fuel: "hole_pages s + (if is_bulk n then 1 else 2) \<le> allocate_fuel s"
  by (simp add: allocate_fuel_def)

lemma allocate_pages_cases:
  assumes "env_ok env" and "mm_ok s" and "\<not> mm_in_irq s" and "1 \<le> n" and "n < 2 ^ 31"
  shows "(allocate_pages env s (int n) = Some (Inl Crash) \<and> n < 512) \<or>
         (\<exists>r s'. allocate_pages env s (int n) = Some (Inr (r, s')) \<and> grown s s' \<and>
            (if r = 0 then n \<ge> 512 else handed_out s n r s'))"
proof -
  obtain r s' where r: "allocate_loop (allocate_fuel s) env s (int n) (is_bulk (int n)) = Some (Inr (r, s'))"
      "grown s s'" "r \<noteq> 0 \<longrightarrow> handed_out s n r s'"
    using allocate_loop_spec [OF assms(1,2,4) _ hole_fuel [of s "int n"]] assms(5) by auto
  then show ?thesis
    using assms(3) by (cases "r = 0 \<and> n < 512")
      (auto simp: allocate_pages_def allocate_pages_locked_def is_bulk_def bulk_allocation_def)
qed

lemma unsigned_long_int: "n < 2 ^ 64 \<Longrightarrow> unsigned_long (int n) = n"
  by (simp add: unsigned_long_def)

lemma deallocate_pages_spec:
  assumes ok: "mm_ok s" and irq: "\<not> mm_in_irq s" and n: "1 \<le> n" "n < 2 ^ 31"
    and own: "run p n \<subseteq> owned s"
  obtains s' where "deallocate_pages s (4096 * p) (int n) = Inr s'" and "mm_ok s'"
    and "owned s' = owned s - run p n" and "same_layout s s'"
    and "num_free_pages s' = num_free_pages s + of_nat n"
    and "first_free_bulk_page s' = (if 512 \<le> n \<and> p < first_free_bulk_page s then p else first_free_bulk_page s)"
    and "first_free_page s' = (if n < 512 \<and> p < first_free_page s then p else first_free_page s)"
    and "\<forall>i < 64 * length (alloc_bitmap s). alloc_bit (alloc_bitmap s') i =
           (alloc_bit (alloc_bitmap s) i \<and> \<not> (p \<le> i \<and> i < p + n))"
proof -
  have "p \<in> owned s" "p + n - 1 \<in> owned s" using own n by (auto simp: run_def)
  then have lo: "first_alloc_page s \<le> p" and he: "p + n \<le> end_alloc_page s"
    using n by (auto simp: owned_def)
  then have hi: "p + n < 64 * length (alloc_bitmap s)" using ok by (simp add: mm_ok_def)
  obtain m where m: "map_free (alloc_bitmap s) p n = Inr m" "length m = length (alloc_bitmap s)"
    and bits: "\<And>i. i < 64 * length (alloc_bitmap s) \<Longrightarrow> alloc_bit m i =
      (alloc_bit (alloc_bitmap s) i \<and> \<not> (p \<le> i \<and> i < p + n))"
    using map_free_in [OF hi] by blast
  define s' where "s' = s\<lparr>alloc_bitmap := m,
     num_free_pages := num_free_pages s + of_nat n,
     num_free_bulk_pages := (if 512 \<le> n then num_free_bulk_pages s + of_nat n else num_free_bulk_pages s),
     first_free_bulk_page := (if 512 \<le> n \<and> p < first_free_bulk_page s then p else first_free_bulk_page s),
     first_free_page := (if n < 512 \<and> p < first_free_page s then p else first_free_page s)\<rparr>"
  have d: "deallocate_pages s (4096 * p) (int n) = Inr s'"
    using m(1) irq n(2) unsigned_long_int [of n]
    by (cases "512 \<le> n")
       (simp_all add: deallocate_pages_def s'_def is_bulk_def bulk_allocation_def Let_def)
  have sl: "same_layout s s'" using m(2) by (simp add: same_layout_def s'_def)
  have nh: "\<not> in_hole s i" if "p \<le> i" "i < p + n" for i
    using that own by (auto simp: owned_def run_def)
  have "mm_ok s'"
    using ok lo nh in_hole_alloc [OF ok] in_hole_bound [OF ok] bits
    by (intro mm_ok_same_layout [OF ok sl]) (auto simp: s'_def mm_ok_def)
  moreover have "owned s' = owned s - run p n"
    using bits m(2) nh ok by (auto simp: owned_def s'_def in_hole_def run_def mm_ok_def)
  ultimately show ?thesis
    by (intro that [OF d _ _ sl]) (use bits in \<open>auto simp: s'_def\<close>)
qed

interpretation mm_pages: page_provider allocate_pages deallocate_pages owned
    "\<lambda>s. mm_ok s \<and> \<not> mm_in_irq s" env_ok
proof (unfold_locales, goal_cases)
  case (1 e s n)
  then show ?case
    using allocate_pages_cases [of e s n]
    by (auto simp: grown_def handed_out_def split: if_splits)
next
  case (2 s n r)
  then obtain p where r: "r = 4096 * p" by (metis mod_0_imp_dvd dvdE)
  obtain s' where "deallocate_pages s (4096 * p) (int n) = Inr s'" "mm_ok s'"
      "owned s' = owned s - run p n" "same_layout s s'"
    by (rule deallocate_pages_spec [of s n p]) (use 2 r in auto)
  then show ?case using 2 r by (auto simp: same_layout_def)
qed


section \<open>Searching succeeds when there is a run\<close>

lemma allocate_loop_found:
  assumes "search_pass s (int n) b = Inr (Some (r, s'))" and "r > 0"
  shows "allocate_loop (Suc fuel) env s (int n) b = Some (Inr (r, s'))"
  using assms by simp

lemma allocate_fuel_Suc: "allocate_fuel s = Suc (hole_pages s + 2)"
  by (simp add: allocate_fuel_def)

lemma allocate_first_fit_aux:
  assumes ok: "mm_ok s" and irq: "\<not> mm_in_irq s" and n: "1 \<le> n"
    and b: "b = is_bulk (int n)"
    and fit: "search_lo s b \<le> p0" "p0 + n \<le> search_hi s b" "free_run (alloc_bitmap s) p0 n"
  obtains p s' where "allocate_pages env s (int n) = Some (Inr (4096 * p, s'))"
    and "search_lo s b \<le> p" and "p + n \<le> search_hi s b" and "free_run (alloc_bitmap s) p n"
    and "\<forall>p'. search_lo s b \<le> p' \<and> p' < p \<longrightarrow> \<not> free_run (alloc_bitmap s) p' n"
    and "owned s' = owned s \<union> run p n" and "mm_ok s'" and "same_layout s s'"
    and "num_free_pages s' = num_free_pages s - of_nat n"
proof -
  obtain p q m where e: "search_pass s (int n) b =
        Inr (Some (4096 * p, after_take s (int n) b p q m))"
      and p: "search_lo s b \<le> p" "p + n \<le> search_hi s b" "free_run (alloc_bitmap s) p n"
        "\<forall>p'. search_lo s b \<le> p' \<and> p' < p \<longrightarrow> \<not> free_run (alloc_bitmap s) p' n"
      and l: "same_layout s (after_take s (int n) b p q m)" "mm_ok (after_take s (int n) b p q m)"
      and bits: "\<forall>i < 64 * length (alloc_bitmap s).
               alloc_bit m i = (alloc_bit (alloc_bitmap s) i \<or> p \<le> i \<and> i < p + n)"
    using search_pass_spec [OF ok n, of b] fit by blast
  have le: "p + n \<le> end_alloc_page s" and p0: "p > 0" "first_alloc_page s \<le> p"
    using ok p by (auto simp: mm_ok_def search_hi_def search_lo_def split: if_splits)
  have "allocate_pages env s (int n) = Some (Inr (4096 * p, after_take s (int n) b p q m))"
    using allocate_loop_found [OF e, of "hole_pages s + 2" env] p0 irq b
    by (simp add: allocate_pages_def allocate_pages_locked_def allocate_fuel_Suc)
  then show ?thesis
    by (rule that)
       (use p l owned_after_take(1) [OF ok p0(2) le p(3) l(1) bits] in
         \<open>simp_all add: after_take_def\<close>)
qed

lemma search_pass_none:
  assumes "mm_ok s" and "1 \<le> n"
    and "\<And>p. search_lo s b \<le> p \<Longrightarrow> p + n \<le> search_hi s b \<Longrightarrow> \<not> free_run (alloc_bitmap s) p n"
  shows "search_pass s (int n) b = Inr None"
  using search_pass_spec [OF assms(1,2), of b] assms(3) by blast

lemma allocate_no_holes_fails:
  assumes ok: "mm_ok s" and irq: "\<not> mm_in_irq s" and n: "1 \<le> n" "n < 512"
    and holes: "memory_hole_list s = []"
    and none: "search_pass s (int n) False = Inr None" "search_pass s (int n) True = Inr None"
  shows "allocate_pages env s (int n) = Some (Inl Crash)"
proof -
  have f: "allocate_fuel s = Suc (Suc (hole_pages s + 1))" by (simp add: allocate_fuel_def)
  have "\<exists>s'. increase_memory_holding_lock env s (unsigned_long (int n)) = Some (Inr (0, s'))"
    using holes by (auto simp: increase_memory_holding_lock_def Let_def)
  then obtain s' where "allocate_loop (allocate_fuel s) env s (int n) False = Some (Inr (0, s'))"
    unfolding f using none by auto
  with irq n show ?thesis
    by (simp add: allocate_pages_def allocate_pages_locked_def is_bulk_def bulk_allocation_def)
qed

section \<open>A run that the bitmap does not cover\<close>

lemma fill_words_length:
  "fill_words m v c e = Inr (m', i) \<Longrightarrow> c < e \<Longrightarrow> length m' = length m \<and> i = e"
proof (induction m v c e rule: fill_words.induct)
  case (1 m v c e)
  show ?case
  proof (cases "Suc c < e")
    case True
    then obtain m1 where m1: "aset m (Suc c) v = Inr m1"
      using "1.prems"(1) by (cases "aset m (Suc c) v") (simp_all add: fill_words.simps [of m v c e])
    have "fill_words m1 v (Suc c) e = Inr (m', i)"
      using "1.prems"(1) True m1 by (simp add: fill_words.simps [of m v c e])
    moreover have "length m1 = length m" using m1 by (auto simp: aset_eq_Inr)
    ultimately show ?thesis using "1.IH" [OF refl True m1] True by simp
  next
    case False
    with "1.prems" show ?thesis by (simp add: fill_words.simps [of m v c e])
  qed
qed

lemma fill_words_Undef: "fill_words m v c e = Inl f \<Longrightarrow> f = Undef"
proof (induction m v c e rule: fill_words.induct)
  case (1 m v c e)
  show ?case
  proof (cases "Suc c < e")
    case True
    show ?thesis
    proof (cases "aset m (Suc c) v")
      case (Inl g)
      with "1.prems" True show ?thesis
        by (simp add: fill_words.simps [of m v c e] aset_def split: if_splits)
    next
      case (Inr m1)
      with "1.prems" "1.IH" [OF refl True Inr] True show ?thesis
        by (simp add: fill_words.simps [of m v c e])
    qed
  next
    case False
    with "1.prems" show ?thesis by (simp add: fill_words.simps [of m v c e])
  qed
qed

lemma map_free_out:
  assumes "length m \<le> (p + n) div 64"
  shows "map_free m p n = Inl Undef"
proof -
  define k where "k = p div 64"
  define l where "l = (p + n) div 64"
  have kl: "k \<le> l" unfolding k_def l_def by (rule div_le_mono) simp
  show ?thesis
  proof (cases "k = l")
    case True
    then show ?thesis
      using assms unfolding map_free_def entries_per_mapword_def k_def l_def
      by (simp add: aget_def Let_def)
  next
    case False
    let ?w = "(m ! k) AND (push_bit (p AND 63) 1 - 1)"
    have "aget m l = Inl Undef" using assms l_def by (simp add: aget_def)
    have out: "aget m2 i = Inl Undef" if "fill_words (m[k := ?w]) 0 k l = Inr (m2, i)" for m2 i
      using fill_words_length [OF that] False kl assms by (simp add: aget_def l_def)
    show ?thesis
    proof (cases "k < length m")
      case True
      then have a: "aget m k = Inr (m ! k)" "aset m k ?w = Inr (m[k := ?w])" by simp_all
      show ?thesis
      proof (cases "fill_words (m[k := ?w]) 0 k l")
        case (Inl f)
        with fill_words_Undef [OF Inl] False a show ?thesis
          unfolding map_free_def entries_per_mapword_def k_def l_def by (simp add: Let_def)
      next
        case (Inr r)
        then obtain m2 i where r: "r = (m2, i)" by force
        with out Inr have "aget m2 i = Inl Undef" by simp
        with Inr r False a show ?thesis
          unfolding map_free_def entries_per_mapword_def k_def l_def by (simp add: Let_def)
      qed
    next
      case k: False
      with False show ?thesis
        unfolding map_free_def entries_per_mapword_def k_def l_def
        by (simp add: aget_def Let_def)
    qed
  qed
qed

section \<open>Properties\<close>

text \<open>An environment that never populates a hole, and a small state, for concrete instances.\<close>

definition closed_env :: mm_env where
  "closed_env = \<lparr>populate_physmap = \<lambda>t a n. (0, t), build_pagetable = \<lambda>s a b. (False, s)\<rparr>"

lemma closed_env_ok: "env_ok closed_env"
  by (simp add: env_ok_def closed_env_def Let_def)

text \<open>Pages 1 to 7 can be allocated, 1 to 5 are the small region, 1 to 3 and 5 are taken.\<close>

definition small_state :: mm where
  "small_state =
     \<lparr>alloc_bitmap = [0xFFFFFFFFFFFFFF2F], first_alloc_page = 1, end_alloc_page = 8,
      max_end_alloc_page = 8, first_free_page = 4, first_bulk_page = 6, first_free_bulk_page = 6,
      num_free_pages = 3, num_free_bulk_pages = 2, phys_to_machine_mapping = replicate 8 0,
      memory_hole_list = [], in_increase_memory = False, max_pfn_table = 8, mm_in_irq = False\<rparr>"

lemma small_state_ok: "mm_ok small_state" "\<not> mm_in_irq small_state" "memory_hole_list small_state = []"
  by (simp_all add: small_state_def mm_ok_def in_hole_def)

lemma small_state_bits:
  "alloc_bit (alloc_bitmap small_state) i = (i \<noteq> 4 \<and> i \<noteq> 6 \<and> i \<noteq> 7)" if "i < 8"
proof -
  have "i = 0 \<or> i = 1 \<or> i = 2 \<or> i = 3 \<or> i = 4 \<or> i = 5 \<or> i = 6 \<or> i = 7" using that by linarith
  then show ?thesis by (elim disjE) (simp_all add: alloc_bit_def small_state_def)
qed

lemma small_state_owned: "owned small_state = {1, 2, 3, 5}"
proof -
  have "owned small_state = {i. 1 \<le> i \<and> i < 8 \<and> alloc_bit (alloc_bitmap small_state) i}"
    by (auto simp: owned_def in_hole_def small_state_def)
  also have "\<dots> = {1, 2, 3, 5}" using small_state_bits by auto
  finally show ?thesis .
qed

text \<open>The same with everything taken and the bulk region behind page 4.\<close>

definition full_state :: mm where
  "full_state = small_state\<lparr>alloc_bitmap := [NOT 0], first_free_page := 8, first_bulk_page := 4,
     first_free_bulk_page := 8, num_free_pages := 0, num_free_bulk_pages := 0\<rparr>"

lemma full_state_bits: "i < 64 \<Longrightarrow> alloc_bit (alloc_bitmap full_state) i"
  by (simp add: full_state_def alloc_bit_def)

lemma full_state_ok: "mm_ok full_state" "\<not> mm_in_irq full_state" "memory_hole_list full_state = []"
  by (simp_all add: full_state_def small_state_def mm_ok_def in_hole_def)

lemma full_state_owned: "owned full_state = {1 ..< 8}"
  using full_state_bits by (auto simp: owned_def in_hole_def) (simp_all add: full_state_def small_state_def)



text \<open>
  C4: when the region a request searches first holds a run of \<open>n\<close> free pages, the request
  succeeds without growing, takes the lowest such run and exactly it, and counts it.
\<close>

theorem allocate_pages_first_fit:
  assumes "mm_ok s" and "\<not> mm_in_irq s" and "1 \<le> n"
    and "search_lo s (is_bulk (int n)) \<le> p0" and "p0 + n \<le> search_hi s (is_bulk (int n))"
    and "free_run (alloc_bitmap s) p0 n"
  shows "\<exists>p s'. allocate_pages env s (int n) = Some (Inr (4096 * p, s')) \<and> p \<le> p0 \<and>
           free_run (alloc_bitmap s) p n \<and>
           (\<forall>p'. search_lo s (is_bulk (int n)) \<le> p' \<and> p' < p \<longrightarrow> \<not> free_run (alloc_bitmap s) p' n) \<and>
           owned s' = owned s \<union> run p n \<and> run p n \<inter> owned s = {} \<and>
           num_free_pages s' = num_free_pages s - of_nat n"
proof -
  obtain p s' where "allocate_pages env s (int n) = Some (Inr (4096 * p, s'))"
    and p: "search_lo s (is_bulk (int n)) \<le> p" "free_run (alloc_bitmap s) p n"
      "\<forall>p'. search_lo s (is_bulk (int n)) \<le> p' \<and> p' < p \<longrightarrow> \<not> free_run (alloc_bitmap s) p' n"
    and "owned s' = owned s \<union> run p n" "num_free_pages s' = num_free_pages s - of_nat n"
    by (rule allocate_first_fit_aux [OF assms(1-3) refl assms(4-6), of env])
  moreover have "p \<le> p0" using p(3) assms(4,6) by (meson not_less)
  moreover have "run p n \<inter> owned s = {}"
    using p(2) by (auto simp: run_def free_run_def owned_def)
  ultimately show ?thesis using p by blast
qed

theorem allocate_pages_first_fit_witness:
  "\<exists>p s'. allocate_pages closed_env small_state (int 1) = Some (Inr (4096 * p, s')) \<and> p \<le> 4 \<and>
     free_run (alloc_bitmap small_state) p 1 \<and>
     (\<forall>p'. search_lo small_state (is_bulk (int 1)) \<le> p' \<and> p' < p \<longrightarrow>
        \<not> free_run (alloc_bitmap small_state) p' 1) \<and>
     owned s' = owned small_state \<union> run p 1 \<and> run p 1 \<inter> owned small_state = {} \<and>
     num_free_pages s' = num_free_pages small_state - of_nat 1"
proof (rule allocate_pages_first_fit [OF small_state_ok(1,2)])
  show "free_run (alloc_bitmap small_state) 4 1"
    unfolding free_run_def
  proof (intro allI impI)
    fix i :: nat assume "4 \<le> i \<and> i < 4 + 1"
    then have "i = 4" by simp
    then show "\<not> alloc_bit (alloc_bitmap small_state) i" by (simp add: small_state_bits)
  qed
qed (simp_all add: is_bulk_def bulk_allocation_def search_lo_def search_hi_def small_state_def)

text \<open>
  C5: \<open>deallocate_pages\<close> of an owned run succeeds and is the inverse of handing it out: exactly
  the run stops being owned, the bits of all other pages stay, and the free count grows by its
  length.
\<close>

theorem deallocate_pages_releases:
  assumes "mm_ok s" and "\<not> mm_in_irq s" and "1 \<le> n" and "n < 2 ^ 31"
    and "run p n \<subseteq> owned s"
  shows "\<exists>s'. deallocate_pages s (4096 * p) (int n) = Inr s' \<and> mm_ok s' \<and>
           owned s' = owned s - run p n \<and> free_run (alloc_bitmap s') p n \<and>
           num_free_pages s' = num_free_pages s + of_nat n"
proof -
  obtain s' where s': "deallocate_pages s (4096 * p) (int n) = Inr s'" "mm_ok s'"
      "owned s' = owned s - run p n" "num_free_pages s' = num_free_pages s + of_nat n"
    and bits: "\<forall>i < 64 * length (alloc_bitmap s). alloc_bit (alloc_bitmap s') i =
           (alloc_bit (alloc_bitmap s) i \<and> \<not> (p \<le> i \<and> i < p + n))"
    by (rule deallocate_pages_spec [OF assms])
  have "i < 64 * length (alloc_bitmap s)" if "i \<in> run p n" for i
    using that assms(1,5) by (force simp: owned_def mm_ok_def)
  with bits have "free_run (alloc_bitmap s') p n" by (auto simp: free_run_def run_def)
  with s' show ?thesis by blast
qed

theorem deallocate_pages_releases_witness:
  "\<exists>s'. deallocate_pages small_state (4096 * 1) (int 3) = Inr s' \<and> mm_ok s' \<and>
     owned s' = owned small_state - run 1 3 \<and> free_run (alloc_bitmap s') 1 3 \<and>
     num_free_pages s' = num_free_pages small_state + of_nat 3"
  by (rule deallocate_pages_releases [OF small_state_ok(1,2)])
     (auto simp: small_state_owned run_def)

text \<open>
  What is given back to the small region is found again: after \<open>n\<close> pages of the small
  region (\<open>n < 512\<close>) are freed, a request for \<open>n\<close> pages succeeds.
\<close>

theorem freed_small_run_reusable:
  assumes "mm_ok s" and "\<not> mm_in_irq s" and "1 \<le> n" and "n < 512"
    and "run p n \<subseteq> owned s" and "p + n \<le> first_bulk_page s"
  shows "\<exists>s' r s''. deallocate_pages s (4096 * p) (int n) = Inr s' \<and>
           allocate_pages env s' (int n) = Some (Inr (r, s'')) \<and> r \<noteq> 0"
proof -
  have n31: "n < 2 ^ 31" using assms(4) by simp
  obtain s' where s': "deallocate_pages s (4096 * p) (int n) = Inr s'" "mm_ok s'"
      "owned s' = owned s - run p n" "same_layout s s'"
    and ff: "first_free_page s' = (if n < 512 \<and> p < first_free_page s then p else first_free_page s)"
    and bits: "\<forall>i < 64 * length (alloc_bitmap s). alloc_bit (alloc_bitmap s') i =
           (alloc_bit (alloc_bitmap s) i \<and> \<not> (p \<le> i \<and> i < p + n))"
    by (rule deallocate_pages_spec [OF assms(1-3) n31 assms(5)])
  have "i < 64 * length (alloc_bitmap s)" if "i \<in> run p n" for i
    using that assms(1,5) by (force simp: owned_def mm_ok_def)
  with bits have f: "free_run (alloc_bitmap s') p n" by (auto simp: free_run_def run_def)
  have nb: "is_bulk (int n) = False" using assms(4) by (simp add: is_bulk_def bulk_allocation_def)
  obtain r s'' where r: "allocate_pages env s' (int n) = Some (Inr (4096 * r, s''))"
      "search_lo s' False \<le> r"
    by (rule allocate_first_fit_aux [of s' n False p env])
       (use s' f ff nb assms in \<open>auto simp: search_lo_def search_hi_def same_layout_def\<close>)
  have "r \<noteq> 0" using r(2) s'(2) by (auto simp: search_lo_def mm_ok_def)
  with r s'(1) show ?thesis by auto
qed

theorem freed_small_run_reusable_witness:
  "\<exists>s' r s''. deallocate_pages small_state (4096 * 1) (int 2) = Inr s' \<and>
     allocate_pages closed_env s' (int 2) = Some (Inr (r, s'')) \<and> r \<noteq> 0"
  by (rule freed_small_run_reusable [OF small_state_ok(1,2)])
     (auto simp: small_state_owned run_def, simp add: small_state_def)

text \<open>
  What falls back to the bulk region is lost when it is freed.  A small request that the
  full small region cannot serve is served from the bulk region; \<open>deallocate_pages\<close> decides by
  the size of the request and does not lower \<open>first_free_bulk_page\<close>, so once the search hint
  has passed the run, the run is free in the bitmap and a request for it still crashes.
\<close>

theorem freed_fallback_run_lost:
  assumes "mm_ok s" and "\<not> mm_in_irq s" and "1 \<le> n" and "n < 512"
    and "run p n \<subseteq> owned s" and "first_bulk_page s \<le> p" and "p + n \<le> first_free_bulk_page s"
    and "memory_hole_list s = []"
    and small: "\<forall>i < first_bulk_page s. alloc_bit (alloc_bitmap s) i"
    and bulk: "\<forall>i < end_alloc_page s. first_free_bulk_page s \<le> i \<longrightarrow> alloc_bit (alloc_bitmap s) i"
  shows "\<exists>s'. deallocate_pages s (4096 * p) (int n) = Inr s' \<and>
           free_run (alloc_bitmap s') p n \<and> p + n \<le> end_alloc_page s' \<and>
           allocate_pages env s' (int n) = Some (Inl Crash)"
proof -
  have n31: "n < 2 ^ 31" using assms(4) by simp
  obtain s' where s': "deallocate_pages s (4096 * p) (int n) = Inr s'" "mm_ok s'"
      "owned s' = owned s - run p n" "same_layout s s'"
    and fb: "first_free_bulk_page s' = (if 512 \<le> n \<and> p < first_free_bulk_page s then p else first_free_bulk_page s)"
    and bits: "\<forall>i < 64 * length (alloc_bitmap s). alloc_bit (alloc_bitmap s') i =
           (alloc_bit (alloc_bitmap s) i \<and> \<not> (p \<le> i \<and> i < p + n))"
    by (rule deallocate_pages_spec [OF assms(1-3) n31 assms(5)])
  have own: "first_alloc_page s \<le> i \<and> i < end_alloc_page s" if "i \<in> run p n" for i
    using that assms(5) by (auto simp: owned_def)
  have len: "end_alloc_page s < 64 * length (alloc_bitmap s)" "first_bulk_page s \<le> end_alloc_page s"
    using assms(1) by (auto simp: mm_ok_def)
  have f: "free_run (alloc_bitmap s') p n"
    using bits own len by (force simp: free_run_def run_def)
  have "p + n - 1 \<in> run p n" using assms(3) by (simp add: run_def)
  then have "p + n - 1 < end_alloc_page s" using own by blast
  then have pe: "p + n \<le> end_alloc_page s'"
    using s'(4) assms(3) unfolding same_layout_def by linarith
  have n1: "search_pass s' (int n) False = Inr None"
    using s'(2,4) small bits len assms(3,6)
    by (intro search_pass_none) (auto simp: search_lo_def search_hi_def same_layout_def free_run_def)
  have n2: "search_pass s' (int n) True = Inr None"
    using s'(2,4) bulk bits len assms(3,4,7) fb
    by (intro search_pass_none) (auto simp: search_lo_def search_hi_def same_layout_def free_run_def)
  have "allocate_pages env s' (int n) = Some (Inl Crash)"
    by (rule allocate_no_holes_fails [OF s'(2) _ assms(3,4) _ n1 n2])
       (use s'(4) assms(2,8) in \<open>auto simp: same_layout_def\<close>)
  with s' f pe show ?thesis by blast
qed

theorem freed_fallback_run_lost_witness:
  "\<exists>s'. deallocate_pages full_state (4096 * 5) (int 1) = Inr s' \<and>
     free_run (alloc_bitmap s') 5 1 \<and> 5 + 1 \<le> end_alloc_page s' \<and>
     allocate_pages closed_env s' (int 1) = Some (Inl Crash)"
proof (rule freed_fallback_run_lost [OF full_state_ok(1,2) _ _ _ _ _ full_state_ok(3)])
  show "run 5 1 \<subseteq> owned full_state" by (auto simp: full_state_owned run_def)
  show "\<forall>i < first_bulk_page full_state. alloc_bit (alloc_bitmap full_state) i"
    "\<forall>i < end_alloc_page full_state. first_free_bulk_page full_state \<le> i \<longrightarrow>
       alloc_bit (alloc_bitmap full_state) i"
    using full_state_ok(1) full_state_bits by (auto simp: mm_ok_def full_state_def small_state_def)
qed (simp_all add: full_state_def small_state_def)

text \<open>
  \<open>init_page_allocator\<close> establishes the invariant with every page from the end of the
  bitmap up to \<open>max_pfn\<close> free, exactly when the bitmap it lays out covers these pages.  The
  bitmap gets \<open>max_reservation div 32768\<close> pages, rounded down: a reservation below 32768 pages
  (128 MB) gets none, and the initial \<open>map_free\<close> writes outside it.
\<close>

theorem init_page_allocator_covers:
  assumes "0 < min_pfn" and "memory_hole_list s = []"
  shows "case init_page_allocator max_reservation min_pfn max_pfn s of
           Inl f \<Rightarrow> f = Undef \<and>
             (max_pfn < min_pfn + max_reservation div 32768 \<or>
              512 * (max_reservation div 32768) \<le> max_pfn div 64)
         | Inr s' \<Rightarrow> mm_ok s' \<and> owned s' = {} \<and>
             first_alloc_page s' = min_pfn + max_reservation div 32768 \<and>
             end_alloc_page s' = max_pfn \<and>
             free_run (alloc_bitmap s') (first_alloc_page s') (max_pfn - first_alloc_page s') \<and>
             num_free_pages s' = of_nat (max_pfn - first_alloc_page s')"
proof -
  define k where "k = max_reservation div 32768"
  let ?b = "replicate (k * 512) (NOT 0 :: u64)" and ?f = "min_pfn + k"
  consider "max_pfn < ?f" | "?f \<le> max_pfn" "512 * k \<le> max_pfn div 64"
    | "?f \<le> max_pfn" "max_pfn div 64 < 512 * k" by linarith
  then show ?thesis
  proof cases
    case 1
    then show ?thesis by (simp add: init_page_allocator_def bits_per_page_def k_def Let_def)
  next
    case 2
    then have "map_free ?b ?f (max_pfn - ?f) = Inl Undef"
      by (intro map_free_out) simp
    with 2 show ?thesis by (simp add: init_page_allocator_def bits_per_page_def k_def Let_def)
  next
    case 3
    then have lt: "max_pfn < 64 * (512 * k)" by (simp add: div_less_iff_less_mult mult.commute)
    obtain m where m: "map_free ?b ?f (max_pfn - ?f) = Inr m" "length m = k * 512"
      and bits: "\<forall>i < 64 * (k * 512). alloc_bit m i =
        (alloc_bit ?b i \<and> \<not> (?f \<le> i \<and> i < ?f + (max_pfn - ?f)))"
      using map_free_spec [of ?f "max_pfn - ?f" ?b] 3 by (auto simp: mult.commute)
    have fr: "\<not> alloc_bit m i" if "?f \<le> i" "i < max_pfn" for i
      using bits that lt by auto
    show ?thesis
      using m 3(1) lt fr assms
      by (auto simp: init_page_allocator_def bits_per_page_def Let_def k_def [symmetric]
          mm_ok_def owned_def in_hole_def free_run_def of_nat_diff)
  qed
qed

theorem init_page_allocator_covers_witness:
  "case init_page_allocator 32768 3 64 small_state of
           Inl f \<Rightarrow> f = Undef \<and>
             ((64 :: nat) < 3 + 32768 div 32768 \<or> (512 :: nat) * (32768 div 32768) \<le> 64 div 64)
         | Inr s' \<Rightarrow> mm_ok s' \<and> owned s' = {} \<and>
             first_alloc_page s' = 3 + 32768 div 32768 \<and> end_alloc_page s' = 64 \<and>
             free_run (alloc_bitmap s') (first_alloc_page s') (64 - first_alloc_page s') \<and>
             num_free_pages s' = of_nat (64 - first_alloc_page s')"
  by (rule init_page_allocator_covers) (simp_all add: small_state_ok)

end
