(* ===== verification/Xmalloc.thy ===== *)
theory Xmalloc
  imports Page_Alloc
begin

text \<open>
  The heap of \<^verbatim>\<open>lib/xmalloc.c\<close>.  Memory is handed out in blocks, each with a header in front
  of it; blocks below a page are cut from single pages and kept, when free, in \<^verbatim>\<open>freelist\<close>,
  larger ones are whole pages.

  A header is named by its address.  \<open>hdr_at\<close> is the memory read as headers: the size and
  whether the list pointers are set (\<^verbatim>\<open>freelist.next || freelist.prev\<close>).  The list
  \<^verbatim>\<open>freelist\<close> is the sequence of headers that \<^verbatim>\<open>list_for_each_entry\<close> visits (\<open>Klist\<close> shows
  that the list macros maintain such a sequence).  \<open>bytes\<close> is the memory the clients use.

  The heap is a client of the page allocator.  The two functions it calls are arguments of
  its operations, so that its lemmas are proved once for every \<open>page_provider\<close>.
\<close>

section \<open>64-bit sizes\<close>

definition wadd :: "nat \<Rightarrow> nat \<Rightarrow> nat" where
  "wadd a b = (a + b) mod 2 ^ 64"

definition wsub :: "nat \<Rightarrow> nat \<Rightarrow> nat" where
  "wsub a b = (a + 2 ^ 64 - b) mod 2 ^ 64"

definition wmul :: "nat \<Rightarrow> nat \<Rightarrow> nat" where
  "wmul a b = (a * b) mod 2 ^ 64"

text \<open>Conversion of a \<^verbatim>\<open>size_t\<close> to \<^verbatim>\<open>int\<close>.\<close>

definition to_int32 :: "nat \<Rightarrow> int" where
  "to_int32 x = (int x + 2 ^ 31) mod 2 ^ 32 - 2 ^ 31"

definition align_up :: "nat \<Rightarrow> nat \<Rightarrow> nat" where
  "align_up sz align = unat ((of_nat sz + of_nat align - 1 :: u64) AND NOT (of_nat align - 1))"

definition page_size :: nat where
  "page_size = 4096"

section \<open>The heap\<close>

record xmalloc_hdr =
  hdr_size :: nat
  linked :: bool

record 's xheap =
  hdr_at :: "nat \<Rightarrow> xmalloc_hdr"
  freelist :: "nat list"
  bytes :: "nat \<Rightarrow> u8"
  page_state :: 's
  xm_in_irq :: bool

definition hdr_bytes :: nat where
  "hdr_bytes = 24"

definition hdr_align :: nat where
  "hdr_align = 8"

definition set_hdr :: "'s xheap \<Rightarrow> nat \<Rightarrow> nat \<Rightarrow> bool \<Rightarrow> 's xheap" where
  "set_hdr h a sz l = h\<lparr>hdr_at := (hdr_at h)(a := \<lparr>hdr_size = sz, linked = l\<rparr>)\<rparr>"

definition maybe_split :: "'s xheap \<Rightarrow> nat \<Rightarrow> nat \<Rightarrow> nat \<Rightarrow> 's xheap" where
  "maybe_split h hdr sz block =
     (let leftover = wsub block sz in
      if leftover \<ge> 2 * hdr_bytes then
        let extra = hdr + sz;
            h1 = set_hdr h extra leftover True;
            h2 = h1\<lparr>freelist := extra # freelist h1\<rparr>
        in set_hdr h2 hdr sz False
      else set_hdr h hdr block False)"

definition xmalloc_new_page ::
  "('e \<Rightarrow> 's \<Rightarrow> int \<Rightarrow> (nat \<times> 's) res option) \<Rightarrow> 'e \<Rightarrow> 's xheap \<Rightarrow> nat \<Rightarrow> (nat \<times> 's xheap) res option" where
  "xmalloc_new_page alloc e h sz =
     (case alloc e (page_state h) 1 of
        None \<Rightarrow> None
      | Some (Inl f) \<Rightarrow> Some (Inl f)
      | Some (Inr (hdr, s)) \<Rightarrow>
          let h1 = h\<lparr>page_state := s\<rparr> in
          if hdr = 0 then Some (Inr (0, h1))
          else Some (Inr (hdr + hdr_bytes, maybe_split h1 hdr sz page_size)))"

definition xmalloc_whole_pages ::
  "('e \<Rightarrow> 's \<Rightarrow> int \<Rightarrow> (nat \<times> 's) res option) \<Rightarrow> 'e \<Rightarrow> 's xheap \<Rightarrow> nat \<Rightarrow> (nat \<times> 's xheap) res option" where
  "xmalloc_whole_pages alloc e h sz =
     (let asize = align_up sz page_size in
      case alloc e (page_state h) (to_int32 (asize div page_size)) of
        None \<Rightarrow> None
      | Some (Inl f) \<Rightarrow> Some (Inl f)
      | Some (Inr (hdr, s)) \<Rightarrow>
          let h1 = h\<lparr>page_state := s\<rparr> in
          if hdr = 0 then Some (Inr (0, h1))
          else Some (Inr (hdr + hdr_bytes, set_hdr h1 hdr asize False)))"

text \<open>
  \<open>xmalloc_align\<close>: the first free block that is large enough, cut if enough is left over, or a
  new page.  The parameter \<^verbatim>\<open>align\<close> is not used by the code.
\<close>

definition xmalloc_align ::
  "('e \<Rightarrow> 's \<Rightarrow> int \<Rightarrow> (nat \<times> 's) res option) \<Rightarrow> 'e \<Rightarrow> 's xheap \<Rightarrow> nat \<Rightarrow> nat \<Rightarrow> (nat \<times> 's xheap) res option" where
  "xmalloc_align alloc e h asize align =
     (if xm_in_irq h then Some (Inl Bug)
      else
        let sz = align_up (wadd asize hdr_bytes) hdr_align in
        if sz \<ge> page_size then xmalloc_whole_pages alloc e h sz
        else case find (\<lambda>i. sz \<le> hdr_size (hdr_at h i)) (freelist h) of
            Some i \<Rightarrow>
              let h1 = h\<lparr>freelist := remove1 i (freelist h)\<rparr>
              in Some (Inr (i + hdr_bytes, maybe_split h1 i sz (hdr_size (hdr_at h i))))
          | None \<Rightarrow> xmalloc_new_page alloc e h sz)"

text \<open>\<^verbatim>\<open>((_i ^ _hdr) & PAGE_MASK) == 0\<close>\<close>

definition same_page :: "nat \<Rightarrow> nat \<Rightarrow> bool" where
  "same_page a b = (drop_bit 12 (a XOR b) = 0)"

text \<open>
  The loop of \<open>xfree\<close>, over the nodes still to visit.  Both comparisons read the address of the
  header before the loop body changes it.
\<close>

fun coalesce :: "'s xheap \<Rightarrow> nat \<Rightarrow> nat list \<Rightarrow> 's xheap \<times> nat" where
  "coalesce h hdr [] = (h, hdr)"
| "coalesce h hdr (i # is) =
     (if \<not> same_page i hdr then coalesce h hdr is
      else
        let (h1, hdr1) =
              (if i + hdr_size (hdr_at h i) = hdr then
                 (set_hdr (h\<lparr>freelist := remove1 i (freelist h)\<rparr>) i
                    (wadd (hdr_size (hdr_at h i)) (hdr_size (hdr_at h hdr))) (linked (hdr_at h i)), i)
               else (h, hdr));
            h2 =
              (if hdr + hdr_size (hdr_at h1 hdr1) = i then
                 set_hdr (h1\<lparr>freelist := remove1 i (freelist h1)\<rparr>) hdr1
                   (wadd (hdr_size (hdr_at h1 hdr1)) (hdr_size (hdr_at h1 i))) (linked (hdr_at h1 hdr1))
               else h1)
        in coalesce h2 hdr1 is)"

definition xfree :: "('s \<Rightarrow> nat \<Rightarrow> int \<Rightarrow> 's res) \<Rightarrow> 's xheap \<Rightarrow> nat \<Rightarrow> 's xheap res" where
  "xfree free h p =
     bug_on (xm_in_irq h)
       (if p = 0 then Inr h
        else
          let hdr = p - hdr_bytes in
          if \<not> same_page p hdr then Inl Undef
          else if linked (hdr_at h hdr) then Inr h
          else if hdr_size (hdr_at h hdr) \<ge> page_size then
            rbind (free (page_state h) hdr (to_int32 (hdr_size (hdr_at h hdr) div page_size))) (\<lambda>s.
              Inr (h\<lparr>page_state := s\<rparr>))
          else
            let (h1, hdr1) = coalesce h hdr (freelist h) in
            if hdr_size (hdr_at h1 hdr1) = page_size then
              if hdr1 mod page_size \<noteq> 0 then Inl Undef
              else rbind (free (page_state h1) hdr1 1) (\<lambda>s. Inr (h1\<lparr>page_state := s\<rparr>))
            else
              Inr (set_hdr (h1\<lparr>freelist := hdr1 # freelist h1\<rparr>) hdr1 (hdr_size (hdr_at h1 hdr1)) True))"

text \<open>\<^verbatim>\<open>memcpy\<close> and \<^verbatim>\<open>memset\<close> on the clients' memory, between regions that do not overlap.\<close>

definition copy_bytes :: "'s xheap \<Rightarrow> nat \<Rightarrow> nat \<Rightarrow> nat \<Rightarrow> 's xheap" where
  "copy_bytes h dst src n =
     h\<lparr>bytes := (\<lambda>a. if dst \<le> a \<and> a < dst + n then bytes h (src + (a - dst)) else bytes h a)\<rparr>"

definition fill_bytes :: "'s xheap \<Rightarrow> nat \<Rightarrow> u8 \<Rightarrow> nat \<Rightarrow> 's xheap" where
  "fill_bytes h dst v n = h\<lparr>bytes := (\<lambda>a. if dst \<le> a \<and> a < dst + n then v else bytes h a)\<rparr>"

text \<open>
  \<open>xrealloc\<close> and \<open>xmalloc_at\<close> copy into the new block without a look at the result: when it is
  null and there is something to copy, that is a write through null.
\<close>

definition xrealloc ::
  "('e \<Rightarrow> 's \<Rightarrow> int \<Rightarrow> (nat \<times> 's) res option) \<Rightarrow> ('s \<Rightarrow> nat \<Rightarrow> int \<Rightarrow> 's res) \<Rightarrow> 'e \<Rightarrow> 's xheap \<Rightarrow>
   nat \<Rightarrow> nat \<Rightarrow> nat \<Rightarrow> (nat \<times> 's xheap) res option" where
  "xrealloc alloc free e h p sz align =
     (if xm_in_irq h then Some (Inl Bug)
      else if p = 0 then xmalloc_align alloc e h sz align
      else
        let psize = to_int32 (wsub (hdr_size (hdr_at h (p - hdr_bytes))) hdr_bytes) in
        if unsigned_long psize \<ge> sz then Some (Inr (p, h))
        else case xmalloc_align alloc e h sz align of
            None \<Rightarrow> None
          | Some (Inl f) \<Rightarrow> Some (Inl f)
          | Some (Inr (result, h1)) \<Rightarrow>
              if result = 0 \<and> psize \<noteq> 0 then Some (Inl Undef)
              else Some (rbind (xfree free (copy_bytes h1 result p (unsigned_long psize)) p)
                     (\<lambda>h2. Inr (result, h2))))"

definition xmalloc_at ::
  "('e \<Rightarrow> 's \<Rightarrow> int \<Rightarrow> (nat \<times> 's) res option) \<Rightarrow> ('s \<Rightarrow> nat \<Rightarrow> int \<Rightarrow> 's res) \<Rightarrow> 'e \<Rightarrow> 's xheap \<Rightarrow>
   nat \<Rightarrow> nat \<Rightarrow> (nat \<times> 's xheap) res option" where
  "xmalloc_at alloc free e h p sz =
     (if xm_in_irq h then Some (Inl Bug)
      else if p = 0 then xmalloc_align alloc e h sz 8
      else
        let p_size = to_int32 (wsub (hdr_size (hdr_at h (p - hdr_bytes))) hdr_bytes) in
        if unsigned_long p_size \<ge> sz then Some (Inr (p, h))
        else case xmalloc_align alloc e h sz 8 of
            None \<Rightarrow> None
          | Some (Inl f) \<Rightarrow> Some (Inl f)
          | Some (Inr (result, h1)) \<Rightarrow>
              if result = 0 \<and> p_size \<noteq> 0 then Some (Inl Undef)
              else Some (rbind (xfree free (copy_bytes h1 result p (unsigned_long p_size)) p)
                     (\<lambda>h2. Inr (result, h2))))"

definition xcalloc ::
  "('e \<Rightarrow> 's \<Rightarrow> int \<Rightarrow> (nat \<times> 's) res option) \<Rightarrow> 'e \<Rightarrow> 's xheap \<Rightarrow> nat \<Rightarrow> nat \<Rightarrow> (nat \<times> 's xheap) res option" where
  "xcalloc alloc e h n sz =
     (let total = wmul sz n in
      case xmalloc_align alloc e h total 8 of
        None \<Rightarrow> None
      | Some (Inl f) \<Rightarrow> Some (Inl f)
      | Some (Inr (x, h1)) \<Rightarrow>
          if x \<noteq> 0 then Some (Inr (x, fill_bytes h1 x 0 total)) else Some (Inr (x, h1)))"

definition xmalloc_array_align ::
  "('e \<Rightarrow> 's \<Rightarrow> int \<Rightarrow> (nat \<times> 's) res option) \<Rightarrow> 'e \<Rightarrow> 's xheap \<Rightarrow> nat \<Rightarrow> nat \<Rightarrow> nat \<Rightarrow> (nat \<times> 's xheap) res option" where
  "xmalloc_array_align alloc e h sz align num =
     (if sz \<noteq> 0 \<and> num > (2 ^ 32 - 1) div sz then Some (Inr (0, h))
      else xmalloc_align alloc e h (wmul sz num) align)"

text \<open>\<^verbatim>\<open>get_order\<close> of \<^verbatim>\<open>include/os/mm.h\<close> and its user.\<close>

function order_loop :: "nat \<Rightarrow> nat \<Rightarrow> nat" where
  "order_loop sz order = (if sz = 0 then order else order_loop (drop_bit 1 sz) (order + 1))"
  by pat_completeness auto
termination
  by (relation "measure fst") (auto simp: drop_bit_eq_div)

declare order_loop.simps [simp del]

definition get_order :: "nat \<Rightarrow> nat" where
  "get_order sz = order_loop (drop_bit page_shift (wsub sz 1)) 0"

definition xfree_at :: "('s \<Rightarrow> nat \<Rightarrow> int \<Rightarrow> 's res) \<Rightarrow> 's xheap \<Rightarrow> nat \<Rightarrow> nat \<Rightarrow> 's xheap res" where
  "xfree_at free h start len =
     rbind (free (page_state h) start (push_bit (get_order len) 1)) (\<lambda>s. Inr (h\<lparr>page_state := s\<rparr>))"

section \<open>Arithmetic\<close>

lemma unat_and_not_mask: "unat (w AND NOT (mask k)) = 2 ^ k * (unat w div 2 ^ k)" for w :: u64
proof -
  have "unat (w AND NOT (mask k)) = push_bit k (drop_bit k (unat w))"
    by (rule bit_eqI) (auto simp: bit_simps dest: bit_imp_le_length)
  then show ?thesis by (simp add: push_bit_eq_mult drop_bit_eq_div mult.commute)
qed

lemma align_mask: "unat ((of_nat m :: u64) AND NOT (mask k)) = 2 ^ k * (m div 2 ^ k)" if "m < 2 ^ 64"
  using that by (simp add: unat_and_not_mask unsigned_of_nat take_bit_eq_mod)

lemma align_up_8: "n + 7 < 2 ^ 64 \<Longrightarrow> align_up n 8 = 8 * ((n + 7) div 8)"
  using align_mask [of "n + 7" 3] by (simp add: align_up_def mask_eq_exp_minus_1 add.commute)

lemma align_up_4096: "n + 4095 < 2 ^ 64 \<Longrightarrow> align_up n 4096 = 4096 * ((n + 4095) div 4096)"
  using align_mask [of "n + 4095" 12] by (simp add: align_up_def mask_eq_exp_minus_1 add.commute)

lemma same_page_eq: "same_page a b = (a div 4096 = b div 4096)"
proof -
  have "drop_bit 12 (a XOR b) = drop_bit 12 a XOR drop_bit 12 b" by (simp add: drop_bit_xor)
  moreover have "(x XOR y = 0) = (x = y)" for x y :: nat
    by (auto simp: bit_eq_iff bit_xor_iff)
  ultimately show ?thesis by (simp add: same_page_def drop_bit_eq_div)
qed

lemma wadd_eq: "a + b < 2 ^ 64 \<Longrightarrow> wadd a b = a + b"
  by (simp add: wadd_def)

lemma wsub_eq: "b \<le> a \<Longrightarrow> a < 2 ^ 64 \<Longrightarrow> wsub a b = a - b"
proof -
  assume "b \<le> a" "a < 2 ^ 64"
  then have "a + 2 ^ 64 - b = (a - b) + 2 ^ 64" "a - b < 2 ^ 64" by simp_all
  then show ?thesis unfolding wsub_def by (metis mod_add_self2 mod_less)
qed

lemma to_int32_eq: "x < 2 ^ 31 \<Longrightarrow> to_int32 x = int x"
  by (simp add: to_int32_def)

section \<open>Blocks\<close>

text \<open>
  The geometry of the heap: the blocks \<open>B\<close> (header addresses) with sizes \<open>sz\<close>, inside the pages
  \<open>K\<close> the heap holds.  Blocks are aligned, do not overlap, lie within one page or cover whole
  pages, and every page that has a block is covered by blocks.
\<close>

definition blk :: "(nat \<Rightarrow> nat) \<Rightarrow> nat \<Rightarrow> nat set" where
  "blk sz a = {a ..< a + sz a}"

definition block_ok :: "nat set \<Rightarrow> (nat \<Rightarrow> nat) \<Rightarrow> nat \<Rightarrow> bool" where
  "block_ok K sz a =
     (8 dvd a \<and> 8 dvd sz a \<and> 24 \<le> sz a \<and> a mod 4096 + 24 < 4096 \<and>
      (a mod 4096 + sz a \<le> 4096 \<or> a mod 4096 = 0 \<and> 4096 dvd sz a) \<and>
      (\<forall>x \<in> blk sz a. x div 4096 \<in> K))"

definition cover :: "(nat \<Rightarrow> nat) \<Rightarrow> nat set \<Rightarrow> nat set" where
  "cover sz B = (\<Union>b \<in> B. blk sz b)"

definition geom :: "nat set \<Rightarrow> (nat \<Rightarrow> nat) \<Rightarrow> nat set \<Rightarrow> bool" where
  "geom K sz B =
     ((\<forall>a \<in> B. block_ok K sz a) \<and>
      (\<forall>a \<in> B. \<forall>b \<in> B. a \<noteq> b \<longrightarrow> blk sz a \<inter> blk sz b = {}) \<and>
      (\<forall>a \<in> B. \<forall>x. x div 4096 = a div 4096 \<longrightarrow> x \<in> cover sz B))"

lemma geom_block: "geom K sz B \<Longrightarrow> a \<in> B \<Longrightarrow> block_ok K sz a"
  by (simp add: geom_def)

lemma geom_start: "geom K sz B \<Longrightarrow> a \<in> B \<Longrightarrow> a \<in> blk sz a"
  using geom_block [of K sz B a] by (auto simp: block_ok_def blk_def)

lemma geom_unique: "geom K sz B \<Longrightarrow> a \<in> B \<Longrightarrow> b \<in> B \<Longrightarrow> x \<in> blk sz a \<Longrightarrow> x \<in> blk sz b \<Longrightarrow> a = b"
  unfolding geom_def by blast

lemma div_same_page: "(a + k) div 4096 = a div 4096" if "a mod 4096 + k < 4096" for a :: nat
proof -
  have "a + k = 4096 * (a div 4096) + (a mod 4096 + k)" by simp
  then have "(a + k) div 4096 = a div 4096 + (a mod 4096 + k) div 4096"
    by (metis div_mult_self2 add.commute zero_neq_numeral)
  with that show ?thesis by simp
qed

lemma mod_same_page: "(a + k) mod 4096 = a mod 4096 + k" if "a mod 4096 + k < 4096" for a :: nat
  using that by (metis mod_add_left_eq mod_less)

text \<open>Cutting a block that lies within a page.\<close>

lemma geom_split:
  assumes g: "geom K sz B" and a: "a \<in> B" and pg: "a mod 4096 + sz a \<le> 4096"
    and s: "8 dvd s" "24 \<le> s" "s + 48 \<le> sz a"
  shows "geom K (sz(a := s, a + s := sz a - s)) (insert (a + s) B)" and "a + s \<notin> B"
    and "cover (sz(a := s, a + s := sz a - s)) (insert (a + s) B) = cover sz B"
proof -
  let ?sz = "sz(a := s, a + s := sz a - s)" and ?e = "a + s"
  have bo: "block_ok K sz a" using geom_block [OF g a] .
  have ea: "?e \<in> blk sz a" using s by (simp add: blk_def)
  show nB: "?e \<notin> B"
  proof
    assume "?e \<in> B"
    then have "?e = a" using geom_unique [OF g _ a geom_start [OF g]] ea by blast
    with s show False by simp
  qed
  have ba: "blk ?sz a = {a ..< a + s}" "blk ?sz ?e = {a + s ..< a + sz a}"
    using s by (auto simp: blk_def)
  have bb: "blk ?sz b = blk sz b" if "b \<in> B" "b \<noteq> a" for b
    using that nB by (auto simp: blk_def)
  have un: "blk ?sz a \<union> blk ?sz ?e = blk sz a" using s by (auto simp: ba blk_def)
  show cov: "cover ?sz (insert ?e B) = cover sz B"
  proof -
    have "cover ?sz (insert ?e B) = blk ?sz ?e \<union> blk ?sz a \<union> (\<Union>b \<in> B - {a}. blk ?sz b)"
      using a by (auto simp: cover_def)
    also have "\<dots> = blk sz a \<union> (\<Union>b \<in> B - {a}. blk sz b)" using un bb by auto
    also have "\<dots> = cover sz B" using a by (auto simp: cover_def)
    finally show ?thesis .
  qed
  have ep: "?e div 4096 = a div 4096" "?e mod 4096 = a mod 4096 + s"
    using pg s by (intro div_same_page mod_same_page; linarith)+
  have okb: "block_ok K ?sz b" if inB: "b \<in> insert ?e B" for b
  proof -
    consider "b = ?e" | "b = a" | "b \<in> B" "b \<noteq> a" "b \<noteq> ?e" using inB nB by blast
    then show ?thesis
    proof cases
      case 1
      with bo s ep un pg nB a show ?thesis by (auto simp: block_ok_def)
    next
      case 2
      with bo s un pg show ?thesis by (auto simp: block_ok_def)
    next
      case 3
      with geom_block [OF g 3(1)] bb [OF 3(1,2)] show ?thesis by (auto simp: block_ok_def)
    qed
  qed
  have dj: "blk ?sz b \<inter> blk ?sz c = {}" if "b \<in> insert ?e B" "c \<in> insert ?e B" "b \<noteq> c" for b c
  proof -
    have o: "blk sz b \<inter> blk sz c = {}" if "b \<in> B" "c \<in> B" "b \<noteq> c" for b c
      using g that by (simp add: geom_def)
    have sub: "blk ?sz a \<subseteq> blk sz a" "blk ?sz ?e \<subseteq> blk sz a" using un by auto
    have ae: "blk ?sz a \<inter> blk ?sz ?e = {}" by (auto simp: ba)
    have x: "blk ?sz b \<inter> blk ?sz a = {}" "blk ?sz b \<inter> blk ?sz ?e = {}" if "b \<in> B" "b \<noteq> a" for b
      using o [OF that(1) a that(2)] sub bb [OF that] by auto
    show ?thesis
      using that ae x o bb nB a
      by (cases "b = ?e"; cases "c = ?e"; cases "b = a"; cases "c = a") (auto simp: Int_commute)
  qed
  show "geom K ?sz (insert ?e B)"
    unfolding geom_def cov using okb dj g a ep(1) by (auto simp: geom_def)
qed

text \<open>Joining two neighbours within a page.\<close>

lemma geom_merge:
  assumes g: "geom K sz B" and a: "a \<in> B" and b: "a + sz a \<in> B"
    and pg: "(a + sz a) div 4096 = a div 4096"
  shows "geom K (sz(a := sz a + sz (a + sz a))) (B - {a + sz a})"
    and "cover (sz(a := sz a + sz (a + sz a))) (B - {a + sz a}) = cover sz B"
    and "a mod 4096 + (sz a + sz (a + sz a)) \<le> 4096"
proof -
  let ?b = "a + sz a"
  let ?sz = "sz(a := sz a + sz ?b)"
  have bo: "block_ok K sz a" "block_ok K sz ?b" using geom_block [OF g] a b by auto
  then have ne: "?b \<noteq> a" by (auto simp: block_ok_def)
  have nz: "?b mod 4096 \<noteq> 0"
  proof
    assume "?b mod 4096 = 0"
    then have "?b = 4096 * (a div 4096)" using pg by (metis mult_div_mod_eq add_0_right)
    then show False using bo by (auto simp: block_ok_def) 
  qed
  have za: "a mod 4096 + sz a < 4096"
  proof -
    have "a mod 4096 + sz a = ?b - 4096 * (a div 4096)"
      using mult_div_mod_eq [of 4096 a] by linarith
    also have "\<dots> = ?b mod 4096" using pg by (metis minus_mult_div_eq_mod)
    also have "\<dots> < 4096" by simp
    finally show ?thesis .
  qed
  have zb: "?b mod 4096 = a mod 4096 + sz a" using za by (rule mod_same_page)
  show fit: "a mod 4096 + (sz a + sz ?b) \<le> 4096"
  proof -
    have "?b mod 4096 + sz ?b \<le> 4096" using bo(2) nz unfolding block_ok_def by blast
    with zb show ?thesis by linarith
  qed
  have ba: "blk ?sz a = blk sz a \<union> blk sz ?b" by (auto simp: blk_def)
  have bc: "blk ?sz c = blk sz c" if "c \<noteq> a" for c using that by (simp add: blk_def)
  show cov: "cover ?sz (B - {?b}) = cover sz B"
  proof -
    have "cover ?sz (B - {?b}) = blk ?sz a \<union> (\<Union>c \<in> B - {a, ?b}. blk ?sz c)"
      using a ne by (auto simp: cover_def)
    also have "\<dots> = blk sz a \<union> blk sz ?b \<union> (\<Union>c \<in> B - {a, ?b}. blk sz c)" using ba bc by auto
    also have "\<dots> = cover sz B" using a b by (auto simp: cover_def)
    finally show ?thesis .
  qed
  have okc: "block_ok K ?sz c" if "c \<in> B" for c
    using geom_block [OF g that] bo fit ba by (auto simp: block_ok_def bc)
  have o: "blk sz c \<inter> blk sz d = {}" if "c \<in> B" "d \<in> B" "c \<noteq> d" for c d
    using g that by (simp add: geom_def)
  have x: "blk sz c \<inter> blk ?sz a = {}" if "c \<in> B - {?b}" "c \<noteq> a" for c
    using that o [of c a] o [of c ?b] a b ba by auto
  have dj: "blk ?sz c \<inter> blk ?sz d = {}" if "c \<in> B - {?b}" "d \<in> B - {?b}" "c \<noteq> d" for c d
    using that x o bc by (cases "c = a"; cases "d = a") (auto simp: Int_commute)
  show "geom K ?sz (B - {?b})"
    unfolding geom_def cov using okc dj g by (auto simp: geom_def)
qed

text \<open>A run of new pages becomes one block; a block of whole pages goes away.\<close>

lemma geom_cong:
  assumes "geom K sz B" and "K \<subseteq> K'" and "\<And>a. a \<in> B \<Longrightarrow> sz' a = sz a"
  shows "geom K' sz' B"
proof -
  have b: "blk sz' a = blk sz a" if "a \<in> B" for a using assms(3) that by (simp add: blk_def)
  then have c: "cover sz' B = cover sz B" by (auto simp: cover_def)
  show ?thesis unfolding geom_def c using assms b by (auto simp: geom_def block_ok_def)
qed

lemma run_div: "x \<in> {a ..< a + 4096 * n} \<longleftrightarrow> x div 4096 \<in> run (a div 4096) n" if "a mod 4096 = 0"
proof -
  have "a = 4096 * (a div 4096)" using that by (metis mult_div_mod_eq add_0_right)
  then obtain p where p: "a = 4096 * p" by blast
  have "4096 * p \<le> x \<longleftrightarrow> p \<le> x div 4096"
    by (simp add: less_eq_div_iff_mult_less_eq mult.commute)
  moreover have "x < 4096 * p + 4096 * n \<longleftrightarrow> x div 4096 < p + n"
    by (simp add: div_less_iff_less_mult mult.commute distrib_left)
  ultimately show ?thesis by (auto simp: p run_def)
qed

lemma geom_add_pages:
  assumes g: "geom K sz B" and r: "r mod 4096 = 0" and n: "n \<ge> 1"
    and new: "run (r div 4096) n \<inter> K = {}"
  shows "geom (K \<union> run (r div 4096) n) (sz(r := 4096 * n)) (insert r B)" and "r \<notin> B"
proof -
  let ?sz = "sz(r := 4096 * n)" and ?K = "K \<union> run (r div 4096) n"
  have br: "x \<in> blk ?sz r \<longleftrightarrow> x div 4096 \<in> run (r div 4096) n" for x
    using run_div [OF r, of x n] by (simp add: blk_def)
  have old: "x div 4096 \<in> K" if "x \<in> cover sz B" for x
    using that g by (auto simp: cover_def geom_def block_ok_def)
  have rr: "r \<in> blk ?sz r" using n by (simp add: blk_def)
  show nB: "r \<notin> B"
  proof
    assume "r \<in> B"
    then have "r div 4096 \<in> K" using old geom_start [OF g] by (auto simp: cover_def)
    with new br rr show False by blast
  qed
  have g': "geom ?K ?sz B" by (rule geom_cong [OF g]) (use nB in auto)
  have "blk ?sz b = blk sz b" if "b \<in> B" for b using that nB by (auto simp: blk_def)
  then have cB: "cover ?sz B = cover sz B" by (auto simp: cover_def)
  have dj: "blk ?sz r \<inter> blk ?sz b = {}" if "b \<in> B" for b
  proof -
    have "blk ?sz b \<subseteq> cover sz B" using that cB by (auto simp: cover_def)
    with old new br show ?thesis by blast
  qed
  have ok: "block_ok ?K ?sz r"
    using r n br by (auto simp: block_ok_def intro: dvd_trans [of 8 4096])
  have tile: "x \<in> cover ?sz (insert r B)" if "x div 4096 = a div 4096" "a \<in> insert r B" for x a
  proof (cases "a = r")
    case True
    then show ?thesis using that(1) br rr by (auto simp: cover_def)
  next
    case False
    then have "x \<in> cover ?sz B" using that g' by (auto simp: geom_def)
    then show ?thesis by (auto simp: cover_def)
  qed
  show "geom ?K ?sz (insert r B)"
    unfolding geom_def
  proof (intro conjI ballI allI impI)
    fix a assume "a \<in> insert r B"
    then show "block_ok ?K ?sz a" using ok geom_block [OF g'] by blast
  next
    fix a b assume "a \<in> insert r B" "b \<in> insert r B" "a \<noteq> b"
    then show "blk ?sz a \<inter> blk ?sz b = {}"
      using dj g' unfolding geom_def by (metis Int_commute insert_iff)
  next
    fix a x assume "a \<in> insert r B" "x div 4096 = a div 4096"
    then show "x \<in> cover ?sz (insert r B)" using tile by blast
  qed
qed

lemma geom_remove_pages:
  assumes g: "geom K sz B" and a: "a \<in> B" and r: "a mod 4096 = 0" and n: "sz a = 4096 * n"
  shows "geom (K - run (a div 4096) n) sz (B - {a})"
proof -
  have br: "x \<in> blk sz a \<longleftrightarrow> x div 4096 \<in> run (a div 4096) n" for x
    using run_div [OF r, of x n] by (simp add: blk_def n)
  have dj: "blk sz b \<inter> blk sz a = {}" if "b \<in> B - {a}" for b
    using g a that by (auto simp: geom_def)
  have out: "x div 4096 \<notin> run (a div 4096) n" if "b \<in> B - {a}" "x \<in> blk sz b" for x b
    using dj [OF that(1)] that(2) br by blast
  have ok: "block_ok (K - run (a div 4096) n) sz b" if "b \<in> B - {a}" for b
    using geom_block [OF g, of b] out [OF that] that by (auto simp: block_ok_def)
  have tile: "x \<in> cover sz (B - {a})" if "x div 4096 = b div 4096" "b \<in> B - {a}" for x b
  proof -
    have "x \<in> cover sz B" using that g by (auto simp: geom_def)
    moreover have "b div 4096 \<notin> run (a div 4096) n"
      using out [OF that(2)] geom_start [OF g, of b] that(2) by blast
    then have "x \<notin> blk sz a" using br that(1) by simp
    ultimately show ?thesis by (auto simp: cover_def)
  qed
  show ?thesis unfolding geom_def using ok tile g by (auto simp: geom_def)
qed

section \<open>The heap's invariant\<close>

definition sizes :: "'s xheap \<Rightarrow> nat \<Rightarrow> nat" where
  "sizes h a = hdr_size (hdr_at h a)"

lemma sizes_frame [simp]:
  "sizes (h\<lparr>freelist := f\<rparr>) = sizes h"
  "sizes (h\<lparr>page_state := s\<rparr>) = sizes h"
  "sizes (h\<lparr>bytes := b\<rparr>) = sizes h"
  by (simp_all add: sizes_def fun_eq_iff)

lemma sizes_set_hdr [simp]: "sizes (set_hdr h a s l) = (sizes h)(a := s)"
  by (simp add: sizes_def set_hdr_def fun_eq_iff)

lemma hdr_size_sizes [simp]: "hdr_size (hdr_at h a) = sizes h a"
  by (rule sizes_def [symmetric])

lemma set_hdr_simps [simp]:
  "hdr_at (set_hdr h a s l) = (hdr_at h)(a := \<lparr>hdr_size = s, linked = l\<rparr>)"
  "freelist (set_hdr h a s l) = freelist h"
  "bytes (set_hdr h a s l) = bytes h"
  "page_state (set_hdr h a s l) = page_state h"
  "xm_in_irq (set_hdr h a s l) = xm_in_irq h"
  by (simp_all add: set_hdr_def)

text \<open>No two free blocks are neighbours within a page.\<close>

definition no_adjacent :: "(nat \<Rightarrow> nat) \<Rightarrow> nat set \<Rightarrow> bool" where
  "no_adjacent sz F = (\<forall>a \<in> F. a + sz a \<in> F \<longrightarrow> (a + sz a) div 4096 \<noteq> a div 4096)"

definition flags_ok :: "'s xheap \<Rightarrow> (nat \<rightharpoonup> nat) \<Rightarrow> bool" where
  "flags_ok h U =
     (distinct (freelist h) \<and> set (freelist h) \<inter> dom U = {} \<and>
      (\<forall>a \<in> set (freelist h). linked (hdr_at h a) \<and> sizes h a < 4096) \<and>
      (\<forall>a s. U a = Some s \<longrightarrow> \<not> linked (hdr_at h a) \<and> sizes h a = s \<and> s < 2 ^ 43) \<and>
      no_adjacent (sizes h) (set (freelist h)))"

text \<open>
  \<open>heap_ok K h U\<close>: with the pages \<open>K\<close> the heap holds and the blocks \<open>U\<close> that clients use
  (header address to size), the free blocks and the used ones tile their pages.
\<close>

definition heap_ok :: "nat set \<Rightarrow> 's xheap \<Rightarrow> (nat \<rightharpoonup> nat) \<Rightarrow> bool" where
  "heap_ok K h U = (geom K (sizes h) (set (freelist h) \<union> dom U) \<and> flags_ok h U)"

lemma heap_ok_mono: "heap_ok K h U \<Longrightarrow> K \<subseteq> K' \<Longrightarrow> heap_ok K' h U"
  by (auto simp: heap_ok_def intro: geom_cong [OF _ _ refl])

lemma heap_ok_frame [simp]:
  "heap_ok K (h\<lparr>page_state := s\<rparr>) U = heap_ok K h U"
  "heap_ok K (h\<lparr>bytes := b\<rparr>) U = heap_ok K h U"
  by (simp_all add: heap_ok_def flags_ok_def)

text \<open>The block \<open>a\<close> of \<open>block\<close> bytes is cut (or not) and given out.\<close>

lemma maybe_split_ok:
  assumes g: "geom K ((sizes h)(a := block)) (insert a (set (freelist h) \<union> dom U))"
    and fl: "flags_ok h U" and a: "a \<notin> set (freelist h)" "a \<notin> dom U"
    and pg: "a mod 4096 + block \<le> 4096" and sz: "8 dvd sz" "24 \<le> sz" "sz \<le> block"
    and nb: "a + block \<in> set (freelist h) \<Longrightarrow> (a + block) div 4096 \<noteq> a div 4096"
  obtains s where "heap_ok K (maybe_split h a sz block) (U(a \<mapsto> s))" and "sz \<le> s"
    and "bytes (maybe_split h a sz block) = bytes h"
    and "page_state (maybe_split h a sz block) = page_state h"
    and "xm_in_irq (maybe_split h a sz block) = xm_in_irq h"
proof -
  let ?B = "insert a (set (freelist h) \<union> dom U)"
  let ?sz = "(sizes h)(a := block)"
  have lo: "wsub block sz = block - sz" using pg sz by (intro wsub_eq) auto
  have aa: "a \<in> ?B" by simp
  have fit: "a mod 4096 + ?sz a \<le> 4096" using pg by simp
  have no: "no_adjacent (sizes h) (set (freelist h))" using fl by (simp add: flags_ok_def)
  show thesis
  proof (cases "48 \<le> block - sz")
    case False
    have ms: "maybe_split h a sz block = set_hdr h a block False"
      using False by (simp add: maybe_split_def lo hdr_bytes_def Let_def)
    have "no_adjacent ?sz (set (freelist h))"
      using no a by (auto simp: no_adjacent_def)
    moreover have "geom K ?sz (set (freelist h) \<union> dom (U(a \<mapsto> block)))" using g by (simp add: insert_commute)
    ultimately have "heap_ok K (set_hdr h a block False) (U(a \<mapsto> block))"
      using fl a pg by (auto simp: heap_ok_def flags_ok_def)
    then show ?thesis using that [of block] sz(3) by (simp add: ms)
  next
    case True
    let ?e = "a + sz" and ?h = "maybe_split h a sz block"
    let ?sz' = "?sz(a := sz, a + sz := block - sz)"
    note gs = geom_split [OF g aa fit sz(1,2)]
    have c: "sz + 48 \<le> ?sz a" using True sz by simp
    note gs = gs [OF c]
    have ne: "?e \<notin> set (freelist h)" "?e \<notin> dom U" "?e \<noteq> a" using gs(2) by auto
    have ms: "?h = set_hdr (set_hdr h ?e (block - sz) True\<lparr>freelist := ?e # freelist h\<rparr>) a sz False"
      using True by (simp add: maybe_split_def lo hdr_bytes_def Let_def)
    have s1: "sizes ?h = ?sz'" using ne by (auto simp: ms fun_eq_iff)
    have f1: "freelist ?h = ?e # freelist h" by (simp add: ms)
    have g1: "geom K ?sz' (insert ?e ?B)" using gs(1) unfolding fun_upd_same .
    have noadj: "no_adjacent ?sz' (set (freelist ?h))"
      unfolding no_adjacent_def f1
    proof (intro ballI impI)
      fix c assume c: "c \<in> set (?e # freelist h)" "c + ?sz' c \<in> set (?e # freelist h)"
      have ca: "c \<noteq> a" using c a ne by auto
      have ce: "c + ?sz' c \<noteq> ?e"
      proof
        assume e: "c + ?sz' c = ?e"
        have "24 \<le> ?sz' c" using geom_block [OF g1, of c] c by (auto simp: block_ok_def)
        then have "?e - 1 \<in> blk ?sz' c"
          using e unfolding blk_def atLeastLessThan_iff by linarith
        moreover have "?e - 1 \<in> blk ?sz' a" using sz ne by (auto simp: blk_def)
        ultimately have "c = a" using geom_unique [OF g1, of c a] c by auto
        with ca show False by simp
      qed
      show "(c + ?sz' c) div 4096 \<noteq> c div 4096"
      proof (cases "c = ?e")
        case True
        then have "c + ?sz' c = a + block" using ne sz by simp
        then have "(c + ?sz' c) div 4096 \<noteq> a div 4096" using nb c(2) ce by auto
        moreover have "?e div 4096 = a div 4096"
          using pg \<open>48 \<le> block - sz\<close> sz by (intro div_same_page) linarith
        ultimately show ?thesis using True by simp
      next
        case False
        then have "?sz' c = sizes h c" using ca by simp
        then show ?thesis using no c ce False by (auto simp: no_adjacent_def)
      qed
    qed
    have "set (freelist ?h) \<union> dom (U(a \<mapsto> sz)) = insert ?e ?B" using f1 by auto
    then have "geom K (sizes ?h) (set (freelist ?h) \<union> dom (U(a \<mapsto> sz)))" using g1 s1 by simp
    moreover have "flags_ok ?h (U(a \<mapsto> sz))"
      using fl a ne pg sz noadj unfolding flags_ok_def s1 by (auto simp: ms)
    ultimately have "heap_ok K ?h (U(a \<mapsto> sz))" by (simp add: heap_ok_def)
    then show ?thesis using that [of sz] by (simp add: ms)
  qed
qed

section \<open>Coalescing\<close>

text \<open>
  The invariant of the loop of \<open>xfree\<close>: \<open>cur\<close> is the block being freed, and every free
  neighbour it has within its page is still to be visited.
\<close>

definition coal_ok :: "nat set \<Rightarrow> 's xheap \<Rightarrow> (nat \<rightharpoonup> nat) \<Rightarrow> nat \<Rightarrow> nat list \<Rightarrow> bool" where
  "coal_ok K h U cur todo =
     (geom K (sizes h) (insert cur (set (freelist h) \<union> dom U)) \<and> flags_ok h U \<and>
      cur \<notin> set (freelist h) \<and> cur \<notin> dom U \<and> cur mod 4096 + sizes h cur \<le> 4096 \<and>
      distinct todo \<and> set todo \<subseteq> set (freelist h) \<and>
      (\<forall>b \<in> set (freelist h). b div 4096 = cur div 4096 \<longrightarrow>
         b + sizes h b = cur \<or> cur + sizes h cur = b \<longrightarrow> b \<in> set todo))"

lemma coal_okD:
  assumes "coal_ok K h U cur todo"
  shows "geom K (sizes h) (insert cur (set (freelist h) \<union> dom U))" and "flags_ok h U"
    and "cur \<notin> set (freelist h)" and "cur \<notin> dom U" and "cur mod 4096 + sizes h cur \<le> 4096"
    and "distinct todo" and "set todo \<subseteq> set (freelist h)"
    and "\<And>b. b \<in> set (freelist h) \<Longrightarrow> b div 4096 = cur div 4096 \<Longrightarrow>
         b + sizes h b = cur \<or> cur + sizes h cur = b \<Longrightarrow> b \<in> set todo"
  using assms unfolding coal_ok_def by blast+

lemma flags_ok_merge:
  assumes fl: "flags_ok h U" and i: "i \<in> set (freelist h)"
    and keep: "\<And>a. a \<in> (set (freelist h) - {i}) \<union> dom U \<Longrightarrow> hdr_at h' a = hdr_at h a"
    and fl': "freelist h' = remove1 i (freelist h)"
  shows "flags_ok h' U"
proof -
  have d: "distinct (freelist h)" using fl by (simp add: flags_ok_def)
  then have s: "set (freelist h') = set (freelist h) - {i}" using fl' by simp
  have k: "sizes h' a = sizes h a" if "a \<in> (set (freelist h) - {i}) \<union> dom U" for a
    using keep [OF that] by (simp flip: hdr_size_sizes)
  have na: "no_adjacent (sizes h) (set (freelist h))" using fl by (simp add: flags_ok_def)
  have "no_adjacent (sizes h') (set (freelist h'))"
    unfolding no_adjacent_def s
  proof (intro ballI impI)
    fix a assume a: "a \<in> set (freelist h) - {i}" "a + sizes h' a \<in> set (freelist h) - {i}"
    then have "sizes h' a = sizes h a" using k by blast
    then show "(a + sizes h' a) div 4096 \<noteq> a div 4096"
      using na a by (auto simp: no_adjacent_def)
  qed
  moreover have "distinct (freelist h')" using d fl' by simp
  moreover have "linked (hdr_at h' a) \<and> sizes h' a < 4096" if "a \<in> set (freelist h')" for a
    using that fl k [of a] keep [of a] by (simp add: s flags_ok_def)
  moreover have "\<not> linked (hdr_at h' a) \<and> sizes h' a = z \<and> z < 2 ^ 43" if "U a = Some z" for a z
    using that fl k [of a] keep [of a] domI [of U a z] by (simp add: flags_ok_def)
  moreover have "set (freelist h') \<inter> dom U = {}" using fl s by (auto simp: flags_ok_def)
  ultimately show ?thesis by (simp add: flags_ok_def)
qed

lemma geom_after:
  assumes "geom K sz B" and "a \<in> B" "b \<in> B" and "a + sz a = b" and "c \<in> B" "c + sz c = b"
  shows "c = a"
proof -
  have "24 \<le> sz a" "24 \<le> sz c" using assms geom_block by (force simp: block_ok_def)+
  then have "b - 1 \<in> blk sz a" "b - 1 \<in> blk sz c" using assms(4,6) by (auto simp: blk_def)
  then show ?thesis using geom_unique [OF assms(1), of a c] assms by auto
qed

text \<open>The block in front absorbs the one being freed.\<close>

lemma coal_prev:
  assumes ok: "coal_ok K h U cur (i # is)" and pg: "i div 4096 = cur div 4096"
    and adj: "i + sizes h i = cur"
  shows "coal_ok K (set_hdr (h\<lparr>freelist := remove1 i (freelist h)\<rparr>) i (sizes h i + sizes h cur) l) U i is"
proof -
  let ?h = "set_hdr (h\<lparr>freelist := remove1 i (freelist h)\<rparr>) i (sizes h i + sizes h cur) l"
  let ?B = "insert cur (set (freelist h) \<union> dom U)"
  note D = coal_okD [OF ok]
  have i: "i \<in> set (freelist h)" "i \<noteq> cur" "i \<notin> dom U" "i \<notin> set is" "distinct is"
    using D(2,3,6,7) by (auto simp: flags_ok_def)
  have d: "distinct (freelist h)" and na: "no_adjacent (sizes h) (set (freelist h))"
    using D(2) by (auto simp: flags_ok_def)
  have "cur \<in> ?B" "i \<in> ?B" "i + sizes h i \<in> ?B" using i adj by auto
  note m = geom_merge [OF D(1) this(2,3)]
  have pp: "(i + sizes h i) div 4096 = i div 4096" using adj pg by simp
  note m = m [OF pp, unfolded adj]
  have B: "?B - {cur} = insert i (set (freelist ?h) \<union> dom U)" using i d D(3,4) by auto
  have fl: "flags_ok ?h U"
    by (rule flags_ok_merge [OF D(2) i(1)]) (use i in auto)
  have after: "c = i" if "c \<in> ?B" "c + sizes h c = cur" for c
    using geom_after [OF D(1) _ _ adj that] i by auto
  have todo: "b \<in> set is" if b: "b \<in> set (freelist ?h)" "b div 4096 = i div 4096"
      "b + sizes ?h b = i \<or> i + sizes ?h i = b" for b
  proof -
    have bf: "b \<in> set (freelist h)" "b \<noteq> i" using b(1) d by auto
    then have sb: "sizes ?h b = sizes h b" by simp
    show ?thesis
    proof (cases "b + sizes h b = i")
      case True
      with na bf(1) i(1) b(2) show ?thesis by (auto simp: no_adjacent_def)
    next
      case False
      then have "cur + sizes h cur = b" using b(3) adj sb by (simp add: add.assoc [symmetric])
      then have "b \<in> set (i # is)" using D(8) [OF bf(1)] b(2) pg by simp
      with bf(2) show ?thesis by simp
    qed
  qed
  show ?thesis
    unfolding coal_ok_def
    using m(1,3) fl i d D(7) todo B by (auto simp: subset_iff)
qed

text \<open>The block being freed absorbs the one behind it.\<close>

lemma coal_next:
  assumes ok: "coal_ok K h U cur (i # is)" and pg: "i div 4096 = cur div 4096"
    and adj: "cur + sizes h cur = i"
  shows "coal_ok K (set_hdr (h\<lparr>freelist := remove1 i (freelist h)\<rparr>) cur (sizes h cur + sizes h i) l) U cur is"
proof -
  let ?h = "set_hdr (h\<lparr>freelist := remove1 i (freelist h)\<rparr>) cur (sizes h cur + sizes h i) l"
  let ?B = "insert cur (set (freelist h) \<union> dom U)"
  note D = coal_okD [OF ok]
  have i: "i \<in> set (freelist h)" "i \<noteq> cur" "i \<notin> dom U" "i \<notin> set is" "distinct is"
    using D(2,3,6,7) by (auto simp: flags_ok_def)
  have d: "distinct (freelist h)" and na: "no_adjacent (sizes h) (set (freelist h))"
    using D(2) by (auto simp: flags_ok_def)
  have "cur \<in> ?B" "cur + sizes h cur \<in> ?B" using i adj by auto
  note m = geom_merge [OF D(1) this]
  have pp: "(cur + sizes h cur) div 4096 = cur div 4096" using adj pg by simp
  note m = m [OF pp, unfolded adj]
  have B: "?B - {i} = insert cur (set (freelist ?h) \<union> dom U)" using i d D(3,4) by auto
  have fl: "flags_ok ?h U"
    by (rule flags_ok_merge [OF D(2) i(1)]) (use i D(3,4) in auto)
  have todo: "b \<in> set is" if b: "b \<in> set (freelist ?h)" "b div 4096 = cur div 4096"
      "b + sizes ?h b = cur \<or> cur + sizes ?h cur = b" for b
  proof -
    have bf: "b \<in> set (freelist h)" "b \<noteq> i" "b \<noteq> cur" using b(1) d D(3) by auto
    then have sb: "sizes ?h b = sizes h b" by simp
    show ?thesis
    proof (cases "b + sizes h b = cur")
      case True
      then have "b \<in> set (i # is)" using D(8) [OF bf(1)] b(2) by simp
      with bf(2) show ?thesis by simp
    next
      case False
      then have "i + sizes h i = b" using b(3) adj sb by (simp add: add.assoc [symmetric])
      with na bf(1) i(1) b(2) pg show ?thesis by (auto simp: no_adjacent_def)
    qed
  qed
  show ?thesis
    unfolding coal_ok_def
    using m(1,3) fl i d D(3,4,7) todo B by (auto simp: subset_iff)
qed

lemma coalesce_ok:
  assumes "coal_ok K h U cur todo"
  shows "coal_ok K (fst (coalesce h cur todo)) U (snd (coalesce h cur todo)) [] \<and>
     bytes (fst (coalesce h cur todo)) = bytes h \<and>
     page_state (fst (coalesce h cur todo)) = page_state h \<and>
     xm_in_irq (fst (coalesce h cur todo)) = xm_in_irq h"
  using assms
proof (induction todo arbitrary: h cur)
  case Nil
  then show ?case by simp
next
  case (Cons i "is")
  note D = coal_okD [OF Cons.prems]
  have i: "i \<in> set (freelist h)" "i \<noteq> cur" using D(3,7) by auto
  have bi: "block_ok K (sizes h) i" "block_ok K (sizes h) cur"
    using geom_block [OF D(1)] i by auto
  have si: "sizes h i < 4096" using D(2) i by (simp add: flags_ok_def)
  consider "i div 4096 \<noteq> cur div 4096" | "i div 4096 = cur div 4096" "i + sizes h i = cur"
    | "i div 4096 = cur div 4096" "i + sizes h i \<noteq> cur" "cur + sizes h cur = i"
    | "i div 4096 = cur div 4096" "i + sizes h i \<noteq> cur" "cur + sizes h cur \<noteq> i" by blast
  then show ?case
  proof cases
    case 1
    then have "coal_ok K h U cur is" using D unfolding coal_ok_def by auto
    with 1 Cons.IH show ?thesis by (simp add: same_page_eq)
  next
    case 2
    have w: "wadd (sizes h i) (sizes h cur) = sizes h i + sizes h cur"
      using si D(5) by (intro wadd_eq) simp
    have ne: "cur + (sizes h i + sizes h cur) \<noteq> i" using 2(2) bi by (auto simp: block_ok_def)
    have "coalesce h cur (i # is) =
        coalesce (set_hdr (h\<lparr>freelist := remove1 i (freelist h)\<rparr>) i (sizes h i + sizes h cur)
          (linked (hdr_at h i))) i is"
      using 2 w ne by (simp add: same_page_eq)
    with Cons.IH [OF coal_prev [OF Cons.prems 2, of "linked (hdr_at h i)"]] show ?thesis by simp
  next
    case 3
    have w: "wadd (sizes h cur) (sizes h i) = sizes h cur + sizes h i"
      using si D(5) by (intro wadd_eq) simp
    have "coalesce h cur (i # is) =
        coalesce (set_hdr (h\<lparr>freelist := remove1 i (freelist h)\<rparr>) cur (sizes h cur + sizes h i)
          (linked (hdr_at h cur))) cur is"
      using 3 w by (simp add: same_page_eq)
    with Cons.IH [OF coal_next [OF Cons.prems 3(1,3), of "linked (hdr_at h cur)"]] show ?thesis by simp
  next
    case 4
    then have "coal_ok K h U cur is" using D unfolding coal_ok_def by auto
    with 4 Cons.IH show ?thesis by (simp add: same_page_eq)
  qed
qed

section \<open>The operations keep the invariant\<close>

lemma xmalloc_size:
  assumes "n < 2 ^ 42"
  defines "s \<equiv> align_up (wadd n hdr_bytes) hdr_align"
  shows "8 dvd s" and "n + 24 \<le> s" and "s \<le> n + 31" and "24 \<le> s"
proof -
  have "s = 8 * ((n + 24 + 7) div 8)"
    using assms(1) by (simp add: s_def hdr_bytes_def hdr_align_def wadd_eq align_up_8)
  then show "8 dvd s" "n + 24 \<le> s" "s \<le> n + 31" "24 \<le> s" by auto
qed

lemma whole_pages_size:
  assumes "s < 2 ^ 42 + 32" "4096 \<le> s"
  obtains k where "align_up s page_size = 4096 * k" and "1 \<le> k" and "k < 2 ^ 31"
    and "s \<le> 4096 * k" and "to_int32 (align_up s page_size div page_size) = int k"
proof -
  let ?k = "(s + 4095) div 4096"
  have a: "align_up s page_size = 4096 * ?k" using assms(1) by (simp add: page_size_def align_up_4096)
  have k: "1 \<le> ?k" "?k < 2 ^ 31" "s \<le> 4096 * ?k" using assms by auto
  have "align_up s page_size div page_size = ?k" unfolding a by (simp add: page_size_def)
  then have "to_int32 (align_up s page_size div page_size) = int ?k"
    using to_int32_eq [OF k(2)] by presburger
  then show ?thesis by (rule that [OF a k])
qed

lemma heap_ok_fresh:
  assumes "heap_ok K h U" and "r mod 4096 = 0" and "n \<ge> 1" and "run (r div 4096) n \<inter> K = {}"
    and "K \<union> run (r div 4096) n \<subseteq> K'"
  shows "geom K' ((sizes h)(r := 4096 * n)) (insert r (set (freelist h) \<union> dom U))"
    and "r \<notin> set (freelist h)" and "r \<notin> dom U"
proof -
  have g: "geom K (sizes h) (set (freelist h) \<union> dom U)" using assms(1) by (simp add: heap_ok_def)
  note a = geom_add_pages [OF g assms(2,3,4)]
  show "geom K' ((sizes h)(r := 4096 * n)) (insert r (set (freelist h) \<union> dom U))"
    by (rule geom_cong [OF a(1) assms(5)]) simp
  show "r \<notin> set (freelist h)" "r \<notin> dom U" using a(2) by auto
qed

lemma virt_to_pfn_div: "virt_to_pfn r = r div 4096"
  by (simp add: virt_to_pfn_def virt_start_def page_shift_def drop_bit_eq_div)

text \<open>What an allocation gives: a null pointer, or a fresh block that is large enough.\<close>

definition allocated :: "nat set \<Rightarrow> 's xheap \<Rightarrow> (nat \<rightharpoonup> nat) \<Rightarrow> nat \<Rightarrow> nat \<Rightarrow> bool" where
  "allocated K h' U n p =
     (if p = 0 then heap_ok K h' U
      else \<exists>a s. p = a + 24 \<and> a \<notin> dom U \<and> n + 24 \<le> s \<and> heap_ok K h' (U(a \<mapsto> s)))"

context page_provider
begin

lemma new_page_ok:
  assumes e: "legal e" and i: "inv (page_state h)" and ok: "heap_ok (held (page_state h)) h U"
    and sz: "8 dvd sz" "n + 24 \<le> sz" "sz < 4096"
  shows "xmalloc_new_page alloc e h sz = Some (Inl Crash) \<or>
     (\<exists>p h'. xmalloc_new_page alloc e h sz = Some (Inr (p, h')) \<and> inv (page_state h') \<and>
        allocated (held (page_state h')) h' U n p \<and> bytes h' = bytes h \<and> xm_in_irq h' = xm_in_irq h)"
proof -
  have "alloc e (page_state h) 1 = Some (Inl Crash) \<or>
     (\<exists>r s'. alloc e (page_state h) 1 = Some (Inr (r, s')) \<and> inv s' \<and>
        held (page_state h) \<subseteq> held s' \<and>
        (r \<noteq> 0 \<longrightarrow> r mod 4096 = 0 \<and> run (r div 4096) 1 \<inter> held (page_state h) = {} \<and>
          run (r div 4096) 1 \<subseteq> held s'))"
    using alloc_law [OF e i, of 1] by (simp add: virt_to_pfn_div)
  then show ?thesis
  proof (elim disjE exE conjE)
    fix r s' assume a: "alloc e (page_state h) 1 = Some (Inr (r, s'))" "inv s'"
      "held (page_state h) \<subseteq> held s'"
      and r: "r \<noteq> 0 \<longrightarrow> r mod 4096 = 0 \<and> run (r div 4096) 1 \<inter> held (page_state h) = {} \<and>
          run (r div 4096) 1 \<subseteq> held s'"
    let ?h1 = "h\<lparr>page_state := s'\<rparr>"
    show ?thesis
    proof (cases "r = 0")
      case True
      with a heap_ok_mono [OF ok a(3)] show ?thesis
        by (simp add: xmalloc_new_page_def allocated_def)
    next
      case False
      note f = heap_ok_fresh [OF ok _ _ _ , of r 1 "held s'"]
      have g: "geom (held s') ((sizes h)(r := 4096)) (insert r (set (freelist h) \<union> dom U))"
        "r \<notin> set (freelist h)" "r \<notin> dom U"
        using f r False a(3) by auto
      have nb: "(r + 4096) div 4096 \<noteq> r div 4096" by simp
      have fl: "flags_ok ?h1 U" using ok by (simp add: heap_ok_def flags_ok_def)
      obtain s where s: "heap_ok (held s') (maybe_split ?h1 r sz 4096) (U(r \<mapsto> s))" "sz \<le> s"
        "bytes (maybe_split ?h1 r sz 4096) = bytes ?h1"
        "page_state (maybe_split ?h1 r sz 4096) = page_state ?h1"
        "xm_in_irq (maybe_split ?h1 r sz 4096) = xm_in_irq ?h1"
        by (rule maybe_split_ok [of "held s'" ?h1 r 4096 U sz])
           (use g fl r False sz nb in auto)
      have "xmalloc_new_page alloc e h sz = Some (Inr (r + 24, maybe_split ?h1 r sz 4096))"
        using a(1) False by (simp add: xmalloc_new_page_def hdr_bytes_def page_size_def Let_def)
      moreover have "allocated (held s') (maybe_split ?h1 r sz 4096) U n (r + 24)"
        unfolding allocated_def using s(1,2) sz(2) g(3)
        by (auto intro!: exI [of _ r] exI [of _ s])
      ultimately show ?thesis using s a(2) by auto
    qed
  qed (simp add: xmalloc_new_page_def)
qed

lemma whole_pages_ok:
  assumes e: "legal e" and i: "inv (page_state h)" and ok: "heap_ok (held (page_state h)) h U"
    and sz: "n + 24 \<le> sz" "4096 \<le> sz" "sz < 2 ^ 42 + 32"
  shows "xmalloc_whole_pages alloc e h sz = Some (Inl Crash) \<or>
     (\<exists>p h'. xmalloc_whole_pages alloc e h sz = Some (Inr (p, h')) \<and> inv (page_state h') \<and>
        allocated (held (page_state h')) h' U n p \<and> bytes h' = bytes h \<and> xm_in_irq h' = xm_in_irq h)"
proof -
  obtain k where k: "align_up sz page_size = 4096 * k" "1 \<le> k" "k < 2 ^ 31" "sz \<le> 4096 * k"
      "to_int32 (align_up sz page_size div page_size) = int k"
    by (rule whole_pages_size [OF sz(3,2)])
  have "alloc e (page_state h) (int k) = Some (Inl Crash) \<or>
     (\<exists>r s'. alloc e (page_state h) (int k) = Some (Inr (r, s')) \<and> inv s' \<and>
        held (page_state h) \<subseteq> held s' \<and>
        (r \<noteq> 0 \<longrightarrow> r mod 4096 = 0 \<and> run (r div 4096) k \<inter> held (page_state h) = {} \<and>
          run (r div 4096) k \<subseteq> held s'))"
    using alloc_law [OF e i k(2,3)] by (simp add: virt_to_pfn_div)
  then show ?thesis
  proof (elim disjE exE conjE)
    fix r s' assume a: "alloc e (page_state h) (int k) = Some (Inr (r, s'))" "inv s'"
      "held (page_state h) \<subseteq> held s'"
      and r: "r \<noteq> 0 \<longrightarrow> r mod 4096 = 0 \<and> run (r div 4096) k \<inter> held (page_state h) = {} \<and>
          run (r div 4096) k \<subseteq> held s'"
    let ?h1 = "h\<lparr>page_state := s'\<rparr>"
    show ?thesis
    proof (cases "r = 0")
      case True
      with a heap_ok_mono [OF ok a(3)] k show ?thesis
        by (simp add: xmalloc_whole_pages_def allocated_def)
    next
      case False
      have g: "geom (held s') ((sizes h)(r := 4096 * k)) (insert r (set (freelist h) \<union> dom U))"
        "r \<notin> set (freelist h)" "r \<notin> dom U"
        using heap_ok_fresh [OF ok _ k(2), of r "held s'"] r False a(3) by auto
      let ?h2 = "set_hdr ?h1 r (4096 * k) False"
      have "no_adjacent ((sizes h)(r := 4096 * k)) (set (freelist h))"
        using ok g(2) by (auto simp: heap_ok_def flags_ok_def no_adjacent_def)
      then have "flags_ok ?h2 (U(r \<mapsto> 4096 * k))"
        using ok g(2,3) k(3) by (auto simp: heap_ok_def flags_ok_def)
      moreover have "geom (held s') (sizes ?h2) (set (freelist ?h2) \<union> dom (U(r \<mapsto> 4096 * k)))"
        using g(1) by simp
      ultimately have ok': "heap_ok (held s') ?h2 (U(r \<mapsto> 4096 * k))" by (simp add: heap_ok_def)
      have "xmalloc_whole_pages alloc e h sz = Some (Inr (r + 24, ?h2))"
        using a(1) False k by (simp add: xmalloc_whole_pages_def hdr_bytes_def Let_def)
      moreover have "allocated (held s') ?h2 U n (r + 24)"
        unfolding allocated_def using ok' g(3) sz(1) k(4)
        by (auto intro!: exI [of _ r] exI [of _ "4096 * k"])
      ultimately show ?thesis using a(2) by auto
    qed
  qed (use k in \<open>simp add: xmalloc_whole_pages_def\<close>)
qed

lemma xmalloc_align_ok:
  assumes e: "legal e" and i: "inv (page_state h)" and ok: "heap_ok (held (page_state h)) h U"
    and irq: "\<not> xm_in_irq h" and n: "n < 2 ^ 42"
  shows "xmalloc_align alloc e h n al = Some (Inl Crash) \<or>
     (\<exists>p h'. xmalloc_align alloc e h n al = Some (Inr (p, h')) \<and> inv (page_state h') \<and>
        allocated (held (page_state h')) h' U n p \<and> bytes h' = bytes h \<and> xm_in_irq h' = xm_in_irq h)"
proof -
  define sz where "sz = align_up (wadd n hdr_bytes) hdr_align"
  note z = xmalloc_size [OF n, folded sz_def]
  consider "4096 \<le> sz" | "sz < 4096" "find (\<lambda>i. sz \<le> sizes h i) (freelist h) = None"
    | a where "sz < 4096" "find (\<lambda>i. sz \<le> sizes h i) (freelist h) = Some a"
    by (cases "4096 \<le> sz"; cases "find (\<lambda>i. sz \<le> sizes h i) (freelist h)") auto
  then show ?thesis
  proof cases
    case 1
    have "xmalloc_align alloc e h n al = xmalloc_whole_pages alloc e h sz"
      using 1 irq by (simp add: xmalloc_align_def page_size_def sz_def Let_def)
    with whole_pages_ok [OF e i ok z(2) 1] z(3) n show ?thesis by simp
  next
    case 2
    have "xmalloc_align alloc e h n al = xmalloc_new_page alloc e h sz"
      using 2 irq by (simp add: xmalloc_align_def page_size_def sz_def [symmetric] Let_def)
    with new_page_ok [OF e i ok z(1,2) 2(1)] show ?thesis by simp
  next
    case (3 a)
    let ?h1 = "h\<lparr>freelist := remove1 a (freelist h)\<rparr>"
    have a: "a \<in> set (freelist h)" "sz \<le> sizes h a"
      using 3(2) by (auto simp: find_Some_iff)
    have fl: "flags_ok h U" and g: "geom (held (page_state h)) (sizes h) (set (freelist h) \<union> dom U)"
      using ok by (auto simp: heap_ok_def)
    have d: "distinct (freelist h)" "a \<notin> dom U" "sizes h a < 4096"
      using fl a by (auto simp: flags_ok_def)
    have pg: "a mod 4096 + sizes h a \<le> 4096"
      using geom_block [OF g, of a] a(1) d(3) by (auto simp: block_ok_def dest: dvd_imp_le)
    have fl1: "flags_ok ?h1 U" by (rule flags_ok_merge [OF fl a(1)]) simp_all
    have "insert a (set (freelist ?h1) \<union> dom U) = set (freelist h) \<union> dom U" using a d by auto
    then have g1: "geom (held (page_state h)) ((sizes ?h1)(a := sizes h a))
        (insert a (set (freelist ?h1) \<union> dom U))" using g by simp
    have nb: "a + sizes h a \<in> set (freelist ?h1) \<Longrightarrow> (a + sizes h a) div 4096 \<noteq> a div 4096"
      using fl a(1) d(1) by (auto simp: flags_ok_def no_adjacent_def)
    let ?h2 = "maybe_split ?h1 a sz (sizes h a)"
    obtain s where s: "heap_ok (held (page_state h)) ?h2 (U(a \<mapsto> s))" "sz \<le> s"
        "bytes ?h2 = bytes ?h1" "page_state ?h2 = page_state ?h1" "xm_in_irq ?h2 = xm_in_irq ?h1"
      by (rule maybe_split_ok [OF g1 fl1 _ d(2) pg z(1,4) a(2) nb]) (use d(1) in auto)
    have "xmalloc_align alloc e h n al = Some (Inr (a + 24, ?h2))"
      unfolding xmalloc_align_def sz_def [symmetric] Let_def
      using 3 irq by (simp add: page_size_def hdr_bytes_def Let_def)
    moreover have "allocated (held (page_state h)) ?h2 U n (a + 24)"
      unfolding allocated_def using s(1,2) z(2) d(2)
      by (auto intro!: exI [of _ a] exI [of _ s])
    ultimately show ?thesis using s i by auto
  qed
qed

lemma xfree_ok:
  assumes i: "inv (page_state h)" and ok: "heap_ok (held (page_state h)) h U"
    and irq: "\<not> xm_in_irq h" and u: "U a = Some s"
  shows "\<exists>h'. xfree free h (a + 24) = Inr h' \<and> inv (page_state h') \<and>
     heap_ok (held (page_state h')) h' (U(a := None)) \<and> bytes h' = bytes h \<and> xm_in_irq h' = xm_in_irq h"
proof -
  let ?K = "held (page_state h)"
  have fl: "flags_ok h U" and g: "geom ?K (sizes h) (set (freelist h) \<union> dom U)"
    using ok by (auto simp: heap_ok_def)
  have au: "a \<notin> set (freelist h)" "\<not> linked (hdr_at h a)" "sizes h a = s" "s < 2 ^ 43" "a \<in> dom U"
    using fl u by (auto simp: flags_ok_def)
  have b: "block_ok ?K (sizes h) a" using geom_block [OF g] au(5) by blast
  then have sp: "same_page (a + 24) a"
    by (simp add: same_page_eq div_same_page block_ok_def)
  have fl': "flags_ok h (U(a := None))" using fl by (auto simp: flags_ok_def)
  have B: "insert a (set (freelist h) \<union> dom (U(a := None))) = set (freelist h) \<union> dom U"
    using au(5) by auto
  show ?thesis
  proof (cases "4096 \<le> s")
    case True
    have "a mod 4096 + s \<le> 4096 \<or> a mod 4096 = 0 \<and> 4096 dvd s"
      using b au(3) unfolding block_ok_def by blast
    moreover have "a mod 4096 = 0 \<and> s = 4096" if "a mod 4096 + s \<le> 4096"
      using that True by linarith
    ultimately have al: "a mod 4096 = 0" "4096 dvd s" by auto
    then obtain k where k: "s = 4096 * k" by blast
    have k1: "1 \<le> k" "k < 2 ^ 31" using True au(4) k by auto
    have sub: "run (a div 4096) k \<subseteq> ?K"
    proof
      fix x assume "x \<in> run (a div 4096) k"
      then have "4096 * x \<in> blk (sizes h) a"
        using run_div [OF al(1), of "4096 * x" k] au(3) k by (simp add: blk_def)
      then show "x \<in> ?K" using b by (force simp: block_ok_def)
    qed
    obtain s' where s': "free (page_state h) a (int k) = Inr s'" "inv s'"
        "held s' = ?K - run (a div 4096) k"
      using free_law [OF i k1 al(1)] sub by (auto simp: virt_to_pfn_div)
    have "to_int32 (s div page_size) = int k" using k k1 by (simp add: page_size_def to_int32_eq)
    then have x: "xfree free h (a + 24) = Inr (h\<lparr>page_state := s'\<rparr>)"
      using irq sp au True s' by (simp add: xfree_def hdr_bytes_def page_size_def)
    have "set (freelist h) \<union> dom U - {a} = set (freelist h) \<union> dom (U(a := None))"
      using au(1) by auto
    then have "geom (held s') (sizes h) (set (freelist h) \<union> dom (U(a := None)))"
      using geom_remove_pages [OF g _ al(1), of k] au(3,5) k s'(3) by simp
    with fl' have "heap_ok (held s') h (U(a := None))" by (simp add: heap_ok_def)
    with x s'(2) show ?thesis by simp
  next
    case False
    then have pg: "a mod 4096 + sizes h a \<le> 4096"
      using b au(3) by (auto simp: block_ok_def dest: dvd_imp_le)
    have d: "distinct (freelist h)" using fl by (simp add: flags_ok_def)
    have "coal_ok ?K h (U(a := None)) a (freelist h)"
      unfolding coal_ok_def using g B fl' au pg d by simp
    note c = coalesce_ok [OF this]
    obtain h1 c1 where hc: "coalesce h a (freelist h) = (h1, c1)" by force
    then have C: "coal_ok ?K h1 (U(a := None)) c1 []" and
      same: "bytes h1 = bytes h" "page_state h1 = page_state h" "xm_in_irq h1 = xm_in_irq h"
      using c by auto
    note D = coal_okD [OF C]
    have bc: "block_ok ?K (sizes h1) c1" using geom_block [OF D(1)] by blast
    show ?thesis
    proof (cases "sizes h1 c1 = 4096")
      case True
      then have al: "c1 mod 4096 = 0" using D(5) by simp
      have "run (c1 div 4096) 1 \<subseteq> ?K"
        using bc geom_start [OF D(1)] by (auto simp: block_ok_def run_def)
      then obtain s' where s': "free (page_state h) c1 (int 1) = Inr s'" "inv s'"
          "held s' = ?K - run (c1 div 4096) 1"
        using free_law [OF i _ _ al, of 1] by (auto simp: virt_to_pfn_div)
      have x: "xfree free h (a + 24) = Inr (h1\<lparr>page_state := s'\<rparr>)"
        using irq sp au False s' al same True hc by (simp add: xfree_def hdr_bytes_def page_size_def)
      have "insert c1 (set (freelist h1) \<union> dom (U(a := None))) - {c1} =
          set (freelist h1) \<union> dom (U(a := None))" using D(3,4) by auto
      then have "geom (held s') (sizes h1) (set (freelist h1) \<union> dom (U(a := None)))"
        using geom_remove_pages [OF D(1) _ al, of 1] True s'(3) by simp
      with D(2) have "heap_ok (held s') h1 (U(a := None))" by (simp add: heap_ok_def)
      with x s'(2) same show ?thesis by simp
    next
      case ne: False
      let ?h2 = "set_hdr (h1\<lparr>freelist := c1 # freelist h1\<rparr>) c1 (sizes h1 c1) True"
      have x: "xfree free h (a + 24) = Inr ?h2"
        using irq sp au False ne hc by (simp add: xfree_def hdr_bytes_def page_size_def)
      have s2: "sizes ?h2 = sizes h1" by auto
      have lt: "sizes h1 c1 < 4096" using D(5) ne by simp
      have "no_adjacent (sizes h1) (set (c1 # freelist h1))"
        unfolding no_adjacent_def
      proof (intro ballI impI)
        fix x assume x: "x \<in> set (c1 # freelist h1)" "x + sizes h1 x \<in> set (c1 # freelist h1)"
        have "c1 + sizes h1 c1 \<noteq> c1" using bc by (simp add: block_ok_def)
        with x consider "x = c1" "c1 + sizes h1 c1 \<in> set (freelist h1)"
          | "x \<in> set (freelist h1)" "x + sizes h1 x = c1"
          | "x \<in> set (freelist h1)" "x + sizes h1 x \<in> set (freelist h1)" by auto
        then show "(x + sizes h1 x) div 4096 \<noteq> x div 4096"
        proof cases
          case 1
          with D(8) [of "c1 + sizes h1 c1"] show ?thesis by auto
        next
          case 2
          with D(8) [of x] show ?thesis by auto
        next
          case 3
          with D(2) show ?thesis by (auto simp: flags_ok_def no_adjacent_def)
        qed
      qed
      then have "flags_ok ?h2 (U(a := None))"
        using D(2,3,4) lt unfolding flags_ok_def s2 by auto
      moreover have "geom ?K (sizes ?h2) (set (freelist ?h2) \<union> dom (U(a := None)))"
        using D(1) s2 by simp
      ultimately have "heap_ok ?K ?h2 (U(a := None))" by (simp add: heap_ok_def)
      with x same i show ?thesis by simp
    qed
  qed
qed

text \<open>Reallocation: in place, or a new block with the old contents.\<close>

lemma xrealloc_ok:
  assumes e: "legal e" and i: "inv (page_state h)" and ok: "heap_ok (held (page_state h)) h U"
    and irq: "\<not> xm_in_irq h" and u: "U a = Some s" "s < 2 ^ 31" and n: "n < 2 ^ 42"
  shows "(n \<le> s - 24 \<and> xrealloc alloc free e h (a + 24) n al = Some (Inr (a + 24, h))) \<or>
     (s - 24 < n \<and>
      (xrealloc alloc free e h (a + 24) n al \<in> {Some (Inl Crash), Some (Inl Undef)} \<or>
       (\<exists>q h'. xrealloc alloc free e h (a + 24) n al = Some (Inr (q, h')) \<and> inv (page_state h') \<and>
          allocated (held (page_state h')) h' (U(a := None)) n q \<and>
          (\<forall>j < s - 24. q \<noteq> 0 \<longrightarrow> bytes h' (q + j) = bytes h (a + 24 + j)))))"
proof -
  have g: "geom (held (page_state h)) (sizes h) (set (freelist h) \<union> dom U)"
    and sz: "sizes h a = s" using ok u by (auto simp: heap_ok_def flags_ok_def)
  have s24: "24 \<le> s" using geom_block [OF g, of a] u sz by (auto simp: block_ok_def)
  have ps: "to_int32 (wsub (hdr_size (hdr_at h (a + 24 - hdr_bytes))) hdr_bytes) = int (s - 24)"
    using sz s24 u(2) by (simp add: hdr_bytes_def wsub_eq to_int32_eq)
  have ul: "unsigned_long (int (s - 24)) = s - 24"
    using u(2) by (intro unsigned_long_int) simp
  show ?thesis
  proof (cases "n \<le> s - 24")
    case True
    then show ?thesis using irq unfolding xrealloc_def ps Let_def ul by simp
  next
    case False
    consider "xmalloc_align alloc e h n al = Some (Inl Crash)"
      | q h1 where "xmalloc_align alloc e h n al = Some (Inr (q, h1))" "inv (page_state h1)"
        "allocated (held (page_state h1)) h1 U n q" "bytes h1 = bytes h" "xm_in_irq h1 = xm_in_irq h"
      using xmalloc_align_ok [OF e i ok irq n, of al] by blast
    then show ?thesis
    proof cases
      case 1
      with False irq show ?thesis unfolding xrealloc_def ps Let_def ul by simp
    next
      case (2 q h1)
      show ?thesis
      proof (cases "q = 0 \<and> s - 24 \<noteq> 0")
        case True
        with False irq 2 show ?thesis unfolding xrealloc_def ps Let_def ul by simp
      next
        case nz: False
        let ?h2 = "copy_bytes h1 q (a + 24) (s - 24)"
        obtain U' where U': "heap_ok (held (page_state h1)) h1 U'" "U' a = Some s"
          and al': "q = 0 \<longrightarrow> U' = U"
            "q \<noteq> 0 \<longrightarrow> (\<exists>b t. q = b + 24 \<and> b \<notin> dom U \<and> n + 24 \<le> t \<and> U' = U(b \<mapsto> t))"
        proof (cases "q = 0")
          case True
          with 2(3) u(1) show ?thesis by (intro that [of U]) (simp_all add: allocated_def)
        next
          case False
          with 2(3) obtain b t where "q = b + 24" "b \<notin> dom U" "n + 24 \<le> t"
            "heap_ok (held (page_state h1)) h1 (U(b \<mapsto> t))" by (auto simp: allocated_def)
          with False u(1) show ?thesis by (intro that [of "U(b \<mapsto> t)"]) auto
        qed
        have "\<exists>h3. xfree free ?h2 (a + 24) = Inr h3 \<and> inv (page_state h3) \<and>
           heap_ok (held (page_state h3)) h3 (U'(a := None)) \<and> bytes h3 = bytes ?h2 \<and>
           xm_in_irq h3 = xm_in_irq ?h2"
          by (rule xfree_ok [of ?h2 U' a s])
             (use 2 irq U' in \<open>simp_all add: copy_bytes_def\<close>)
        then obtain h3 where h3: "xfree free ?h2 (a + 24) = Inr h3" "inv (page_state h3)"
           "heap_ok (held (page_state h3)) h3 (U'(a := None))" "bytes h3 = bytes ?h2" by blast
        have r: "xrealloc alloc free e h (a + 24) n al = Some (Inr (q, h3))"
          using False irq 2 nz h3(1) unfolding xrealloc_def ps Let_def ul by auto
        have "allocated (held (page_state h3)) h3 (U(a := None)) n q"
        proof (cases "q = 0")
          case True
          with h3(3) al' show ?thesis by (simp add: allocated_def)
        next
          case False
          with al' obtain b t where b: "q = b + 24" "b \<notin> dom U" "n + 24 \<le> t" "U' = U(b \<mapsto> t)" by blast
          have "b \<noteq> a" using b(2) u(1) by auto
          then have "U'(a := None) = (U(a := None))(b \<mapsto> t)" using b(4) by (simp add: fun_upd_twist)
          with h3(3) b False show ?thesis by (auto simp: allocated_def)
        qed
        moreover have "bytes h3 (q + j) = bytes h (a + 24 + j)" if "j < s - 24" for j
          using that s24 2(4) h3(4) by (auto simp: copy_bytes_def)
        ultimately show ?thesis using False r h3(2) by auto
      qed
    qed
  qed
qed

end

section \<open>No page is kept without a used block\<close>

lemma free_page_used:
  assumes ok: "heap_ok K h U" and b: "b \<in> set (freelist h)"
  shows "\<exists>a \<in> dom U. \<exists>x \<in> blk (sizes h) a. x div 4096 = b div 4096"
proof (rule ccontr)
  assume none: "\<not> ?thesis"
  let ?B = "set (freelist h) \<union> dom U"
  define s where "s = 4096 * (b div 4096)"
  have g: "geom K (sizes h) ?B" and fl: "flags_ok h U" using ok by (auto simp: heap_ok_def)
  have page: "\<exists>c \<in> set (freelist h). x \<in> blk (sizes h) c" if "x div 4096 = b div 4096" for x
  proof -
    have "x \<in> cover (sizes h) ?B" using g b that by (auto simp: geom_def)
    then obtain c where c: "c \<in> ?B" "x \<in> blk (sizes h) c" by (auto simp: cover_def)
    with none that show ?thesis by blast
  qed
  have small: "c mod 4096 + sizes h c \<le> 4096" "sizes h c < 4096" "24 \<le> sizes h c"
    if "c \<in> set (freelist h)" for c
    using geom_block [OF g, of c] fl that by (auto simp: block_ok_def flags_ok_def dest: dvd_imp_le)
  have inpage: "x div 4096 = c div 4096" if "c \<in> set (freelist h)" "x \<in> blk (sizes h) c" for x c
  proof -
    from that have "x = c + (x - c)" "c mod 4096 + (x - c) < 4096"
      using small [OF that(1)] by (auto simp: blk_def)
    then show ?thesis by (metis div_same_page)
  qed
  have sd: "s div 4096 = b div 4096" "s mod 4096 = 0" by (simp_all add: s_def)
  obtain c where c: "c \<in> set (freelist h)" "s \<in> blk (sizes h) c" using page [OF sd(1)] by blast
  have cs: "c = s"
  proof -
    have "c div 4096 = s div 4096" using inpage [OF c] by simp
    then have "s \<le> c" using sd by (metis s_def div_times_less_eq_dividend mult.commute)
    with c(2) show ?thesis by (simp add: blk_def)
  qed
  let ?e = "c + sizes h c"
  have ed: "?e div 4096 = b div 4096"
    using div_same_page [of c "sizes h c"] small(2) [OF c(1)] cs sd by simp
  obtain d where d: "d \<in> set (freelist h)" "?e \<in> blk (sizes h) d" using page [OF ed] by blast
  have "d = ?e"
  proof (rule ccontr)
    assume "d \<noteq> ?e"
    then have "?e - 1 \<in> blk (sizes h) d" using d(2) by (auto simp: blk_def)
    moreover have "?e - 1 \<in> blk (sizes h) c" using small(3) [OF c(1)] by (auto simp: blk_def)
    ultimately have "d = c" using geom_unique [OF g, of d c] c d by auto
    with d(2) show False by (simp add: blk_def)
  qed
  with fl c(1) d(1) ed cs sd show False by (auto simp: flags_ok_def no_adjacent_def)
qed

section \<open>Sizes\<close>

lemma order_loop_spec:
  "s < 2 ^ (order_loop s k - k) \<and> k \<le> order_loop s k \<and>
   (s > 0 \<longrightarrow> k < order_loop s k \<and> 2 ^ (order_loop s k - k - 1) \<le> s)"
proof (induction s k rule: order_loop.induct)
  case (1 s k)
  show ?case
  proof (cases "s = 0")
    case True
    then show ?thesis using order_loop.simps [of 0 k] by simp
  next
    case False
    let ?r = "order_loop (drop_bit 1 s) (k + 1)"
    have r: "order_loop s k = ?r" using False by (subst order_loop.simps) simp
    note IH = 1 [OF False]
    have d: "drop_bit 1 s = s div 2" by (simp add: drop_bit_eq_div)
    have lt: "s div 2 < 2 ^ (?r - (k + 1))" and kr: "k + 1 \<le> ?r" using IH d by auto
    have e: "?r - k = Suc (?r - (k + 1))" using kr by simp
    have "s < 2 ^ (?r - k)" using lt unfolding e by simp
    moreover have "2 ^ (?r - k - 1) \<le> s"
    proof (cases "s div 2 = 0")
      case True
      then have "s = 1" using False by simp
      then have "?r = k + 1" by (simp add: order_loop.simps)
      then show ?thesis using \<open>s = 1\<close> by simp
    next
      case False
      then have "2 ^ (?r - (k + 1) - 1) \<le> s div 2" "k + 1 < ?r" using IH d by auto
      moreover from this have "?r - k - 1 = Suc (?r - (k + 1) - 1)" by simp
      ultimately show ?thesis by simp
    qed
    ultimately show ?thesis using r kr by simp
  qed
qed

section \<open>Properties\<close>

text \<open>A heap over the small page state with one used block at page 2.\<close>

definition small_heap :: "mm xheap" where
  "small_heap = \<lparr>hdr_at = (\<lambda>a. \<lparr>hdr_size = 4096, linked = False\<rparr>), freelist = [],
     bytes = (\<lambda>a. of_nat a), page_state = small_state, xm_in_irq = False\<rparr>"

lemma small_heap_ok:
  "heap_ok (owned small_state) small_heap [8192 \<mapsto> 4096]"
  "mm_ok (page_state small_heap) \<and> \<not> mm_in_irq (page_state small_heap)"
  "\<not> xm_in_irq small_heap" "page_state small_heap = small_state"
proof -
  have s: "sizes small_heap = (\<lambda>a. 4096)" "freelist small_heap = []" "\<not> linked (hdr_at small_heap a)" for a
    by (simp_all add: small_heap_def fun_eq_iff flip: hdr_size_sizes)
  have "geom {2} (\<lambda>a. 4096) {8192}"
    by (auto simp: geom_def block_ok_def blk_def cover_def)
  then have "geom (owned small_state) (\<lambda>a. 4096) {8192}"
    by (rule geom_cong) (auto simp: small_state_owned)
  then show "heap_ok (owned small_state) small_heap [8192 \<mapsto> 4096]"
    by (simp add: heap_ok_def flags_ok_def s no_adjacent_def)
  show "mm_ok (page_state small_heap) \<and> \<not> mm_in_irq (page_state small_heap)"
    "\<not> xm_in_irq small_heap" "page_state small_heap = small_state"
    using small_state_ok by (simp_all add: small_heap_def)
qed

text \<open>The same page with a used block of 96 bytes and the rest free.\<close>

definition split_heap :: "mm xheap" where
  "split_heap = \<lparr>hdr_at = (\<lambda>a. \<lparr>hdr_size = 96, linked = False\<rparr>)(8288 := \<lparr>hdr_size = 4000, linked = True\<rparr>),
     freelist = [8288], bytes = (\<lambda>a. of_nat a), page_state = small_state, xm_in_irq = False\<rparr>"

lemma split_heap_ok: "heap_ok {2} split_heap [8192 \<mapsto> 96]"
proof -
  have s: "sizes split_heap = (\<lambda>a. 96)(8288 := 4000)" "freelist split_heap = [8288]"
    "linked (hdr_at split_heap 8288)" "\<not> linked (hdr_at split_heap 8192)"
    by (simp_all add: split_heap_def fun_eq_iff flip: hdr_size_sizes)
  have "geom {2} ((\<lambda>a. 96)(8288 := 4000)) {8288, 8192}"
    by (auto simp: geom_def block_ok_def blk_def cover_def)
  then show ?thesis by (simp add: heap_ok_def flags_ok_def s no_adjacent_def insert_commute)
qed

text \<open>
  C2: \<open>xmalloc_align\<close> always returns (below \<open>2 ^ 42\<close> bytes), and when it does not crash for want
  of a page it gives null or an 8-aligned block of at least \<open>n\<close> bytes, disjoint from the blocks
  in use with their headers; the heap's invariant holds again with the block in use, and no
  client byte has changed.
\<close>

theorem xmalloc_fresh:
  assumes "env_ok env" and "mm_ok (page_state h) \<and> \<not> mm_in_irq (page_state h)"
    and "heap_ok (owned (page_state h)) h U" and "\<not> xm_in_irq h" and "n < 2 ^ 42"
  shows "xmalloc_align allocate_pages env h n al = Some (Inl Crash) \<or>
     (\<exists>p h'. xmalloc_align allocate_pages env h n al = Some (Inr (p, h')) \<and> bytes h' = bytes h \<and>
        (if p = 0 then heap_ok (owned (page_state h')) h' U
         else \<exists>a s. p = a + 24 \<and> 8 dvd p \<and> n + 24 \<le> s \<and>
                heap_ok (owned (page_state h')) h' (U(a \<mapsto> s)) \<and>
                (\<forall>b t. U b = Some t \<longrightarrow> {p ..< p + n} \<inter> {b ..< b + t} = {})))"
proof (cases "xmalloc_align allocate_pages env h n al = Some (Inl Crash)")
  case False
  then obtain p h' where m: "xmalloc_align allocate_pages env h n al = Some (Inr (p, h'))"
      "allocated (owned (page_state h')) h' U n p" "bytes h' = bytes h"
    using mm_pages.xmalloc_align_ok [OF assms] by blast
  show ?thesis
  proof (cases "p = 0")
    case True
    with m show ?thesis by (auto simp: allocated_def)
  next
    case nz: False
    then obtain a s where a: "p = a + 24" "a \<notin> dom U" "n + 24 \<le> s"
        and ok: "heap_ok (owned (page_state h')) h' (U(a \<mapsto> s))"
      using m(2) by (auto simp: allocated_def)
    let ?B = "set (freelist h') \<union> dom (U(a \<mapsto> s))"
    have g: "geom (owned (page_state h')) (sizes h') ?B"
      and szs: "\<And>b t. (U(a \<mapsto> s)) b = Some t \<Longrightarrow> sizes h' b = t"
      using ok by (auto simp: heap_ok_def flags_ok_def)
    have "8 dvd a" using geom_block [OF g, of a] by (simp add: block_ok_def)
    then have "8 dvd p" using a(1) by (simp add: dvd_add)
    moreover have "{p ..< p + n} \<inter> {b ..< b + t} = {}" if b: "U b = Some t" for b t
    proof -
      have ba: "b \<noteq> a" using a(2) b by auto
      then have "blk (sizes h') a \<inter> blk (sizes h') b = {}"
        using g b unfolding geom_def by (metis UnCI domI fun_upd_other fun_upd_same)
      moreover have "sizes h' a = s" "sizes h' b = t" using szs [of a s] szs [of b t] b ba by auto
      ultimately show ?thesis using a by (force simp: blk_def)
    qed
    ultimately show ?thesis using m a ok nz by auto
  qed
qed simp

theorem xmalloc_fresh_witness:
  "xmalloc_align allocate_pages closed_env small_heap 100 8 = Some (Inl Crash) \<or>
     (\<exists>p h'. xmalloc_align allocate_pages closed_env small_heap 100 8 = Some (Inr (p, h')) \<and>
        bytes h' = bytes small_heap \<and>
        (if p = 0 then heap_ok (owned (page_state h')) h' [8192 \<mapsto> 4096]
         else \<exists>a s. p = a + 24 \<and> 8 dvd p \<and> 100 + 24 \<le> s \<and>
                heap_ok (owned (page_state h')) h' ([8192 \<mapsto> 4096, a \<mapsto> s]) \<and>
                (\<forall>b t. [8192 \<mapsto> 4096] b = Some t \<longrightarrow> {p ..< p + 100} \<inter> {b ..< b + t} = {})))"
  by (rule xmalloc_fresh [OF closed_env_ok small_heap_ok(2) _ small_heap_ok(3)])
     (simp_all add: small_heap_ok(1,4))

text \<open>
  C3: \<open>xfree\<close> of a block in use never faults: it returns with the block no longer in use, the
  invariant again true (the block is merged with its free neighbours, and a page that becomes
  free as a whole goes back to the page allocator), and no client byte changed.
\<close>

theorem xfree_releases:
  assumes "mm_ok (page_state h) \<and> \<not> mm_in_irq (page_state h)"
    and "heap_ok (owned (page_state h)) h U" and "\<not> xm_in_irq h" and "U a = Some s"
  shows "\<exists>h'. xfree deallocate_pages h (a + 24) = Inr h' \<and>
     heap_ok (owned (page_state h')) h' (U(a := None)) \<and> bytes h' = bytes h \<and>
     mm_ok (page_state h')"
  using mm_pages.xfree_ok [OF assms] by blast

theorem xfree_releases_witness:
  "\<exists>h'. xfree deallocate_pages small_heap (8192 + 24) = Inr h' \<and>
     heap_ok (owned (page_state h')) h' ([8192 \<mapsto> 4096](8192 := None)) \<and>
     bytes h' = bytes small_heap \<and> mm_ok (page_state h')"
  by (rule xfree_releases [OF small_heap_ok(2) _ small_heap_ok(3)])
     (simp_all add: small_heap_ok(1,4))

text \<open>
  The heap keeps no page for nothing: in every page that has a free block there is also a
  block in use.
\<close>

theorem xmalloc_no_idle_page:
  assumes "heap_ok K h U" and "b \<in> set (freelist h)"
  shows "\<exists>a s x. U a = Some s \<and> a \<le> x \<and> x < a + s \<and> x div 4096 = b div 4096"
proof -
  obtain a x where a: "a \<in> dom U" "x \<in> blk (sizes h) a" "x div 4096 = b div 4096"
    using free_page_used [OF assms] by blast
  then obtain s where s: "U a = Some s" by blast
  then have "sizes h a = s" using assms(1) by (auto simp: heap_ok_def flags_ok_def)
  with a s show ?thesis by (auto simp: blk_def)
qed

theorem xmalloc_no_idle_page_witness:
  "\<exists>a s x. [8192 \<mapsto> 96] a = Some s \<and> a \<le> x \<and> x < a + s \<and> x div 4096 = 8288 div (4096 :: nat)"
  by (rule xmalloc_no_idle_page [OF split_heap_ok]) (simp add: split_heap_def)

text \<open>
  C35: \<open>xrealloc\<close> of a block in use either leaves it in place when it is large enough, or
  moves it: the result holds at least \<open>n\<close> bytes, starts with the old contents, and the old block
  is given back.
\<close>

theorem xrealloc_preserves_contents:
  assumes "env_ok env" and "mm_ok (page_state h) \<and> \<not> mm_in_irq (page_state h)"
    and "heap_ok (owned (page_state h)) h U" and "\<not> xm_in_irq h"
    and "U a = Some s" "s < 2 ^ 31" and "n < 2 ^ 42"
    and "xrealloc allocate_pages deallocate_pages env h (a + 24) n al = Some (Inr (q, h'))"
    and "q \<noteq> 0"
  shows "(\<forall>j < s - 24. bytes h' (q + j) = bytes h (a + 24 + j)) \<and>
     (\<exists>b t. q = b + 24 \<and> n + 24 \<le> t \<and>
        heap_ok (owned (page_state h')) h' ((U(a := None))(b \<mapsto> t)))"
proof -
  have s24: "24 \<le> s"
    using geom_block [of "owned (page_state h)" "sizes h" "set (freelist h) \<union> dom U" a] assms(3,5)
    by (auto simp: heap_ok_def flags_ok_def block_ok_def)
  from mm_pages.xrealloc_ok [OF assms(1-7), of al]
  consider "n \<le> s - 24" "q = a + 24" "h' = h"
    | "allocated (owned (page_state h')) h' (U(a := None)) n q"
      "\<forall>j < s - 24. bytes h' (q + j) = bytes h (a + 24 + j)"
    using assms(8,9) by auto
  then show ?thesis
  proof cases
    case 1
    have "(U(a := None))(a \<mapsto> s) = U" using assms(5) by auto
    with 1 assms(3) s24 show ?thesis by (auto intro!: exI [of _ s])
  next
    case 2
    with assms(9) show ?thesis by (auto simp: allocated_def)
  qed
qed

lemma split_heap_realloc:
  "\<exists>h'. xrealloc allocate_pages deallocate_pages closed_env split_heap (8192 + 24) 200 8 =
     Some (Inr (8312, h'))"
proof -
  have "align_up 224 8 = 224" by (simp add: align_up_8)
  then show ?thesis
    by (simp add: xrealloc_def xmalloc_align_def split_heap_def wadd_def wsub_def hdr_bytes_def
        hdr_align_def page_size_def to_int32_def unsigned_long_def maybe_split_def copy_bytes_def
        xfree_def same_page_eq set_hdr_def Let_def flip: hdr_size_sizes)
qed

theorem xrealloc_preserves_contents_witness:
  "\<exists>h'. xrealloc allocate_pages deallocate_pages closed_env split_heap (8192 + 24) 200 8 =
      Some (Inr (8312, h')) \<and>
     bytes h' (8312 + 5) = bytes split_heap (8192 + 24 + 5) \<and>
     (\<exists>b t. (8312 :: nat) = b + 24 \<and> 200 + 24 \<le> t \<and>
        heap_ok (owned (page_state h')) h' (([8192 \<mapsto> 96](8192 := None))(b \<mapsto> t)))"
proof -
  obtain h' where r: "xrealloc allocate_pages deallocate_pages closed_env split_heap (8192 + 24) 200 8 =
      Some (Inr (8312, h'))" using split_heap_realloc by blast
  have ok: "heap_ok (owned (page_state split_heap)) split_heap [8192 \<mapsto> 96]"
    by (rule heap_ok_mono [OF split_heap_ok]) (simp add: split_heap_def small_state_owned)
  have st: "mm_ok (page_state split_heap) \<and> \<not> mm_in_irq (page_state split_heap)"
    "\<not> xm_in_irq split_heap" using small_state_ok by (simp_all add: split_heap_def)
  have c: "(\<forall>j < 96 - 24. bytes h' (8312 + j) = bytes split_heap (8192 + 24 + j)) \<and>
     (\<exists>b t. 8312 = b + 24 \<and> 200 + 24 \<le> t \<and>
        heap_ok (owned (page_state h')) h' (([8192 \<mapsto> 96](8192 := None))(b \<mapsto> t)))"
    by (rule xrealloc_preserves_contents [OF closed_env_ok st(1) ok st(2) _ _ _ r]) simp_all
  have "bytes h' (8312 + 5) = bytes split_heap (8192 + 24 + 5)"
    using c [THEN conjunct1, rule_format, of 5] by simp
  with r c show ?thesis by blast
qed

text \<open>
  \<open>xcalloc\<close> asks for \<open>n * size\<close> bytes modulo \<open>2 ^ 64\<close> and clears exactly these: a product
  that overflows gives a block that is too small, without an error.
\<close>

theorem xcalloc_zeroes:
  assumes "env_ok env" and "mm_ok (page_state h) \<and> \<not> mm_in_irq (page_state h)"
    and "heap_ok (owned (page_state h)) h U" and "\<not> xm_in_irq h"
    and "(n * k) mod 2 ^ 64 < 2 ^ 42"
    and "xcalloc allocate_pages env h n k = Some (Inr (p, h'))" and "p \<noteq> 0"
  shows "(\<forall>j < (n * k) mod 2 ^ 64. bytes h' (p + j) = 0) \<and>
     (\<forall>x. x \<notin> {p ..< p + (n * k) mod 2 ^ 64} \<longrightarrow> bytes h' x = bytes h x) \<and>
     (\<exists>a s. p = a + 24 \<and> (n * k) mod 2 ^ 64 + 24 \<le> s \<and> a \<notin> dom U \<and>
        heap_ok (owned (page_state h')) h' (U(a \<mapsto> s)))"
proof -
  let ?t = "(n * k) mod 2 ^ 64"
  have w: "wmul k n = ?t" by (simp add: wmul_def mult.commute)
  from mm_pages.xmalloc_align_ok [OF assms(1-5), of 8]
  consider "xmalloc_align allocate_pages env h ?t 8 = Some (Inl Crash)"
    | q h1 where "xmalloc_align allocate_pages env h ?t 8 = Some (Inr (q, h1))"
      "allocated (owned (page_state h1)) h1 U ?t q" "bytes h1 = bytes h" by blast
  then show ?thesis
  proof cases
    case 1
    with assms(6) show ?thesis by (simp add: xcalloc_def w Let_def)
  next
    case (2 q h1)
    then have q: "p = q" "h' = fill_bytes h1 q 0 ?t"
      using assms(6,7) by (auto simp: xcalloc_def w Let_def split: if_splits)
    with 2 assms(7) show ?thesis by (auto simp: fill_bytes_def allocated_def)
  qed
qed

lemma split_heap_calloc:
  "xcalloc allocate_pages closed_env split_heap 2 10 =
     Some (Inr (8312, fill_bytes (maybe_split (split_heap\<lparr>freelist := []\<rparr>) 8288 48 4000) 8312 0 20))"
proof -
  have "align_up 44 8 = 48" by (simp add: align_up_8)
  then show ?thesis
    by (simp add: xcalloc_def xmalloc_align_def split_heap_def wmul_def wadd_def hdr_bytes_def
        hdr_align_def page_size_def Let_def flip: hdr_size_sizes)
qed

theorem xcalloc_zeroes_witness:
  "let h' = fill_bytes (maybe_split (split_heap\<lparr>freelist := []\<rparr>) 8288 48 4000) 8312 0 20 in
     (\<forall>j < (2 * 10) mod 2 ^ 64. bytes h' (8312 + j) = 0) \<and>
     (\<forall>x. x \<notin> {8312 ..< 8312 + (2 * 10) mod 2 ^ 64} \<longrightarrow> bytes h' x = bytes split_heap x) \<and>
     (\<exists>a s. (8312 :: nat) = a + 24 \<and> (2 * 10) mod 2 ^ 64 + 24 \<le> s \<and> a \<notin> dom [8192 \<mapsto> 96 :: nat] \<and>
        heap_ok (owned (page_state h')) h' ([8192 \<mapsto> 96, a \<mapsto> s]))"
proof -
  have "heap_ok (owned (page_state split_heap)) split_heap [8192 \<mapsto> 96]"
    by (rule heap_ok_mono [OF split_heap_ok]) (simp add: split_heap_def small_state_owned)
  moreover have "mm_ok (page_state split_heap) \<and> \<not> mm_in_irq (page_state split_heap)"
    "\<not> xm_in_irq split_heap" using small_state_ok by (simp_all add: split_heap_def)
  ultimately show ?thesis
    unfolding Let_def by (intro xcalloc_zeroes [OF closed_env_ok _ _ _ _ split_heap_calloc]) simp_all
qed

text \<open>
  The size \<open>xcalloc\<close> asks for wraps without an error: for \<open>2 ^ 32\<close> objects of \<open>2 ^ 32\<close>
  bytes it does what it does for none, and gives a block without room for a single byte.
\<close>

theorem xcalloc_wraps:
  "xcalloc alloc e h (2 ^ 32) (2 ^ 32) = xcalloc alloc e h 0 0"
  by (simp add: xcalloc_def wmul_def)

text \<open>
  \<open>get_order\<close> is the smallest order whose block of pages holds \<open>size\<close> bytes.
\<close>

theorem get_order_least:
  assumes "1 \<le> n" and "n < 2 ^ 64"
  shows "n \<le> 4096 * 2 ^ get_order n \<and> (\<forall>k < get_order n. 4096 * 2 ^ k < n)"
proof -
  define m where "m = (n - 1) div 4096"
  have g: "get_order n = order_loop m 0"
    using assms by (simp add: get_order_def m_def page_shift_def drop_bit_eq_div wsub_eq)
  have s: "m < 2 ^ get_order n" "m > 0 \<Longrightarrow> 2 ^ (get_order n - 1) \<le> m"
    using order_loop_spec [of m 0] by (auto simp: g)
  have "n \<le> 4096 * 2 ^ get_order n"
  proof -
    have "n - 1 < 4096 * (m + 1)" by (simp add: m_def)
    moreover have "4096 * (m + 1) \<le> 4096 * 2 ^ get_order n" using s(1) by (simp del: mult_Suc_right)
    ultimately show ?thesis by linarith
  qed
  moreover have "4096 * 2 ^ k < n" if k: "k < get_order n" for k
  proof -
    have m0: "m > 0"
    proof (rule ccontr)
      assume "\<not> m > 0"
      then have "get_order n = 0" using g by (simp add: order_loop.simps)
      with k show False by simp
    qed
    have "(2 :: nat) ^ k \<le> 2 ^ (get_order n - 1)" using k by (intro power_increasing) auto
    then have "2 ^ k \<le> m" using s(2) [OF m0] by linarith
    then have "4096 * 2 ^ k \<le> n - 1" unfolding m_def by simp
    with assms(1) show ?thesis by linarith
  qed
  ultimately show ?thesis by blast
qed

theorem get_order_least_witness:
  "(8193 :: nat) \<le> 4096 * 2 ^ get_order 8193 \<and> \<not> 2 < get_order 8193"
  using get_order_least [of 8193] by auto

end
