(* ===== verification/Cstring.thy ===== *)
theory Cstring
  imports Prelude "HOL-Library.List_Lexorder"
begin

text \<open>
  The string and memory routines of \<^verbatim>\<open>lib/lib.c\<close>.  Memory is one list of bytes and a pointer an
  index into it; reading or writing outside is \<open>Undef\<close>, so a string without terminator makes
  a routine run off the end instead of looping for ever.  The null pointer is 0.

  \<^verbatim>\<open>char\<close> is signed on x86: where the C code does arithmetic on a \<^verbatim>\<open>char\<close>, the byte is read by
  \<open>sint\<close>.  The unrolled copies of a loop body in \<open>strrchr\<close> and \<open>strncat\<close> are one iteration
  each.
\<close>

type_synonym memory = "u8 list"

section \<open>Reading strings\<close>

text \<open>The loops of \<open>strlen\<close> and \<open>strnlen\<close> give the pointer they stop at.\<close>

function strlen_loop :: "memory \<Rightarrow> nat \<Rightarrow> nat res" where
  "strlen_loop m sc =
     (case aget m sc of
        Inl e \<Rightarrow> Inl e
      | Inr c \<Rightarrow> if c \<noteq> 0 then strlen_loop m (sc + 1) else Inr sc)"
  by pat_completeness auto
termination
  by (relation "measure (\<lambda>(m, s). length m - s)") (auto simp: aget_eq_Inr)

definition strlen :: "memory \<Rightarrow> nat \<Rightarrow> nat res" where
  "strlen m s = rbind (strlen_loop m s) (\<lambda>sc. Inr (sc - s))"

fun strnlen_loop :: "memory \<Rightarrow> nat \<Rightarrow> nat \<Rightarrow> nat res" where
  "strnlen_loop m sc 0 = Inr sc"
| "strnlen_loop m sc (Suc count) =
     (case aget m sc of
        Inl e \<Rightarrow> Inl e
      | Inr c \<Rightarrow> if c \<noteq> 0 then strnlen_loop m (sc + 1) count else Inr sc)"

definition strnlen :: "memory \<Rightarrow> nat \<Rightarrow> nat \<Rightarrow> nat res" where
  "strnlen m s count = rbind (strnlen_loop m s count) (\<lambda>sc. Inr (sc - s))"

text \<open>\<^verbatim>\<open>for (a = accept; *a && *s != *a; a++);\<close>: is the character among those at \<open>a\<close>?\<close>

function among :: "memory \<Rightarrow> nat \<Rightarrow> u8 \<Rightarrow> bool res" where
  "among m a c =
     (case aget m a of
        Inl e \<Rightarrow> Inl e
      | Inr x \<Rightarrow> if x = 0 then Inr False else if c = x then Inr True else among m (a + 1) c)"
  by pat_completeness auto
termination
  by (relation "measure (\<lambda>(m, s, c). length m - s)") (auto simp: aget_eq_Inr)

function strspn :: "memory \<Rightarrow> nat \<Rightarrow> nat \<Rightarrow> nat res" where
  "strspn m s accept =
     (case aget m s of
        Inl e \<Rightarrow> Inl e
      | Inr c \<Rightarrow>
          if c = 0 then Inr 0
          else case among m accept c of
              Inl e \<Rightarrow> Inl e
            | Inr found \<Rightarrow>
                if \<not> found then Inr 0
                else (case strspn m (s + 1) accept of Inl e \<Rightarrow> Inl e | Inr l \<Rightarrow> Inr (l + 1)))"
  by pat_completeness auto
termination
  by (relation "measure (\<lambda>(m, s, a). length m - s)") (auto simp: aget_eq_Inr)

function strcspn :: "memory \<Rightarrow> nat \<Rightarrow> nat \<Rightarrow> nat res" where
  "strcspn m s reject =
     (case aget m s of
        Inl e \<Rightarrow> Inl e
      | Inr c \<Rightarrow>
          if c = 0 then Inr 0
          else case among m reject c of
              Inl e \<Rightarrow> Inl e
            | Inr found \<Rightarrow>
                if found then Inr 0
                else (case strcspn m (s + 1) reject of Inl e \<Rightarrow> Inl e | Inr l \<Rightarrow> Inr (l + 1)))"
  by pat_completeness auto
termination
  by (relation "measure (\<lambda>(m, s, a). length m - s)") (auto simp: aget_eq_Inr)

function strpbrk :: "memory \<Rightarrow> nat \<Rightarrow> nat \<Rightarrow> nat res" where
  "strpbrk m s accept =
     (case aget m s of
        Inl e \<Rightarrow> Inl e
      | Inr c \<Rightarrow>
          if c = 0 then Inr 0
          else case among m accept c of
              Inl e \<Rightarrow> Inl e
            | Inr found \<Rightarrow> if found then Inr s else strpbrk m (s + 1) accept)"
  by pat_completeness auto
termination
  by (relation "measure (\<lambda>(m, s, a). length m - s)") (auto simp: aget_eq_Inr)

text \<open>The parameter \<^verbatim>\<open>int c\<close> is converted to \<^verbatim>\<open>char\<close>.\<close>

function strchr_loop :: "memory \<Rightarrow> nat \<Rightarrow> u8 \<Rightarrow> nat res" where
  "strchr_loop m s c =
     (case aget m s of
        Inl e \<Rightarrow> Inl e
      | Inr x \<Rightarrow> if x = c then Inr s else if x = 0 then Inr 0 else strchr_loop m (s + 1) c)"
  by pat_completeness auto
termination
  by (relation "measure (\<lambda>(m, s, c). length m - s)") (auto simp: aget_eq_Inr)

definition strchr :: "memory \<Rightarrow> nat \<Rightarrow> int \<Rightarrow> nat res" where
  "strchr m s c = strchr_loop m s (of_int c)"

function strrchr_loop :: "memory \<Rightarrow> nat \<Rightarrow> u8 \<Rightarrow> nat \<Rightarrow> nat res" where
  "strrchr_loop m t ch l =
     (case aget m t of
        Inl e \<Rightarrow> Inl e
      | Inr x \<Rightarrow>
          let l' = (if x = ch then t else l) in
          if x = 0 then Inr l' else strrchr_loop m (t + 1) ch l')"
  by pat_completeness auto
termination
  by (relation "measure (\<lambda>(m, s, c, l). length m - s)") (auto simp: aget_eq_Inr)

definition strrchr :: "memory \<Rightarrow> nat \<Rightarrow> int \<Rightarrow> nat res" where
  "strrchr m t c = strrchr_loop m t (of_int c) 0"

section \<open>Comparing\<close>

text \<open>
  \<^verbatim>\<open>__res = *cs - *ct++\<close> is an \<^verbatim>\<open>int\<close> difference stored in a \<^verbatim>\<open>signed char\<close>: the difference of the
  bytes modulo 256, read as signed when it is returned.
\<close>

function strcmp :: "memory \<Rightarrow> nat \<Rightarrow> nat \<Rightarrow> int res" where
  "strcmp m cs ct =
     (case aget m cs of
        Inl e \<Rightarrow> Inl e
      | Inr c \<Rightarrow>
          (case aget m ct of
             Inl e \<Rightarrow> Inl e
           | Inr t \<Rightarrow>
               if c - t \<noteq> 0 \<or> c = 0 then Inr (sint (c - t)) else strcmp m (cs + 1) (ct + 1)))"
  by pat_completeness auto
termination
  by (relation "measure (\<lambda>(m, s, t). length m - s)") (auto simp: aget_eq_Inr)

fun strncmp_loop :: "memory \<Rightarrow> nat \<Rightarrow> nat \<Rightarrow> nat \<Rightarrow> u8 \<Rightarrow> int res" where
  "strncmp_loop m cs ct 0 r = Inr (sint r)"
| "strncmp_loop m cs ct (Suc count) r =
     (case aget m cs of
        Inl e \<Rightarrow> Inl e
      | Inr c \<Rightarrow>
          (case aget m ct of
             Inl e \<Rightarrow> Inl e
           | Inr t \<Rightarrow>
               if c - t \<noteq> 0 \<or> c = 0 then Inr (sint (c - t))
               else strncmp_loop m (cs + 1) (ct + 1) count (c - t)))"

definition strncmp :: "memory \<Rightarrow> nat \<Rightarrow> nat \<Rightarrow> nat \<Rightarrow> int res" where
  "strncmp m cs ct count = strncmp_loop m cs ct count 0"

fun memcmp_loop :: "memory \<Rightarrow> nat \<Rightarrow> nat \<Rightarrow> nat \<Rightarrow> u8 \<Rightarrow> int res" where
  "memcmp_loop m cs ct 0 r = Inr (sint r)"
| "memcmp_loop m cs ct (Suc count) r =
     (case aget m cs of
        Inl e \<Rightarrow> Inl e
      | Inr c \<Rightarrow>
          (case aget m ct of
             Inl e \<Rightarrow> Inl e
           | Inr t \<Rightarrow>
               if c - t \<noteq> 0 then Inr (sint (c - t)) else memcmp_loop m (cs + 1) (ct + 1) count (c - t)))"

definition memcmp :: "memory \<Rightarrow> nat \<Rightarrow> nat \<Rightarrow> nat \<Rightarrow> int res" where
  "memcmp m cs ct count = memcmp_loop m cs ct count 0"

text \<open>\<^verbatim>\<open>x2 = *s2 - 'A'; if (x2 < 26u) x2 += 32;\<close> on unsigned 32-bit values.\<close>

definition fold_case :: "u8 \<Rightarrow> u32" where
  "fold_case c = (let x = (scast c :: u32) - 65 in if x < 26 then x + 32 else x)"

function strcasecmp :: "memory \<Rightarrow> nat \<Rightarrow> nat \<Rightarrow> int res" where
  "strcasecmp m s1 s2 =
     (case aget m s2 of
        Inl e \<Rightarrow> Inl e
      | Inr c2 \<Rightarrow>
          (case aget m s1 of
             Inl e \<Rightarrow> Inl e
           | Inr c1 \<Rightarrow>
               if fold_case c2 \<noteq> fold_case c1 \<or> fold_case c1 = - 65
               then Inr (sint (fold_case c1 - fold_case c2))
               else strcasecmp m (s1 + 1) (s2 + 1)))"
  by pat_completeness auto
termination
  by (relation "measure (\<lambda>(m, s, t). length m - s)") (auto simp: aget_eq_Inr)

fun strstr_loop :: "memory \<Rightarrow> nat \<Rightarrow> nat \<Rightarrow> nat \<Rightarrow> nat \<Rightarrow> nat res" where
  "strstr_loop m s1 s2 l1 l2 =
     (if l1 \<ge> l2 then
        (case memcmp m s1 s2 l2 of
           Inl e \<Rightarrow> Inl e
         | Inr r \<Rightarrow>
             if r = 0 then Inr s1
             else if l1 = 0 then Inr 0 \<comment> \<open>\<^verbatim>\<open>l1\<close> is \<^verbatim>\<open>-1\<close> now\<close>
             else strstr_loop m (s1 + 1) s2 (l1 - 1) l2)
      else Inr 0)"

declare strlen_loop.simps [simp del] among.simps [simp del] strspn.simps [simp del]
  strcspn.simps [simp del] strpbrk.simps [simp del] strchr_loop.simps [simp del]
  strrchr_loop.simps [simp del] strcmp.simps [simp del] strcasecmp.simps [simp del]
  strstr_loop.simps [simp del]

definition strstr :: "memory \<Rightarrow> nat \<Rightarrow> nat \<Rightarrow> nat res" where
  "strstr m s1 s2 =
     rbind (strlen m s2) (\<lambda>l2.
       if l2 = 0 then Inr s1
       else rbind (strlen m s1) (\<lambda>l1. strstr_loop m s1 s2 l1 l2))"

text \<open>\<^verbatim>\<open>*pc == c\<close> compares an \<^verbatim>\<open>unsigned char\<close> with the unconverted \<^verbatim>\<open>int\<close>.\<close>

fun memchr :: "memory \<Rightarrow> nat \<Rightarrow> int \<Rightarrow> nat \<Rightarrow> nat res" where
  "memchr m pc c 0 = Inr 0"
| "memchr m pc c (Suc n) =
     (case aget m pc of
        Inl e \<Rightarrow> Inl e
      | Inr x \<Rightarrow> if uint x = c then Inr pc else memchr m (pc + 1) c n)"

section \<open>Writing\<close>

fun memset :: "memory \<Rightarrow> nat \<Rightarrow> int \<Rightarrow> nat \<Rightarrow> memory res" where
  "memset m xs c 0 = Inr m"
| "memset m xs c (Suc count) = rbind (aset m xs (of_int c)) (\<lambda>m'. memset m' (xs + 1) c count)"

fun memcpy :: "memory \<Rightarrow> nat \<Rightarrow> nat \<Rightarrow> nat \<Rightarrow> memory res" where
  "memcpy m tmp s 0 = Inr m"
| "memcpy m tmp s (Suc count) =
     rbind (aget m s) (\<lambda>v. rbind (aset m tmp v) (\<lambda>m'. memcpy m' (tmp + 1) (s + 1) count))"

text \<open>
  The backward loop of \<open>memmove\<close>: \<^verbatim>\<open>a\<close> and \<^verbatim>\<open>b\<close> start at the last byte and step down with
  \<^verbatim>\<open>count\<close>, so they are \<open>dst + count\<close> and \<open>src + count\<close> for the count that is left.
\<close>

fun memmove_down :: "memory \<Rightarrow> nat \<Rightarrow> nat \<Rightarrow> nat \<Rightarrow> memory res" where
  "memmove_down m dst src 0 = Inr m"
| "memmove_down m dst src (Suc count) =
     rbind (aget m (src + count)) (\<lambda>v. rbind (aset m (dst + count) v) (\<lambda>m'. memmove_down m' dst src count))"

definition memmove :: "memory \<Rightarrow> nat \<Rightarrow> nat \<Rightarrow> nat \<Rightarrow> memory res" where
  "memmove m dst src count =
     (if src \<noteq> dst then
        if src > dst then memcpy m dst src count else memmove_down m dst src count
      else Inr m)"

fun memccpy :: "memory \<Rightarrow> nat \<Rightarrow> nat \<Rightarrow> int \<Rightarrow> nat \<Rightarrow> (nat \<times> memory) res" where
  "memccpy m a b c 0 = Inr (0, m)"
| "memccpy m a b c (Suc count) =
     rbind (aget m b) (\<lambda>v.
     rbind (aset m a v) (\<lambda>m'.
     rbind (aget m' b) (\<lambda>w.
       if sint w = c then Inr (a + 1, m') else memccpy m' (a + 1) (b + 1) c count)))"

function strcpy :: "memory \<Rightarrow> nat \<Rightarrow> nat \<Rightarrow> memory res" where
  "strcpy m dest src =
     (case aget m src of
        Inl e \<Rightarrow> Inl e
      | Inr c \<Rightarrow>
          (case aset m dest c of
             Inl e \<Rightarrow> Inl e
           | Inr m' \<Rightarrow> if c \<noteq> 0 then strcpy m' (dest + 1) (src + 1) else Inr m'))"
  by pat_completeness auto
termination
  by (relation "measure (\<lambda>(m, d, s). length m - s)") (auto simp: aget_eq_Inr aset_eq_Inr)

declare strcpy.simps [simp del]

fun strncpy :: "memory \<Rightarrow> nat \<Rightarrow> nat \<Rightarrow> nat \<Rightarrow> memory res" where
  "strncpy m dest src 0 = Inr m"
| "strncpy m dest src (Suc count) =
     (case aget m src of
        Inl e \<Rightarrow> Inl e
      | Inr c \<Rightarrow>
          (case aset m dest c of
             Inl e \<Rightarrow> Inl e
           | Inr m' \<Rightarrow> if c \<noteq> 0 then strncpy m' (dest + 1) (src + 1) count else Inr m'))"

definition strcat :: "memory \<Rightarrow> nat \<Rightarrow> nat \<Rightarrow> memory res" where
  "strcat m dest src = rbind (strlen_loop m dest) (\<lambda>d. strcpy m d src)"

fun strncat_loop :: "memory \<Rightarrow> nat \<Rightarrow> nat \<Rightarrow> nat \<Rightarrow> memory res" where
  "strncat_loop m s t 0 = aset m s 0"
| "strncat_loop m s t (Suc n) =
     rbind (aget m t) (\<lambda>c.
     rbind (aset m s c) (\<lambda>m'.
       if c = 0 then aset m' s 0
       else if n = 0 then aset m' (s + 1) 0
       else strncat_loop m' (s + 1) (t + 1) n))"

definition strncat :: "memory \<Rightarrow> nat \<Rightarrow> nat \<Rightarrow> nat \<Rightarrow> memory res" where
  "strncat m s t n =
     rbind (strlen m s) (\<lambda>l. if n = 0 then Inr m else strncat_loop m (s + l) t n)"

text \<open>The result of \<open>strtok_r\<close> is the token (or null), and the position kept in \<^verbatim>\<open>*ptrptr\<close>.\<close>

definition strtok_r :: "memory \<Rightarrow> nat \<Rightarrow> nat \<Rightarrow> nat \<Rightarrow> (nat \<times> nat \<times> memory) res" where
  "strtok_r m s0 delim ptr =
     (let s = (if s0 = 0 then ptr else s0) in
      rbind (strspn m s delim) (\<lambda>k.
      let s1 = s + k in
      rbind (aget m s1) (\<lambda>c.
        if c \<noteq> 0 then
          rbind (strcspn m s1 delim) (\<lambda>l.
          let s2 = s1 + l in
          rbind (aget m s2) (\<lambda>e.
            if e \<noteq> 0 then rbind (aset m s2 0) (\<lambda>m'. Inr (s1, s2 + 1, m'))
            else Inr (s1, s2, m)))
        else Inr (0, s1, m))))"

definition strtok :: "memory \<Rightarrow> nat \<Rightarrow> nat \<Rightarrow> nat \<Rightarrow> (nat \<times> nat \<times> memory) res" where
  "strtok m s delim strtok_pos = strtok_r m s delim strtok_pos"

section \<open>What the loops compute on strings\<close>

text \<open>\<open>c_str m s xs\<close>: at \<open>s\<close> stands the string of the non-zero bytes \<open>xs\<close> and a terminator.\<close>

fun c_str :: "memory \<Rightarrow> nat \<Rightarrow> u8 list \<Rightarrow> bool" where
  "c_str m s [] = (s < length m \<and> m ! s = 0)"
| "c_str m s (x # xs) = (s < length m \<and> m ! s = x \<and> x \<noteq> 0 \<and> c_str m (s + 1) xs)"

lemma c_str_length: "c_str m s xs \<Longrightarrow> s + length xs < length m"
  by (induction xs arbitrary: s) fastforce+

lemma c_str_nth:
  "c_str m s xs \<Longrightarrow> i \<le> length xs \<Longrightarrow> m ! (s + i) = (xs @ [0]) ! i"
proof (induction xs arbitrary: s i)
  case (Cons x xs)
  show ?case
  proof (cases i)
    case (Suc j)
    then show ?thesis using Cons.IH [of "s + 1" j] Cons.prems by simp
  qed (use Cons.prems in simp)
qed simp

lemma c_str_nonzero: "c_str m s xs \<Longrightarrow> 0 \<notin> set xs"
  by (induction xs arbitrary: s) auto

lemma c_strI:
  "s + length xs < length m \<Longrightarrow> 0 \<notin> set xs \<Longrightarrow> (\<And>i. i \<le> length xs \<Longrightarrow> m ! (s + i) = (xs @ [0]) ! i) \<Longrightarrow>
   c_str m s xs"
proof (induction xs arbitrary: s)
  case Nil
  then show ?case using Nil(3) [of 0] by simp
next
  case (Cons x xs)
  have "c_str m (s + 1) xs"
  proof (rule Cons.IH)
    fix i assume "i \<le> length xs"
    then show "m ! (s + 1 + i) = (xs @ [0]) ! i" using Cons.prems(3) [of "Suc i"] by simp
  qed (use Cons.prems in auto)
  with Cons.prems(1,2) Cons.prems(3) [of 0] show ?case by auto
qed

lemma c_str_drop: "c_str m s xs \<Longrightarrow> k \<le> length xs \<Longrightarrow> c_str m (s + k) (drop k xs)"
proof (induction k arbitrary: s xs)
  case (Suc k)
  then obtain x ys where "xs = x # ys" by (cases xs) auto
  with Suc show ?case by (metis add.commute add.left_commute add_Suc_right c_str.simps(2) drop_Suc_Cons
        length_Cons not_less_eq_eq plus_1_eq_Suc)
qed simp

lemma c_str_unique: "c_str m s xs \<Longrightarrow> c_str m s ys \<Longrightarrow> xs = ys"
proof (induction xs arbitrary: s ys)
  case Nil
  then show ?case by (cases ys) auto
next
  case (Cons x xs)
  then show ?case by (cases ys) auto
qed

lemma strlen_loop_spec: "c_str m s xs \<Longrightarrow> strlen_loop m s = Inr (s + length xs)"
  by (induction xs arbitrary: s) (subst strlen_loop.simps; simp)+

lemma strlen_spec: "c_str m s xs \<Longrightarrow> strlen m s = Inr (length xs)"
  by (simp add: strlen_def strlen_loop_spec)

lemma strnlen_spec: "c_str m s xs \<Longrightarrow> strnlen m s n = Inr (min n (length xs))"
proof -
  have "strnlen_loop m s n = Inr (s + min n (length xs))" if "c_str m s xs" for s xs
    using that
  proof (induction n arbitrary: s xs)
    case (Suc n)
    then show ?case by (cases xs) auto
  qed simp
  then show "c_str m s xs \<Longrightarrow> strnlen m s n = Inr (min n (length xs))"
    by (simp add: strnlen_def)
qed

lemma among_spec: "c_str m a xs \<Longrightarrow> among m a c = Inr (c \<in> set xs)"
  by (induction xs arbitrary: a) (subst among.simps; simp)+

lemma strspn_spec:
  "c_str m s xs \<Longrightarrow> c_str m a acc \<Longrightarrow> strspn m s a = Inr (length (takeWhile (\<lambda>c. c \<in> set acc) xs))"
  by (induction xs arbitrary: s) (subst strspn.simps; simp add: among_spec)+

lemma strcspn_spec:
  "c_str m s xs \<Longrightarrow> c_str m a rej \<Longrightarrow> strcspn m s a = Inr (length (takeWhile (\<lambda>c. c \<notin> set rej) xs))"
  by (induction xs arbitrary: s) (subst strcspn.simps; simp add: among_spec)+

lemma strpbrk_spec:
  "c_str m s xs \<Longrightarrow> c_str m a acc \<Longrightarrow>
   strpbrk m s a = Inr (if \<exists>x \<in> set xs. x \<in> set acc
     then s + length (takeWhile (\<lambda>c. c \<notin> set acc) xs) else 0)"
proof (induction xs arbitrary: s)
  case Nil
  then show ?case by (subst strpbrk.simps) simp
next
  case (Cons x xs)
  then show ?case
    by (cases "x \<in> set acc"; subst strpbrk.simps) (simp_all add: among_spec)
qed

lemma strchr_spec:
  "c_str m s xs \<Longrightarrow>
   strchr m s (uint c) = Inr (if c \<in> set (xs @ [0]) then s + length (takeWhile (\<lambda>x. x \<noteq> c) xs) else 0)"
proof -
  have "strchr_loop m s c = Inr (if c \<in> set (xs @ [0]) then s + length (takeWhile (\<lambda>x. x \<noteq> c) xs) else 0)"
    if "c_str m s xs" for s
    using that
  proof (induction xs arbitrary: s)
    case Nil
    then show ?case by (subst strchr_loop.simps) simp
  next
    case (Cons x xs)
    then show ?case by (cases "x = c"; subst strchr_loop.simps) simp_all
  qed
  then show "c_str m s xs \<Longrightarrow> ?thesis" by (simp add: strchr_def)
qed

section \<open>Comparing strings\<close>

lemma sint_zero_iff: "sint w = 0 \<longleftrightarrow> w = 0" for w :: u8
  by (metis signed_0 signed_word_eqI)

lemma sint_diff_ascii: "sint (x - y) = uint x - uint y" if "x < 128" "y < 128" for x y :: u8
proof -
  have b: "uint x < 128" "uint y < 128" "0 \<le> uint x" "0 \<le> uint y" using that by (simp_all add: word_less_def)
  have "sint (x - y) = (uint x - uint y + 128) mod 256 - 128"
    by (simp add: sint_uint uint_word_ariths signed_take_bit_eq_take_bit_shift take_bit_eq_mod mod_simps)
  also have "(uint x - uint y + 128) mod 256 = uint x - uint y + 128"
    by (rule mod_pos_pos_trivial) (use b in linarith)+
  also have "\<dots> - 128 = uint x - uint y" by simp
  finally show ?thesis .
qed

lemma strcmp_spec:
  assumes "c_str m s xs" and "c_str m t ys"
  shows "\<exists>r. strcmp m s t = Inr r \<and> (r = 0 \<longleftrightarrow> xs = ys) \<and>
     ((\<forall>x \<in> set xs \<union> set ys. x < 128) \<longrightarrow> (r < 0 \<longleftrightarrow> xs < ys))"
  using assms
proof (induction xs arbitrary: s t ys)
  case Nil
  show ?case
  proof (cases ys)
    case Nil
    with \<open>c_str m s []\<close> \<open>c_str m t ys\<close> show ?thesis by (subst strcmp.simps) simp
  next
    case (Cons y ys')
    with \<open>c_str m t ys\<close> have y: "aget m t = Inr y" "y \<noteq> 0" by auto
    with \<open>c_str m s []\<close> have "strcmp m s t = Inr (sint (- y))"
      by (subst strcmp.simps) simp
    moreover have "sint (- y) \<noteq> 0" using y(2) by (simp add: sint_zero_iff)
    moreover have "sint (- y) < 0" if "y < 128"
    proof -
      have "uint y > 0" using y(2) by (simp add: word_less_def word_neq_0_conv)
      then show ?thesis using sint_diff_ascii [of 0 y] that by simp
    qed
    ultimately show ?thesis using Cons by auto
  qed
next
  case (Cons x xs')
  have x: "aget m s = Inr x" "x \<noteq> 0" "c_str m (s + 1) xs'" using Cons.prems by auto
  show ?case
  proof (cases ys)
    case Nil
    with Cons.prems x have "strcmp m s t = Inr (sint x)" by (subst strcmp.simps) simp
    moreover have "sint x \<ge> 0" if "x < 128"
      using sint_diff_ascii [OF that, of 0] by simp
    ultimately show ?thesis using Nil x by (auto simp: sint_zero_iff)
  next
    case (Cons y ys')
    have y: "aget m t = Inr y" "y \<noteq> 0" "c_str m (t + 1) ys'" using Cons Cons.prems(2) by auto
    show ?thesis
    proof (cases "x = y")
      case True
      then have "strcmp m s t = strcmp m (s + 1) (t + 1)" using x y by (subst strcmp.simps) simp
      moreover obtain r where "strcmp m (s + 1) (t + 1) = Inr r" "r = 0 \<longleftrightarrow> xs' = ys'"
        "(\<forall>x \<in> set xs' \<union> set ys'. x < 128) \<longrightarrow> (r < 0 \<longleftrightarrow> xs' < ys')"
        using Cons.IH [OF x(3) y(3)] by blast
      ultimately show ?thesis using Cons True by auto
    next
      case False
      then have "strcmp m s t = Inr (sint (x - y))" using x y by (subst strcmp.simps) simp
      moreover have "sint (x - y) \<noteq> 0" using False by (simp add: sint_zero_iff)
      moreover have "(sint (x - y) < 0) = (x < y)" if "x < 128" "y < 128"
        using sint_diff_ascii [OF that] by (simp add: word_less_def)
      ultimately show ?thesis using Cons False by auto
    qed
  qed
qed

lemma memcmp_spec:
  assumes "a + n \<le> length m" and "b + n \<le> length m"
  shows "\<exists>r. memcmp m a b n = Inr r \<and> (r = 0 \<longleftrightarrow> (\<forall>i < n. m ! (a + i) = m ! (b + i)))"
proof -
  have "\<exists>r. memcmp_loop m a b n 0 = Inr r \<and> (r = 0 \<longleftrightarrow> (\<forall>i < n. m ! (a + i) = m ! (b + i)))"
    using assms
  proof (induction n arbitrary: a b)
    case (Suc n)
    show ?case
    proof (cases "m ! a = m ! b")
      case True
      obtain r where r: "memcmp_loop m (a + 1) (b + 1) n 0 = Inr r"
        "r = 0 \<longleftrightarrow> (\<forall>i < n. m ! (a + 1 + i) = m ! (b + 1 + i))"
        using Suc.IH [of "a + 1" "b + 1"] Suc.prems by auto
      have "(\<forall>i < Suc n. m ! (a + i) = m ! (b + i)) = (\<forall>i < n. m ! (a + 1 + i) = m ! (b + 1 + i))"
        using True by (auto simp: less_Suc_eq_0_disj)
      with r True Suc.prems show ?thesis by simp
    next
      case False
      then have "\<not> (\<forall>i < Suc n. m ! (a + i) = m ! (b + i))" by auto
      with False Suc.prems show ?thesis by (simp add: sint_zero_iff)
    qed
  qed simp
  then show ?thesis by (simp add: memcmp_def)
qed

text \<open>\<open>occurs ys xs k\<close>: the bytes \<open>ys\<close> stand at position \<open>k\<close> of \<open>xs\<close>.\<close>

definition occurs :: "u8 list \<Rightarrow> u8 list \<Rightarrow> nat \<Rightarrow> bool" where
  "occurs ys xs k = (take (length ys) (drop k xs) = ys)"

lemma occurs_length: "occurs ys xs k \<Longrightarrow> ys \<noteq> [] \<Longrightarrow> k + length ys \<le> length xs"
proof -
  assume "occurs ys xs k" "ys \<noteq> []"
  then have "length (take (length ys) (drop k xs)) = length ys" by (simp add: occurs_def)
  then have "length ys \<le> length xs - k" by simp
  moreover have "length ys > 0" using \<open>ys \<noteq> []\<close> by simp
  ultimately show ?thesis by linarith
qed

lemma occurs_nth:
  "k + length ys \<le> length xs \<Longrightarrow> occurs ys xs k = (\<forall>i < length ys. xs ! (k + i) = ys ! i)"
  by (auto simp: occurs_def list_eq_iff_nth_eq)

lemma strstr_loop_spec:
  assumes xs: "c_str m s xs" and ys: "c_str m t ys" and ne: "ys \<noteq> []"
    and k: "k \<le> length xs" "\<forall>j < k. \<not> occurs ys xs j"
  shows "(\<exists>j. strstr_loop m (s + k) t (length xs - k) (length ys) = Inr (s + j) \<and> occurs ys xs j \<and>
            (\<forall>i < j. \<not> occurs ys xs i)) \<or>
         (strstr_loop m (s + k) t (length xs - k) (length ys) = Inr 0 \<and> (\<forall>j. \<not> occurs ys xs j))"
  using k
proof (induction "length xs - k" arbitrary: k)
  case 0
  then have e: "k = length xs" by simp
  have "\<not> occurs ys xs j" for j
  proof (cases "j < k")
    case False
    then show ?thesis using occurs_length [of ys xs j] ne e by (cases ys) auto
  qed (use 0 in simp)
  moreover have "strstr_loop m (s + k) t (length xs - k) (length ys) = Inr 0"
    using e ne by (subst strstr_loop.simps) simp
  ultimately show ?case by blast
next
  case (Suc d)
  show ?case
  proof (cases "length ys \<le> length xs - k")
    case False
    then have "strstr_loop m (s + k) t (length xs - k) (length ys) = Inr 0"
      by (subst strstr_loop.simps) simp
    moreover have "\<not> occurs ys xs j" for j
    proof (cases "j < k")
      case False': False
      then show ?thesis using occurs_length [of ys xs j] ne False Suc.prems by auto
    qed (use Suc in simp)
    ultimately show ?thesis by blast
  next
    case True
    have len: "s + k + length ys \<le> length m" "t + length ys \<le> length m"
      using c_str_length [OF xs] c_str_length [OF ys] True Suc.prems(1) by linarith+
    have bytes: "(\<forall>i < length ys. m ! (s + k + i) = m ! (t + i)) = occurs ys xs k"
    proof -
      have "m ! (s + k + i) = xs ! (k + i)" "m ! (t + i) = ys ! i" if i: "i < length ys" for i
      proof -
        have "k + i < length xs" using i True Suc.prems(1) by linarith
        then show "m ! (s + k + i) = xs ! (k + i)" "m ! (t + i) = ys ! i"
          using c_str_nth [OF xs, of "k + i"] c_str_nth [OF ys, of i] i
          by (simp_all add: nth_append add.assoc)
      qed
      moreover have "k + length ys \<le> length xs" using True Suc.prems(1) by simp
      ultimately show ?thesis by (simp add: occurs_nth)
    qed
    obtain r where r: "memcmp m (s + k) t (length ys) = Inr r" "r = 0 \<longleftrightarrow> occurs ys xs k"
      using memcmp_spec [OF len] bytes by auto
    have d0: "length xs - k \<noteq> 0" using Suc.hyps(2) by simp
    show ?thesis
    proof (cases "r = 0")
      case True': True
      then have "strstr_loop m (s + k) t (length xs - k) (length ys) = Inr (s + k)"
        using True r(1) by (subst strstr_loop.simps) simp
      with r True' Suc.prems(2) show ?thesis by blast
    next
      case False
      then have step: "strstr_loop m (s + k) t (length xs - k) (length ys) =
          strstr_loop m (s + (k + 1)) t (length xs - (k + 1)) (length ys)"
        using True r(1) d0 by (subst strstr_loop.simps) simp
      have "\<forall>j < k + 1. \<not> occurs ys xs j"
        using Suc.prems(2) r(2) False by (auto simp: less_Suc_eq)
      then show ?thesis using Suc.hyps(1) [of "k + 1"] Suc.hyps(2) step by auto
    qed
  qed
qed

section \<open>Copying\<close>

lemma memcpy_spec:
  assumes "dst + n \<le> length m" and "src + n \<le> length m" and "dst \<le> src \<or> src + n \<le> dst"
  shows "\<exists>m'. memcpy m dst src n = Inr m' \<and> length m' = length m \<and>
     (\<forall>i < length m. m' ! i = (if dst \<le> i \<and> i < dst + n then m ! (src + (i - dst)) else m ! i))"
  using assms
proof (induction n arbitrary: m dst src)
  case (Suc n)
  let ?m1 = "m[dst := m ! src]"
  obtain m' where m': "memcpy ?m1 (dst + 1) (src + 1) n = Inr m'" "length m' = length m"
    "\<forall>i < length m. m' ! i =
       (if dst + 1 \<le> i \<and> i < dst + 1 + n then ?m1 ! (src + 1 + (i - (dst + 1))) else ?m1 ! i)"
    using Suc.IH [of "dst + 1" ?m1 "src + 1"] Suc.prems by auto
  have "m' ! i = (if dst \<le> i \<and> i < dst + Suc n then m ! (src + (i - dst)) else m ! i)"
    if i: "i < length m" for i
  proof (cases "dst + 1 \<le> i \<and> i < dst + 1 + n")
    case True
    then have e: "src + 1 + (i - (dst + 1)) = src + (i - dst)" "src + (i - dst) \<noteq> dst"
      using Suc.prems(3) by auto
    then show ?thesis using m'(3) i True by (simp add: e(1))
  next
    case False
    then show ?thesis using m'(3) i Suc.prems by (auto simp: nth_list_update)
  qed
  with m' Suc.prems show ?case by (simp add: Suc_le_eq)
qed auto

lemma memmove_down_spec:
  assumes "dst + n \<le> length m" and "src + n \<le> length m" and "src \<le> dst"
  shows "\<exists>m'. memmove_down m dst src n = Inr m' \<and> length m' = length m \<and>
     (\<forall>i < length m. m' ! i = (if dst \<le> i \<and> i < dst + n then m ! (src + (i - dst)) else m ! i))"
  using assms
proof (induction n arbitrary: m)
  case (Suc n)
  let ?m1 = "m[dst + n := m ! (src + n)]"
  obtain m' where m': "memmove_down ?m1 dst src n = Inr m'" "length m' = length m"
    "\<forall>i < length m. m' ! i = (if dst \<le> i \<and> i < dst + n then ?m1 ! (src + (i - dst)) else ?m1 ! i)"
    using Suc.IH [of ?m1] Suc.prems by auto
  have "m' ! i = (if dst \<le> i \<and> i < dst + Suc n then m ! (src + (i - dst)) else m ! i)"
    if i: "i < length m" for i
  proof (cases "dst \<le> i \<and> i < dst + n")
    case True
    then have "src + (i - dst) \<noteq> dst + n" using Suc.prems(3) by auto
    then show ?thesis using m'(3) i True by simp
  next
    case False
    then show ?thesis using m'(3) i Suc.prems by (auto simp: nth_list_update)
  qed
  with m' Suc.prems show ?case by simp
qed auto

lemma memmove_spec:
  assumes "dst + n \<le> length m" and "src + n \<le> length m"
  shows "\<exists>m'. memmove m dst src n = Inr m' \<and> length m' = length m \<and>
     (\<forall>i < length m. m' ! i = (if dst \<le> i \<and> i < dst + n then m ! (src + (i - dst)) else m ! i))"
proof -
  consider "src = dst" | "src > dst" | "src < dst" by linarith
  then show ?thesis
  proof cases
    case 1
    then show ?thesis by (auto simp: memmove_def)
  next
    case 2
    then show ?thesis using memcpy_spec [OF assms] by (simp add: memmove_def)
  next
    case 3
    then show ?thesis using memmove_down_spec [OF assms] by (simp add: memmove_def)
  qed
qed

lemma memset_spec:
  "p + n \<le> length m \<Longrightarrow> \<exists>m'. memset m p c n = Inr m' \<and> length m' = length m \<and>
     (\<forall>i < length m. m' ! i = (if p \<le> i \<and> i < p + n then of_int c else m ! i))"
proof (induction n arbitrary: m p)
  case (Suc n)
  let ?m1 = "m[p := of_int c]"
  obtain m' where m': "memset ?m1 (p + 1) c n = Inr m'" "length m' = length m"
    "\<forall>i < length m. m' ! i = (if p + 1 \<le> i \<and> i < p + 1 + n then of_int c else ?m1 ! i)"
    using Suc.IH [of "p + 1" ?m1] Suc.prems by auto
  with Suc.prems show ?case by (auto simp: nth_list_update)
qed auto

text \<open>Copying a string: the destination gets it, every byte outside stays.\<close>

definition outside :: "memory \<Rightarrow> memory \<Rightarrow> nat \<Rightarrow> nat \<Rightarrow> bool" where
  "outside m m' p n = (length m' = length m \<and> (\<forall>i < length m. i < p \<or> p + n \<le> i \<longrightarrow> m' ! i = m ! i))"

lemma c_str_outside:
  "c_str m s xs \<Longrightarrow> outside m m' p n \<Longrightarrow> s + length xs < p \<or> p + n \<le> s \<Longrightarrow> c_str m' s xs"
  by (induction xs arbitrary: s) (auto simp: outside_def)

lemma outside_step:
  "outside (m[p := v]) m' (p + 1) n \<Longrightarrow> outside m m' p (Suc n)"
  by (auto simp: outside_def nth_list_update)

lemma strcpy_spec:
  assumes "c_str m src xs" and "dest + length xs < length m"
    and "src + length xs < dest \<or> dest + length xs < src"
  shows "\<exists>m'. strcpy m dest src = Inr m' \<and> c_str m' dest xs \<and> outside m m' dest (Suc (length xs))"
  using assms
proof (induction xs arbitrary: m dest src)
  case Nil
  then show ?case by (subst strcpy.simps) (simp add: outside_def nth_list_update)
next
  case (Cons x xs)
  let ?m1 = "m[dest := x]"
  have x: "aget m src = Inr x" "x \<noteq> 0" using Cons.prems(1) by auto
  have o1: "outside m ?m1 dest 1" by (simp add: outside_def nth_list_update)
  have "c_str m (src + 1) xs" using Cons.prems(1) by simp
  then have "c_str ?m1 (src + 1) xs"
    by (rule c_str_outside [OF _ o1]) (use Cons.prems(3) in auto)
  then obtain m' where m': "strcpy ?m1 (dest + 1) (src + 1) = Inr m'" "c_str m' (dest + 1) xs"
      "outside ?m1 m' (dest + 1) (Suc (length xs))"
    using Cons.IH [of ?m1 "src + 1" "dest + 1"] Cons.prems by auto
  have "strcpy m dest src = Inr m'" using x m'(1) Cons.prems(2) by (subst strcpy.simps) simp
  moreover have "m' ! dest = x" "dest < length m'" using m'(3) Cons.prems(2) by (auto simp: outside_def)
  ultimately show ?case using m' x(2) outside_step [OF m'(3)] by auto
qed

lemma strcat_spec:
  assumes "c_str m dest ys" and "c_str m src xs" and "dest + length ys + length xs < length m"
    and "src + length xs < dest \<or> dest + length ys + length xs < src"
  shows "\<exists>m'. strcat m dest src = Inr m' \<and> c_str m' dest (ys @ xs) \<and>
     outside m m' (dest + length ys) (Suc (length xs))"
proof -
  obtain m' where m': "strcpy m (dest + length ys) src = Inr m'" "c_str m' (dest + length ys) xs"
      "outside m m' (dest + length ys) (Suc (length xs))"
    using strcpy_spec [of m src xs "dest + length ys"] assms by auto
  have "c_str m' dest (ys @ xs)"
  proof (rule c_strI)
    show "dest + length (ys @ xs) < length m'" using m'(3) assms(3) by (simp add: outside_def)
    show "0 \<notin> set (ys @ xs)" using c_str_nonzero assms(1,2) by auto
    fix i assume i: "i \<le> length (ys @ xs)"
    show "m' ! (dest + i) = ((ys @ xs) @ [0]) ! i"
    proof (cases "i < length ys")
      case True
      then have "m' ! (dest + i) = m ! (dest + i)" using m'(3) assms(3) by (simp add: outside_def)
      then show ?thesis using c_str_nth [OF assms(1), of i] True by (simp add: nth_append)
    next
      case False
      then show ?thesis using c_str_nth [OF m'(2), of "i - length ys"] i
        by (simp add: nth_append)
    qed
  qed
  with m' assms(1) show ?thesis by (auto simp: strcat_def strlen_loop_spec)
qed

lemma strncpy_spec:
  assumes "c_str m src xs" and "dest + length xs < length m" and "dest + n \<le> length m"
    and "src + length xs < dest \<or> dest + length xs < src"
  shows "\<exists>m'. strncpy m dest src n = Inr m' \<and>
     outside m m' dest (min n (Suc (length xs))) \<and>
     (\<forall>i < min n (Suc (length xs)). m' ! (dest + i) = (xs @ [0]) ! i)"
  using assms
proof (induction n arbitrary: m dest src xs)
  case 0
  then show ?case by (simp add: outside_def)
next
  case (Suc n)
  show ?case
  proof (cases xs)
    case Nil
    with Suc.prems show ?thesis by (simp add: outside_def nth_list_update)
  next
    case (Cons x ys)
    let ?m1 = "m[dest := x]"
    have x: "aget m src = Inr x" "x \<noteq> 0" using Suc.prems(1) Cons by auto
    have o1: "outside m ?m1 dest 1" by (simp add: outside_def nth_list_update)
    have "c_str m (src + 1) ys" using Suc.prems(1) Cons by simp
    then have "c_str ?m1 (src + 1) ys"
      by (rule c_str_outside [OF _ o1]) (use Suc.prems(4) Cons in auto)
    then obtain m' where m': "strncpy ?m1 (dest + 1) (src + 1) n = Inr m'"
        "outside ?m1 m' (dest + 1) (min n (Suc (length ys)))"
        "\<forall>i < min n (Suc (length ys)). m' ! (dest + 1 + i) = (ys @ [0]) ! i"
      using Suc.IH [of ?m1 "src + 1" ys "dest + 1"] Suc.prems Cons by auto
    have "m' ! dest = x" using m'(2) Suc.prems(2) Cons by (auto simp: outside_def)
    then have "m' ! (dest + i) = (xs @ [0]) ! i" if "i < min (Suc n) (Suc (length xs))" for i
      using that m'(3) Cons by (cases i) auto
    moreover have "outside m m' dest (min (Suc n) (Suc (length xs)))"
      using outside_step [OF m'(2)] Cons by simp
    moreover have "strncpy m dest src (Suc n) = Inr m'" using x m'(1) Suc.prems(2) by simp
    ultimately show ?thesis by blast
  qed
qed

section \<open>Tokens\<close>

lemma strtok_r_end:
  assumes "c_str m s xs" and "c_str m d delims" and "s \<noteq> 0"
    and "dropWhile (\<lambda>c. c \<in> set delims) xs = []"
  shows "strtok_r m s d ptr = Inr (0, s + length xs, m)"
proof -
  have "takeWhile (\<lambda>c. c \<in> set delims) xs = xs" using assms(4) by (simp add: dropWhile_eq_Nil_conv takeWhile_eq_all_conv)
  then have "strspn m s d = Inr (length xs)" using strspn_spec [OF assms(1,2)] by metis
  moreover have "aget m (s + length xs) = Inr 0"
    using c_str_nth [OF assms(1), of "length xs"] c_str_length [OF assms(1)] by simp
  ultimately show ?thesis using assms(3) by (simp add: strtok_r_def Let_def)
qed

lemma strtok_r_token:
  assumes xs: "c_str m s xs" and ds: "c_str m d delims" and s: "s \<noteq> 0"
    and rest: "dropWhile (\<lambda>c. c \<in> set delims) xs = rest" "rest \<noteq> []"
    and k: "k = length (takeWhile (\<lambda>c. c \<in> set delims) xs)"
    and tok: "tok = takeWhile (\<lambda>c. c \<notin> set delims) rest"
  shows "\<exists>ptr' m'. strtok_r m s d ptr = Inr (s + k, ptr', m') \<and> c_str m' (s + k) tok \<and>
     c_str m' ptr' (drop (length tok + 1) rest) \<and> outside m m' (s + k + length tok) 1"
proof -
  have dr: "drop k xs = rest" using rest(1) k by (simp add: dropWhile_eq_drop)
  have kl: "k \<le> length xs" using k by (simp add: length_takeWhile_le)
  have cr: "c_str m (s + k) rest" using c_str_drop [OF xs kl] dr by simp
  have c0: "aget m (s + k) = Inr (hd rest)" "hd rest \<noteq> 0"
    using cr rest(2) by (cases rest; simp)+
  have lt: "length tok \<le> length rest" using tok by (simp add: length_takeWhile_le)
  have tk: "take (length tok) rest = tok" unfolding tok by (rule takeWhile_eq_take [symmetric])
  have ce: "c_str m (s + k + length tok) (drop (length tok) rest)"
    using c_str_drop [OF cr lt] .
  have csp: "strcspn m (s + k) d = Inr (length tok)" using strcspn_spec [OF cr ds] tok by simp
  have ssp: "strspn m s d = Inr k" using strspn_spec [OF xs ds] k by simp
  show ?thesis
  proof (cases "drop (length tok) rest")
    case Nil
    then have r: "rest = tok" using tk lt by simp
    have "aget m (s + k + length tok) = Inr 0" using ce Nil by simp
    then have "strtok_r m s d ptr = Inr (s + k, s + k + length tok, m)"
      using s ssp csp c0 by (simp add: strtok_r_def Let_def)
    moreover have "c_str m (s + k + length tok) (drop (length tok + 1) rest)"
      using ce Nil r by simp
    ultimately show ?thesis using cr r by (auto simp: outside_def)
  next
    case (Cons e es)
    let ?p = "s + k + length tok"
    let ?m' = "m[?p := 0]"
    have e: "aget m ?p = Inr e" "e \<noteq> 0" "?p < length m" using ce Cons by auto
    have "drop (length tok + 1) rest = tl (drop (length tok) rest)" by (simp add: drop_Suc tl_drop)
    then have es: "drop (length tok + 1) rest = es" using Cons by simp
    have o: "outside m ?m' ?p 1" by (simp add: outside_def nth_list_update)
    have "c_str m (?p + 1) es" using ce Cons by simp
    then have "c_str ?m' (?p + 1) es" by (rule c_str_outside [OF _ o]) simp
    moreover have "c_str ?m' (s + k) tok"
    proof (rule c_strI)
      show "s + k + length tok < length ?m'" using e(3) by simp
      show "0 \<notin> set tok" using c_str_nonzero [OF cr] tk by (metis in_set_takeD)
      fix i assume i: "i \<le> length tok"
      show "?m' ! (s + k + i) = (tok @ [0]) ! i"
      proof (cases "i = length tok")
        case False
        then have "?m' ! (s + k + i) = rest ! i" using c_str_nth [OF cr, of i] i lt by (simp add: nth_append)
        then show ?thesis using False i tk by (metis nth_append nth_take order_le_neq_trans)
      qed (use e(3) in simp)
    qed
    moreover have "strtok_r m s d ptr = Inr (s + k, ?p + 1, ?m')"
      using s ssp csp c0 e by (simp add: strtok_r_def Let_def)
    ultimately show ?thesis using es o by auto
  qed
qed

section \<open>Properties\<close>

text \<open>
  \<open>memmove\<close> copies correctly for every placement of source and destination, overlapping or
  not: the destination gets the bytes the source had before the call, all other bytes stay.
\<close>

theorem memmove_copies:
  assumes "dst + n \<le> length m" and "src + n \<le> length m"
  shows "\<exists>m'. memmove m dst src n = Inr m' \<and> length m' = length m \<and>
     (\<forall>i < n. m' ! (dst + i) = m ! (src + i)) \<and>
     (\<forall>i < length m. i < dst \<or> dst + n \<le> i \<longrightarrow> m' ! i = m ! i)"
proof -
  obtain m' where "memmove m dst src n = Inr m'" "length m' = length m"
    "\<forall>i < length m. m' ! i = (if dst \<le> i \<and> i < dst + n then m ! (src + (i - dst)) else m ! i)"
    using memmove_spec [OF assms] by blast
  with assms(1) show ?thesis by auto
qed

theorem memmove_copies_witness:
  "\<exists>m'. memmove [1, 2, 3, 4, 5] 1 0 4 = Inr m' \<and> length m' = length [1, 2, 3, 4, 5 :: u8] \<and>
     (\<forall>i < 4. m' ! (1 + i) = [1, 2, 3, 4, 5] ! (0 + i)) \<and>
     (\<forall>i < length [1, 2, 3, 4, 5 :: u8]. i < 1 \<or> 1 + 4 \<le> i \<longrightarrow> m' ! i = [1, 2, 3, 4, 5] ! i)"
  by (rule memmove_copies) simp_all

text \<open>
  \<open>strcmp\<close> returns 0 exactly for equal strings, and for 7-bit strings the sign of its result
  is their lexicographic order.
\<close>

theorem strcmp_orders:
  assumes "c_str m s xs" and "c_str m t ys"
  shows "\<exists>r. strcmp m s t = Inr r \<and> (r = 0 \<longleftrightarrow> xs = ys) \<and>
     ((\<forall>x \<in> set xs \<union> set ys. x < 128) \<longrightarrow> (r < 0 \<longleftrightarrow> xs < ys) \<and> (r > 0 \<longleftrightarrow> ys < xs))"
proof -
  obtain r where "strcmp m s t = Inr r" "r = 0 \<longleftrightarrow> xs = ys"
    "(\<forall>x \<in> set xs \<union> set ys. x < 128) \<longrightarrow> (r < 0 \<longleftrightarrow> xs < ys)"
    using strcmp_spec [OF assms] by blast
  then show ?thesis by (intro exI [of _ r]) auto
qed

theorem strcmp_orders_witness:
  "\<exists>r. strcmp [97, 98, 0, 97, 99, 0] 0 3 = Inr r \<and> (r = 0 \<longleftrightarrow> [97, 98 :: u8] = [97, 99]) \<and>
     ((\<forall>x \<in> set [97, 98] \<union> set [97, 99 :: u8]. x < 128) \<longrightarrow>
        (r < 0 \<longleftrightarrow> [97, 98 :: u8] < [97, 99]) \<and> (r > 0 \<longleftrightarrow> [97, 99 :: u8] < [97, 98]))"
  by (rule strcmp_orders) simp_all

text \<open>
  For bytes above 127 the sign is not the order: \<open>memcmp\<close> stores the difference of two
  unsigned bytes in a \<^verbatim>\<open>signed char\<close>, so any two bytes whose difference is between 128 and 255
  compare the wrong way round.
\<close>

theorem memcmp_wrong_sign:
  assumes "uint x - uint y \<ge> 128"
  shows "\<exists>r. memcmp [x, y] 0 1 1 = Inr r \<and> r < 0 \<and> y < x"
proof -
  have "uint x < 256" using uint_lt2p [of x] by simp
  then have "uint x - uint y < 256" using uint_ge_0 [of y] by linarith
  then have "(uint x - uint y + 128 - 256) mod 256 = uint x - uint y + 128 - 256"
    using assms by (intro mod_pos_pos_trivial) simp_all
  then have "(uint x - uint y + 128) mod 256 = uint x - uint y + 128 - 256"
    unfolding minus_mod_self2 .
  moreover have "sint (x - y) = (uint x - uint y + 128) mod 256 - 128"
    by (simp add: sint_uint uint_word_ariths signed_take_bit_eq_take_bit_shift take_bit_eq_mod mod_simps)
  ultimately have "sint (x - y) < 0" using \<open>uint x - uint y < 256\<close> by simp
  moreover have "x \<noteq> y" "y < x" using assms by (auto simp: word_less_def)
  ultimately show ?thesis by (auto simp: memcmp_def)
qed

theorem memcmp_wrong_sign_witness:
  "\<exists>r. memcmp [200, 10] 0 1 1 = Inr r \<and> r < 0 \<and> (10 :: u8) < 200"
  by (rule memcmp_wrong_sign) simp

text \<open>
  \<open>strstr\<close> returns the first occurrence of the second string in the first, the first
  string itself for an empty one, and null exactly when there is none.
\<close>

theorem strstr_first:
  assumes "c_str m s xs" and "c_str m t ys"
  shows "if \<exists>k. occurs ys xs k
         then \<exists>k. strstr m s t = Inr (s + k) \<and> occurs ys xs k \<and> (\<forall>i < k. \<not> occurs ys xs i)
         else strstr m s t = Inr 0"
proof (cases "ys = []")
  case True
  then have "strstr m s t = Inr (s + 0)" "occurs ys xs 0"
    using strlen_spec [OF assms(2)] by (simp_all add: strstr_def occurs_def)
  then show ?thesis by auto
next
  case False
  have "strstr m s t = strstr_loop m (s + 0) t (length xs - 0) (length ys)"
    using strlen_spec [OF assms(1)] strlen_spec [OF assms(2)] False by (simp add: strstr_def)
  with strstr_loop_spec [OF assms False, of 0] show ?thesis by auto
qed

theorem strstr_first_witness:
  "if \<exists>k. occurs [98, 97] [97, 98, 97, 98 :: u8] k
   then \<exists>k. strstr [1, 97, 98, 97, 98, 0, 98, 97, 0] 1 6 = Inr (1 + k) \<and>
          occurs [98, 97] [97, 98, 97, 98] k \<and> (\<forall>i < k. \<not> occurs [98, 97] [97, 98, 97, 98 :: u8] i)
   else strstr [1, 97, 98, 97, 98, 0, 98, 97, 0] 1 6 = Inr 0"
  by (rule strstr_first) simp_all

text \<open>
  C40: \<open>strtok_r\<close> cuts off the next token: it skips the delimiters, answers null at the end of
  the string, and else terminates the longest run without delimiters in place, writes nothing
  but that terminator, and leaves the position at what follows it.
\<close>

theorem strtok_r_tokens:
  assumes "c_str m s xs" and "c_str m d delims" and "s \<noteq> 0"
    and "rest = dropWhile (\<lambda>c. c \<in> set delims) xs"
    and "tok = takeWhile (\<lambda>c. c \<notin> set delims) rest"
  shows "if rest = [] then strtok_r m s d ptr = Inr (0, s + length xs, m)
         else \<exists>ptr' m'. strtok_r m s d ptr = Inr (s + (length xs - length rest), ptr', m') \<and>
                c_str m' (s + (length xs - length rest)) tok \<and>
                c_str m' ptr' (drop (length tok + 1) rest) \<and>
                outside m m' (s + (length xs - length rest) + length tok) 1"
proof -
  have "length xs = length (takeWhile (\<lambda>c. c \<in> set delims) xs @ rest)"
    using assms(4) takeWhile_dropWhile_id [of "\<lambda>c. c \<in> set delims" xs] by simp
  then have k: "length xs - length rest = length (takeWhile (\<lambda>c. c \<in> set delims) xs)" by simp
  show ?thesis
  proof (cases "rest = []")
    case True
    then show ?thesis using strtok_r_end [OF assms(1-3), of ptr] assms(4) by simp
  next
    case False
    then show ?thesis
      using strtok_r_token [OF assms(1-3) assms(4) [symmetric] False k assms(5), of ptr] by simp
  qed
qed

theorem strtok_r_tokens_witness:
  "if [97, 47, 98 :: u8] = [] then strtok_r [1, 47, 97, 47, 98, 0, 47, 0] 1 6 0 = Inr (0, 1 + length [47, 97, 47, 98 :: u8], [1, 47, 97, 47, 98, 0, 47, 0])
   else \<exists>ptr' m'. strtok_r [1, 47, 97, 47, 98, 0, 47, 0] 1 6 0 =
            Inr (1 + (length [47, 97, 47, 98 :: u8] - length [97, 47, 98 :: u8]), ptr', m') \<and>
          c_str m' (1 + (length [47, 97, 47, 98 :: u8] - length [97, 47, 98 :: u8])) [97] \<and>
          c_str m' ptr' (drop (length [97 :: u8] + 1) [97, 47, 98]) \<and>
          outside [1, 47, 97, 47, 98, 0, 47, 0] m'
            (1 + (length [47, 97, 47, 98 :: u8] - length [97, 47, 98 :: u8]) + length [97 :: u8]) 1"
  by (rule strtok_r_tokens [where delims = "[47]"]) simp_all

end
