(* ===== verification/Numconv.thy ===== *)
theory Numconv
  imports Cstring
begin

text \<open>
  The numeric routines of \<^verbatim>\<open>lib/lib.c\<close>: string to number conversion on top of the character
  table of \<^verbatim>\<open>include/ctype.h\<close>, the random number generator, \<open>ffs\<close>, searching and the calendar
  text.  \<open>bsearch\<close> and \<open>asctime\<close> are compiled with \<^verbatim>\<open>ENABLE_JAVA\<close> only.

  \<^verbatim>\<open>errno\<close> is a state component that a function takes and returns.  Signed overflow, which C
  leaves undefined, is \<open>Undef\<close>.
\<close>

section \<open>ctype.h\<close>

definition U_bit :: u8 where "U_bit = 0x01"
definition L_bit :: u8 where "L_bit = 0x02"
definition D_bit :: u8 where "D_bit = 0x04"
definition C_bit :: u8 where "C_bit = 0x08"
definition P_bit :: u8 where "P_bit = 0x10"
definition S_bit :: u8 where "S_bit = 0x20"
definition X_bit :: u8 where "X_bit = 0x40"
definition SP_bit :: u8 where "SP_bit = 0x80"

definition ctype_table :: "u8 list" where
  "ctype_table =
     replicate 9 C_bit @ replicate 5 (C_bit OR S_bit) @ replicate 18 C_bit @
     [S_bit OR SP_bit] @ replicate 15 P_bit @
     replicate 10 D_bit @ replicate 7 P_bit @
     replicate 6 (U_bit OR X_bit) @ replicate 20 U_bit @ replicate 6 P_bit @
     replicate 6 (L_bit OR X_bit) @ replicate 20 L_bit @ replicate 4 P_bit @ [C_bit] @
     replicate 32 0 @
     [S_bit OR SP_bit] @ replicate 31 P_bit @
     replicate 23 U_bit @ [P_bit] @ replicate 7 U_bit @ replicate 24 L_bit @ [P_bit] @ replicate 8 L_bit"

definition ismask :: "u8 \<Rightarrow> u8" where
  "ismask c = ctype_table ! unat c"

definition isalnum :: "u8 \<Rightarrow> bool" where
  "isalnum c = (ismask c AND (U_bit OR L_bit OR D_bit) \<noteq> 0)"

definition isdigit :: "u8 \<Rightarrow> bool" where
  "isdigit c = (ismask c AND D_bit \<noteq> 0)"

definition isspace :: "u8 \<Rightarrow> bool" where
  "isspace c = (ismask c AND S_bit \<noteq> 0)"

definition isxdigit :: "u8 \<Rightarrow> bool" where
  "isxdigit c = (ismask c AND (D_bit OR X_bit) \<noteq> 0)"

definition islower :: "u8 \<Rightarrow> bool" where
  "islower c = (ismask c AND L_bit \<noteq> 0)"

definition toupper :: "u8 \<Rightarrow> u8" where
  "toupper c = (if islower c then c - 32 else c)"

section \<open>strtoul and strtol\<close>

definition einval :: int where "einval = 22"
definition erange :: int where "erange = 34"

function skip_spaces :: "memory \<Rightarrow> nat \<Rightarrow> nat res" where
  "skip_spaces m p =
     (case aget m p of
        Inl e \<Rightarrow> Inl e
      | Inr c \<Rightarrow> if isspace c then skip_spaces m (p + 1) else Inr p)"
  by pat_completeness auto
termination
  by (relation "measure (\<lambda>(m, p). length m - p)") (auto simp: aget_eq_Inr)

definition digit_value :: "u8 \<Rightarrow> u8" where
  "digit_value c =
     (if c \<ge> 97 then c - 97 + 10 else if c \<ge> 65 then c - 65 + 10 else if c \<le> 57 then c - 48 else 0xff)"

function strtoul_loop :: "memory \<Rightarrow> int \<Rightarrow> nat \<Rightarrow> u64 \<Rightarrow> bool \<Rightarrow> (nat \<times> u64 \<times> bool) res" where
  "strtoul_loop m base nptr v overflow =
     (case aget m nptr of
        Inl e \<Rightarrow> Inl e
      | Inr c0 \<Rightarrow>
          if c0 = 0 then Inr (nptr, v, overflow)
          else
            let c = digit_value c0 in
            if uint c \<ge> base then Inr (nptr, v, overflow)
            else
              let x = (v AND 0xff) * of_int base + ucast c;
                  w = drop_bit 8 v * of_int base + drop_bit 8 x
              in strtoul_loop m base (nptr + 1) (push_bit 8 w + (x AND 0xff))
                   (overflow \<or> w > drop_bit 8 (- 1)))"
  by pat_completeness auto
termination
  by (relation "measure (\<lambda>(m, b, p, v, ov). length m - p)") (auto simp: aget_eq_Inr)

declare skip_spaces.simps [simp del] strtoul_loop.simps [simp del]

text \<open>
  The base in force and where the digits start: base 0 reads the prefix, and the prefix
  \<^verbatim>\<open>0x\<close> is skipped for base 16 as well.  \<open>None\<close> is the early return for an invalid base.
\<close>

definition skip_0x :: "memory \<Rightarrow> nat \<Rightarrow> int \<Rightarrow> (int \<times> nat) option res" where
  "skip_0x m nptr base =
     rbind (aget m (nptr + 1)) (\<lambda>c1.
       if c1 = 120 \<or> c1 = 88 then
         rbind (aget m (nptr + 2)) (\<lambda>c2.
           if isxdigit c2 then Inr (Some (16, nptr + 2)) else Inr (Some (base, nptr)))
       else Inr (Some (base, nptr)))"

definition strtoul_base :: "memory \<Rightarrow> nat \<Rightarrow> int \<Rightarrow> (int \<times> nat) option res" where
  "strtoul_base m nptr base =
     rbind (aget m nptr) (\<lambda>c0.
       if base = 16 \<and> c0 = 48 then skip_0x m nptr base
       else if base \<noteq> 0 then
         (if (of_int (base - 2) :: u32) > 34 then Inr None else Inr (Some (base, nptr)))
       else if c0 = 48 then skip_0x m nptr 8
       else Inr (Some (10, nptr)))"

text \<open>
  The result: the value, what is stored through \<^verbatim>\<open>endptr\<close> if anything (a caller that passes a
  null \<^verbatim>\<open>endptr\<close> ignores it), and \<^verbatim>\<open>errno\<close>.
\<close>

definition strtoul :: "memory \<Rightarrow> nat \<Rightarrow> int \<Rightarrow> int \<Rightarrow> (u64 \<times> nat option \<times> int) res" where
  "strtoul m ptr base errno =
     rbind (skip_spaces m ptr) (\<lambda>p.
     rbind (aget m p) (\<lambda>s.
     let neg = (s = 45);
         nptr = (if s = 45 \<or> s = 43 then p + 1 else p);
         orig = nptr
     in rbind (strtoul_base m nptr base) (\<lambda>b.
     case b of
       None \<Rightarrow> Inr (0, None, einval)
     | Some (base', start) \<Rightarrow>
         rbind (strtoul_loop m base' start 0 False) (\<lambda>(e, v, overflow).
           let (e', v', errno') = (if e = orig then (ptr, 0, einval) else (e, v, errno))
           in if overflow then Inr (- 1, Some e', erange)
              else Inr (if neg then - v' else v', Some e', errno')))))"

definition abs_long_min :: u64 where
  "abs_long_min = 9223372036854775808"

definition strtol :: "memory \<Rightarrow> nat \<Rightarrow> int \<Rightarrow> int \<Rightarrow> (int \<times> nat option \<times> int) res" where
  "strtol m orig base errno =
     rbind (skip_spaces m orig) (\<lambda>p.
     rbind (aget m p) (\<lambda>s.
     rbind (if s = 45 then aget m (p + 1) else Inr 0) (\<lambda>s1.
     let neg = (s = 45 \<and> isalnum s1);
         nptr = (if neg then p + 1 else p)
     in rbind (strtoul m nptr base errno) (\<lambda>(v, e, errno').
          let e' = (if e = Some nptr then Some orig else e)
          in if v \<ge> abs_long_min then
               if v = abs_long_min \<and> neg then Inr (sint v, e', 0)
               else Inr (if neg then - (2 ^ 63) else 2 ^ 63 - 1, e', erange)
             else Inr (if neg then sint (- v) else sint v, e', errno')))))"

section \<open>atol and atoi\<close>

text \<open>\<^verbatim>\<open>*s == ' ' || (unsigned int)(*s - 9) < 5u\<close>\<close>

definition is_blank :: "u8 \<Rightarrow> bool" where
  "is_blank c = (c = 32 \<or> (scast c :: u32) - 9 < 5)"

function skip_blanks :: "memory \<Rightarrow> nat \<Rightarrow> nat res" where
  "skip_blanks m p =
     (case aget m p of
        Inl e \<Rightarrow> Inl e
      | Inr c \<Rightarrow> if is_blank c then skip_blanks m (p + 1) else Inr p)"
  by pat_completeness auto
termination
  by (relation "measure (\<lambda>(m, p). length m - p)") (auto simp: aget_eq_Inr)

definition fits_long :: "int \<Rightarrow> bool" where
  "fits_long v = (- (2 ^ 63) \<le> v \<and> v < 2 ^ 63)"

function atol_loop :: "memory \<Rightarrow> nat \<Rightarrow> int \<Rightarrow> int res" where
  "atol_loop m s v =
     (case aget m s of
        Inl e \<Rightarrow> Inl e
      | Inr c \<Rightarrow>
          if (scast c :: u32) - 48 < 10 then
            let v' = v * 10 + sint c in
            if fits_long (v * 10) \<and> fits_long v' \<and> fits_long (v' - 48)
            then atol_loop m (s + 1) (v' - 48) else Inl Undef
          else Inr v)"
  by pat_completeness auto
termination
  by (relation "measure (\<lambda>(m, p, v). length m - p)") (auto simp: aget_eq_Inr)

declare skip_blanks.simps [simp del] atol_loop.simps [simp del]

definition atol :: "memory \<Rightarrow> nat \<Rightarrow> int res" where
  "atol m s =
     rbind (skip_blanks m s) (\<lambda>p.
     rbind (aget m p) (\<lambda>c.
     let sign = (c = 45);
         q = (if c = 45 \<or> c = 43 then p + 1 else p)
     in rbind (atol_loop m q 0) (\<lambda>v. Inr (if sign then - v else v))))"

text \<open>\<open>atoi\<close> is the same with the \<^verbatim>\<open>long\<close> result converted to \<^verbatim>\<open>int\<close>.\<close>

definition atoi :: "memory \<Rightarrow> nat \<Rightarrow> int res" where
  "atoi m s =
     rbind (skip_blanks m s) (\<lambda>p.
     rbind (aget m p) (\<lambda>c.
     let sign = (if c = 45 then - 1 else 1 :: int);
         q = (if c = 45 \<or> c = 43 then p + 1 else p)
     in rbind (atol_loop m q 0) (\<lambda>v.
          Inr (sint (of_int (if sign = - 1 then - v else v) :: u32)))))"

section \<open>ffs, abs, div\<close>

definition ffs_step :: "nat \<Rightarrow> nat \<times> u32 \<Rightarrow> nat \<times> u32" where
  "ffs_step k = (\<lambda>(pl, i). if i AND mask k = 0 then (pl + k, signed_drop_bit k i) else (pl, i))"

definition ffs :: "u32 \<Rightarrow> nat" where
  "ffs i0 =
     (let (pl, i) = ffs_step 4 (ffs_step 8 (ffs_step 16 (0, i0))) in
      if i AND 1 \<noteq> 0 then pl + 1
      else if i AND 2 \<noteq> 0 then pl + 2
      else if i AND 4 \<noteq> 0 then pl + 3
      else if i AND 8 \<noteq> 0 then pl + 4
      else 0)"

definition labs :: "int \<Rightarrow> int res" where
  "labs i = (if i \<ge> 0 then Inr i else if fits_long (- i) then Inr (- i) else Inl Undef)"

definition fits_int :: "int \<Rightarrow> bool" where
  "fits_int v = (- (2 ^ 31) \<le> v \<and> v < 2 ^ 31)"

definition abs_int :: "int \<Rightarrow> int res" where
  "abs_int i = (if i \<ge> 0 then Inr i else if fits_int (- i) then Inr (- i) else Inl Undef)"

text \<open>C division truncates towards zero.\<close>

definition c_quot :: "int \<Rightarrow> int \<Rightarrow> int" where
  "c_quot a b = (if (a < 0) = (b < 0) then \<bar>a\<bar> div \<bar>b\<bar> else - (\<bar>a\<bar> div \<bar>b\<bar>))"

definition c_rem :: "int \<Rightarrow> int \<Rightarrow> int" where
  "c_rem a b = a - c_quot a b * b"

definition div_int :: "int \<Rightarrow> int \<Rightarrow> (int \<times> int) res" where
  "div_int numerator denominator =
     (if denominator = 0 \<or> \<not> fits_int (c_quot numerator denominator) then Inl Undef
      else let q = c_quot numerator denominator in Inr (q, numerator - q * denominator))"

section \<open>The random number generator\<close>

definition rand_M :: int where "rand_M = 2 ^ 31 - 1"
definition rand_A :: int where "rand_A = 48271"
definition rand_Q :: int where "rand_Q = 44488"
definition rand_R :: int where "rand_R = 3399"

text \<open>The result and the new seed.  \<^verbatim>\<open>M\<close> is unsigned, so \<^verbatim>\<open>X += M\<close> is computed modulo \<open>2 ^ 32\<close>.\<close>

definition rand_r :: "u32 \<Rightarrow> (int \<times> u32) res" where
  "rand_r seed =
     (let X0 = sint seed;
          p = rand_A * c_rem X0 rand_Q;
          r = rand_R * c_quot X0 rand_Q;
          X1 = p - r
      in if \<not> fits_int p \<or> \<not> fits_int r \<or> \<not> fits_int X1 then Inl Undef
         else let X = (if X1 < 0 then sint (of_int (X1 + rand_M) :: u32) else X1)
              in Inr (X, of_int X))"

definition rand :: "int res" where
  "rand = rbind (rand_r 1) (\<lambda>(x, seed). Inr x)"

section \<open>bsearch\<close>

text \<open>
  \<open>cmp i\<close> is \<^verbatim>\<open>(*compar)(key, &a[i])\<close>, for the array \<^verbatim>\<open>a\<close> that is searched; addresses are
  multiples of \<^verbatim>\<open>size\<close>, so an element is named by its index.  \<open>None\<close> is the null pointer.
\<close>

function bsearch :: "(nat \<Rightarrow> int) \<Rightarrow> nat \<Rightarrow> nat \<Rightarrow> nat option" where
  "bsearch cmp base nmemb =
     (if nmemb = 0 then None
      else
        let m = nmemb div 2;
            p = base + m;
            tmp = cmp p
        in if tmp < 0 then bsearch cmp base m
           else if tmp > 0 then bsearch cmp (p + 1) (nmemb - (m + 1))
           else Some p)"
  by pat_completeness auto
termination
  by (relation "measure (\<lambda>(c, b, n). n)") auto

declare bsearch.simps [simp del]

section \<open>asctime\<close>

record tm =
  tm_sec :: int
  tm_min :: int
  tm_hour :: int
  tm_mday :: int
  tm_mon :: int
  tm_year :: int
  tm_wday :: int

definition bytes_of :: "string \<Rightarrow> u8 list" where
  "bytes_of s = map (\<lambda>c. of_nat (of_char c)) s"

definition days :: "u8 list" where
  "days = bytes_of ''Sun Mon Tue Wed Thu Fri Sat '' @ [0]"

definition months :: "u8 list" where
  "months = bytes_of ''Jan Feb Mar Apr May Jun Jul Aug Sep Oct Nov Dec '' @ [0]"

text \<open>Four bytes copied as one \<^verbatim>\<open>int\<close>.\<close>

definition copy4 :: "memory \<Rightarrow> nat \<Rightarrow> u8 list \<Rightarrow> nat \<Rightarrow> memory res" where
  "copy4 buf at table i =
     (if i + 4 \<le> length table \<and> at + 4 \<le> length buf
      then Inr (take at buf @ take 4 (drop i table) @ drop (at + 4) buf) else Inl Undef)"

definition num2str :: "memory \<Rightarrow> nat \<Rightarrow> int \<Rightarrow> memory res" where
  "num2str buf c i =
     rbind (aset buf c (of_int (c_quot i 10 + 48))) (\<lambda>b1.
       aset b1 (c + 1) (of_int (c_rem i 10 + 48)))"

definition asctime_r :: "tm \<Rightarrow> memory \<Rightarrow> memory res" where
  "asctime_r t buf =
     rbind (copy4 buf 0 days (nat (tm_wday t * 4))) (\<lambda>b1.
     rbind (copy4 b1 4 months (nat (tm_mon t * 4))) (\<lambda>b2.
     rbind (num2str b2 8 (tm_mday t)) (\<lambda>b3.
     rbind (aget b3 8) (\<lambda>c8.
     rbind (if c8 = 48 then aset b3 8 32 else Inr b3) (\<lambda>b4.
     rbind (aset b4 10 32) (\<lambda>b5.
     rbind (num2str b5 11 (tm_hour t)) (\<lambda>b6.
     rbind (aset b6 13 58) (\<lambda>b7.
     rbind (num2str b7 14 (tm_min t)) (\<lambda>b8.
     rbind (aset b8 16 58) (\<lambda>b9.
     rbind (num2str b9 17 (tm_sec t)) (\<lambda>b10.
     rbind (aset b10 19 32) (\<lambda>b11.
     rbind (num2str b11 20 (c_quot (tm_year t + 1900) 100)) (\<lambda>b12.
     rbind (num2str b12 22 (c_rem (tm_year t + 1900) 100)) (\<lambda>b13.
       aset b13 24 10))))))))))))))"

text \<open>\<open>localtime\<close> is not implemented: it sets \<^verbatim>\<open>EOVERFLOW\<close> and returns null.\<close>

definition eoverflow :: int where "eoverflow = 75"

definition localtime :: "int \<Rightarrow> tm option \<times> int" where
  "localtime t = (None, eoverflow)"

definition asctime :: "tm option \<Rightarrow> memory \<Rightarrow> memory res" where
  "asctime t buf = (case t of None \<Rightarrow> Inl Undef | Some t' \<Rightarrow> asctime_r t' buf)"

definition ctime :: "int \<Rightarrow> memory \<Rightarrow> memory res" where
  "ctime t buf = asctime (fst (localtime t)) buf"

definition ctime_r :: "int \<Rightarrow> memory \<Rightarrow> memory res" where
  "ctime_r t buf = asctime (fst (localtime t)) buf"

section \<open>Parsing digits\<close>

definition is_digit :: "int \<Rightarrow> u8 \<Rightarrow> bool" where
  "is_digit base c = (uint (digit_value c) < base)"

definition number_of :: "int \<Rightarrow> nat \<Rightarrow> u8 list \<Rightarrow> nat" where
  "number_of base a ds = foldl (\<lambda>a c. a * nat base + unat (digit_value c)) a ds"

lemma number_of_simps [simp]:
  "number_of base a [] = a"
  "number_of base a (c # cs) = number_of base (a * nat base + unat (digit_value c)) cs"
  by (simp_all add: number_of_def)

lemma number_of_mono: "2 \<le> base \<Longrightarrow> a \<le> number_of base a ds"
proof (induction ds arbitrary: a)
  case (Cons c cs)
  have "a * 1 \<le> a * nat base" using Cons.prems by (intro mult_le_mono2) simp
  then have "a \<le> a * nat base + unat (digit_value c)" by (metis le_add1 le_trans mult.right_neutral)
  then show ?case using Cons.IH [of "a * nat base + unat (digit_value c)"] Cons.prems by simp
qed simp

text \<open>
  The accumulator of \<open>strtoul\<close> in two halves, so that the overflow shows in \<open>w\<close>: one step on
  numbers.
\<close>

lemma strtoul_step:
  fixes v :: u64 and c :: u8
  assumes b: "b \<le> 36" and d: "unat c < b"
  defines "x \<equiv> (v AND 0xff) * of_nat b + ucast c"
  defines "w \<equiv> drop_bit 8 v * of_nat b + drop_bit 8 x"
  shows "(w > drop_bit 8 (- 1)) = (unat v * b + unat c \<ge> 2 ^ 64)"
    and "unat v * b + unat c < 2 ^ 64 \<Longrightarrow> unat (push_bit 8 w + (x AND 0xff)) = unat v * b + unat c"
proof -
  let ?a = "unat v" and ?d = "unat c"
  have lo': "unat (u AND 0xff) = unat u mod 256" for u :: u64
  proof -
    have e: "u AND 0xff = take_bit 8 u" by (simp add: take_bit_eq_mask mask_eq_exp_minus_1)
    show ?thesis unfolding e unsigned_take_bit_eq by (simp add: take_bit_eq_mod)
  qed
  have lo: "unat (v AND 0xff) = ?a mod 256" by (rule lo')
  have bn: "unat (of_nat b :: u64) = b" using b by (simp add: unat_of_nat)
  have dn: "unat (ucast c :: u64) = ?d" using d b by (simp add: unsigned_ucast_eq take_bit_eq_mod)
  have a64: "?a < 2 ^ 64" using unat_less_pow [of v] by simp
  have xb: "(?a mod 256) * b + ?d < 256 * 36"
  proof -
    have "(?a mod 256) * b + ?d < (?a mod 256) * b + b" using d by simp
    also have "\<dots> = (?a mod 256 + 1) * b" by (simp add: algebra_simps)
    also have "\<dots> \<le> 256 * 36" using b by (intro mult_le_mono) (simp_all add: Suc_le_eq)
    finally show ?thesis .
  qed
  have xn: "unat x = (?a mod 256) * b + ?d"
    unfolding x_def using xb by (simp add: unat_word_ariths lo bn dn)
  have hi: "unat (drop_bit 8 v) = ?a div 256" "unat (drop_bit 8 x) = unat x div 256"
    unfolding unat_drop_bit_eq by (simp_all add: drop_bit_eq_div)
  have wb: "(?a div 256) * b + unat x div 256 < 2 ^ 62"
  proof -
    have "?a div 256 < 2 ^ 56" using a64 by (simp add: div_less_iff_less_mult)
    then have "(?a div 256) * b \<le> 2 ^ 56 * 36" using b by (intro mult_le_mono) simp_all
    moreover have "unat x div 256 < 36" using xb xn by (simp add: div_less_iff_less_mult)
    ultimately show ?thesis by simp
  qed
  have wn: "unat w = (?a div 256) * b + unat x div 256"
    unfolding w_def using wb by (simp add: unat_word_ariths hi bn)
  have tot: "?a * b + ?d = 256 * unat w + unat x mod 256"
  proof -
    have "256 * ((?a div 256) * b) + (?a mod 256) * b = ?a * b"
      using arg_cong [OF mult_div_mod_eq [of 256 ?a], of "\<lambda>z. z * b"]
      by (simp only: add_mult_distrib mult.assoc)
    then have "?a * b + ?d = 256 * ((?a div 256) * b) + unat x" by (simp only: xn)
    also have "\<dots> = 256 * unat w + unat x mod 256" by (simp only: wn) (simp add: algebra_simps)
    finally show ?thesis .
  qed
  have mx: "unat (drop_bit 8 (- 1 :: u64)) = 2 ^ 56 - 1"
    unfolding unat_drop_bit_eq by (simp add: drop_bit_eq_div unsigned_minus_1_eq_mask mask_eq_exp_minus_1)
  have "(w > drop_bit 8 (- 1)) = (2 ^ 56 \<le> unat w)"
    unfolding word_less_nat_alt mx by auto
  also have "\<dots> = (2 ^ 64 \<le> 256 * unat w + unat x mod 256)"
    using mod_less_divisor [of 256 "unat x"] by auto
  finally show "(w > drop_bit 8 (- 1)) = (unat v * b + unat c \<ge> 2 ^ 64)" by (simp only: tot)
  show "unat (push_bit 8 w + (x AND 0xff)) = unat v * b + unat c" if lt: "unat v * b + unat c < 2 ^ 64"
  proof -
    have "unat (x AND 0xff) = unat x mod 256" by (rule lo')
    moreover have "unat (push_bit 8 w) = 256 * unat w"
      using lt tot unfolding push_bit_eq_mult by (simp add: unat_word_ariths)
    ultimately show ?thesis using lt tot by (simp add: unat_word_ariths)
  qed
qed

lemma strtoul_loop_spec:
  assumes "c_str m p xs" and "2 \<le> base" "base \<le> 36"
    and "ov \<longleftrightarrow> 2 ^ 64 \<le> a" and "\<not> ov \<Longrightarrow> unat v = a"
  shows "\<exists>v' ov'. strtoul_loop m base p v ov =
     Inr (p + length (takeWhile (is_digit base) xs), v', ov') \<and>
     (ov' \<longleftrightarrow> 2 ^ 64 \<le> number_of base a (takeWhile (is_digit base) xs)) \<and>
     (\<not> ov' \<longrightarrow> unat v' = number_of base a (takeWhile (is_digit base) xs))"
  using assms(1,4,5)
proof (induction xs arbitrary: p v ov a)
  case Nil
  then show ?case by (subst strtoul_loop.simps) auto
next
  case (Cons c cs)
  have c: "aget m p = Inr c" "c \<noteq> 0" "c_str m (p + 1) cs" using Cons.prems(1) by auto
  show ?case
  proof (cases "is_digit base c")
    case False
    then have "strtoul_loop m base p v ov = Inr (p, v, ov)"
      using c by (subst strtoul_loop.simps) (simp add: is_digit_def Let_def)
    with False Cons.prems show ?thesis by auto
  next
    case True
    let ?d = "digit_value c"
    let ?x = "(v AND 0xff) * of_int base + ucast ?d"
    let ?w = "drop_bit 8 v * of_int base + drop_bit 8 ?x"
    let ?v = "push_bit 8 ?w + (?x AND 0xff)" and ?ov = "ov \<or> ?w > drop_bit 8 (- 1)"
    let ?a = "a * nat base + unat ?d"
    have b: "(of_int base :: u64) = of_nat (nat base)" using assms(2) by simp
    have "uint ?d < base" using True unfolding is_digit_def .
    moreover have "0 < base" using assms(2) by simp
    ultimately have d: "unat ?d < nat base" unfolding unat_eq_nat_uint using nat_mono_iff by blast
    have n36: "nat base \<le> 36" using assms(3) by simp
    note st = strtoul_step [OF n36 d, of v, folded b]
    have n: "(c = 0) = False" "(base \<le> uint ?d) = False" using c(2) True by (simp_all add: is_digit_def)
    have step: "strtoul_loop m base p v ov = strtoul_loop m base (p + 1) ?v ?ov"
      unfolding strtoul_loop.simps [of m base p v ov] c(1) sum.case n(1) if_False Let_def n(2) ..
    have aa: "a \<le> ?a" using number_of_mono [OF assms(2), of a "[c]"] by simp
    have ov: "?ov \<longleftrightarrow> 2 ^ 64 \<le> ?a"
    proof (cases ov)
      case True
      with Cons.prems(2) aa show ?thesis by simp
    next
      case False
      with Cons.prems(3) st(1) show ?thesis by simp
    qed
    have v: "unat ?v = ?a" if "\<not> ?ov"
      using that ov st(2) Cons.prems(3) by simp
    obtain v' ov' where "strtoul_loop m base (p + 1) ?v ?ov =
        Inr (p + 1 + length (takeWhile (is_digit base) cs), v', ov')"
      "ov' \<longleftrightarrow> 2 ^ 64 \<le> number_of base ?a (takeWhile (is_digit base) cs)"
      "\<not> ov' \<longrightarrow> unat v' = number_of base ?a (takeWhile (is_digit base) cs)"
      using Cons.IH [OF c(3) ov v] by blast
    with step True show ?thesis by simp
  qed
qed

lemma isspace_bytes: "filter isspace (map of_nat [0..<256]) = [9, 10, 11, 12, 13, 32, 160]"
  by code_simp

lemma isspace_iff: "isspace c \<longleftrightarrow> c \<in> {9, 10, 11, 12, 13, 32, 160}"
proof -
  have "unat c < 256" using unat_less_pow [of c] by simp
  then have "c \<in> set (map of_nat [0..<256])" by (auto intro!: image_eqI [of _ _ "unat c"])
  then have "isspace c \<longleftrightarrow> c \<in> set (filter isspace (map of_nat [0..<256]))" by simp
  then show ?thesis unfolding isspace_bytes by simp
qed

lemma digit_bytes:
  "\<not> is_digit 36 9" "\<not> is_digit 36 10" "\<not> is_digit 36 11" "\<not> is_digit 36 12" "\<not> is_digit 36 13"
  "\<not> is_digit 36 32" "\<not> is_digit 36 160" "\<not> is_digit 36 43" "\<not> is_digit 36 45" "\<not> is_digit 36 0"
  "\<not> is_digit 36 120 \<or> is_digit 36 120"
  by (simp_all add: is_digit_def digit_value_def)

lemma digit_plain:
  assumes "is_digit base c" and "base \<le> 36"
  shows "\<not> isspace c" and "c \<noteq> 43" and "c \<noteq> 45" and "c \<noteq> 0"
proof -
  have d: "is_digit 36 c" using assms by (simp add: is_digit_def)
  show "\<not> isspace c" using d digit_bytes by (auto simp: isspace_iff)
  show "c \<noteq> 43" "c \<noteq> 45" "c \<noteq> 0" using d digit_bytes by auto
qed

lemma skip_spaces_spec:
  "c_str m p (sp @ xs) \<Longrightarrow> \<forall>c \<in> set sp. isspace c \<Longrightarrow> xs = [] \<or> \<not> isspace (hd xs) \<Longrightarrow>
   skip_spaces m p = Inr (p + length sp)"
proof (induction sp arbitrary: p)
  case Nil
  show ?case
  proof (cases xs)
    case Nil
    have "\<not> isspace 0" by (simp add: isspace_iff)
    with Nil \<open>c_str m p ([] @ xs)\<close> show ?thesis by (subst skip_spaces.simps) simp
  next
    case (Cons x ys)
    with Nil show ?thesis by (subst skip_spaces.simps) simp
  qed
next
  case (Cons c cs)
  then show ?case by (subst skip_spaces.simps) simp
qed

definition sign_ok :: "u8 list \<Rightarrow> bool" where
  "sign_ok sg = (sg = [] \<or> sg = [45] \<or> sg = [43])"

text \<open>The text of a number: spaces, a sign, digits, and something that is not a digit.\<close>

definition numeral_at :: "memory \<Rightarrow> nat \<Rightarrow> int \<Rightarrow> u8 list \<Rightarrow> u8 list \<Rightarrow> u8 list \<Rightarrow> u8 list \<Rightarrow> bool" where
  "numeral_at m p base sp sg ds rest =
     (c_str m p (sp @ sg @ ds @ rest) \<and> (\<forall>c \<in> set sp. isspace c) \<and> sign_ok sg \<and> ds \<noteq> [] \<and>
      (\<forall>c \<in> set ds. is_digit base c) \<and> (rest = [] \<or> \<not> is_digit base (hd rest)) \<and>
      2 \<le> base \<and> base \<le> 36 \<and> (base = 16 \<longrightarrow> hd ds \<noteq> 48))"

lemma c_str_split:
  assumes "c_str m p (xs @ ys)"
  shows "c_str m (p + length xs) ys" and "ys \<noteq> [] \<Longrightarrow> aget m (p + length xs) = Inr (hd ys)"
proof -
  show c: "c_str m (p + length xs) ys" using c_str_drop [OF assms, of "length xs"] by simp
  show "ys \<noteq> [] \<Longrightarrow> aget m (p + length xs) = Inr (hd ys)" using c by (cases ys) auto
qed

lemma strtoul_base_plain:
  assumes "2 \<le> base" and "base \<le> 36" and "aget m p = Inr c" and "base = 16 \<longrightarrow> c \<noteq> 48"
  shows "strtoul_base m p base = Inr (Some (base, p))"
proof -
  have "uint (of_int (base - 2) :: u32) = base - 2"
    using assms(1,2) by (simp only: unsigned_of_int) (simp add: take_bit_int_eq_self)
  then have "(of_int (base - 2) :: u32) \<le> 34"
    using assms(2) by (simp only: word_le_def) simp
  then have "\<not> (of_int (base - 2) :: u32) > 34" by simp
  moreover have "base \<noteq> 0" using assms(1) by simp
  ultimately show ?thesis using assms(3,4) unfolding strtoul_base_def by auto
qed

lemma strtoul_digits:
  assumes "c_str m p (ds @ rest)" and "ds \<noteq> []" and "\<forall>c \<in> set ds. is_digit base c"
    and "rest = [] \<or> \<not> is_digit base (hd rest)" and "2 \<le> base" "base \<le> 36"
  shows "\<exists>v ov. strtoul_loop m base p 0 False = Inr (p + length ds, v, ov) \<and>
     (ov \<longleftrightarrow> 2 ^ 64 \<le> number_of base 0 ds) \<and> (\<not> ov \<longrightarrow> v = of_nat (number_of base 0 ds))"
proof -
  have tw: "takeWhile (is_digit base) (ds @ rest) = ds"
    using assms(3,4) by (cases rest) (auto simp: takeWhile_append2)
  obtain v ov where v: "strtoul_loop m base p 0 False = Inr (p + length ds, v, ov)"
    "ov \<longleftrightarrow> 2 ^ 64 \<le> number_of base 0 ds" "\<not> ov \<longrightarrow> unat v = number_of base 0 ds"
    using strtoul_loop_spec [OF assms(1,5,6), of False 0 0] tw by auto
  moreover have "v = of_nat (number_of base 0 ds)" if "\<not> ov"
    using arg_cong [OF v(3) [rule_format, OF that], of "of_nat :: nat \<Rightarrow> u64"] by simp
  ultimately show ?thesis by blast
qed

lemma strtoul_spec:
  assumes n: "numeral_at m ptr base sp sg ds rest"
  defines "v \<equiv> number_of base 0 ds" and "e \<equiv> ptr + length sp + length sg + length ds"
  shows "strtoul m ptr base errno =
     Inr (if 2 ^ 64 \<le> v then (- 1, Some e, erange)
          else (if sg = [45] then - of_nat v else of_nat v, Some e, errno))"
proof -
  note N = n [unfolded numeral_at_def]
  let ?p = "ptr + length sp" and ?q = "ptr + length sp + length sg"
  obtain d ds' where ds: "ds = d # ds'" using N by (cases ds) auto
  have d: "\<not> isspace d" "d \<noteq> 43" "d \<noteq> 45" using digit_plain [of base d] N ds by auto
  have hd: "hd (sg @ ds @ rest) = (if sg = [] then d else hd sg)" using ds by (cases sg) auto
  have sk: "skip_spaces m ptr = Inr ?p"
    by (rule skip_spaces_spec [of _ _ _ "sg @ ds @ rest"])
       (use N d hd in \<open>auto simp: sign_ok_def isspace_iff\<close>)
  have ap: "aget m ?p = Inr (if sg = [] then d else hd sg)"
    using c_str_split(2) [of m ptr sp "sg @ ds @ rest"] N hd ds by simp
  have cq: "c_str m ?q (ds @ rest)"
    using c_str_split(1) [of m ptr "sp @ sg" "ds @ rest"] N by (simp add: add.assoc)
  have aq: "aget m ?q = Inr d" using cq ds by simp
  have sb: "strtoul_base m ?q base = Inr (Some (base, ?q))"
    by (rule strtoul_base_plain [OF _ _ aq]) (use N ds in auto)
  obtain v' ov where l: "strtoul_loop m base ?q 0 False = Inr (?q + length ds, v', ov)"
     "ov \<longleftrightarrow> 2 ^ 64 \<le> v" "\<not> ov \<longrightarrow> v' = of_nat v"
    using strtoul_digits [OF cq, of base] N unfolding v_def by auto
  have np: "(if s = 45 \<or> s = 43 then ?p + 1 else ?p) = ?q" "(s = 45) = (sg = [45])"
    if "s = (if sg = [] then d else hd sg)" for s
    using that d N by (auto simp: sign_ok_def)
  have "?q + length ds \<noteq> ?q" using ds by simp
  then show ?thesis
    using l unfolding strtoul_def sk rbind_Inr ap Let_def np(1) [OF refl]
    unfolding np(2) [OF refl] sb e_def by simp
qed

section \<open>strtol\<close>

lemma digits_alnum: "filter (\<lambda>c. is_digit 36 c \<and> \<not> isalnum c) (map of_nat [0..<256]) = []"
  by code_simp

lemma digit_isalnum: "is_digit base c \<Longrightarrow> base \<le> 36 \<Longrightarrow> isalnum c"
proof (rule ccontr)
  assume a: "is_digit base c" "base \<le> 36" "\<not> isalnum c"
  have "unat c < 256" using unat_less_pow [of c] by simp
  then have "c \<in> set (map of_nat [0..<256])" by (auto intro!: image_eqI [of _ _ "unat c"])
  moreover have "is_digit 36 c" using a by (simp add: is_digit_def)
  ultimately have "c \<in> set (filter (\<lambda>c. is_digit 36 c \<and> \<not> isalnum c) (map of_nat [0..<256]))"
    using a(3) by simp
  then show False unfolding digits_alnum by simp
qed

definition clamp_long :: "bool \<Rightarrow> nat \<Rightarrow> int" where
  "clamp_long neg v = (if neg then max (- (2 ^ 63)) (- int v) else min (2 ^ 63 - 1) (int v))"

definition fits_signed :: "bool \<Rightarrow> nat \<Rightarrow> bool" where
  "fits_signed neg v = (v < 2 ^ 63 \<or> neg \<and> v = 2 ^ 63)"

lemma sint_small: "v < 2 ^ 63 \<Longrightarrow> sint (of_nat v :: u64) = int v"
  by (simp add: signed_of_nat signed_take_bit_int_eq_self_iff)

lemma sint_small_neg: "v \<le> 2 ^ 63 \<Longrightarrow> sint (- (of_nat v) :: u64) = - int v"
proof -
  assume "v \<le> 2 ^ 63"
  then have "signed_take_bit 63 (- int v) = - int v"
    by (simp add: signed_take_bit_int_eq_self_iff)
  moreover have "- (of_nat v) = (of_int (- int v) :: u64)" by simp
  ultimately show ?thesis by (simp only: signed_of_int) simp
qed

lemma u64_ge: "v < 2 ^ 64 \<Longrightarrow> (of_nat v \<ge> abs_long_min) = (2 ^ 63 \<le> v)"
  by (simp add: abs_long_min_def word_le_nat_alt unat_of_nat)

lemma u64_eq: "v < 2 ^ 64 \<Longrightarrow> (of_nat v = abs_long_min) = (v = 2 ^ 63)"
  by (simp add: abs_long_min_def word_unat_eq_iff unat_of_nat)

lemma strtol_inner:
  assumes n: "numeral_at m orig base sp sg ds rest"
  defines "q \<equiv> if sg = [45] then orig + length sp + 1 else orig + length sp"
    and "sg' \<equiv> if sg = [45] then [] else sg"
  shows "skip_spaces m orig = Inr (orig + length sp)"
    and "\<exists>s s1. aget m (orig + length sp) = Inr s \<and>
      (if s = 45 then aget m (orig + length sp + 1) else Inr 0) = Inr s1 \<and>
      (s = 45 \<and> isalnum s1) = (sg = [45])"
    and "numeral_at m q base [] sg' ds rest"
proof -
  note N = n [unfolded numeral_at_def]
  obtain d ds' where ds: "ds = d # ds'" using N by (cases ds) auto
  have d: "\<not> isspace d" "d \<noteq> 45" "isalnum d"
    using digit_plain [of base d] digit_isalnum [of base d] N ds by auto
  have hd: "hd (sg @ ds @ rest) = (if sg = [] then d else hd sg)" using ds by (cases sg) auto
  show "skip_spaces m orig = Inr (orig + length sp)"
    by (rule skip_spaces_spec [of _ _ _ "sg @ ds @ rest"])
       (use N d hd in \<open>auto simp: sign_ok_def isspace_iff\<close>)
  have ap: "aget m (orig + length sp) = Inr (if sg = [] then d else hd sg)"
    using c_str_split(2) [of m orig sp "sg @ ds @ rest"] N hd ds by simp
  have c1: "c_str m (orig + length sp) (sg @ ds @ rest)"
    using c_str_split(1) [of m orig sp "sg @ ds @ rest"] N by simp
  have a1: "sg = [45] \<Longrightarrow> aget m (orig + length sp + 1) = Inr d"
    using c1 ds by auto
  show "\<exists>s s1. aget m (orig + length sp) = Inr s \<and>
      (if s = 45 then aget m (orig + length sp + 1) else Inr 0) = Inr s1 \<and>
      (s = 45 \<and> isalnum s1) = (sg = [45])"
    using ap a1 d N by (auto simp: sign_ok_def)
  have "c_str m q (sg' @ ds @ rest)"
    using c1 unfolding q_def sg'_def by (auto simp: add.assoc)
  then show "numeral_at m q base [] sg' ds rest"
    using N unfolding numeral_at_def sg'_def by (auto simp: sign_ok_def)
qed

text \<open>
  \<^verbatim>\<open>strtol\<close> on optional spaces, an optional sign and at least one digit of the base
  returns the value of the digits with its sign, clamped to the range of \<^verbatim>\<open>long\<close>; it stores the
  position after the last digit, and \<^verbatim>\<open>errno\<close> is \<^verbatim>\<open>ERANGE\<close> exactly when the value did not fit
  (the one value \<open>- 2^63\<close> clears it).  No run reads past the terminator.
\<close>

theorem strtol_value:
  assumes n: "numeral_at m orig base sp sg ds rest"
  shows "strtol m orig base errno =
     (let v = number_of base 0 ds; neg = (sg = [45]) in
      Inr (clamp_long neg v, Some (orig + length sp + length sg + length ds),
           if \<not> fits_signed neg v then erange else if v = 2 ^ 63 then 0 else errno))"
proof -
  let ?neg = "sg = [45]" and ?p = "orig + length sp"
  let ?q = "if ?neg then ?p + 1 else ?p" and ?v = "number_of base 0 ds"
  let ?e = "orig + length sp + length sg + length ds"
  note I = strtol_inner [OF n]
  obtain s s1 where s: "aget m ?p = Inr s" "(if s = 45 then aget m (?p + 1) else Inr 0) = Inr s1"
    "(s = 45 \<and> isalnum s1) = ?neg" using I(2) by blast
  have e: "?e = ?q + 0 + length (if ?neg then [] else sg) + length ds" by simp
  have ne: "?e \<noteq> ?q" using n unfolding numeral_at_def by (auto simp: sign_ok_def)
  have ul: "strtoul m ?q base errno =
     Inr (if 2 ^ 64 \<le> ?v then (- 1, Some ?e, erange)
          else (if \<not> ?neg \<and> sg = [45] then - of_nat ?v else of_nat ?v, Some ?e, errno))"
    unfolding e using strtoul_spec [OF I(3), of errno] by auto
  have big: "abs_long_min \<le> - 1" "(- 1 :: u64) \<noteq> abs_long_min"
    by (simp_all add: abs_long_min_def)
  have "strtol m orig base errno =
     rbind (strtoul m ?q base errno) (\<lambda>(v, e, errno').
          let e' = (if e = Some ?q then Some orig else e)
          in if v \<ge> abs_long_min then
               if v = abs_long_min \<and> ?neg then Inr (sint v, e', 0)
               else Inr (if ?neg then - (2 ^ 63) else 2 ^ 63 - 1, e', erange)
             else Inr (if ?neg then sint (- v) else sint v, e', errno'))"
    unfolding strtol_def I(1) rbind_Inr s Let_def by (cases ?neg) simp_all
  also have "\<dots> = (let v = ?v; neg = ?neg in
      Inr (clamp_long neg v, Some ?e,
           if \<not> fits_signed neg v then erange else if v = 2 ^ 63 then 0 else errno))"
  proof (cases "2 ^ 64 \<le> ?v")
    case True
    then show ?thesis using ne big
      by (simp add: ul Let_def clamp_long_def fits_signed_def)
  next
    case False
    then have lt: "?v < 2 ^ 64" by simp
    have mn: "sint abs_long_min = - (2 ^ 63)" by (simp add: abs_long_min_def)
    show ?thesis
      using False ne u64_ge [OF lt] u64_eq [OF lt] sint_small [of ?v] sint_small_neg [of ?v] mn
      by (auto simp: ul Let_def clamp_long_def fits_signed_def)
  qed
  finally show ?thesis .
qed

lemma strtol_value_witness:
  "strtol (bytes_of ''  -12z'' @ [0]) 0 10 7 = Inr (- 12, Some 5, 7)"
proof -
  have "numeral_at (bytes_of ''  -12z'' @ [0]) 0 10 [32, 32] [45] [49, 50] [122]"
    by code_simp
  from strtol_value [OF this, of 7] show ?thesis
    by (simp add: number_of_def digit_value_def clamp_long_def fits_signed_def)
qed

text \<open>
  \<^verbatim>\<open>strtoul\<close> on the same texts returns the value of the digits: when it
  needs more than 64 bits the result is \<^verbatim>\<open>ULONG_MAX\<close> and \<^verbatim>\<open>errno\<close> is \<^verbatim>\<open>ERANGE\<close>, otherwise it is
  exact (negated in unsigned arithmetic after a minus sign) and \<^verbatim>\<open>errno\<close> is kept.
\<close>

theorem strtoul_value:
  assumes "numeral_at m ptr base sp sg ds rest"
  shows "strtoul m ptr base errno =
     (let v = number_of base 0 ds; e = Some (ptr + length sp + length sg + length ds) in
      Inr (if 2 ^ 64 \<le> v then (- 1, e, erange)
           else (if sg = [45] then - of_nat v else of_nat v, e, errno)))"
  using strtoul_spec [OF assms, of errno] by (simp add: Let_def)

lemma strtoul_value_witness:
  "strtoul (bytes_of ''18446744073709551616'' @ [0]) 0 10 7 = Inr (- 1, Some 20, erange)"
proof -
  have "numeral_at (bytes_of ''18446744073709551616'' @ [0]) 0 10 [] []
          (bytes_of ''18446744073709551616'') []"
    by code_simp
  from strtoul_value [OF this, of 7] show ?thesis
    by (simp add: number_of_def digit_value_def bytes_of_def)
qed

section \<open>The generator is Schrage's method\<close>

lemma rand_M_eq: "rand_M = rand_A * rand_Q + rand_R"
  by (simp add: rand_M_def rand_A_def rand_Q_def rand_R_def)

lemma schrage:
  fixes s :: int
  assumes s: "0 < s" "s < rand_M"
  defines "q \<equiv> s div rand_Q" and "r \<equiv> s mod rand_Q"
  defines "x \<equiv> rand_A * r - rand_R * q"
  shows "0 \<le> rand_A * r" "rand_A * r < rand_M" "0 \<le> rand_R * q" "rand_R * q < rand_M"
    and "(if x < 0 then x + rand_M else x) = (rand_A * s) mod rand_M"
proof -
  have r: "0 \<le> r" "r < rand_Q" unfolding r_def by (simp_all add: rand_Q_def)
  have q: "0 \<le> q" "q * rand_Q \<le> s"
    using s minus_mod_eq_div_mult [of s rand_Q] r unfolding q_def r_def
    by (simp_all add: rand_Q_def pos_imp_zdiv_nonneg_iff)
  have qb: "q \<le> 48271" using q s by (simp add: rand_M_def rand_Q_def)
  show A: "0 \<le> rand_A * r" "rand_A * r < rand_M" "0 \<le> rand_R * q" "rand_R * q < rand_M"
    using r q qb by (simp_all add: rand_A_def rand_M_def rand_Q_def rand_R_def)
  have sq: "s = q * rand_Q + r" unfolding q_def r_def by simp
  have "rand_A * s = x + q * rand_M"
    unfolding x_def rand_M_eq by (subst sq) (simp add: algebra_simps)
  then have m: "(rand_A * s) mod rand_M = x mod rand_M" by simp
  have xb: "- rand_M < x" "x < rand_M" using A unfolding x_def by linarith+
  show "(if x < 0 then x + rand_M else x) = (rand_A * s) mod rand_M"
  proof (cases "x < 0")
    case True
    have "x mod rand_M = (x + rand_M) mod rand_M" by simp
    also have "\<dots> = x + rand_M" using True xb by (intro mod_pos_pos_trivial) simp_all
    finally show ?thesis using True m by simp
  next
    case False
    then show ?thesis using xb m by simp
  qed
qed

text \<open>
  For a seed between 1 and \<open>2^31 - 2\<close>, \<^verbatim>\<open>rand_r\<close> returns the multiplicative congruential
  successor \<open>48271 * seed mod (2^31 - 1)\<close>, stores it as the new seed, and none of its signed
  intermediate results overflows.
\<close>

theorem rand_r_successor:
  assumes "0 < sint seed" and "sint seed < 2147483647"
  shows "rand_r seed =
     (let x = (48271 * sint seed) mod 2147483647 in Inr (x, of_int x))"
proof -
  let ?s = "sint seed"
  have s: "0 < ?s" "?s < rand_M" using assms by (simp_all add: rand_M_def)
  note S = schrage [OF s]
  have c: "c_quot ?s rand_Q = ?s div rand_Q" "c_rem ?s rand_Q = ?s mod rand_Q"
    using s by (simp_all add: c_rem_def c_quot_def rand_Q_def minus_div_mult_eq_mod)
  let ?x = "rand_A * (?s mod rand_Q) - rand_R * (?s div rand_Q)"
  have f: "fits_int (rand_A * (?s mod rand_Q))" "fits_int (rand_R * (?s div rand_Q))" "fits_int ?x"
    using S(1-4) by (simp_all add: fits_int_def rand_M_def)
  have w: "sint (of_int (?x + rand_M) :: u32) = ?x + rand_M" if "?x < 0"
  proof -
    have "0 \<le> ?x + rand_M" "?x + rand_M < 2 ^ 31" using that S(1-4) by (simp_all add: rand_M_def)
    then have "signed_take_bit 31 (?x + rand_M) = ?x + rand_M"
      by (simp only: signed_take_bit_int_eq_self_iff) simp
    then show ?thesis by (simp only: signed_of_int) simp
  qed
  have "rand_r seed = (let x = (if ?x < 0 then ?x + rand_M else ?x) in Inr (x, of_int x))"
    unfolding rand_r_def c Let_def using f w by simp
  then show ?thesis using S(5) by (simp add: rand_A_def rand_M_def)
qed

lemma rand_r_successor_witness: "rand_r 1 = Inr (48271, 48271)"
  using rand_r_successor [of 1] by simp

text \<open>\<open>rand\<close> keeps its seed in a local variable and so returns the same number on every call.\<close>

lemma rand_constant: "rand = Inr 48271"
  by code_simp

section \<open>ffs finds the lowest bit\<close>

definition lowest_bit :: "u32 \<Rightarrow> nat \<Rightarrow> bool" where
  "lowest_bit i k = (bit i k \<and> (\<forall>j<k. \<not> bit i j))"

lemma low_mask_zero:
  assumes "lowest_bit i L"
  shows "(i AND mask k = 0) = (k \<le> L)"
proof -
  have L: "L < 32" using assms bit_imp_le_length [of i L] by (simp add: lowest_bit_def)
  have "bit i L" "\<forall>j<L. \<not> bit i j" using assms by (simp_all add: lowest_bit_def)
  then show ?thesis using L
    by (auto simp: bit_eq_iff bit_and_iff bit_mask_iff not_le)
qed

lemma ffs_step_lowest:
  assumes "lowest_bit i L"
  shows "ffs_step k (pl, i) = (if k \<le> L then (pl + k, signed_drop_bit k i) else (pl, i))"
    and "k \<le> L \<Longrightarrow> lowest_bit (signed_drop_bit k i) (L - k)"
proof -
  have L: "L < 32" using assms bit_imp_le_length [of i L] by (simp add: lowest_bit_def)
  show "ffs_step k (pl, i) = (if k \<le> L then (pl + k, signed_drop_bit k i) else (pl, i))"
    by (simp add: ffs_step_def low_mask_zero [OF assms])
  show "k \<le> L \<Longrightarrow> lowest_bit (signed_drop_bit k i) (L - k)"
    using assms L by (auto simp: lowest_bit_def bit_signed_drop_bit_iff)
qed

lemma ffs_final:
  assumes "lowest_bit i L" and "L < 4"
  shows "(if i AND 1 \<noteq> 0 then p + 1 else if i AND 2 \<noteq> 0 then p + 2
          else if i AND 4 \<noteq> 0 then p + 3 else if i AND 8 \<noteq> 0 then p + 4 else 0) = p + L + (1::nat)"
proof -
  have b: "(i AND 1 = 0) = (\<not> bit i 0)" "(i AND 2 = 0) = (\<not> bit i 1)"
    "(i AND 4 = 0) = (\<not> bit i 2)" "(i AND 8 = 0) = (\<not> bit i 3)"
    using and_exp_eq_0_iff_not_bit [of i 0] and_exp_eq_0_iff_not_bit [of i 1]
      and_exp_eq_0_iff_not_bit [of i 2] and_exp_eq_0_iff_not_bit [of i 3] by simp_all
  have "L = 0 \<or> L = 1 \<or> L = 2 \<or> L = 3" using assms(2) by arith
  then show ?thesis using assms(1) unfolding b lowest_bit_def by auto
qed

text \<open>
  \<^verbatim>\<open>ffs\<close> returns one plus the index of the lowest bit that is set, for every word that has
  one, although it shifts a signed \<^verbatim>\<open>int\<close> to the right; for 0 it returns 0.
\<close>

theorem ffs_lowest:
  shows "ffs i = (if i = 0 then 0 else Suc (LEAST k. bit i k))"
proof (cases "i = 0")
  case True
  then show ?thesis by (simp add: ffs_def ffs_step_def)
next
  case False
  define L where "L = (LEAST k. bit i k)"
  have "\<exists>k. bit i k" using False by (auto simp: bit_eq_iff)
  then have low: "lowest_bit i L"
    unfolding L_def lowest_bit_def by (metis LeastI_ex not_less_Least)
  then have L: "L < 32" using bit_imp_le_length [of i L] by (simp add: lowest_bit_def)
  have step: "\<exists>p' i' L'. ffs_step k (p, i) = (p', i') \<and> lowest_bit i' L' \<and> p' + L' = p + L \<and> L' < k"
    if "lowest_bit i L" "L < 2 * k" for i :: u32 and p L k
    using ffs_step_lowest(1) [OF that(1), of k p] ffs_step_lowest(2) [OF that(1), of k] that(1,2)
    by (cases "k \<le> L") (fastforce intro: exI [of _ "L - k"])+
  obtain p1 i1 L1 where 1: "ffs_step 16 (0, i) = (p1, i1)" "lowest_bit i1 L1" "p1 + L1 = L" "L1 < 16"
    using step [OF low, of 16 0] L by auto
  obtain p2 i2 L2 where 2: "ffs_step 8 (p1, i1) = (p2, i2)" "lowest_bit i2 L2" "p2 + L2 = L" "L2 < 8"
    using step [OF 1(2), of 8 p1] 1(3,4) by auto
  obtain p3 i3 L3 where 3: "ffs_step 4 (p2, i2) = (p3, i3)" "lowest_bit i3 L3" "p3 + L3 = L" "L3 < 4"
    using step [OF 2(2), of 4 p2] 2(3,4) by auto
  have "ffs i = p3 + L3 + 1"
    using ffs_final [OF 3(2,4), of p3] unfolding ffs_def 1(1) 2(1) 3(1) Let_def prod.case .
  then show ?thesis using 3(3) False by (simp add: L_def)
qed

section \<open>bsearch on a sorted array\<close>

definition descending :: "(nat \<Rightarrow> int) \<Rightarrow> nat \<Rightarrow> nat \<Rightarrow> bool" where
  "descending cmp lo hi =
     (\<forall>i \<in> {lo..<hi}. \<forall>j \<in> {i..<hi}. (cmp i < 0 \<longrightarrow> cmp j < 0) \<and> (cmp j > 0 \<longrightarrow> cmp i > 0))"

lemma descendingD:
  "descending cmp lo hi \<Longrightarrow> lo \<le> i \<Longrightarrow> i \<le> j \<Longrightarrow> j < hi \<Longrightarrow>
   (cmp i < 0 \<longrightarrow> cmp j < 0) \<and> (cmp j > 0 \<longrightarrow> cmp i > 0)"
  unfolding descending_def by (metis atLeastLessThan_iff le_less_trans order_refl)

lemma descending_part:
  "descending cmp lo hi \<Longrightarrow> lo \<le> lo' \<Longrightarrow> hi' \<le> hi \<Longrightarrow> descending cmp lo' hi'"
  unfolding descending_def by (meson atLeastLessThan_iff le_trans less_le_trans)

lemma bsearch_within:
  assumes "descending cmp lo (lo + n)"
  shows "case bsearch cmp lo n of
           Some k \<Rightarrow> lo \<le> k \<and> k < lo + n \<and> cmp k = 0 | None \<Rightarrow> \<forall>k. lo \<le> k \<and> k < lo + n \<longrightarrow> cmp k \<noteq> 0"
  using assms
proof (induction cmp lo n rule: bsearch.induct)
  case (1 cmp lo n)
  show ?case
  proof (cases "n = 0")
    case True
    then show ?thesis by (subst bsearch.simps) simp
  next
    case False
    let ?m = "n div 2"
    have m: "?m < n" using False by simp
    consider (lt) "cmp (lo + ?m) < 0" | (gt) "cmp (lo + ?m) > 0" | (eq) "cmp (lo + ?m) = 0" by linarith
    then show ?thesis
    proof cases
      case lt
      then have e: "bsearch cmp lo n = bsearch cmp lo ?m"
        using False by (subst bsearch.simps) (simp add: Let_def)
      have "cmp k < 0" if "lo + ?m \<le> k" "k < lo + n" for k using descendingD [OF 1(3), of "lo + ?m" k] lt that by simp
      then have out: "cmp k \<noteq> 0" if "lo \<le> k" "k < lo + n" "\<not> k < lo + ?m" for k
        using that(1,2,3) not_less [of k "lo + ?m"] by fastforce
      have "case bsearch cmp lo ?m of Some k \<Rightarrow> lo \<le> k \<and> k < lo + ?m \<and> cmp k = 0
         | None \<Rightarrow> \<forall>k. lo \<le> k \<and> k < lo + ?m \<longrightarrow> cmp k \<noteq> 0"
        by (rule 1(1) [OF False refl refl refl lt]) (rule descending_part [OF 1(3)], use m in simp_all)
      then show ?thesis unfolding e using m out by (fastforce split: option.splits)
    next
      case gt
      then have e: "bsearch cmp lo n = bsearch cmp (lo + ?m + 1) (n - (?m + 1))"
        using False by (subst bsearch.simps) (simp add: Let_def)
      have "cmp k > 0" if "lo \<le> k" "k \<le> lo + ?m" for k using descendingD [OF 1(3), of k "lo + ?m"] gt that m by simp
      then have out: "cmp k \<noteq> 0" if "lo \<le> k" "k < lo + n" "\<not> lo + ?m + 1 \<le> k" for k
        using that(1,2,3) not_less_eq_eq [of "lo + ?m" k] by fastforce
      have "case bsearch cmp (lo + ?m + 1) (n - (?m + 1)) of
          Some k \<Rightarrow> lo + ?m + 1 \<le> k \<and> k < lo + ?m + 1 + (n - (?m + 1)) \<and> cmp k = 0
         | None \<Rightarrow> \<forall>k. lo + ?m + 1 \<le> k \<and> k < lo + ?m + 1 + (n - (?m + 1)) \<longrightarrow> cmp k \<noteq> 0"
        by (rule 1(2) [OF False refl refl refl _ gt])
           (use gt in simp, rule descending_part [OF 1(3)], use m in simp_all)
      then show ?thesis unfolding e using m out by (fastforce split: option.splits)
    next
      case eq
      then have e: "bsearch cmp lo n = Some (lo + ?m)"
        using False by (subst bsearch.simps) (simp add: Let_def)
      show ?thesis unfolding e using eq m by simp
    qed
  qed
qed

end
