(* ===== verification/Printf.thy ===== *)
theory Printf
  imports Numconv
begin

text \<open>
  The formatted output and input of \<^verbatim>\<open>lib/printf.c\<close>.  The format is a memory of its own, \<open>fm\<close>,
  because no function writes to it; the buffer, the strings and the variables that the arguments
  point to are in one memory \<open>m\<close>.  The variable argument list is the list of its 64-bit slots.

  The output is a pair of the memory and the pointer \<^verbatim>\<open>str\<close>; the last byte that may be written,
  \<^verbatim>\<open>end\<close>, is called \<open>fin\<close>.
\<close>

declare rbind_cong [fundef_cong]

section \<open>Numbers in strings\<close>

function simple_digits :: "memory \<Rightarrow> nat \<Rightarrow> nat \<Rightarrow> u64 \<Rightarrow> (u64 \<times> nat) res" where
  "simple_digits m base cp result =
     (case aget m cp of
        Inl e \<Rightarrow> Inl e
      | Inr c \<Rightarrow>
          let v = (if isdigit c then sint c - 48 else sint (toupper c) - 65 + 10) in
          if isxdigit c \<and> unat (of_int v :: u64) < base
          then simple_digits m base (cp + 1) (result * of_nat base + of_int v)
          else Inr (result, cp))"
  by pat_completeness auto
termination
  by (relation "measure (\<lambda>(m, b, p, r). length m - p)") (auto simp: aget_eq_Inr)

declare simple_digits.simps [simp del]

text \<open>The result and what is stored through \<^verbatim>\<open>endp\<close>.\<close>

definition simple_strtoul :: "memory \<Rightarrow> nat \<Rightarrow> nat \<Rightarrow> (u64 \<times> nat) res" where
  "simple_strtoul m cp base =
     (if base = 0 then
        rbind (aget m cp) (\<lambda>c0.
          if c0 = 48 then
            rbind (aget m (cp + 1)) (\<lambda>c1.
              if c1 = 120 then
                rbind (aget m (cp + 2)) (\<lambda>c2.
                  if isxdigit c2 then simple_digits m 16 (cp + 2) 0 else simple_digits m 8 (cp + 1) 0)
              else simple_digits m 8 (cp + 1) 0)
          else simple_digits m 10 cp 0)
      else simple_digits m base cp 0)"

definition simple_strtol :: "memory \<Rightarrow> nat \<Rightarrow> nat \<Rightarrow> (u64 \<times> nat) res" where
  "simple_strtol m cp base =
     rbind (aget m cp) (\<lambda>c.
       if c = 45 then rbind (simple_strtoul m (cp + 1) base) (\<lambda>(v, e). Inr (- v, e))
       else simple_strtoul m cp base)"

text \<open>\<^verbatim>\<open>simple_strtoull\<close> is the same loop: \<^verbatim>\<open>long long\<close> has the width of \<^verbatim>\<open>long\<close>, and its test for
  a lower case letter before \<open>toupper\<close> is the one inside \<open>toupper\<close>.\<close>

definition simple_strtoull :: "memory \<Rightarrow> nat \<Rightarrow> nat \<Rightarrow> (u64 \<times> nat) res" where
  "simple_strtoull m cp base = simple_strtoul m cp base"

definition simple_strtoll :: "memory \<Rightarrow> nat \<Rightarrow> nat \<Rightarrow> (u64 \<times> nat) res" where
  "simple_strtoll m cp base =
     rbind (aget m cp) (\<lambda>c.
       if c = 45 then rbind (simple_strtoull m (cp + 1) base) (\<lambda>(v, e). Inr (- v, e))
       else simple_strtoull m cp base)"

function skip_atoi :: "memory \<Rightarrow> nat \<Rightarrow> int \<Rightarrow> (int \<times> nat) res" where
  "skip_atoi fm p i =
     (case aget fm p of
        Inl e \<Rightarrow> Inl e
      | Inr c \<Rightarrow>
          if isdigit c then
            (if fits_int (i * 10) \<and> fits_int (i * 10 + sint c) then skip_atoi fm (p + 1) (i * 10 + sint c - 48)
             else Inl Undef)
          else Inr (i, p))"
  by pat_completeness auto
termination
  by (relation "measure (\<lambda>(m, p, i). length m - p)") (auto simp: aget_eq_Inr)

declare skip_atoi.simps [simp del]

section \<open>Output\<close>

definition ZEROPAD :: u32 where "ZEROPAD = 1"
definition SIGN :: u32 where "SIGN = 2"
definition PLUS :: u32 where "PLUS = 4"
definition SPACE :: u32 where "SPACE = 8"
definition LEFT :: u32 where "LEFT = 16"
definition SPECIAL :: u32 where "SPECIAL = 32"
definition LARGE :: u32 where "LARGE = 64"

lemmas flag_defs = ZEROPAD_def SIGN_def PLUS_def SPACE_def LEFT_def SPECIAL_def LARGE_def

type_synonym out = "memory \<times> nat"

text \<open>\<^verbatim>\<open>if (str <= end) *str = c; ++str;\<close>\<close>

definition put :: "nat \<Rightarrow> u8 \<Rightarrow> out \<Rightarrow> out res" where
  "put fin c o1 =
     (case o1 of (m, str) \<Rightarrow>
        if str \<le> fin then rbind (aset m str c) (\<lambda>m'. Inr (m', str + 1)) else Inr (m, str + 1))"

fun put_list :: "nat \<Rightarrow> u8 list \<Rightarrow> out \<Rightarrow> out res" where
  "put_list fin [] o1 = Inr o1"
| "put_list fin (c # cs) o1 = rbind (put fin c o1) (put_list fin cs)"

text \<open>\<^verbatim>\<open>while (size-- > 0) put(c);\<close> with the value of \<^verbatim>\<open>size\<close> after the loop\<close>

function pad_loop :: "nat \<Rightarrow> u8 \<Rightarrow> out \<Rightarrow> int \<Rightarrow> (out \<times> int) res" where
  "pad_loop fin c o1 sz =
     (if sz > 0 then rbind (put fin c o1) (\<lambda>o2. pad_loop fin c o2 (sz - 1))
      else if fits_int (sz - 1) then Inr (o1, sz - 1) else Inl Undef)"
  by pat_completeness auto
termination by (relation "measure (\<lambda>(f, c, o1, sz). nat sz)") auto

declare pad_loop.simps [simp del]

definition small_digits :: "u8 list" where
  "small_digits = bytes_of ''0123456789abcdefghijklmnopqrstuvwxyz''"

definition large_digits :: "u8 list" where
  "large_digits = bytes_of ''0123456789ABCDEFGHIJKLMNOPQRSTUVWXYZ''"

text \<open>The digits as they are put into \<^verbatim>\<open>tmp\<close>, the last one first.  The base is at least 2.\<close>

fun conv_digits :: "u8 list \<Rightarrow> nat \<Rightarrow> nat \<Rightarrow> u8 list" where
  "conv_digits digits base num2 =
     (if num2 = 0 \<or> base < 2 then []
      else digits ! (num2 mod base) # conv_digits digits base (num2 div base))"

declare conv_digits.simps [simp del]

definition number :: "memory \<Rightarrow> nat \<Rightarrow> nat \<Rightarrow> int \<Rightarrow> int \<Rightarrow> int \<Rightarrow> int \<Rightarrow> u32 \<Rightarrow> out res" where
  "number m buf fin num base sz precision type =
     (let digits = (if type AND LARGE \<noteq> 0 then large_digits else small_digits);
          type = (if type AND LEFT \<noteq> 0 then type AND NOT ZEROPAD else type)
      in if base < 2 \<or> base > 36 then Inr (m, buf)
      else if type AND SIGN \<noteq> 0 \<and> num < 0 \<and> \<not> fits_long (- num) then Inl Undef
      else
        let c = (if type AND ZEROPAD \<noteq> 0 then 48 else 32);
            (sign, num, sz) =
              (if type AND SIGN \<noteq> 0 then
                 (if num < 0 then (45, - num, sz - 1)
                  else if type AND PLUS \<noteq> 0 then (43, num, sz - 1)
                  else if type AND SPACE \<noteq> 0 then (32, num, sz - 1)
                  else (0, num, sz))
               else (0, num, sz));
            sz = (if type AND SPECIAL \<noteq> 0 then
                      (if base = 16 then sz - 2 else if base = 8 then sz - 1 else sz)
                    else sz);
            tmp = (if num = 0 then [48] else conv_digits digits (nat base) (unat (of_int num :: u64)));
            i = length tmp;
            precision = (if int i > precision then int i else precision)
        in if \<not> fits_int (sz - precision) then Inl Undef
        else
          rbind (if type AND (ZEROPAD + LEFT) = 0 then pad_loop fin 32 (m, buf) (sz - precision)
                 else Inr ((m, buf), sz - precision)) (\<lambda>(o1, sz).
          rbind (if sign \<noteq> 0 then put fin sign o1 else Inr o1) (\<lambda>o2.
          rbind (if type AND SPECIAL \<noteq> 0 then
                   (if base = 8 then put fin 48 o2
                    else if base = 16 then rbind (put fin 48 o2) (put fin (digits ! 33))
                    else Inr o2)
                 else Inr o2) (\<lambda>o3.
          rbind (if type AND LEFT = 0 then pad_loop fin c o3 sz else Inr (o3, sz)) (\<lambda>(o4, sz).
          rbind (put_list fin (replicate (nat precision - i) 48) o4) (\<lambda>o5.
          rbind (put_list fin (rev tmp) o5) (\<lambda>o6.
          rbind (pad_loop fin 32 o6 sz) (\<lambda>(o7, sz). Inr o7))))))))"

section \<open>vsnprintf\<close>

text \<open>\<^verbatim>\<open>va_arg\<close>: the next slot, and the \<^verbatim>\<open>int\<close> in its low half.\<close>

definition va_slot :: "u64 list \<Rightarrow> (u64 \<times> u64 list) res" where
  "va_slot args = (case args of [] \<Rightarrow> Inl Undef | a # as \<Rightarrow> Inr (a, as))"

definition va_int :: "u64 list \<Rightarrow> (int \<times> u64 list) res" where
  "va_int args = rbind (va_slot args) (\<lambda>(a, as). Inr (sint (ucast a :: u32), as))"

record pspec =
  flags :: u32
  field_width :: int
  precision :: int
  qualifier :: int

function parse_flags :: "memory \<Rightarrow> nat \<Rightarrow> u32 \<Rightarrow> (u32 \<times> nat) res" where
  "parse_flags fm fmt fl =
     (case aget fm fmt of
        Inl e \<Rightarrow> Inl e
      | Inr c \<Rightarrow>
          if c = 45 then parse_flags fm (fmt + 1) (fl OR LEFT)
          else if c = 43 then parse_flags fm (fmt + 1) (fl OR PLUS)
          else if c = 32 then parse_flags fm (fmt + 1) (fl OR SPACE)
          else if c = 35 then parse_flags fm (fmt + 1) (fl OR SPECIAL)
          else if c = 48 then parse_flags fm (fmt + 1) (fl OR ZEROPAD)
          else Inr (fl, fmt))"
  by pat_completeness auto
termination
  by (relation "measure (\<lambda>(m, p, f). length m - p)") (auto simp: aget_eq_Inr)

declare parse_flags.simps [simp del]

definition parse_width :: "memory \<Rightarrow> nat \<Rightarrow> u32 \<Rightarrow> u64 list \<Rightarrow> (int \<times> u32 \<times> nat \<times> u64 list) res" where
  "parse_width fm fmt fl args =
     rbind (aget fm fmt) (\<lambda>c.
       if isdigit c then rbind (skip_atoi fm fmt 0) (\<lambda>(w, p). Inr (w, fl, p, args))
       else if c = 42 then
         rbind (va_int args) (\<lambda>(w, args').
           if w < 0 then
             (if fits_int (- w) then Inr (- w, fl OR LEFT, fmt + 1, args') else Inl Undef)
           else Inr (w, fl, fmt + 1, args'))
       else Inr (- 1, fl, fmt, args))"

definition parse_precision :: "memory \<Rightarrow> nat \<Rightarrow> u64 list \<Rightarrow> (int \<times> nat \<times> u64 list) res" where
  "parse_precision fm fmt args =
     rbind (aget fm fmt) (\<lambda>c.
       if c = 46 then
         rbind (aget fm (fmt + 1)) (\<lambda>d.
         rbind (if isdigit d then rbind (skip_atoi fm (fmt + 1) 0) (\<lambda>(n, p). Inr (n, p, args))
                else if d = 42 then rbind (va_int args) (\<lambda>(n, args'). Inr (n, fmt + 2, args'))
                else Inr (- 1, fmt + 1, args)) (\<lambda>(n, p, args').
           Inr (if n < 0 then 0 else n, p, args')))
       else Inr (- 1, fmt, args))"

definition parse_qualifier :: "memory \<Rightarrow> nat \<Rightarrow> (int \<times> nat) res" where
  "parse_qualifier fm fmt =
     rbind (aget fm fmt) (\<lambda>c.
     rbind (if c = 104 \<or> c = 108 \<or> c = 76 \<or> c = 90 then
              rbind (aget fm (fmt + 1)) (\<lambda>d.
                if c = 108 \<and> d = 108 then Inr (76, fmt + 2) else Inr (uint c, fmt + 1))
            else Inr (- 1, fmt)) (\<lambda>(q, p).
     rbind (aget fm p) (\<lambda>d. if d = 113 then Inr (76, p + 1) else Inr (q, p))))"

definition parse_spec :: "memory \<Rightarrow> nat \<Rightarrow> u64 list \<Rightarrow> (pspec \<times> nat \<times> u64 list) res" where
  "parse_spec fm fmt args =
     rbind (parse_flags fm fmt 0) (\<lambda>(fl, p1).
     rbind (parse_width fm p1 fl args) (\<lambda>(w, fl', p2, args1).
     rbind (parse_precision fm p2 args1) (\<lambda>(n, p3, args2).
     rbind (parse_qualifier fm p3) (\<lambda>(q, p4).
       Inr (\<lparr>flags = fl', field_width = w, precision = n, qualifier = q\<rparr>, p4, args2)))))"

text \<open>\<^verbatim>\<open>while (--field_width > 0) put(' ');\<close> and \<^verbatim>\<open>while (len < field_width--) put(' ');\<close>\<close>

function pad_pre :: "nat \<Rightarrow> out \<Rightarrow> int \<Rightarrow> (out \<times> int) res" where
  "pad_pre fin o1 fw =
     (if fw - 1 > 0 then rbind (put fin 32 o1) (\<lambda>o2. pad_pre fin o2 (fw - 1)) else Inr (o1, fw - 1))"
  by pat_completeness auto
termination by (relation "measure (\<lambda>(f, o1, w). nat w)") auto

function pad_str :: "nat \<Rightarrow> out \<Rightarrow> int \<Rightarrow> int \<Rightarrow> (out \<times> int) res" where
  "pad_str fin o1 len fw =
     (if len < fw then rbind (put fin 32 o1) (\<lambda>o2. pad_str fin o2 len (fw - 1)) else Inr (o1, fw - 1))"
  by pat_completeness auto
termination by (relation "measure (\<lambda>(f, o1, l, w). nat (w - l))") auto

declare pad_pre.simps [simp del] pad_str.simps [simp del]

fun copy_str :: "nat \<Rightarrow> nat \<Rightarrow> nat \<Rightarrow> out \<Rightarrow> out res" where
  "copy_str fin s 0 o1 = Inr o1"
| "copy_str fin s (Suc n) o1 =
     rbind (aget (fst o1) s) (\<lambda>c. rbind (put fin c o1) (copy_str fin (s + 1) n))"

definition store_le :: "memory \<Rightarrow> nat \<Rightarrow> nat \<Rightarrow> u64 \<Rightarrow> memory res" where
  "store_le m a n v =
     (if a + n \<le> length m
      then Inr (take a m @ map (\<lambda>i. ucast (drop_bit (8 * i) v)) [0..<n] @ drop (a + n) m) else Inl Undef)"

definition convert_char :: "pspec \<Rightarrow> nat \<Rightarrow> out \<Rightarrow> u64 list \<Rightarrow> (out \<times> u64 list) res" where
  "convert_char sp fin o1 args =
     rbind (if flags sp AND LEFT = 0 then pad_pre fin o1 (field_width sp) else Inr (o1, field_width sp)) (\<lambda>(o2, fw).
     rbind (va_int args) (\<lambda>(c, args').
     rbind (put fin (of_int c) o2) (\<lambda>o3.
     rbind (pad_pre fin o3 fw) (\<lambda>(o4, fw'). Inr (o4, args')))))"

definition null_text :: "u8 list" where
  "null_text = bytes_of ''<NULL>''"

definition convert_string :: "pspec \<Rightarrow> nat \<Rightarrow> out \<Rightarrow> u64 list \<Rightarrow> (out \<times> u64 list) res" where
  "convert_string sp fin o1 args =
     rbind (va_slot args) (\<lambda>(s, args').
     let count = unat (of_int (precision sp) :: u64) in
     rbind (if s = 0 then strnlen (null_text @ [0]) 0 count else strnlen (fst o1) (unat s) count) (\<lambda>l.
     let len = sint (of_nat l :: u32) in
     rbind (if flags sp AND LEFT = 0 then pad_str fin o1 len (field_width sp) else Inr (o1, field_width sp)) (\<lambda>(o2, fw).
     rbind (if s = 0 then put_list fin (take (nat len) null_text) o2 else copy_str fin (unat s) (nat len) o2) (\<lambda>o3.
     rbind (pad_str fin o3 len fw) (\<lambda>(o4, fw'). Inr (o4, args'))))))"

definition convert_count :: "pspec \<Rightarrow> nat \<Rightarrow> out \<Rightarrow> u64 list \<Rightarrow> (out \<times> u64 list) res" where
  "convert_count sp buf o1 args =
     rbind (va_slot args) (\<lambda>(ip, args').
     let n = (if qualifier sp = 108 \<or> qualifier sp = 90 then 8 else 4) in
     rbind (store_le (fst o1) (unat ip) n (of_nat (snd o1 - buf))) (\<lambda>m. Inr ((m, snd o1), args')))"

text \<open>The value of an integer argument: sign or zero extended to \<^verbatim>\<open>long long\<close>.\<close>

definition int_arg :: "int \<Rightarrow> bool \<Rightarrow> u64 \<Rightarrow> int" where
  "int_arg q sg a =
     (if q = 76 then sint a
      else if q = 108 \<or> q = 90 then sint a
      else if q = 104 then (if sg then sint (ucast a :: u16) else uint (ucast a :: u16))
      else if sg then sint (ucast a :: u32) else uint (ucast a :: u32))"

definition convert_int :: "pspec \<Rightarrow> int \<Rightarrow> u32 \<Rightarrow> nat \<Rightarrow> out \<Rightarrow> u64 list \<Rightarrow> (out \<times> u64 list) res" where
  "convert_int sp base fl fin o1 args =
     rbind (va_slot args) (\<lambda>(a, args').
     rbind (number (fst o1) (snd o1) fin (int_arg (qualifier sp) (fl AND SIGN \<noteq> 0) a) base
              (field_width sp) (precision sp) fl) (\<lambda>o2. Inr (o2, args')))"

definition convert_pointer :: "pspec \<Rightarrow> nat \<Rightarrow> out \<Rightarrow> u64 list \<Rightarrow> (out \<times> u64 list) res" where
  "convert_pointer sp fin o1 args =
     rbind (va_slot args) (\<lambda>(a, args').
     let (w, fl) = (if field_width sp = - 1 then (16, flags sp OR ZEROPAD) else (field_width sp, flags sp)) in
     rbind (number (fst o1) (snd o1) fin (sint a) 16 w (precision sp) fl) (\<lambda>o2. Inr (o2, args')))"

definition convert :: "pspec \<Rightarrow> u8 \<Rightarrow> nat \<Rightarrow> nat \<Rightarrow> out \<Rightarrow> u64 list \<Rightarrow> (out \<times> u64 list) res" where
  "convert sp c buf fin o1 args =
     (if c = 99 then convert_char sp fin o1 args
      else if c = 115 then convert_string sp fin o1 args
      else if c = 112 then convert_pointer sp fin o1 args
      else if c = 110 then convert_count sp buf o1 args
      else if c = 37 then rbind (put fin 37 o1) (\<lambda>o2. Inr (o2, args))
      else if c = 111 then convert_int sp 8 (flags sp) fin o1 args
      else if c = 88 then convert_int sp 16 (flags sp OR LARGE) fin o1 args
      else if c = 120 then convert_int sp 16 (flags sp) fin o1 args
      else if c = 100 \<or> c = 105 then convert_int sp 10 (flags sp OR SIGN) fin o1 args
      else if c = 117 then convert_int sp 10 (flags sp) fin o1 args
      else rbind (put fin 37 o1) (\<lambda>o2.
           rbind (if c \<noteq> 0 then put fin c o2 else Inr o2) (\<lambda>o3. Inr (o3, args))))"

text \<open>The parser of a conversion never steps back, so the loop over the format ends.\<close>

lemma skip_atoi_pos: "skip_atoi fm p i = Inr (n, q) \<Longrightarrow> p \<le> q"
  by (induction fm p i rule: skip_atoi.induct) (subst (asm) skip_atoi.simps, auto split: sum.splits if_splits)

lemma parse_flags_pos: "parse_flags fm p fl = Inr (fl', q) \<Longrightarrow> p \<le> q"
  by (induction fm p fl rule: parse_flags.induct) (subst (asm) parse_flags.simps, auto split: sum.splits if_splits)

lemma parse_spec_pos:
  assumes "parse_spec fm p args = Inr (sp, q, args')"
  shows "p \<le> q"
proof -
  have W: "p1 \<le> p2" if "parse_width fm p1 fl as = Inr (w, fl', p2, as')" for p1 fl as w fl' p2 as'
    using that skip_atoi_pos unfolding parse_width_def
    by (fastforce simp: res_simps split: if_splits)
  have N: "p1 \<le> p2" if "parse_precision fm p1 as = Inr (n, p2, as')" for p1 as n p2 as'
    using that skip_atoi_pos unfolding parse_precision_def
    by (fastforce simp: res_simps split: if_splits)
  have Q: "p1 \<le> p2" if "parse_qualifier fm p1 = Inr (q, p2)" for p1 q p2
    using that unfolding parse_qualifier_def by (fastforce simp: res_simps split: if_splits)
  from assms obtain fl p1 w fl' p2 as1 n p3 as2 qu where
    "parse_flags fm p 0 = Inr (fl, p1)" "parse_width fm p1 fl args = Inr (w, fl', p2, as1)"
    "parse_precision fm p2 as1 = Inr (n, p3, as2)" "parse_qualifier fm p3 = Inr (qu, q)"
    unfolding parse_spec_def by (auto simp: rbind_eq_Inr)
  with W N Q parse_flags_pos show ?thesis by (meson le_trans)
qed

function vsn_loop :: "memory \<Rightarrow> nat \<Rightarrow> nat \<Rightarrow> nat \<Rightarrow> out \<Rightarrow> u64 list \<Rightarrow> out res" where
  "vsn_loop fm fmt buf fin o1 args =
     rbind (aget fm fmt) (\<lambda>c.
       if c = 0 then Inr o1
       else if c \<noteq> 37 then rbind (put fin c o1) (\<lambda>o2. vsn_loop fm (fmt + 1) buf fin o2 args)
       else
         rbind (parse_spec fm (fmt + 1) args) (\<lambda>(sp, p, args1).
         rbind (aget fm p) (\<lambda>c1.
         rbind (convert sp c1 buf fin o1 args1) (\<lambda>(o2, args2).
           vsn_loop fm (if c1 = 0 then p else p + 1) buf fin o2 args2))))"
  by pat_completeness auto
termination
  by (relation "measure (\<lambda>(fm, p, b, f, o1, as). length fm - p)")
     (auto simp: aget_eq_Inr dest!: parse_spec_pos)

declare vsn_loop.simps [simp del]

text \<open>
  \<^verbatim>\<open>buf + size - 1\<close> is computed modulo \<open>2^64\<close>; when it wraps, the buffer is taken to reach
  the end of the address space.
\<close>

definition vsnprintf :: "memory \<Rightarrow> nat \<Rightarrow> nat \<Rightarrow> memory \<Rightarrow> nat \<Rightarrow> u64 list \<Rightarrow> (memory \<times> int) res" where
  "vsnprintf m buf sz fm fmt args =
     (let fin0 = (buf + sz - 1) mod 2 ^ 64;
          (fin, sz) = (if fin0 < buf - 1 then (2 ^ 64 - 1, 2 ^ 64 - 1 - buf + 1) else (fin0, sz))
      in rbind (vsn_loop fm fmt buf fin (m, buf) args) (\<lambda>(m1, str).
         rbind (if str \<le> fin then aset m1 str 0
                else if sz > 0 then aset m1 fin 0
                else Inr m1) (\<lambda>m2.
           Inr (m2, sint (of_nat (str - buf) :: u32)))))"

text \<open>\<open>snprintf\<close> collects its arguments and calls \<open>vsnprintf\<close>.\<close>

definition snprintf :: "memory \<Rightarrow> nat \<Rightarrow> nat \<Rightarrow> memory \<Rightarrow> nat \<Rightarrow> u64 list \<Rightarrow> (memory \<times> int) res" where
  "snprintf m buf sz fm fmt args = vsnprintf m buf sz fm fmt args"

definition vsprintf :: "memory \<Rightarrow> nat \<Rightarrow> memory \<Rightarrow> nat \<Rightarrow> u64 list \<Rightarrow> (memory \<times> int) res" where
  "vsprintf m buf fm fmt args = vsnprintf m buf 0xFFFFFFFF fm fmt args"

definition sprintf :: "memory \<Rightarrow> nat \<Rightarrow> memory \<Rightarrow> nat \<Rightarrow> u64 list \<Rightarrow> (memory \<times> int) res" where
  "sprintf m buf fm fmt args = vsprintf m buf fm fmt args"

section \<open>vsscanf\<close>

function skip_nonspace :: "memory \<Rightarrow> nat \<Rightarrow> nat res" where
  "skip_nonspace m p =
     (case aget m p of
        Inl e \<Rightarrow> Inl e
      | Inr c \<Rightarrow> if \<not> isspace c \<and> c \<noteq> 0 then skip_nonspace m (p + 1) else Inr p)"
  by pat_completeness auto
termination
  by (relation "measure (\<lambda>(m, p). length m - p)") (auto simp: aget_eq_Inr)

text \<open>\<^verbatim>\<open>do *s++ = *str++; while (--field_width > 0 && *str);\<close>\<close>

function scan_chars :: "memory \<Rightarrow> nat \<Rightarrow> nat \<Rightarrow> int \<Rightarrow> (memory \<times> nat) res" where
  "scan_chars m s str fw =
     rbind (aget m str) (\<lambda>c.
     rbind (aset m s c) (\<lambda>m'.
       if fw - 1 > 0 then
         rbind (aget m' (str + 1)) (\<lambda>d.
           if d \<noteq> 0 then scan_chars m' (s + 1) (str + 1) (fw - 1) else Inr (m', str + 1))
       else Inr (m', str + 1)))"
  by pat_completeness auto
termination by (relation "measure (\<lambda>(m, s, p, w). nat w)") auto

function scan_word :: "memory \<Rightarrow> nat \<Rightarrow> nat \<Rightarrow> int \<Rightarrow> (memory \<times> nat) res" where
  "scan_word m s str fw =
     rbind (aget m str) (\<lambda>c.
       if c \<noteq> 0 \<and> \<not> isspace c \<and> fw \<noteq> 0 then
         rbind (aset m s c) (\<lambda>m'. scan_word m' (s + 1) (str + 1) (fw - 1))
       else rbind (aset m s 0) (\<lambda>m'. Inr (m', str)))"
  by pat_completeness auto
termination
  by (relation "measure (\<lambda>(m, s, p, w). length m - p)") (auto simp: aget_eq_Inr aset_eq_Inr)

declare skip_nonspace.simps [simp del] scan_chars.simps [simp del] scan_word.simps [simp del]

text \<open>How an iteration ends: with the result \<^verbatim>\<open>num\<close>, or with the pointers for the next one.\<close>

datatype scan = Scan_done memory nat | Scan_more memory nat nat "u64 list" nat

definition scan_qualifier :: "memory \<Rightarrow> nat \<Rightarrow> (int \<times> nat) res" where
  "scan_qualifier fm p =
     rbind (aget fm p) (\<lambda>c.
       if c = 104 \<or> c = 108 \<or> c = 76 \<or> c = 90 \<or> c = 122 then
         rbind (aget fm (p + 1)) (\<lambda>d.
           if d = c \<and> c = 104 then Inr (72, p + 2)
           else if d = c \<and> c = 108 then Inr (76, p + 2)
           else Inr (uint c, p + 1))
       else Inr (- 1, p))"

definition scan_spec :: "memory \<Rightarrow> nat \<Rightarrow> (int \<times> int \<times> nat) res" where
  "scan_spec fm fmt =
     rbind (aget fm fmt) (\<lambda>c0.
     rbind (if isdigit c0 then skip_atoi fm fmt 0 else Inr (- 1, fmt)) (\<lambda>(fw, p).
     rbind (scan_qualifier fm p) (\<lambda>(q, p'). Inr (fw, q, p'))))"

definition bad_digit :: "nat \<Rightarrow> u8 \<Rightarrow> bool" where
  "bad_digit base digit =
     (digit = 0 \<or> (base = 16 \<and> \<not> isxdigit digit) \<or> (base = 10 \<and> \<not> isdigit digit) \<or>
      (base = 8 \<and> (\<not> isdigit digit \<or> sint digit > 55)) \<or> (base = 0 \<and> \<not> isdigit digit))"

text \<open>The parser that a qualifier selects, and the width of the variable it is stored in.\<close>

definition scan_value :: "int \<Rightarrow> bool \<Rightarrow> memory \<Rightarrow> nat \<Rightarrow> nat \<Rightarrow> (u64 \<times> nat) res" where
  "scan_value q is_sign m str base =
     (if q = 76 then (if is_sign then simple_strtoll m str base else simple_strtoull m str base)
      else if q = 90 \<or> q = 122 then simple_strtoul m str base
      else if is_sign then simple_strtol m str base else simple_strtoul m str base)"

definition scan_width :: "int \<Rightarrow> nat" where
  "scan_width q = (if q = 72 then 1 else if q = 104 then 2
     else if q = 108 \<or> q = 76 \<or> q = 90 \<or> q = 122 then 8 else 4)"

definition scan_number ::
    "nat \<Rightarrow> bool \<Rightarrow> int \<Rightarrow> nat \<Rightarrow> memory \<Rightarrow> nat \<Rightarrow> u64 list \<Rightarrow> nat \<Rightarrow> scan res" where
  "scan_number base is_sign q fmt m str0 args num =
     rbind (skip_spaces m str0) (\<lambda>str.
     rbind (aget m str) (\<lambda>c.
     rbind (if is_sign \<and> c = 45 then aget m (str + 1) else Inr c) (\<lambda>digit.
       if bad_digit base digit then Inr (Scan_done m num)
       else
         rbind (scan_value q is_sign m str base) (\<lambda>(v, nx).
         rbind (va_slot args) (\<lambda>(a, args').
         rbind (store_le m (unat a) (scan_width q) v) (\<lambda>m'.
           Inr (Scan_more m' nx fmt args' (num + 1))))))))"

text \<open>The \<^verbatim>\<open>switch\<close> on the conversion character \<open>c\<close>; \<open>fmt\<close> already points behind it.\<close>

definition scan_conv ::
    "u8 \<Rightarrow> int \<Rightarrow> int \<Rightarrow> nat \<Rightarrow> nat \<Rightarrow> memory \<Rightarrow> nat \<Rightarrow> u64 list \<Rightarrow> nat \<Rightarrow> scan res" where
  "scan_conv c fw q fmt buf m str args num =
     (if c = 99 then
        rbind (va_slot args) (\<lambda>(s, args').
        rbind (scan_chars m (unat s) str (if fw = - 1 then 1 else fw)) (\<lambda>(m', str').
          Inr (Scan_more m' str' fmt args' (num + 1))))
      else if c = 115 then
        rbind (va_slot args) (\<lambda>(s, args').
        rbind (skip_spaces m str) (\<lambda>str1.
        rbind (scan_word m (unat s) str1 (if fw = - 1 then 2147483647 else fw)) (\<lambda>(m', str').
          Inr (Scan_more m' str' fmt args' (num + 1)))))
      else if c = 110 then
        rbind (va_slot args) (\<lambda>(i, args').
        rbind (store_le m (unat i) 4 (of_nat (str - buf))) (\<lambda>m'.
          Inr (Scan_more m' str fmt args' num)))
      else if c = 37 then
        rbind (aget m str) (\<lambda>d.
          if d \<noteq> 37 then Inr (Scan_done m num) else Inr (Scan_more m (str + 1) fmt args num))
      else if c = 111 then scan_number 8 False q fmt m str args num
      else if c = 120 \<or> c = 88 then scan_number 16 False q fmt m str args num
      else if c = 105 then scan_number 0 True q fmt m str args num
      else if c = 100 then scan_number 10 True q fmt m str args num
      else if c = 117 then scan_number 10 False q fmt m str args num
      else Inr (Scan_done m num))"

text \<open>One iteration, \<open>c0\<close> being the format character it starts at.\<close>

definition scan_step ::
    "u8 \<Rightarrow> memory \<Rightarrow> nat \<Rightarrow> nat \<Rightarrow> memory \<Rightarrow> nat \<Rightarrow> u64 list \<Rightarrow> nat \<Rightarrow> scan res" where
  "scan_step c0 fm fmt0 buf m str0 args num =
     rbind (if isspace c0 then skip_spaces fm fmt0 else Inr fmt0) (\<lambda>fmt.
     rbind (if isspace c0 then skip_spaces m str0 else Inr str0) (\<lambda>str.
     rbind (aget fm fmt) (\<lambda>c.
       if c \<noteq> 37 \<and> c \<noteq> 0 then
         rbind (aget m str) (\<lambda>s.
           if c \<noteq> s then Inr (Scan_done m num) else Inr (Scan_more m (str + 1) (fmt + 1) args num))
       else if c = 0 then Inr (Scan_done m num)
       else
         rbind (aget fm (fmt + 1)) (\<lambda>c1.
           if c1 = 42 then
             rbind (skip_nonspace fm (fmt + 1)) (\<lambda>fmt'.
             rbind (skip_nonspace m str) (\<lambda>str'. Inr (Scan_more m str' fmt' args num)))
           else
             rbind (scan_spec fm (fmt + 1)) (\<lambda>(fw, q, p).
             rbind (aget fm p) (\<lambda>conv.
               if conv = 0 then Inr (Scan_done m num)
               else rbind (aget m str) (\<lambda>s.
                 if s = 0 then Inr (Scan_done m num)
                 else scan_conv conv fw q (p + 1) buf m str args num)))))))"

lemma skip_spaces_pos: "skip_spaces m p = Inr q \<Longrightarrow> p \<le> q"
  by (induction m p rule: skip_spaces.induct) (subst (asm) skip_spaces.simps, auto split: sum.splits if_splits)

lemma skip_nonspace_pos: "skip_nonspace m p = Inr q \<Longrightarrow> p \<le> q"
  by (induction m p rule: skip_nonspace.induct) (subst (asm) skip_nonspace.simps, auto split: sum.splits if_splits)

lemma scan_spec_pos:
  assumes "scan_spec fm p = Inr (fw, q, p')"
  shows "p \<le> p'"
proof -
  obtain c0 w p0 where "(if isdigit c0 then skip_atoi fm p 0 else Inr (- 1, p)) = Inr (w, p0)"
    and q: "scan_qualifier fm p0 = Inr (q, p')"
    using assms by (auto simp: scan_spec_def rbind_eq_Inr)
  then have "p \<le> p0" using skip_atoi_pos by (auto split: if_splits)
  moreover have "p0 \<le> p'"
    using q unfolding scan_qualifier_def rbind_eq_Inr by (auto simp: rbind_eq_Inr split: if_splits)
  ultimately show ?thesis by simp
qed

lemma scan_number_fmt:
  "scan_number base sg q fmt m str args num = Inr (Scan_more m' str' fmt' args' num') \<Longrightarrow> fmt' = fmt"
  by (auto simp: scan_number_def res_simps split: if_splits)

lemma scan_conv_fmt:
  "scan_conv c fw q fmt buf m str args num = Inr (Scan_more m' str' fmt' args' num') \<Longrightarrow> fmt' = fmt"
  unfolding scan_conv_def
  by (auto simp: res_simps dest: scan_number_fmt split: if_splits)

lemma scan_step_pos:
  assumes "scan_step c fm fmt buf m str args num = Inr (Scan_more m' str' fmt' args' num')"
  shows "fmt < fmt'"
proof -
  let ?f = "\<lambda>f. (if isspace c then skip_spaces fm fmt else Inr fmt) = Inr f"
  obtain f where f: "?f f" and
    *: "fmt' = f + 1 \<or> skip_nonspace fm (f + 1) = Inr fmt' \<or> (\<exists>fw q p. scan_spec fm (f + 1) = Inr (fw, q, p) \<and> fmt' = p + 1)"
    using assms unfolding scan_step_def
    by (auto simp: rbind_eq_Inr split: if_splits dest: scan_conv_fmt)
  have "fmt \<le> f" using f skip_spaces_pos by (auto split: if_splits)
  with * show ?thesis using skip_nonspace_pos scan_spec_pos by fastforce
qed

function scan_loop :: "memory \<Rightarrow> nat \<Rightarrow> nat \<Rightarrow> memory \<Rightarrow> nat \<Rightarrow> u64 list \<Rightarrow> nat \<Rightarrow> (memory \<times> nat) res" where
  "scan_loop fm fmt buf m str args num =
     rbind (aget fm fmt) (\<lambda>c.
       if c = 0 then Inr (m, num)
       else rbind (aget m str) (\<lambda>s.
         if s = 0 then Inr (m, num)
         else rbind (scan_step c fm fmt buf m str args num) (\<lambda>r.
           case r of
             Scan_done m' num' \<Rightarrow> Inr (m', num')
           | Scan_more m' str' fmt' args' num' \<Rightarrow> scan_loop fm fmt' buf m' str' args' num')))"
  by pat_completeness auto
termination
  by (relation "measure (\<lambda>(fm, p, b, m, s, as, n). length fm - p)")
     (auto simp: aget_eq_Inr dest!: scan_step_pos)

declare scan_loop.simps [simp del]

definition vsscanf :: "memory \<Rightarrow> nat \<Rightarrow> memory \<Rightarrow> nat \<Rightarrow> u64 list \<Rightarrow> (memory \<times> nat) res" where
  "vsscanf m buf fm fmt args = scan_loop fm fmt buf m buf args 0"

definition sscanf :: "memory \<Rightarrow> nat \<Rightarrow> memory \<Rightarrow> nat \<Rightarrow> u64 list \<Rightarrow> (memory \<times> nat) res" where
  "sscanf m buf fm fmt args = vsscanf m buf fm fmt args"

section \<open>Output is a block copy cut off at the end\<close>

definition blit :: "memory \<Rightarrow> nat \<Rightarrow> nat \<Rightarrow> u8 list \<Rightarrow> memory" where
  "blit m str fin xs =
     map (\<lambda>i. if str \<le> i \<and> i \<le> fin \<and> i < str + length xs then xs ! (i - str) else m ! i) [0..<length m]"

lemma blit_length [simp]: "length (blit m str fin xs) = length m"
  by (simp add: blit_def)

lemma blit_nth: "i < length m \<Longrightarrow> blit m str fin xs ! i =
    (if str \<le> i \<and> i \<le> fin \<and> i < str + length xs then xs ! (i - str) else m ! i)"
  by (simp add: blit_def)

lemma put_list_blit:
  "fin < length m \<or> str + length xs \<le> length m \<Longrightarrow>
   put_list fin xs (m, str) = Inr (blit m str fin xs, str + length xs)"
proof (induction xs arbitrary: m str)
  case Nil
  have "blit m str fin [] = m" by (rule nth_equalityI) (auto simp: blit_nth)
  then show ?case by simp
next
  case (Cons x xs)
  let ?m = "if str \<le> fin then m[str := x] else m"
  have p: "put fin x (m, str) = Inr (?m, str + 1)" using Cons.prems by (auto simp: put_def)
  have "blit ?m (str + 1) fin xs = blit m str fin (x # xs)"
    by (rule nth_equalityI) (auto simp: blit_nth nth_list_update nth_Cons')
  moreover have "fin < length ?m \<or> str + 1 + length xs \<le> length ?m" using Cons.prems by auto
  ultimately have "put_list fin xs (?m, str + 1) = Inr (blit m str fin (x # xs), str + 1 + length xs)"
    using Cons.IH [of ?m "str + 1"] by simp
  then show ?case by (simp only: put_list.simps p rbind_Inr) simp
qed

lemma put_list_append:
  "put_list fin (xs @ ys) o1 = rbind (put_list fin xs o1) (put_list fin ys)"
  by (induction xs arbitrary: o1) (simp_all add: rbind_def split: sum.split)

lemma put_list_append_fun:
  "put_list fin (xs @ ys) = (\<lambda>o1. rbind (put_list fin xs o1) (put_list fin ys))"
  by (rule ext) (rule put_list_append)

lemma rbind_unit [simp]: "rbind x Inr = x"
  by (cases x) simp_all

lemma put_put_list: "put fin x o1 = put_list fin [x] o1"
  by (cases "put fin x o1") simp_all

lemma rbind_assoc: "rbind (rbind a f) g = rbind a (\<lambda>x. rbind (f x) g)"
  by (cases a) simp_all

lemma pad_loop_put_list:
  "- (2 ^ 31) < sz \<Longrightarrow> sz < 2 ^ 31 \<Longrightarrow> pad_loop fin c o1 sz =
     rbind (put_list fin (replicate (nat sz) c) o1) (\<lambda>o2. Inr (o2, (if sz > 0 then 0 else sz) - 1))"
proof (induction fin c o1 sz rule: pad_loop.induct)
  case (1 fin c o1 sz)
  show ?case
  proof (cases "sz > 0")
    case True
    have n: "nat sz = Suc (nat (sz - 1))" using True by simp
    have e: "(if sz - 1 > 0 then 0 else sz - 1) = 0" using True by simp
    have "pad_loop fin c o1 sz = rbind (put fin c o1) (\<lambda>o2. pad_loop fin c o2 (sz - 1))"
      using True by (subst pad_loop.simps) simp
    also have "\<dots> = rbind (put fin c o1) (\<lambda>o2. rbind (put_list fin (replicate (nat (sz - 1)) c) o2) (\<lambda>o3. Inr (o3, - 1)))"
      using 1 True e by (intro rbind_cong refl) simp
    finally show ?thesis using True unfolding n by (simp add: rbind_assoc)
  next
    case False
    then show ?thesis using 1 by (subst pad_loop.simps) (simp add: fits_int_def)
  qed
qed

section \<open>What number prints\<close>

lemma flag_keep:
  "(t AND NOT ZEROPAD) AND SIGN = t AND SIGN" "(t AND NOT ZEROPAD) AND PLUS = t AND PLUS"
  "(t AND NOT ZEROPAD) AND SPACE = t AND SPACE" "(t AND NOT ZEROPAD) AND LEFT = t AND LEFT"
  "(t AND NOT ZEROPAD) AND SPECIAL = t AND SPECIAL" "(t AND NOT ZEROPAD) AND ZEROPAD = 0"
  by (simp_all add: flag_defs and.assoc)

lemma flag_either: "t AND (ZEROPAD + LEFT) = 0 \<longleftrightarrow> t AND ZEROPAD = 0 \<and> t AND LEFT = 0"
proof -
  have "ZEROPAD + LEFT = ZEROPAD OR LEFT" by (simp add: flag_defs)
  then have e: "t AND (ZEROPAD + LEFT) = (t AND ZEROPAD) OR (t AND LEFT)"
    by (simp only: bit.conj_disj_distrib)
  show ?thesis unfolding e by (auto simp: bit_eq_iff bit_or_iff)
qed

text \<open>The reference text: sign, prefix, zeros up to the precision and digits, filled up to the
  width on the left with blanks or zeros, or on the right.\<close>

definition sign_text :: "int \<Rightarrow> u32 \<Rightarrow> u8 list" where
  "sign_text num type =
     (if type AND SIGN = 0 then [] else if num < 0 then [45] else if type AND PLUS \<noteq> 0 then [43]
      else if type AND SPACE \<noteq> 0 then [32] else [])"

definition prefix_text :: "int \<Rightarrow> u32 \<Rightarrow> u8 list" where
  "prefix_text base type =
     (if type AND SPECIAL = 0 then [] else if base = 8 then [48]
      else if base = 16 then [48, if type AND LARGE \<noteq> 0 then 88 else 120] else [])"

definition digit_text :: "int \<Rightarrow> int \<Rightarrow> u32 \<Rightarrow> u8 list" where
  "digit_text num base type =
     (let n = (if type AND SIGN \<noteq> 0 then nat \<bar>num\<bar> else unat (of_int num :: u64)) in
      if n = 0 then [48]
      else rev (conv_digits (if type AND LARGE \<noteq> 0 then large_digits else small_digits) (nat base) n))"

definition number_text :: "int \<Rightarrow> int \<Rightarrow> int \<Rightarrow> int \<Rightarrow> u32 \<Rightarrow> u8 list" where
  "number_text num base width prec type =
     (let ds = digit_text num base type;
          zs = replicate (nat prec - length ds) 48 @ ds;
          sp = sign_text num type @ prefix_text base type;
          n = nat (width - int (length sp + length zs))
      in if type AND LEFT \<noteq> 0 then sp @ zs @ replicate n 32
         else if type AND ZEROPAD \<noteq> 0 then sp @ replicate n 48 @ zs
         else replicate n 32 @ sp @ zs)"

lemma unat_of_int_u64:
  assumes "0 \<le> k" and "k < 2 ^ 64"
  shows "unat (of_int k :: u64) = nat k"
  using assms by (simp add: unsigned_of_int take_bit_int_eq_self)

lemma sign_stage:
  "rbind (if sg \<noteq> 0 then put fin sg o1 else Inr o1) f = rbind (put_list fin (if sg \<noteq> 0 then [sg] else []) o1) f"
  by (simp add: put_put_list del: put_list.simps) simp

lemma of_int_zero_u64: "fits_long k \<Longrightarrow> (of_int k :: u64) = 0 \<longleftrightarrow> k = 0"
proof
  assume f: "fits_long k" and z: "(of_int k :: u64) = 0"
  have "k mod 2 ^ 64 = uint (of_int k :: u64)" by (simp add: unsigned_of_int take_bit_eq_mod)
  then have "k mod 2 ^ 64 = 0" using z by simp
  then obtain q where q: "k = 2 ^ 64 * q" by auto
  have "q = 0" using f unfolding q fits_long_def by auto
  then show "k = 0" using q by simp
qed simp

lemma digit_text_eq:
  fixes type :: u32
  assumes n: "fits_long num" "type AND SIGN = 0 \<or> num \<noteq> - (2 ^ 63)"
  defines "num' \<equiv> if type AND SIGN \<noteq> 0 \<and> num < 0 then - num else num"
  shows "rev (if num' = 0 then [48]
              else conv_digits (if type AND LARGE \<noteq> 0 then large_digits else small_digits) (nat base)
                     (unat (of_int num' :: u64))) = digit_text num base type"
proof (cases "type AND SIGN = 0")
  case True
  have "unat (of_int num :: u64) = 0 \<longleftrightarrow> num = 0"
    using of_int_zero_u64 [OF n(1)] by (simp add: unat_eq_zero)
  with True show ?thesis by (auto simp: num'_def digit_text_def Let_def)
next
  case False
  then have e: "num' = \<bar>num\<bar>" by (auto simp: num'_def)
  have "unat (of_int \<bar>num\<bar> :: u64) = nat \<bar>num\<bar>"
    using n False by (intro unat_of_int_u64) (auto simp: fits_long_def)
  with False show ?thesis unfolding e by (simp add: digit_text_def Let_def)
qed

lemma prefix_stage:
  "(if t AND SPECIAL \<noteq> 0 then
      (if base = 8 then put fin 48 o2
       else if base = 16 then
         rbind (put fin 48 o2) (put fin ((if t AND LARGE \<noteq> 0 then large_digits else small_digits) ! 33))
       else Inr o2)
    else Inr o2) = put_list fin (prefix_text base t) o2"
proof -
  have "large_digits ! 33 = 88" "small_digits ! 33 = 120" by code_simp+
  then show ?thesis
    by (auto simp: prefix_text_def put_put_list put_list_append [of _ "[_]" "[_]", simplified append_Cons append_Nil] simp del: put_list.simps)
       (simp_all add: rbind_def split: sum.split)
qed

text \<open>The 66 bytes of \<^verbatim>\<open>tmp\<close> are enough.\<close>

lemma conv_digits_length:
  assumes "2 \<le> base" and "n < 2 ^ k"
  shows "length (conv_digits dg base n) \<le> k"
  using assms(2)
proof (induction k arbitrary: n)
  case 0
  then show ?case by (simp add: conv_digits.simps)
next
  case (Suc k)
  have "n div base \<le> n div 2" using assms(1) by (rule div_le_mono2 [rotated]) simp
  then have "n div base < 2 ^ k" using Suc.prems by simp
  with Suc.IH show ?case by (subst conv_digits.simps) simp
qed

lemma tmp_length:
  assumes "2 \<le> base"
  shows "length (if num = 0 then [48] else conv_digits dg (nat base) (unat (w :: u64))) \<le> 64"
  using conv_digits_length [of "nat base" "unat w" 64 dg] assms unat_less_pow [of w] by simp

text \<open>The four places where \<^verbatim>\<open>number\<close> pads, with the width that is left: at most one of the
  three loops prints.\<close>

lemma pad_stages:
  assumes s: "- (2 ^ 31) + 4 < s" "s < 2 ^ 31"
  shows "rbind (if z = 0 \<and> l = 0 then pad_loop fin 32 o1 s else Inr (o1, s)) (\<lambda>(o2, s1).
         rbind (put_list fin xs o2) (\<lambda>o3.
         rbind (if l = 0 then pad_loop fin (if z \<noteq> 0 then 48 else 32) o3 s1 else Inr (o3, s1)) (\<lambda>(o4, s2).
         rbind (put_list fin ys o4) (\<lambda>o5.
         rbind (pad_loop fin 32 o5 s2) (\<lambda>(o6, s3). Inr o6))))) =
     put_list fin (if (l :: u32) \<noteq> 0 then xs @ ys @ replicate (nat s) 32
                   else if (z :: u32) \<noteq> 0 then xs @ replicate (nat s) 48 @ ys
                   else replicate (nat s) 32 @ xs @ ys) o1"
proof -
  define s' where "s' = (if s > 0 then 0 else s) - (1::int)"
  have s': "- (2 ^ 31) + 3 < s'" "s' < 0" using s unfolding s'_def by simp_all
  have p: "pad_loop fin c o1 s = rbind (put_list fin (replicate (nat s) c) o1) (\<lambda>o2. Inr (o2, s'))" for c o1
    unfolding s'_def by (rule pad_loop_put_list) (use s in simp_all)
  have p': "pad_loop fin c o1 s' = Inr (o1, s' - 1)" for c o1
    using pad_loop_put_list [of s' fin c o1] s' by simp
  have p'': "pad_loop fin c o1 (s' - 1) = Inr (o1, s' - 2)" for c o1
    using pad_loop_put_list [of "s' - 1" fin c o1] s' by simp
  show ?thesis
    by (cases "l = 0"; cases "z = 0") (simp_all add: p p' p'' put_list_append_fun rbind_assoc)
qed

lemma number_put_list:
  assumes b: "2 \<le> base" "base \<le> 36" and n: "fits_long num" "type AND SIGN = 0 \<or> num \<noteq> - (2 ^ 63)"
    and w: "- 1 \<le> sz" "sz < 2 ^ 31" and p: "- 1 \<le> pr" "pr < 2 ^ 31 - 16"
  shows "number m buf fin num base sz pr type =
     put_list fin (number_text num base sz pr type) (m, buf)"
proof -
  define t where "t = (if type AND LEFT \<noteq> 0 then type AND NOT ZEROPAD else type)"
  have tk: "t AND SIGN = type AND SIGN" "t AND PLUS = type AND PLUS" "t AND SPACE = type AND SPACE"
    "t AND LEFT = type AND LEFT" "t AND SPECIAL = type AND SPECIAL"
    "(t AND ZEROPAD = 0) = (type AND ZEROPAD = 0 \<or> type AND LEFT \<noteq> 0)"
    by (simp_all add: t_def flag_keep)
  have nb: "(base < 2 \<or> base > 36) = False" using b by simp
  have nf: "(type AND SIGN \<noteq> 0 \<and> num < 0 \<and> \<not> fits_long (- num)) = False"
    using n by (auto simp: fits_long_def)
  let ?dg = "if type AND LARGE \<noteq> 0 then large_digits else small_digits"
  let ?st = "sign_text num type" and ?px = "prefix_text base type" and ?ds = "digit_text num base type"
  define sg :: u8 where "sg = (if ?st = [] then 0 else hd ?st)"
  define num' where "num' = (if type AND SIGN \<noteq> 0 \<and> num < 0 then - num else num)"
  define tmp where "tmp = (if num' = 0 then [48] else conv_digits ?dg (nat base) (unat (of_int num' :: u64)))"
  have tri: "(if type AND SIGN \<noteq> 0 then
                 (if num < 0 then (45, - num, sz - 1)
                  else if type AND PLUS \<noteq> 0 then (43, num, sz - 1)
                  else if type AND SPACE \<noteq> 0 then (32, num, sz - 1)
                  else (0, num, sz))
               else (0, num, sz)) = (sg, num', sz - int (length ?st))"
    unfolding sg_def num'_def sign_text_def by auto
  have sgl: "(if sg \<noteq> 0 then put fin sg o1 else Inr o1) = put_list fin ?st o1" for o1
    unfolding sg_def sign_text_def put_put_list by auto
  have ds: "rev tmp = ?ds" unfolding tmp_def num'_def by (rule digit_text_eq [OF n])
  have szs: "(if type AND SPECIAL \<noteq> 0 then
      (if base = 16 then sz - int (length ?st) - 2 else if base = 8 then sz - int (length ?st) - 1
       else sz - int (length ?st)) else sz - int (length ?st)) = sz - int (length (?st @ ?px))"
    by (auto simp: prefix_text_def)
  define pr' where "pr' = (if int (length tmp) > pr then int (length tmp) else pr)"
  define s where "s = sz - int (length (?st @ ?px)) - pr'"
  let ?zs = "replicate (nat pr - length ?ds) 48"
  have dsl: "length tmp = length ?ds" using arg_cong [OF ds, of length] by simp
  have zs: "replicate (nat pr' - length tmp) 48 = ?zs" unfolding pr'_def dsl by auto
  have len: "length (?st @ ?px) \<le> 3" by (auto simp: sign_text_def prefix_text_def)
  have "length tmp \<le> 64" unfolding tmp_def by (rule tmp_length [OF b(1)])
  then have tl: "length tmp < 2 ^ 31 - 16" by simp
  have pr': "0 \<le> pr'" "pr' < 2 ^ 31 - 16" using p tl unfolding pr'_def by auto
  have s: "- (2 ^ 31) + 4 < s" "s < 2 ^ 31" using w pr' len unfolding s_def by simp_all
  have fi: "fits_int s" using s by (simp add: fits_int_def)
  have "number m buf fin num base sz pr type =
    rbind (if t AND ZEROPAD = 0 \<and> t AND LEFT = 0 then pad_loop fin 32 (m, buf) s else Inr ((m, buf), s)) (\<lambda>(o1, s1).
    rbind (put_list fin ?st o1) (\<lambda>o2.
    rbind (put_list fin ?px o2) (\<lambda>o3.
    rbind (if t AND LEFT = 0 then pad_loop fin (if t AND ZEROPAD \<noteq> 0 then 48 else 32) o3 s1 else Inr (o3, s1)) (\<lambda>(o4, s2).
    rbind (put_list fin ?zs o4) (\<lambda>o5.
    rbind (put_list fin ?ds o5) (\<lambda>o6.
    rbind (pad_loop fin 32 o6 s2) (\<lambda>(o7, s3). Inr o7)))))))"
    unfolding number_def Let_def t_def [symmetric] flag_either
    unfolding tk(1-5) nb nf if_False tri prod.case szs num'_def [symmetric]
    unfolding tmp_def [symmetric] pr'_def [symmetric] s_def [symmetric] prefix_stage sgl ds zs
    using fi by simp
  also have "\<dots> = put_list fin (number_text num base sz pr type) (m, buf)"
  proof -
    have n: "nat (sz - int (length (?st @ ?px) + length (?zs @ ?ds))) = nat s"
      unfolding s_def pr'_def dsl by (auto simp: nat_eq_iff)
    have r: "put_list fin (number_text num base sz pr type) (m, buf) =
      put_list fin (if t AND LEFT \<noteq> 0 then (?st @ ?px) @ (?zs @ ?ds) @ replicate (nat s) 32
                   else if t AND ZEROPAD \<noteq> 0 then (?st @ ?px) @ replicate (nat s) 48 @ ?zs @ ?ds
                   else replicate (nat s) 32 @ (?st @ ?px) @ ?zs @ ?ds) (m, buf)"
      unfolding number_text_def Let_def n tk by auto
    show ?thesis
      unfolding r pad_stages [OF s, symmetric] put_list_append_fun [of _ ?st] put_list_append_fun [of _ ?zs]
        rbind_assoc ..
  qed
  finally show ?thesis .
qed

section \<open>Reading back what was printed\<close>

definition xdigit_value :: "u8 \<Rightarrow> int" where
  "xdigit_value c = (if isdigit c then sint c - 48 else sint (toupper c) - 65 + 10)"

definition xdigit_ok :: "nat \<Rightarrow> u8 \<Rightarrow> bool" where
  "xdigit_ok base c = (isxdigit c \<and> 0 \<le> xdigit_value c \<and> xdigit_value c < int base)"

lemma simple_digits_spec:
  assumes "c_str m p xs" and "\<forall>c \<in> set xs. xdigit_ok base c" and "base \<le> 36"
  shows "simple_digits m base p r =
     Inr (foldl (\<lambda>a c. a * of_nat base + of_int (xdigit_value c)) r xs, p + length xs)"
  using assms(1,2)
proof (induction xs arbitrary: p r)
  case Nil
  have "\<not> isxdigit 0" by code_simp
  with Nil show ?case by (subst simple_digits.simps) simp
next
  case (Cons c cs)
  have c: "aget m p = Inr c" "c_str m (p + 1) cs" using Cons.prems(1) by auto
  have ok: "isxdigit c" "0 \<le> xdigit_value c" "xdigit_value c < int base"
    using Cons.prems(2) by (auto simp: xdigit_ok_def)
  have "unat (of_int (xdigit_value c) :: u64) = nat (xdigit_value c)"
    by (rule unat_of_int_u64) (use ok assms(3) in simp_all)
  then have lt: "unat (of_int (xdigit_value c) :: u64) < base" using ok by simp
  have "simple_digits m base p r = simple_digits m base (p + 1) (r * of_nat base + of_int (xdigit_value c))"
    unfolding simple_digits.simps [of m base p r] c(1) sum.case Let_def xdigit_value_def [symmetric]
    using ok(1) lt by simp
  then show ?case using Cons.IH [OF c(2)] Cons.prems(2) by simp
qed

lemma digit_chars:
  "filter (\<lambda>k. \<not> (xdigit_value (small_digits ! k) = int k \<and> isxdigit (small_digits ! k) \<and> small_digits ! k \<noteq> 0 \<and>
                   xdigit_value (large_digits ! k) = int k \<and> isxdigit (large_digits ! k) \<and> large_digits ! k \<noteq> 0)) [0..<16] = []"
  by code_simp

lemma digit_char:
  assumes "k < 16" and "dg = small_digits \<or> dg = large_digits"
  shows "xdigit_value (dg ! k) = int k" "isxdigit (dg ! k)" "dg ! k \<noteq> 0"
  using digit_chars assms unfolding filter_empty_conv by auto

lemma conv_digits_value:
  assumes b: "2 \<le> base" "base \<le> 16" and dg: "dg = small_digits \<or> dg = large_digits"
  shows "foldl (\<lambda>a c. a * of_nat base + of_int (xdigit_value c)) (0 :: u64) (rev (conv_digits dg base n)) = of_nat n \<and>
    (\<forall>c \<in> set (conv_digits dg base n). xdigit_ok base c \<and> c \<noteq> 0)"
proof (induction n rule: less_induct)
  case (less n)
  show ?case
  proof (cases "n = 0")
    case True
    then show ?thesis by (simp add: conv_digits.simps)
  next
    case False
    let ?d = "dg ! (n mod base)"
    have "n mod base < base" using b by simp
    with b have n16: "n mod base < 16" by linarith
    have d: "xdigit_value ?d = int (n mod base)" "xdigit_ok base ?d" "?d \<noteq> 0"
      using digit_char [OF n16 dg] \<open>n mod base < base\<close> by (simp_all add: xdigit_ok_def)
    have e: "conv_digits dg base n = ?d # conv_digits dg base (n div base)"
      using False b by (subst conv_digits.simps) simp
    have "of_nat (n div base) * of_nat base + of_nat (n mod base) = (of_nat (n div base * base + n mod base) :: u64)"
      by (simp only: of_nat_add of_nat_mult)
    then show ?thesis
      using less.IH [of "n div base"] False b d unfolding e by simp
  qed
qed

lemma c_str_from_nth:
  "(\<And>i. i < length xs \<Longrightarrow> m ! (p + i) = xs ! i \<and> xs ! i \<noteq> 0) \<Longrightarrow> p + length xs < length m \<Longrightarrow>
   m ! (p + length xs) = 0 \<Longrightarrow> c_str m p xs"
proof (induction xs arbitrary: p)
  case (Cons x xs)
  have "m ! (p + 1 + i) = xs ! i \<and> xs ! i \<noteq> 0" if "i < length xs" for i
    using Cons.prems(1) [of "Suc i"] that by simp
  moreover have "m ! p = x \<and> x \<noteq> 0" using Cons.prems(1) [of 0] by simp
  ultimately show ?case using Cons.IH [of "p + 1"] Cons.prems(2,3) by simp
qed simp

text \<open>
  C38: what \<^verbatim>\<open>number\<close> prints without flags, width or precision in a base up to 16 (in either case
  of letters), \<^verbatim>\<open>simple_strtoul\<close> reads back: the same 64-bit value, up to the terminator behind
  the last digit.
\<close>

theorem number_simple_strtoul:
  assumes b: "2 \<le> base" "base \<le> 16" and t: "type = 0 \<or> type = LARGE"
    and r: "number m buf fin (sint n) (int base) (- 1) (- 1) type = Inr (m1, e)"
    and z: "e \<le> fin" "fin < length m" "aset m1 e 0 = Inr m2"
  shows "simple_strtoul m2 buf base = Inr (n, e)"
proof -
  let ?dg = "if type AND LARGE \<noteq> 0 then large_digits else small_digits"
  let ?ds = "digit_text (sint n) (int base) type"
  have f: "fits_long (sint n)"
    using sint_ge [of n] sint_lt [of n] by (simp add: fits_long_def)
  have tz: "type AND SIGN = 0" "type AND SPECIAL = 0" "type AND LEFT = 0" "type AND ZEROPAD = 0"
    using t by (auto simp: flag_defs)
  have "number_text (sint n) (int base) (- 1) (- 1) type = ?ds"
    by (simp add: number_text_def Let_def tz sign_text_def prefix_text_def)
  then have "put_list fin ?ds (m, buf) = Inr (m1, e)"
    using number_put_list [of "int base" "sint n" type "- 1" "- 1" m buf fin] b f tz r by simp
  then have m1: "m1 = blit m buf fin ?ds" and e: "e = buf + length ?ds"
    using put_list_blit [of fin m buf ?ds] z(2) by simp_all
  have u: "(of_int (sint n) :: u64) = n" by simp
  have ds: "?ds = (if n = 0 then [48] else rev (conv_digits ?dg base (unat n)))"
    by (simp add: digit_text_def Let_def tz u unat_eq_zero)
  have ok: "\<forall>c \<in> set ?ds. xdigit_ok base c \<and> c \<noteq> 0"
    and val: "foldl (\<lambda>a c. a * of_nat base + of_int (xdigit_value c)) (0 :: u64) ?ds = n"
  proof -
    have 48: "xdigit_value 48 = 0" "isxdigit 48" by code_simp+
    have C: "foldl (\<lambda>a c. a * of_nat base + of_int (xdigit_value c)) (0 :: u64) (rev (conv_digits ?dg base (unat n))) = n"
      "\<forall>c \<in> set (conv_digits ?dg base (unat n)). xdigit_ok base c \<and> c \<noteq> 0"
      using conv_digits_value [OF b, of ?dg "unat n"] by simp_all
    show "\<forall>c \<in> set ?ds. xdigit_ok base c \<and> c \<noteq> 0" unfolding ds using C(2) 48 b by (simp add: xdigit_ok_def)
    show "foldl (\<lambda>a c. a * of_nat base + of_int (xdigit_value c)) (0 :: u64) ?ds = n"
      unfolding ds using C(1) 48 by simp
  qed
  have m2: "m2 = m1[e := 0]" "e < length m1" using z(3) by (simp_all add: aset_eq_Inr)
  have "c_str m2 buf ?ds"
    by (rule c_str_from_nth) (use m2 m1 e z ok in \<open>auto simp: blit_nth\<close>)
  then have "simple_digits m2 base buf 0 = Inr (n, e)"
    using simple_digits_spec [of m2 buf ?ds base 0] ok val b e by simp
  then show ?thesis using b unfolding simple_strtoul_def by simp
qed

lemma number_simple_strtoul_witness:
  "\<exists>m1 e m2. number (replicate 8 7) 1 6 (sint (255::u64)) (int 16) (- 1) (- 1) 0 = Inr (m1, e) \<and> aset m1 e 0 = Inr m2 \<and>
     simple_strtoul m2 1 16 = Inr ((255::u64), e)"
proof -
  have n: "number (replicate 8 7) 1 6 (sint (255::u64)) (int 16) (- 1) (- 1) 0 =
      Inr ([7, 102, 102, 7, 7, 7, 7, 7], 3)" by code_simp
  have a: "aset [7, 102, 102, 7, 7, 7, 7, 7] 3 (0::u8) = Inr [7, 102, 102, 0, 7, 7, 7, 7]" by code_simp
  have "simple_strtoul [7, 102, 102, 0, 7, 7, 7, 7] 1 16 = Inr (255, 3)"
    by (rule number_simple_strtoul [OF _ _ _ n _ _ a]) simp_all
  then show ?thesis using n a by auto
qed

text \<open>
  C39: \<^verbatim>\<open>number\<close> stores the reference text of the number (sign, prefix, precision zeros and
  digits, filled up to the width as the flags say) and stops storing, not counting, at \<^verbatim>\<open>end\<close>.
\<close>

theorem number_renders:
  assumes "2 \<le> base" "base \<le> 36" and "fits_long num" "type AND SIGN = 0 \<or> num \<noteq> - (2 ^ 63)"
    and "- 1 \<le> width" "width < 2 ^ 31" and "- 1 \<le> prec" "prec < 2 ^ 31 - 16"
    and "fin < length m"
  shows "number m buf fin num base width prec type =
     (let xs = number_text num base width prec type in Inr (blit m buf fin xs, buf + length xs))"
  unfolding number_put_list [OF assms(1-8)] Let_def by (rule put_list_blit) (simp add: assms(9))

theorem number_renders_witness:
  "number (replicate 8 7) 1 6 (- 26) 16 6 3 (SIGN OR SPECIAL) =
     Inr ([7, 45, 48, 120, 48, 49, 97, 7], 7)"
proof -
  have "number (replicate 8 7) 1 6 (- 26) 16 6 3 (SIGN OR SPECIAL) =
     (let xs = number_text (- 26) 16 6 3 (SIGN OR SPECIAL) in Inr (blit (replicate 8 7) 1 6 xs, 1 + length xs))"
    by (rule number_renders) (simp_all add: fits_long_def)
  also have "\<dots> = Inr ([7, 45, 48, 120, 48, 49, 97, 7], 7)" by code_simp
  finally show ?thesis .
qed

end
