(* ===== verification/Sched.thy ===== *)
theory Sched
  imports Klist
begin

text \<open>
  The scheduler of \<^verbatim>\<open>sched.c\<close> with the thread flags and preemption counters of
  \<^verbatim>\<open>include/os/sched.h\<close>.  Threads, sleep queue entries and wait queue entries are named by
  numbers; their embedded \<^verbatim>\<open>list_head\<close>s are the nodes of one store of links.

  A function that runs between two calls of \<^verbatim>\<open>schedule()\<close> is one step: the code it executes under
  the spin locks.  A function that calls \<^verbatim>\<open>schedule()\<close> in its middle is split there into the part
  before and the part after the thread is resumed.  The test for a pending reschedule in
  \<^verbatim>\<open>preempt_enable\<close> is the step \<open>preempt_schedule\<close>, which may follow any other.  Floating
  point state, stacks and printing are not modelled.  \<open>me\<close> is \<^verbatim>\<open>smp_processor_id()\<close>, \<open>now\<close>
  is \<^verbatim>\<open>NOW()\<close> and \<open>rt\<close> is \<^verbatim>\<open>get_running_time()\<close>.
\<close>

section \<open>State\<close>

datatype node =
    ReadyQ | SleepQ | DeadQ | ThreadList
  | Joiners nat | ReadyL nat | ThreadL nat
  | SleepL nat | WaitHead nat | WaitL nat

datatype code_point = Thread_starter | Idle_starter | In_schedule

record thread =
  flags :: u32
  ident :: u16
  cpu :: u32
  preempt_count :: int
  regs :: u64
  fpregs :: nat
  stack :: nat
  stack_allocated :: bool
  timeslice :: u64
  resched_running_time :: u64
  start_running_time :: u64
  cum_running_time :: u64
  lock_count :: int
  appsched_id :: int
  ip :: code_point

record sleep_queue =
  sq_flags :: u32
  timeout :: int
  sq_thread :: nat

record sched =
  lists :: "node links"
  threads :: "nat \<Rightarrow> thread"
  sleepers :: "nat \<Rightarrow> sleep_queue"
  completion_done :: "nat \<Rightarrow> int"
  waiter_of :: "nat \<Rightarrow> nat"
  current_thread :: "nat \<Rightarrow> nat"
  idle_thread :: "nat \<Rightarrow> nat"
  cpu_state :: "nat \<Rightarrow> nat"
  irqcount :: "nat \<Rightarrow> int"
  irqs_disabled :: "nat \<Rightarrow> bool"
  smp_init_completed :: bool
  thread_id :: u16
  kicked :: "nat list"
  timer :: "nat \<Rightarrow> u64"
  freed_stacks :: "nat list"
  freed_threads :: "nat list"
  max_nodes :: nat

definition upd_thread :: "sched \<Rightarrow> nat \<Rightarrow> (thread \<Rightarrow> thread) \<Rightarrow> sched" where
  "upd_thread s t f = s\<lparr>threads := (threads s)(t := f (threads s t))\<rparr>"

definition upd_sleeper :: "sched \<Rightarrow> nat \<Rightarrow> (sleep_queue \<Rightarrow> sleep_queue) \<Rightarrow> sched" where
  "upd_sleeper s q f = s\<lparr>sleepers := (sleepers s)(q := f (sleepers s q))\<rparr>"

definition set_lists :: "sched \<Rightarrow> node links res \<Rightarrow> sched res" where
  "set_lists s r = rbind r (\<lambda>h. Inr (s\<lparr>lists := h\<rparr>))"

section \<open>Thread flags\<close>

definition RUNNABLE_FLAG :: u32 where "RUNNABLE_FLAG = 0x00000001"
definition RUNNING_FLAG :: u32 where "RUNNING_FLAG = 0x00000002"
definition RESCHED_FLAG :: u32 where "RESCHED_FLAG = 0x00000004"
definition DYING_FLAG :: u32 where "DYING_FLAG = 0x00000008"
definition SUSPENDED_FLAG :: u32 where "SUSPENDED_FLAG = 0x00000200"
definition SLEEP_FLAG :: u32 where "SLEEP_FLAG = 0x00000400"
definition HIBERNATION_FLAG :: u32 where "HIBERNATION_FLAG = 0x00000800"
definition UKERNEL_FLAG :: u32 where "UKERNEL_FLAG = 0x00001000"
definition PTHREAD_FLAG :: u32 where "PTHREAD_FLAG = 0x00002000"
definition JOINING_FLAG :: u32 where "JOINING_FLAG = 0x00004000"

lemmas thread_flag_defs = RUNNABLE_FLAG_def RUNNING_FLAG_def RESCHED_FLAG_def DYING_FLAG_def
  SUSPENDED_FLAG_def SLEEP_FLAG_def HIBERNATION_FLAG_def UKERNEL_FLAG_def PTHREAD_FLAG_def
  JOINING_FLAG_def

definition has_flag :: "sched \<Rightarrow> nat \<Rightarrow> u32 \<Rightarrow> bool" where
  "has_flag s t f = (flags (threads s t) AND f \<noteq> 0)"

definition set_flag :: "u32 \<Rightarrow> nat \<Rightarrow> sched \<Rightarrow> sched" where
  "set_flag f t s = upd_thread s t (\<lambda>th. th\<lparr>flags := flags th OR f\<rparr>)"

definition clear_flag :: "u32 \<Rightarrow> nat \<Rightarrow> sched \<Rightarrow> sched" where
  "clear_flag f t s = upd_thread s t (\<lambda>th. th\<lparr>flags := flags th AND NOT f\<rparr>)"

abbreviation is_runnable :: "sched \<Rightarrow> nat \<Rightarrow> bool" where "is_runnable s t \<equiv> has_flag s t RUNNABLE_FLAG"
abbreviation is_running :: "sched \<Rightarrow> nat \<Rightarrow> bool" where "is_running s t \<equiv> has_flag s t RUNNING_FLAG"
abbreviation need_resched :: "sched \<Rightarrow> nat \<Rightarrow> bool" where "need_resched s t \<equiv> has_flag s t RESCHED_FLAG"
abbreviation is_dying :: "sched \<Rightarrow> nat \<Rightarrow> bool" where "is_dying s t \<equiv> has_flag s t DYING_FLAG"
abbreviation is_suspended :: "sched \<Rightarrow> nat \<Rightarrow> bool" where "is_suspended s t \<equiv> has_flag s t SUSPENDED_FLAG"
abbreviation is_sleeping :: "sched \<Rightarrow> nat \<Rightarrow> bool" where "is_sleeping s t \<equiv> has_flag s t SLEEP_FLAG"
abbreviation is_hibernating :: "sched \<Rightarrow> nat \<Rightarrow> bool" where "is_hibernating s t \<equiv> has_flag s t HIBERNATION_FLAG"
abbreviation is_pthread :: "sched \<Rightarrow> nat \<Rightarrow> bool" where "is_pthread s t \<equiv> has_flag s t PTHREAD_FLAG"
abbreviation is_joining :: "sched \<Rightarrow> nat \<Rightarrow> bool" where "is_joining s t \<equiv> has_flag s t JOINING_FLAG"

definition ACTIVE_SQ_FLAG :: u32 where "ACTIVE_SQ_FLAG = 1"

section \<open>Preemption and processors\<close>

definition PREEMPT_ACTIVE :: int where "PREEMPT_ACTIVE = 0x10000000"

definition add_preempt_count :: "nat \<Rightarrow> int \<Rightarrow> sched \<Rightarrow> sched res" where
  "add_preempt_count ti v s =
     (let s' = upd_thread s ti (\<lambda>th. th\<lparr>preempt_count := preempt_count th + v\<rparr>)
      in bug_on (preempt_count (threads s' ti) < 0) (Inr s'))"

definition preempt_disable :: "nat \<Rightarrow> sched \<Rightarrow> sched res" where
  "preempt_disable me s = add_preempt_count (current_thread s me) 1 s"

definition preempt_enable_no_resched :: "nat \<Rightarrow> sched \<Rightarrow> sched res" where
  "preempt_enable_no_resched me s = add_preempt_count (current_thread s me) (- 1) s"

definition is_preemptible :: "thread \<Rightarrow> bool" where
  "is_preemptible th = (preempt_count th = 0 \<or> preempt_count th = PREEMPT_ACTIVE)"

definition in_irq :: "sched \<Rightarrow> nat \<Rightarrow> bool" where
  "in_irq s me = (smp_init_completed s \<and> irqcount s me \<ge> 0)"

definition CPU_UP :: nat where "CPU_UP = 1"

text \<open>The conversion of \<^verbatim>\<open>thread->cpu\<close>, an \<^verbatim>\<open>unsigned int\<close>, to \<^verbatim>\<open>int\<close> makes \<open>- 1\<close> of the
  value that means no processor yet.\<close>

definition sched_kick_processor :: "u32 \<Rightarrow> sched \<Rightarrow> sched" where
  "sched_kick_processor c s =
     (if sint c \<ge> 0 \<and> smp_init_completed s then s\<lparr>kicked := kicked s @ [unat c]\<rparr> else s)"

definition kick_unless_here :: "nat \<Rightarrow> nat \<Rightarrow> sched \<Rightarrow> sched" where
  "kick_unless_here me t s =
     (if cpu (threads s t) \<noteq> of_nat me then sched_kick_processor (cpu (threads s t)) s else s)"

section \<open>The list of all threads\<close>

text \<open>A traversal is given by the node it has reached; \<open>max_nodes\<close> bounds the number of nodes
  that exist, so a traversal that is not back by then is in a corrupted list.\<close>

fun find_thread :: "nat \<Rightarrow> sched \<Rightarrow> u16 \<Rightarrow> node \<Rightarrow> nat res" where
  "find_thread 0 s i p = Inl Undef"
| "find_thread (Suc n) s i p =
     (if p = ThreadList then Inr 0
      else case p of
        ThreadL t \<Rightarrow> if ident (threads s t) = i then Inr t else find_thread n s i (next_of (lists s) p)
      | _ \<Rightarrow> Inl Undef)"

definition sched_get_thread :: "u16 \<Rightarrow> sched \<Rightarrow> nat res" where
  "sched_get_thread i s = find_thread (max_nodes s) s i (next_of (lists s) ThreadList)"

definition sched_add_thread_list :: "nat \<Rightarrow> sched \<Rightarrow> sched res" where
  "sched_add_thread_list t s = set_lists s (list_add_tail (lists s) (ThreadL t) ThreadList)"

definition sched_del_thread_list :: "nat \<Rightarrow> sched \<Rightarrow> sched" where
  "sched_del_thread_list t s = s\<lparr>lists := list_del_init (lists s) (ThreadL t)\<rparr>"

definition os_sched_delete :: "nat \<Rightarrow> sched \<Rightarrow> sched" where
  "os_sched_delete t s = sched_del_thread_list t s"

section \<open>Blocking and waking\<close>

definition block :: "nat \<Rightarrow> sched \<Rightarrow> sched res" where
  "block t s =
     (if is_runnable s t then
        let s1 = clear_flag RUNNABLE_FLAG t s in
        Inr (if \<not> (is_hibernating s1 t \<or> is_suspended s1 t \<or> is_joining s1 t)
             then s1\<lparr>lists := list_del_init (lists s1) (ReadyL t)\<rparr> else s1)
      else Inl Bug)"

definition make_ready :: "nat \<Rightarrow> sched \<Rightarrow> sched res" where
  "make_ready t s =
     (let s1 = set_flag RUNNABLE_FLAG t s
      in set_lists s1 (list_add_tail (lists s1) (ReadyL t) ReadyQ))"

definition wake :: "nat \<Rightarrow> nat \<Rightarrow> sched \<Rightarrow> sched res" where
  "wake me t s =
     (let s0 = upd_thread s t (\<lambda>th. th\<lparr>regs := 0\<rparr>) in
      bug_on (is_dying s0 t)
        (if \<not> is_runnable s0 t then
           rbind (if \<not> (is_hibernating s0 t \<or> is_suspended s0 t) then make_ready t s0 else Inr s0) (\<lambda>s1.
           Inr (if \<not> (is_hibernating s1 t \<or> is_suspended s1 t) then kick_unless_here me t s1 else s1))
         else Inr s0))"

definition start_thread :: "nat \<Rightarrow> nat \<Rightarrow> sched \<Rightarrow> sched res" where
  "start_thread me t s =
     rbind (make_ready t (upd_thread s t (\<lambda>th. th\<lparr>regs := 0\<rparr>))) (\<lambda>s1. Inr (kick_unless_here me t s1))"

definition hibernate :: "nat \<Rightarrow> sched \<Rightarrow> sched" where
  "hibernate t s =
     (let s1 = set_flag HIBERNATION_FLAG t (clear_flag RUNNING_FLAG t (clear_flag RUNNABLE_FLAG t s))
      in if \<not> (is_suspended s1 t \<or> is_sleeping s1 t)
         then s1\<lparr>lists := list_del_init (lists s1) (ReadyL t)\<rparr> else s1)"

definition restore :: "nat \<Rightarrow> nat \<Rightarrow> sched \<Rightarrow> sched res" where
  "restore me t s =
     (let s1 = clear_flag HIBERNATION_FLAG t s;
          held = is_suspended s1 t \<or> is_sleeping s1 t
      in rbind (if \<not> held then make_ready t s1 else Inr s1) (\<lambda>s2.
         Inr (if \<not> held then kick_unless_here me t s2 else s2)))"

definition suspend_thread :: "nat \<Rightarrow> sched \<Rightarrow> sched" where
  "suspend_thread t s =
     (let s1 = set_flag SUSPENDED_FLAG t (clear_flag RUNNING_FLAG t (clear_flag RUNNABLE_FLAG t s))
      in if \<not> (is_hibernating s1 t \<or> is_sleeping s1 t \<or> is_joining s1 t)
         then s1\<lparr>lists := list_del_init (lists s1) (ReadyL t)\<rparr> else s1)"

definition wake_suspended_thread :: "nat \<Rightarrow> nat \<Rightarrow> sched \<Rightarrow> sched res" where
  "wake_suspended_thread me t s =
     (let s1 = clear_flag SUSPENDED_FLAG t s;
          held = is_hibernating s1 t \<or> is_sleeping s1 t \<or> is_joining s1 t
      in rbind (if \<not> held then make_ready t s1 else Inr s1) (\<lambda>s2.
         Inr (if \<not> held then kick_unless_here me t s2 else s2)))"

section \<open>Joining and reaping\<close>

text \<open>\<^verbatim>\<open>list_for_each_safe\<close> reads the next node before the body unlinks the current one.\<close>

fun wake_joiners_loop :: "nat \<Rightarrow> nat \<Rightarrow> node \<Rightarrow> sched \<Rightarrow> node \<Rightarrow> sched res" where
  "wake_joiners_loop 0 me head s p = Inl Undef"
| "wake_joiners_loop (Suc n) me head s p =
     (if p = head then Inr s
      else case p of
        ReadyL t \<Rightarrow>
          let nx = next_of (lists s) p;
              s1 = s\<lparr>lists := list_del_init (lists s) p\<rparr>
          in rbind (wake me t s1) (\<lambda>s2. wake_joiners_loop n me head s2 nx)
      | _ \<Rightarrow> Inl Undef)"

definition sched_wake_joiners :: "nat \<Rightarrow> nat \<Rightarrow> sched \<Rightarrow> sched res" where
  "sched_wake_joiners me t s =
     wake_joiners_loop (max_nodes s) me (Joiners t) s (next_of (lists s) (Joiners t))"

definition sched_wake_joiner :: "nat \<Rightarrow> nat \<Rightarrow> sched \<Rightarrow> sched res" where
  "sched_wake_joiner me t s = wake me t (s\<lparr>lists := list_del_init (lists s) (ReadyL t)\<rparr>)"

text \<open>
  \<open>join_thread\<close> up to its call of \<^verbatim>\<open>schedule\<close>; the flag says whether it gets there, otherwise
  it returns \<open>- 1\<close> at once.
\<close>

definition join_thread :: "nat \<Rightarrow> nat \<Rightarrow> sched \<Rightarrow> (bool \<times> sched) res" where
  "join_thread me joinee s =
     (let t = current_thread s me in
      rbind (if \<not> is_dying s t then sched_get_thread (ident (threads s joinee)) s else Inr 0) (\<lambda>found.
        if \<not> is_dying s t \<and> found \<noteq> 0 then
          rbind (block t (upd_thread s t (\<lambda>th. th\<lparr>regs := 0\<rparr>))) (\<lambda>s1.
          rbind (set_lists s1 (list_add_tail (lists s1) (ReadyL t) (Joiners joinee))) (\<lambda>s2.
            Inr (True, set_flag JOINING_FLAG t s2)))
        else Inr (False, s)))"

definition join_thread_resumed :: "nat \<Rightarrow> sched \<Rightarrow> sched" where
  "join_thread_resumed t s = clear_flag JOINING_FLAG t s"

definition reap_thread :: "nat \<Rightarrow> nat \<Rightarrow> sched \<Rightarrow> sched res" where
  "reap_thread me t s =
     (let s1 = s\<lparr>lists := list_del_init (lists s) (ReadyL t)\<rparr> in
      rbind (if \<not> list_empty (lists s1) (Joiners t) then sched_wake_joiners me t s1 else Inr s1) (\<lambda>s2.
      let s3 = (if stack_allocated (threads s2 t)
                then s2\<lparr>freed_stacks := freed_stacks s2 @ [stack (threads s2 t)]\<rparr> else s2);
          s4 = sched_del_thread_list t s3
      in Inr (s4\<lparr>freed_threads := freed_threads s4 @ [t]\<rparr>)))"

fun reap_loop :: "nat \<Rightarrow> nat \<Rightarrow> sched \<Rightarrow> node \<Rightarrow> sched res" where
  "reap_loop 0 me s p = Inl Undef"
| "reap_loop (Suc n) me s p =
     (if p = DeadQ then Inr s
      else case p of
        ReadyL t \<Rightarrow>
          let nx = next_of (lists s) p in
          rbind (if is_dying s t \<and> \<not> is_running s t \<and> cpu (threads s t) = of_nat me
                 then reap_thread me t s else Inr s) (\<lambda>s1. reap_loop n me s1 nx)
      | _ \<Rightarrow> Inl Undef)"

definition sched_reap_dead :: "nat \<Rightarrow> sched \<Rightarrow> sched res" where
  "sched_reap_dead me s = reap_loop (max_nodes s) me s (next_of (lists s) DeadQ)"

text \<open>\<open>exit_thread\<close> up to its call of \<^verbatim>\<open>schedule\<close>, which does not return.\<close>

definition exit_thread :: "nat \<Rightarrow> nat \<Rightarrow> sched \<Rightarrow> sched res" where
  "exit_thread me t s =
     rbind (preempt_disable me s) (\<lambda>s1.
     bug_on (\<not> is_running s1 t)
       (rbind (block t s1) (\<lambda>s2.
        let s3 = set_flag DYING_FLAG t s2 in
        rbind (set_lists s3 (list_add_tail (lists s3) (ReadyL t) DeadQ)) (\<lambda>s4.
        rbind (if \<not> list_empty (lists s4) (Joiners t) then sched_wake_joiners me t s4 else Inr s4) (\<lambda>s5.
          preempt_enable_no_resched me s5)))))"

definition exit_current_thread :: "nat \<Rightarrow> sched \<Rightarrow> sched res" where
  "exit_current_thread me s = exit_thread me (current_thread s me) s"

section \<open>Sleeping\<close>

fun sleep_insert_point :: "nat \<Rightarrow> sched \<Rightarrow> int \<Rightarrow> node \<Rightarrow> node res" where
  "sleep_insert_point 0 s t p = Inl Undef"
| "sleep_insert_point (Suc n) s t p =
     (if p = SleepQ then Inr p
      else case p of
        SleepL q \<Rightarrow> if timeout (sleepers s q) > t then Inr p
                    else sleep_insert_point n s t (next_of (lists s) p)
      | _ \<Rightarrow> Inl Undef)"

definition sleep_queue_add :: "nat \<Rightarrow> sched \<Rightarrow> sched res" where
  "sleep_queue_add q s =
     rbind (sleep_insert_point (max_nodes s) s (timeout (sleepers s q)) (next_of (lists s) SleepQ)) (\<lambda>p.
     rbind (set_lists s (list_add_tail (lists s) (SleepL q) p)) (\<lambda>s1.
       Inr (upd_sleeper s1 q (\<lambda>e. e\<lparr>sq_flags := sq_flags e OR ACTIVE_SQ_FLAG\<rparr>))))"

definition sleep_queue_del :: "nat \<Rightarrow> sched \<Rightarrow> sched" where
  "sleep_queue_del q s =
     upd_sleeper (s\<lparr>lists := list_del_init (lists s) (SleepL q)\<rparr>) q
       (\<lambda>e. e\<lparr>sq_flags := sq_flags e AND NOT ACTIVE_SQ_FLAG\<rparr>)"

definition init_sleep_queue :: "nat \<Rightarrow> sched \<Rightarrow> sched" where
  "init_sleep_queue q s =
     upd_sleeper (s\<lparr>lists := init_list_head (lists s) (SleepL q)\<rparr>) q (\<lambda>e. e\<lparr>sq_flags := 0\<rparr>)"

definition add_timer :: "nat \<Rightarrow> int \<Rightarrow> nat \<Rightarrow> int \<Rightarrow> sched \<Rightarrow> sched res" where
  "add_timer me now q millisecs s =
     sleep_queue_add q
       (upd_sleeper s q (\<lambda>e. e\<lparr>sq_thread := current_thread s me, timeout := now + millisecs * 1000000\<rparr>))"

definition remove_timer :: "nat \<Rightarrow> sched \<Rightarrow> sched" where
  "remove_timer q s = sleep_queue_del q s"

text \<open>\<open>nanosleep\<close> with the entry \<open>q\<close> on its stack, up to \<^verbatim>\<open>schedule\<close> and after it.\<close>

definition nanosleep :: "nat \<Rightarrow> int \<Rightarrow> nat \<Rightarrow> u64 \<Rightarrow> sched \<Rightarrow> sched res" where
  "nanosleep me now q nanosecs s =
     (let t = current_thread s me;
          s0 = upd_sleeper (s\<lparr>lists := init_list_head (lists s) (SleepL q)\<rparr>) q
                 (\<lambda>e. e\<lparr>sq_flags := 0, sq_thread := t\<rparr>)
      in rbind (preempt_disable me s0) (\<lambda>s1.
         rbind (block t s1) (\<lambda>s2.
         let s3 = upd_sleeper s2 q (\<lambda>e. e\<lparr>timeout := sint (of_int now + nanosecs)\<rparr>);
             s4 = set_flag SLEEP_FLAG t s3
         in rbind (sleep_queue_add q s4) (\<lambda>s5. preempt_enable_no_resched me s5))))"

definition nanosleep_resumed :: "nat \<Rightarrow> nat \<Rightarrow> sched \<Rightarrow> sched" where
  "nanosleep_resumed t q s =
     (if is_sleeping s t then sleep_queue_del q (clear_flag SLEEP_FLAG t s) else s)"

definition sleep :: "nat \<Rightarrow> int \<Rightarrow> nat \<Rightarrow> u32 \<Rightarrow> sched \<Rightarrow> sched res" where
  "sleep me now q millisecs s = nanosleep me now q (ucast millisecs * 1000000) s"

text \<open>The walk over the sleep queue stops at the first entry that has not expired.\<close>

fun wake_expired_loop :: "nat \<Rightarrow> nat \<Rightarrow> int \<Rightarrow> sched \<Rightarrow> node \<Rightarrow> sched res" where
  "wake_expired_loop 0 me now s p = Inl Undef"
| "wake_expired_loop (Suc n) me now s p =
     (if p = SleepQ then Inr s
      else case p of
        SleepL q \<Rightarrow>
          if timeout (sleepers s q) \<le> now
          then rbind (wake me (sq_thread (sleepers s q)) s) (\<lambda>s1.
                 wake_expired_loop n me now s1 (next_of (lists s1) p))
          else Inr s
      | _ \<Rightarrow> Inl Undef)"

definition sched_wake_expired :: "nat \<Rightarrow> int \<Rightarrow> sched \<Rightarrow> sched res" where
  "sched_wake_expired me now s = wake_expired_loop (max_nodes s) me now s (next_of (lists s) SleepQ)"

text \<open>\<open>sched_blocking_time\<close> reads the clock twice, here as \<open>then\<close> and \<open>now\<close>.\<close>

definition sched_blocking_time :: "int \<Rightarrow> int \<Rightarrow> sched \<Rightarrow> int res" where
  "sched_blocking_time thn now s =
     rbind (if list_empty (lists s) SleepQ then Inr (now + 1 * 1000000000)
            else case next_of (lists s) SleepQ of
              SleepL q \<Rightarrow> Inr (timeout (sleepers s q)) | _ \<Rightarrow> Inl Undef) (\<lambda>t.
       Inr (if t < thn then - 1 else t))"

text \<open>The variable \<^verbatim>\<open>found_sq\<close> is not initialised; using it unassigned is \<open>Undef\<close>.\<close>

fun find_sleeper :: "nat \<Rightarrow> nat \<Rightarrow> sched \<Rightarrow> nat \<Rightarrow> nat option \<Rightarrow> node \<Rightarrow> nat option res" where
  "find_sleeper 0 i s t found p = Inl Undef"
| "find_sleeper (Suc n) i s t found p =
     (if p = SleepQ then Inr found
      else bug_on (i + 1 > unat (ident (threads s t)))
        (case p of
           SleepL q \<Rightarrow>
             find_sleeper n (i + 1) s t
               (if ident (threads s (sq_thread (sleepers s q))) = ident (threads s t) then Some q else found)
               (next_of (lists s) p)
         | _ \<Rightarrow> Inl Undef))"

definition delete_thread_from_sleep_queue :: "nat \<Rightarrow> sched \<Rightarrow> sched res" where
  "delete_thread_from_sleep_queue t s =
     rbind (find_sleeper (max_nodes s) 0 s t None (next_of (lists s) SleepQ)) (\<lambda>found.
       case found of None \<Rightarrow> Inl Undef | Some q \<Rightarrow> Inr (sleep_queue_del q s))"

section \<open>Choosing and switching threads\<close>

fun pick_loop :: "nat \<Rightarrow> nat \<Rightarrow> sched \<Rightarrow> u32 \<Rightarrow> node \<Rightarrow> nat res" where
  "pick_loop 0 i s c p = Inl Undef"
| "pick_loop (Suc n) i s c p =
     (if p = ReadyQ then Inr 0
      else bug_on (i + 1 > unat (thread_id s))
        (case p of
           ReadyL t \<Rightarrow>
             if \<not> is_running s t \<and> is_runnable s t \<and> (cpu (threads s t) = c \<or> cpu (threads s t) = - 1)
             then Inr t
             else pick_loop n (i + 1) s c (next_of (lists s) p)
         | _ \<Rightarrow> Inl Undef))"

definition requeue :: "nat \<Rightarrow> sched \<Rightarrow> sched res" where
  "requeue t s =
     (let s1 = s\<lparr>lists := list_del_init (lists s) (ReadyL t)\<rparr>
      in set_lists s1 (list_add_tail (lists s1) (ReadyL t) ReadyQ))"

definition pick_thread :: "nat \<Rightarrow> nat \<Rightarrow> u32 \<Rightarrow> sched \<Rightarrow> (nat \<times> sched) res" where
  "pick_thread me prv c s =
     rbind (if is_runnable s prv \<and> prv \<noteq> idle_thread s me then requeue prv s else Inr s) (\<lambda>s1.
     rbind (pick_loop (max_nodes s1) 0 s1 c (next_of (lists s1) ReadyQ)) (\<lambda>nx.
       if nx \<noteq> 0 then bug_on (is_running s1 nx) (Inr (nx, set_flag RUNNING_FLAG nx s1))
       else Inr (idle_thread s1 me, set_flag RUNNING_FLAG (idle_thread s1 me) s1)))"

definition sched_switch_thread_in :: "nat \<Rightarrow> nat \<Rightarrow> sched \<Rightarrow> sched" where
  "sched_switch_thread_in me prv s =
     (let s1 = clear_flag RUNNING_FLAG prv s in s1\<lparr>irqs_disabled := (irqs_disabled s1)(me := False)\<rparr>)"

text \<open>
  \<^verbatim>\<open>switch_threads\<close> and what the new thread executes first: a new thread enters through
  \<^verbatim>\<open>thread_starter\<close>, an idle thread through \<^verbatim>\<open>idle_thread_starter\<close>, and any other continues its
  own call of \<^verbatim>\<open>schedule\<close>.
\<close>

definition switch_threads :: "nat \<Rightarrow> nat \<Rightarrow> nat \<Rightarrow> sched \<Rightarrow> sched res" where
  "switch_threads me prv nx s =
     (let s1 = s\<lparr>irqs_disabled := (irqs_disabled s)(me := True),
                current_thread := (current_thread s)(me := nx)\<rparr>;
          s2 = upd_thread s1 prv (\<lambda>th. th\<lparr>ip := In_schedule\<rparr>)
      in case ip (threads s2 nx) of
           Thread_starter \<Rightarrow> Inr (sched_switch_thread_in me prv s2)
         | Idle_starter \<Rightarrow> Inr s2
         | In_schedule \<Rightarrow> preempt_enable_no_resched me (sched_switch_thread_in me prv s2))"

definition choose_next :: "nat \<Rightarrow> nat \<Rightarrow> sched \<Rightarrow> (nat \<times> sched) res" where
  "choose_next me prv s =
     (let c = cpu (threads s prv) in
      if cpu_state s (unat c) \<noteq> CPU_UP then Inr (idle_thread s (unat c), s)
      else rbind (pick_thread me prv c s) (\<lambda>(nx, s1).
        bug_on (\<not> is_runnable s1 nx \<and> nx \<noteq> idle_thread s1 (unat c)) (Inr (nx, s1))))"

definition schedule :: "nat \<Rightarrow> int \<Rightarrow> u64 \<Rightarrow> sched \<Rightarrow> sched res" where
  "schedule me now rt s =
     (let prv = current_thread s me in
      bug_on (in_irq s me) (bug_on (irqs_disabled s me)
      (bug_on (\<not> is_pthread s prv \<and> lock_count (threads s prv) \<noteq> 0)
      (bug_on (\<not> is_pthread s prv \<and> \<not> is_preemptible (threads s prv))
      (let s1 = upd_thread s prv (\<lambda>th. th\<lparr>cum_running_time :=
                  cum_running_time th + (rt - start_running_time th)\<rparr>) in
       rbind (sched_wake_expired me now s1) (\<lambda>s2.
       rbind (preempt_disable me s2) (\<lambda>s3.
       rbind (choose_next me prv s3) (\<lambda>(nx, s4).
       bug_on (is_dying s4 nx)
       (let s5 = upd_thread s4 nx (\<lambda>th. th\<lparr>cpu := cpu (threads s4 prv)\<rparr>);
            s6 = clear_flag RESCHED_FLAG prv s5;
            s7 = upd_thread s6 nx (\<lambda>th. th\<lparr>resched_running_time := rt + timeslice th,
                                            start_running_time := rt\<rparr>);
            s8 = s7\<lparr>timer := (timer s7)(me := timeslice (threads s7 nx))\<rparr>
        in if prv \<noteq> nx then bug_on (irqs_disabled s8 me) (switch_threads me prv nx s8)
           else preempt_enable_no_resched me s8)))))))))"

text \<open>\<open>preempt_schedule\<close> returns at once (\<open>None\<close>) when preemption or interrupts are off.\<close>

definition preempt_schedule :: "nat \<Rightarrow> int \<Rightarrow> u64 \<Rightarrow> sched \<Rightarrow> sched option res" where
  "preempt_schedule me now rt s =
     (let ti = current_thread s me in
      if preempt_count (threads s ti) \<noteq> 0 \<or> irqs_disabled s me then Inr None
      else bug_on (\<not> need_resched s ti)
        (rbind (add_preempt_count ti PREEMPT_ACTIVE (upd_thread s ti (\<lambda>th. th\<lparr>regs := 0\<rparr>))) (\<lambda>s1.
         rbind (schedule me now rt s1) (\<lambda>s2. Inr (Some s2)))))"

text \<open>After it: the result says whether to go round again.\<close>

definition preempt_schedule_resumed :: "nat \<Rightarrow> sched \<Rightarrow> (bool \<times> sched) res" where
  "preempt_schedule_resumed ti s =
     rbind (add_preempt_count ti (- PREEMPT_ACTIVE) s) (\<lambda>s1.
     bug_on (preempt_count (threads s1 ti) \<noteq> 0)
     (bug_on (regs (threads s1 ti) \<noteq> 0) (Inr (need_resched s1 ti, s1))))"

definition preempt_schedule_irq :: "nat \<Rightarrow> int \<Rightarrow> u64 \<Rightarrow> sched \<Rightarrow> sched res" where
  "preempt_schedule_irq me now rt s =
     (let ti = current_thread s me in
      bug_on (preempt_count (threads s ti) \<noteq> 0 \<or> \<not> irqs_disabled s me)
        (rbind (add_preempt_count ti PREEMPT_ACTIVE s) (\<lambda>s1.
         schedule me now rt (s1\<lparr>irqs_disabled := (irqs_disabled s1)(me := False)\<rparr>))))"

section \<open>Creating threads\<close>

text \<open>
  The addresses that the allocators return are arguments: \<open>t\<close> of \<^verbatim>\<open>xmalloc(struct thread)\<close>,
  \<open>stk\<close> of \<^verbatim>\<open>alloc_pages\<close> for the stack, \<open>fp\<close> of \<^verbatim>\<open>alloc_page\<close> for the floating point
  registers; 0 is failure.  \<open>given\<close> is the stack of the caller, 0 for none.
\<close>

definition arch_create_thread :: "bool \<Rightarrow> nat \<Rightarrow> nat \<Rightarrow> nat \<Rightarrow> sched \<Rightarrow> nat \<times> sched" where
  "arch_create_thread is_idle_fn given t stk s =
     (if t = 0 then (0, s)
      else if given = 0 \<and> stk = 0 then (0, s\<lparr>freed_threads := freed_threads s @ [t]\<rparr>)
      else (t, upd_thread s t (\<lambda>th. th\<lparr>stack := (if given \<noteq> 0 then given else stk),
                 stack_allocated := (given = 0),
                 ip := (if is_idle_fn then Idle_starter else Thread_starter)\<rparr>)))"

definition init_nodes :: "nat \<Rightarrow> node links \<Rightarrow> node links" where
  "init_nodes t h = init_list_head (init_list_head (init_list_head h (Joiners t)) (ReadyL t)) (ThreadL t)"

definition create_thread_with_id_stack ::
    "nat \<Rightarrow> u32 \<Rightarrow> nat \<Rightarrow> u16 \<Rightarrow> u64 \<Rightarrow> nat \<Rightarrow> nat \<Rightarrow> nat \<Rightarrow> sched \<Rightarrow> (nat \<times> sched) res" where
  "create_thread_with_id_stack me fl given i quantum t stk fp s =
     (case arch_create_thread False given t stk s of (t', s0) \<Rightarrow>
        if t' = 0 then Inr (0, s0)
        else
          let s1 = upd_thread s0 t' (\<lambda>th. th\<lparr>flags := fl, regs := 0, fpregs := fp\<rparr>) in
          if fp = 0 then Inr (0, s1)
          else
            let s2 = (if given = 0 then upd_thread s1 t' (\<lambda>th. th\<lparr>cpu := - 1\<rparr>) else s1);
                s3 = upd_thread s2 t' (\<lambda>th. th\<lparr>preempt_count := 0, resched_running_time := 0,
                       cum_running_time := 0, timeslice := quantum, lock_count := 0, appsched_id := - 1\<rparr>);
                s4 = clear_flag RUNNING_FLAG t' s3;
                s5 = s4\<lparr>lists := init_nodes t' (lists s4)\<rparr>;
                s6 = upd_thread s5 t' (\<lambda>th. th\<lparr>ident := i\<rparr>)
            in rbind (sched_add_thread_list t' s6) (\<lambda>s7.
               bug_on (i = 0)
                 (if flags (threads s7 t') = UKERNEL_FLAG
                  then rbind (start_thread me t' s7) (\<lambda>s8. Inr (t', s8))
                  else Inr (t', s7))))"

definition default_timeslice :: u64 where "default_timeslice = 20 * 1000000"

definition create_thread_with_stack ::
    "nat \<Rightarrow> u32 \<Rightarrow> nat \<Rightarrow> nat \<Rightarrow> nat \<Rightarrow> nat \<Rightarrow> sched \<Rightarrow> (nat \<times> sched) res" where
  "create_thread_with_stack me fl given t stk fp s =
     create_thread_with_id_stack me fl given (thread_id s) default_timeslice t stk fp
       (s\<lparr>thread_id := thread_id s + 1\<rparr>)"

definition create_thread :: "nat \<Rightarrow> u32 \<Rightarrow> nat \<Rightarrow> nat \<Rightarrow> nat \<Rightarrow> sched \<Rightarrow> (nat \<times> sched) res" where
  "create_thread me fl t stk fp s = create_thread_with_stack me fl 0 t stk fp s"

text \<open>The results of the allocators are used unchecked.\<close>

definition create_idle_thread :: "nat \<Rightarrow> nat \<Rightarrow> nat \<Rightarrow> nat \<Rightarrow> sched \<Rightarrow> (nat \<times> sched) res" where
  "create_idle_thread c t stk fp s =
     (case arch_create_thread True 0 t stk s of (t', s0) \<Rightarrow>
        if t' = 0 \<or> fp = 0 then Inl Undef
        else
          let s1 = upd_thread s0 t' (\<lambda>th. th\<lparr>flags := UKERNEL_FLAG, regs := 0, fpregs := fp,
                     cpu := of_nat c, preempt_count := 1, resched_running_time := 0,
                     lock_count := 0, appsched_id := - 1\<rparr>);
              s2 = s1\<lparr>lists := init_list_head (lists s1) (Joiners t')\<rparr>;
              s3 = upd_thread s2 t' (\<lambda>th. th\<lparr>ident := of_nat c\<rparr>)
          in Inr (t', set_flag RUNNING_FLAG t' s3))"

section \<open>The idle loop\<close>

fun runnable_loop :: "nat \<Rightarrow> sched \<Rightarrow> node \<Rightarrow> bool res" where
  "runnable_loop 0 s p = Inl Undef"
| "runnable_loop (Suc n) s p =
     (if p = ReadyQ then Inr False
      else case p of
        ReadyL t \<Rightarrow> if \<not> is_running s t then Inr True else runnable_loop n s (next_of (lists s) p)
      | _ \<Rightarrow> Inl Undef)"

definition runnable_threads :: "sched \<Rightarrow> bool res" where
  "runnable_threads s = runnable_loop (max_nodes s) s (next_of (lists s) ReadyQ)"

definition current_not_idle :: "nat \<Rightarrow> sched \<Rightarrow> nat" where
  "current_not_idle me s = (if current_thread s me \<noteq> idle_thread s me then current_thread s me else 0)"

text \<open>
  The body of the loop of \<open>idle_thread_fn\<close> after \<^verbatim>\<open>schedule\<close> on a processor that is up: reap,
  then either stop the processor until the given time, or enable interrupts and go round.
\<close>

definition idle_round :: "nat \<Rightarrow> int \<Rightarrow> int \<Rightarrow> sched \<Rightarrow> (int option \<times> sched) res" where
  "idle_round me thn now s =
     rbind (sched_reap_dead me s) (\<lambda>s1.
     let s2 = s1\<lparr>irqs_disabled := (irqs_disabled s1)(me := True)\<rparr> in
     rbind (sched_blocking_time thn now s2) (\<lambda>until.
     rbind (runnable_threads s2) (\<lambda>some.
       if until > 0 \<and> \<not> some then Inr (Some until, s2)
       else Inr (None, s2\<lparr>irqs_disabled := (irqs_disabled s2)(me := False)\<rparr>))))"

section \<open>Wait queues and completions\<close>

definition init_waitqueue_head :: "nat \<Rightarrow> sched \<Rightarrow> sched" where
  "init_waitqueue_head c s = s\<lparr>lists := init_list_head (lists s) (WaitHead c)\<rparr>"

definition add_wait_queue :: "nat \<Rightarrow> nat \<Rightarrow> sched \<Rightarrow> sched res" where
  "add_wait_queue c w s =
     (if list_empty (lists s) (WaitL w) then set_lists s (list_add_tail (lists s) (WaitL w) (WaitHead c))
      else Inr s)"

definition remove_wait_queue :: "nat \<Rightarrow> sched \<Rightarrow> sched" where
  "remove_wait_queue w s = s\<lparr>lists := list_del (lists s) (WaitL w)\<rparr>"

fun wake_up_loop :: "nat \<Rightarrow> nat \<Rightarrow> node \<Rightarrow> sched \<Rightarrow> node \<Rightarrow> sched res" where
  "wake_up_loop 0 me head s p = Inl Undef"
| "wake_up_loop (Suc n) me head s p =
     (if p = head then Inr s
      else case p of
        WaitL w \<Rightarrow>
          let nx = next_of (lists s) p
          in rbind (wake me (waiter_of s w) s) (\<lambda>s1. wake_up_loop n me head s1 nx)
      | _ \<Rightarrow> Inl Undef)"

definition wake_up :: "nat \<Rightarrow> nat \<Rightarrow> sched \<Rightarrow> sched res" where
  "wake_up me c s = wake_up_loop (max_nodes s) me (WaitHead c) s (next_of (lists s) (WaitHead c))"

text \<open>
  \<open>wait_for_completion\<close> on the completion \<open>c\<close> with the entry \<open>w\<close> on the stack: \<open>False\<close> means
  blocked and about to call \<^verbatim>\<open>schedule\<close>, \<open>True\<close> returned.
\<close>

definition completion_take :: "nat \<Rightarrow> sched \<Rightarrow> sched" where
  "completion_take c s = s\<lparr>completion_done := (completion_done s)(c := completion_done s c - 1)\<rparr>"

definition wait_for_completion :: "nat \<Rightarrow> nat \<Rightarrow> nat \<Rightarrow> sched \<Rightarrow> (bool \<times> sched) res" where
  "wait_for_completion me c w s =
     (if completion_done s c = 0 then
        let s1 = s\<lparr>lists := init_list_head (lists s) (WaitL w),
                   waiter_of := (waiter_of s)(w := current_thread s me)\<rparr> in
        rbind (add_wait_queue c w s1) (\<lambda>s2.
        rbind (block (current_thread s2 me) s2) (\<lambda>s3. Inr (False, s3)))
      else Inr (True, completion_take c s))"

definition wait_for_completion_resumed :: "nat \<Rightarrow> nat \<Rightarrow> nat \<Rightarrow> sched \<Rightarrow> (bool \<times> sched) res" where
  "wait_for_completion_resumed me c w s =
     (if completion_done s c = 0 then
        rbind (block (current_thread s me) s) (\<lambda>s1. Inr (False, s1))
      else Inr (True, completion_take c (remove_wait_queue w s)))"

definition complete :: "nat \<Rightarrow> nat \<Rightarrow> sched \<Rightarrow> sched res" where
  "complete me c s = wake_up me c (s\<lparr>completion_done := (completion_done s)(c := 1)\<rparr>)"

definition complete_all :: "nat \<Rightarrow> nat \<Rightarrow> sched \<Rightarrow> sched res" where
  "complete_all me c s = wake_up me c (s\<lparr>completion_done := (completion_done s)(c := 4294967295 div 2)\<rparr>)"

end
