(* ===== verification/Sched_Inv.thy ===== *)
theory Sched_Inv
  imports Sched
begin

text \<open>
  The invariant of the scheduler and what its operations do to an abstract scheduler, the
  \<open>view\<close>: plain lists for the ready queue, the sleep queue, the dead queue, the list of all
  threads and the joiners of each thread.  Every operation, under the conditions its callers keep,
  returns (no \<^verbatim>\<open>BUG\<close>, no corrupted list) and acts on the view as a list operation.
\<close>

section \<open>State updates\<close>

named_theorems sched_simps \<open>projections of updated scheduler states\<close>

lemma upd_thread_simps [simp, sched_simps]:
  "lists (upd_thread s t f) = lists s" "sleepers (upd_thread s t f) = sleepers s"
  "threads (upd_thread s t f) = (threads s)(t := f (threads s t))"
  "completion_done (upd_thread s t f) = completion_done s" "waiter_of (upd_thread s t f) = waiter_of s"
  "current_thread (upd_thread s t f) = current_thread s" "idle_thread (upd_thread s t f) = idle_thread s"
  "cpu_state (upd_thread s t f) = cpu_state s" "irqcount (upd_thread s t f) = irqcount s"
  "irqs_disabled (upd_thread s t f) = irqs_disabled s"
  "smp_init_completed (upd_thread s t f) = smp_init_completed s"
  "thread_id (upd_thread s t f) = thread_id s" "kicked (upd_thread s t f) = kicked s"
  "max_nodes (upd_thread s t f) = max_nodes s" "timer (upd_thread s t f) = timer s"
  by (simp_all add: upd_thread_def)

lemma upd_sleeper_simps [simp, sched_simps]:
  "lists (upd_sleeper s t f) = lists s" "threads (upd_sleeper s t f) = threads s"
  "sleepers (upd_sleeper s t f) = (sleepers s)(t := f (sleepers s t))"
  "current_thread (upd_sleeper s t f) = current_thread s" "idle_thread (upd_sleeper s t f) = idle_thread s"
  "cpu_state (upd_sleeper s t f) = cpu_state s" "irqcount (upd_sleeper s t f) = irqcount s"
  "irqs_disabled (upd_sleeper s t f) = irqs_disabled s"
  "smp_init_completed (upd_sleeper s t f) = smp_init_completed s"
  "thread_id (upd_sleeper s t f) = thread_id s" "max_nodes (upd_sleeper s t f) = max_nodes s"
  by (simp_all add: upd_sleeper_def)

lemma set_flag_simps [simp, sched_simps]:
  "lists (set_flag g t s) = lists s" "sleepers (set_flag g t s) = sleepers s"
  "current_thread (set_flag g t s) = current_thread s" "idle_thread (set_flag g t s) = idle_thread s"
  "cpu_state (set_flag g t s) = cpu_state s" "irqs_disabled (set_flag g t s) = irqs_disabled s"
  "irqcount (set_flag g t s) = irqcount s" "smp_init_completed (set_flag g t s) = smp_init_completed s"
  "thread_id (set_flag g t s) = thread_id s" "max_nodes (set_flag g t s) = max_nodes s"
  "cpu (threads (set_flag g t s) u) = cpu (threads s u)"
  "ip (threads (set_flag g t s) u) = ip (threads s u)"
  "preempt_count (threads (set_flag g t s) u) = preempt_count (threads s u)"
  by (simp_all add: set_flag_def)

lemma clear_flag_simps [simp, sched_simps]:
  "lists (clear_flag g t s) = lists s" "sleepers (clear_flag g t s) = sleepers s"
  "current_thread (clear_flag g t s) = current_thread s" "idle_thread (clear_flag g t s) = idle_thread s"
  "cpu_state (clear_flag g t s) = cpu_state s" "irqs_disabled (clear_flag g t s) = irqs_disabled s"
  "irqcount (clear_flag g t s) = irqcount s" "smp_init_completed (clear_flag g t s) = smp_init_completed s"
  "thread_id (clear_flag g t s) = thread_id s" "max_nodes (clear_flag g t s) = max_nodes s"
  "cpu (threads (clear_flag g t s) u) = cpu (threads s u)"
  "ip (threads (clear_flag g t s) u) = ip (threads s u)"
  "preempt_count (threads (clear_flag g t s) u) = preempt_count (threads s u)"
  by (simp_all add: clear_flag_def)

lemma has_flag_set: "has_flag (set_flag f t s) u g = (has_flag s u g \<or> u = t \<and> f AND g \<noteq> 0)"
proof (cases "u = t")
  case True
  have "(x OR f) AND g = 0 \<longleftrightarrow> x AND g = 0 \<and> f AND g = 0" for x :: u32
    by (simp only: bit.conj_disj_distrib2 or_eq_0_iff)
  with True show ?thesis by (simp add: has_flag_def set_flag_def)
qed (simp add: has_flag_def set_flag_def)

lemma has_flag_clear: "has_flag (clear_flag f t s) u g = has_flag s u (if u = t then NOT f AND g else g)"
  by (simp add: has_flag_def clear_flag_def and.assoc)

lemma and_not_disjoint: "f AND g = 0 \<Longrightarrow> NOT f AND g = (g :: u32)"
  by (auto simp: bit_eq_iff bit_and_iff bit_not_iff)

lemma has_flag_0 [simp]: "\<not> has_flag s t 0"
  by (simp add: has_flag_def)

text \<open>One flag after setting or clearing another: the flags become numerals.\<close>

lemmas flag_simps = has_flag_set has_flag_clear thread_flag_defs

lemma has_flag_upd_thread [simp]:
  "flags (f (threads s t)) = flags (threads s t) \<Longrightarrow> has_flag (upd_thread s t f) u g = has_flag s u g"
  by (simp add: has_flag_def)

lemma has_flag_upd_other [simp]:
  "has_flag (s\<lparr>lists := h\<rparr>) u g = has_flag s u g" "has_flag (s\<lparr>kicked := k\<rparr>) u g = has_flag s u g"
  "has_flag (s\<lparr>irqs_disabled := b\<rparr>) u g = has_flag s u g"
  "has_flag (s\<lparr>current_thread := b'\<rparr>) u g = has_flag s u g"
  "has_flag (s\<lparr>timer := b''\<rparr>) u g = has_flag s u g"
  "has_flag (s\<lparr>completion_done := d\<rparr>) u g = has_flag s u g"
  "has_flag (s\<lparr>waiter_of := wo\<rparr>) u g = has_flag s u g"
  "has_flag (s\<lparr>freed_stacks := fs\<rparr>) u g = has_flag s u g"
  "has_flag (s\<lparr>freed_threads := ft\<rparr>) u g = has_flag s u g"
  "has_flag (s\<lparr>thread_id := i\<rparr>) u g = has_flag s u g"
  "has_flag (upd_sleeper s q f) u g = has_flag s u g"
  by (simp_all add: has_flag_def upd_sleeper_def)

lemma kick_unless_here_eq: "\<exists>k. kick_unless_here me t s = s\<lparr>kicked := k\<rparr>"
proof -
  have e: "\<exists>k. s = s\<lparr>kicked := k\<rparr>" by (rule exI [of _ "kicked s"]) simp
  show ?thesis unfolding kick_unless_here_def sched_kick_processor_def using e by auto
qed

section \<open>The abstract scheduler\<close>

record view =
  v_ready :: "nat list"
  v_sleep :: "nat list"
  v_dead :: "nat list"
  v_all :: "nat list"
  v_join :: "nat \<Rightarrow> nat list option"
  v_wait :: "nat \<Rightarrow> nat list option"

fun vq :: "view \<Rightarrow> node \<Rightarrow> node list option" where
  "vq v ReadyQ = Some (map ReadyL (v_ready v))"
| "vq v SleepQ = Some (map SleepL (v_sleep v))"
| "vq v DeadQ = Some (map ReadyL (v_dead v))"
| "vq v ThreadList = Some (map ThreadL (v_all v))"
| "vq v (Joiners t) = map_option (map ReadyL) (v_join v t)"
| "vq v (WaitHead c) = map_option (map WaitL) (v_wait v c)"
| "vq v (ReadyL t) = None"
| "vq v (ThreadL t) = None"
| "vq v (SleepL q) = None"
| "vq v (WaitL w) = None"

lemma vq_upd:
  "(vq v)(ReadyQ \<mapsto> map ReadyL xs) = vq (v\<lparr>v_ready := xs\<rparr>)"
  "(vq v)(SleepQ \<mapsto> map SleepL xs) = vq (v\<lparr>v_sleep := xs\<rparr>)"
  "(vq v)(DeadQ \<mapsto> map ReadyL xs) = vq (v\<lparr>v_dead := xs\<rparr>)"
  "(vq v)(ThreadList \<mapsto> map ThreadL xs) = vq (v\<lparr>v_all := xs\<rparr>)"
  "(vq v)(Joiners j \<mapsto> map ReadyL xs) = vq (v\<lparr>v_join := (v_join v)(j \<mapsto> xs)\<rparr>)"
  "(vq v)(WaitHead c \<mapsto> map WaitL xs) = vq (v\<lparr>v_wait := (v_wait v)(c \<mapsto> xs)\<rparr>)"
  by (rule ext, case_tac x; auto)+

definition waits_join :: "view \<Rightarrow> nat \<Rightarrow> bool" where
  "waits_join v t = (\<exists>j xs. v_join v j = Some xs \<and> t \<in> set xs)"

lemma free_ready:
  "free_node (vq v) (ReadyL t) \<longleftrightarrow> t \<notin> set (v_ready v) \<and> t \<notin> set (v_dead v) \<and> \<not> waits_join v t"
proof
  assume f: "free_node (vq v) (ReadyL t)"
  have "vq v ReadyQ = Some (map ReadyL (v_ready v))" "vq v DeadQ = Some (map ReadyL (v_dead v))" by simp_all
  then have "ReadyL t \<notin> set (map ReadyL (v_ready v))" "ReadyL t \<notin> set (map ReadyL (v_dead v))"
    using f unfolding free_node_def by fastforce+
  moreover have "t \<notin> set xs" if "v_join v j = Some xs" for j xs
  proof -
    have "vq v (Joiners j) = Some (map ReadyL xs)" using that by simp
    then have "ReadyL t \<notin> set (map ReadyL xs)" using f unfolding free_node_def by fastforce
    then show ?thesis by auto
  qed
  ultimately show "t \<notin> set (v_ready v) \<and> t \<notin> set (v_dead v) \<and> \<not> waits_join v t"
    unfolding waits_join_def by auto
next
  assume a: "t \<notin> set (v_ready v) \<and> t \<notin> set (v_dead v) \<and> \<not> waits_join v t"
  show "free_node (vq v) (ReadyL t)"
    unfolding free_node_def
  proof (intro allI impI)
    fix head xs assume "vq v head = Some xs"
    then show "ReadyL t \<notin> set (head # xs)"
      using a by (cases head) (auto simp: waits_join_def)
  qed
qed

lemma free_thread: "free_node (vq v) (ThreadL t) \<longleftrightarrow> t \<notin> set (v_all v)"
proof
  assume f: "free_node (vq v) (ThreadL t)"
  have "vq v ThreadList = Some (map ThreadL (v_all v))" by simp
  then have "ThreadL t \<notin> set (map ThreadL (v_all v))" using f unfolding free_node_def by fastforce
  then show "t \<notin> set (v_all v)" by auto
next
  assume a: "t \<notin> set (v_all v)"
  show "free_node (vq v) (ThreadL t)"
    unfolding free_node_def
  proof (intro allI impI)
    fix head xs assume "vq v head = Some xs"
    then show "ThreadL t \<notin> set (head # xs)" using a by (cases head) auto
  qed
qed

lemma free_sleep: "free_node (vq v) (SleepL q) \<longleftrightarrow> q \<notin> set (v_sleep v)"
proof
  assume f: "free_node (vq v) (SleepL q)"
  have "vq v SleepQ = Some (map SleepL (v_sleep v))" by simp
  then have "SleepL q \<notin> set (map SleepL (v_sleep v))" using f unfolding free_node_def by fastforce
  then show "q \<notin> set (v_sleep v)" by auto
next
  assume a: "q \<notin> set (v_sleep v)"
  show "free_node (vq v) (SleepL q)"
    unfolding free_node_def
  proof (intro allI impI)
    fix head xs assume "vq v head = Some xs"
    then show "SleepL q \<notin> set (head # xs)" using a by (cases head) auto
  qed
qed

section \<open>The invariant\<close>

definition lists_ok :: "sched \<Rightarrow> view \<Rightarrow> bool" where
  "lists_ok s v =
     (store (lists s) (vq v) \<and> length (v_all v) < max_nodes s \<and> length (v_sleep v) < max_nodes s \<and>
      length (v_all v) \<le> unat (thread_id s) \<and>
      set (v_ready v) \<subseteq> set (v_all v) \<and> set (v_dead v) \<subseteq> set (v_all v) \<and>
      (\<forall>t. waits_join v t \<longrightarrow> t \<in> set (v_all v)) \<and> set (v_all v) \<subseteq> dom (v_join v) \<and> 0 \<notin> dom (v_join v))"

definition flags_ok :: "sched \<Rightarrow> view \<Rightarrow> bool" where
  "flags_ok s v =
     (\<forall>t \<in> dom (v_join v).
        (is_runnable s t \<longleftrightarrow> t \<in> set (v_ready v)) \<and> (is_dying s t \<longleftrightarrow> t \<in> set (v_dead v)) \<and>
        (is_runnable s t \<longrightarrow> \<not> is_hibernating s t \<and> \<not> is_suspended s t) \<and>
        (waits_join v t \<longrightarrow> is_joining s t))"

definition sleep_ok :: "sched \<Rightarrow> view \<Rightarrow> bool" where
  "sleep_ok s v =
     (sorted (map (\<lambda>q. timeout (sleepers s q)) (v_sleep v)) \<and>
      (\<forall>q \<in> set (v_sleep v). sq_thread (sleepers s q) \<in> set (v_all v) \<and>
         sq_thread (sleepers s q) \<notin> set (v_dead v) \<and> \<not> waits_join v (sq_thread (sleepers s q))))"

definition cpus_ok :: "sched \<Rightarrow> view \<Rightarrow> bool" where
  "cpus_ok s v =
     ((\<forall>c. cpu_state s c = CPU_UP \<longrightarrow> c < 64 \<and> current_thread s c \<in> dom (v_join v) \<and>
         cpu (threads s (current_thread s c)) = of_nat c \<and>
         idle_thread s c \<in> dom (v_join v) - set (v_all v) \<and> cpu (threads s (idle_thread s c)) = of_nat c) \<and>
      (\<forall>t \<in> dom (v_join v). 0 \<le> preempt_count (threads s t) \<and>
         (ip (threads s t) = In_schedule \<and> (\<forall>c. cpu_state s c = CPU_UP \<longrightarrow> current_thread s c \<noteq> t) \<longrightarrow>
            1 \<le> preempt_count (threads s t))))"

definition sched_inv :: "sched \<Rightarrow> view \<Rightarrow> bool" where
  "sched_inv s v = (lists_ok s v \<and> flags_ok s v \<and> sleep_ok s v \<and> cpus_ok s v)"

definition same_cpus :: "sched \<Rightarrow> sched \<Rightarrow> bool" where
  "same_cpus s s' =
     (cpu_state s' = cpu_state s \<and> current_thread s' = current_thread s \<and> idle_thread s' = idle_thread s \<and>
      (\<forall>t. cpu (threads s' t) = cpu (threads s t) \<and> ip (threads s' t) = ip (threads s t) \<and>
           preempt_count (threads s' t) = preempt_count (threads s t)))"

lemma same_cpus_refl [simp]: "same_cpus s s"
  by (simp add: same_cpus_def)

lemma same_cpus_trans: "same_cpus a b \<Longrightarrow> same_cpus b c \<Longrightarrow> same_cpus a c"
  by (simp add: same_cpus_def)

lemma same_cpus_upd [simp]:
  "same_cpus s (set_flag f t s') = same_cpus s s'" "same_cpus s (clear_flag f t s') = same_cpus s s'"
  "same_cpus s (s'\<lparr>lists := h\<rparr>) = same_cpus s s'" "same_cpus s (s'\<lparr>kicked := k\<rparr>) = same_cpus s s'"
  "same_cpus s (upd_sleeper s' q g) = same_cpus s s'"
  by (simp_all add: same_cpus_def)

lemma same_cpus_regs [simp]:
  "same_cpus s (upd_thread s' t (\<lambda>th. th\<lparr>regs := r\<rparr>)) = same_cpus s s'"
proof -
  have "cpu (threads (upd_thread s' t (\<lambda>th. th\<lparr>regs := r\<rparr>)) u) = cpu (threads s' u)"
    "ip (threads (upd_thread s' t (\<lambda>th. th\<lparr>regs := r\<rparr>)) u) = ip (threads s' u)"
    "preempt_count (threads (upd_thread s' t (\<lambda>th. th\<lparr>regs := r\<rparr>)) u) = preempt_count (threads s' u)" for u
    by simp_all
  then show ?thesis unfolding same_cpus_def by (simp del: upd_thread_simps(3))
qed

lemma cpus_ok_cong:
  "cpus_ok s v \<Longrightarrow> same_cpus s s' \<Longrightarrow> dom (v_join v') = dom (v_join v) \<Longrightarrow> v_all v' = v_all v \<Longrightarrow>
   cpus_ok s' v'"
  unfolding cpus_ok_def same_cpus_def by simp

lemma sleep_ok_cong:
  "sleep_ok s v \<Longrightarrow> sleepers s' = sleepers s \<Longrightarrow> v_sleep v' = v_sleep v \<Longrightarrow> v_all v' = v_all v \<Longrightarrow>
   v_dead v' = v_dead v \<Longrightarrow> (\<And>t. waits_join v' t \<Longrightarrow> waits_join v t) \<Longrightarrow> sleep_ok s' v'"
  unfolding sleep_ok_def by auto

lemma waits_join_upd [simp]:
  "waits_join (v\<lparr>v_ready := xs\<rparr>) t = waits_join v t" "waits_join (v\<lparr>v_sleep := xs\<rparr>) t = waits_join v t"
  "waits_join (v\<lparr>v_dead := xs\<rparr>) t = waits_join v t" "waits_join (v\<lparr>v_all := xs\<rparr>) t = waits_join v t"
  by (simp_all add: waits_join_def)

text \<open>A thread is in at most one of the queues that use its \<^verbatim>\<open>ready_list\<close> node.\<close>

lemma queues_disjoint:
  assumes "store h (vq v)"
  shows "distinct (v_ready v)" "distinct (v_dead v)" "distinct (v_all v)" "distinct (v_sleep v)"
    and "set (v_ready v) \<inter> set (v_dead v) = {}"
    and "t \<in> set (v_ready v) \<Longrightarrow> \<not> waits_join v t" "t \<in> set (v_dead v) \<Longrightarrow> \<not> waits_join v t"
    and "v_join v j = Some xs \<Longrightarrow> distinct xs"
    and "v_join v j = Some xs \<Longrightarrow> v_join v k = Some ys \<Longrightarrow> j \<noteq> k \<Longrightarrow> set xs \<inter> set ys = {}"
proof -
  have r: "rings h (vq v)" using assms by (simp add: store_def)
  have d: "distinct xs" if "vq v head = Some xs" for head xs
    using ring_distinct [OF rings_ring [OF r that]] by simp
  show "distinct (v_ready v)" using d [of ReadyQ] by (simp add: distinct_map)
  show "distinct (v_dead v)" using d [of DeadQ] by (simp add: distinct_map)
  show "distinct (v_all v)" using d [of ThreadList] by (simp add: distinct_map)
  show "distinct (v_sleep v)" using d [of SleepQ] by (simp add: distinct_map)
  show "v_join v j = Some xs \<Longrightarrow> distinct xs" using d [of "Joiners j"] by (simp add: distinct_map)
  have x: "a = b" if "vq v a = Some xs" "vq v b = Some ys" "ReadyL t \<in> set xs" "ReadyL t \<in> set ys" for a b xs ys t
    using rings_disjoint [OF r that(1,2), of "ReadyL t"] that(3,4) by simp
  show "set (v_ready v) \<inter> set (v_dead v) = {}"
    using x [of ReadyQ "map ReadyL (v_ready v)" DeadQ "map ReadyL (v_dead v)"] by auto
  have y: "\<not> (v_join v j = Some xs \<and> t \<in> set xs)" if "t \<in> set (v_ready v)" for t j xs
    using x [of ReadyQ "map ReadyL (v_ready v)" "Joiners j" "map ReadyL xs" t] that by auto
  show "t \<in> set (v_ready v) \<Longrightarrow> \<not> waits_join v t" using y by (auto simp: waits_join_def)
  have z: "\<not> (v_join v j = Some xs \<and> t \<in> set xs)" if "t \<in> set (v_dead v)" for t j xs
    using x [of DeadQ "map ReadyL (v_dead v)" "Joiners j" "map ReadyL xs" t] that by auto
  show "t \<in> set (v_dead v) \<Longrightarrow> \<not> waits_join v t" using z by (auto simp: waits_join_def)
  show "set xs \<inter> set ys = {}" if "v_join v j = Some xs" "v_join v k = Some ys" "j \<noteq> k"
    using x [of "Joiners j" "map ReadyL xs" "Joiners k" "map ReadyL ys"] that by auto
qed

lemma store_ready_add:
  assumes "store h (vq v)" and "t \<notin> set (v_ready v)" "t \<notin> set (v_dead v)" "\<not> waits_join v t"
  obtains h' where "list_add_tail h (ReadyL t) ReadyQ = Inr h'"
    and "store h' (vq (v\<lparr>v_ready := v_ready v @ [t]\<rparr>))"
  using store_add_tail [OF assms(1), of ReadyQ "map ReadyL (v_ready v)" "ReadyL t"] assms(2-4)
  by (auto simp: free_ready vq_upd(1) [symmetric])

lemma map_remove1_inj: "inj f \<Longrightarrow> remove1 (f x) (map f xs) = map f (remove1 x xs)"
  by (induction xs) (auto simp: inj_eq)

lemma inj_nodes [simp]: "inj ReadyL" "inj ThreadL" "inj SleepL" "inj WaitL"
  by (simp_all add: inj_def)

lemma store_ready_del:
  assumes "store h (vq v)" and "t \<in> set (v_ready v)"
  shows "store (list_del_init h (ReadyL t)) (vq (v\<lparr>v_ready := remove1 t (v_ready v)\<rparr>))"
  using store_del_init [OF assms(1), of ReadyQ "map ReadyL (v_ready v)" "ReadyL t"] assms(2)
  by (simp add: map_remove1_inj vq_upd(1) [symmetric])

lemma store_ready_unlinked:
  assumes "store h (vq v)" and "t \<notin> set (v_ready v)" "t \<notin> set (v_dead v)" "\<not> waits_join v t"
  shows "list_del_init h (ReadyL t) = h"
  using store_del_init_free [OF assms(1)] assms(2-4) by (simp add: free_ready)

section \<open>Blocking, waking, suspending\<close>

definition a_ready :: "nat \<Rightarrow> view \<Rightarrow> view" where
  "a_ready t v = v\<lparr>v_ready := v_ready v @ [t]\<rparr>"

definition a_unready :: "nat \<Rightarrow> view \<Rightarrow> view" where
  "a_unready t v = v\<lparr>v_ready := remove1 t (v_ready v)\<rparr>"

lemma a_ready_simps [simp]:
  "v_ready (a_ready t v) = v_ready v @ [t]" "v_sleep (a_ready t v) = v_sleep v"
  "v_dead (a_ready t v) = v_dead v" "v_all (a_ready t v) = v_all v" "v_join (a_ready t v) = v_join v"
  "waits_join (a_ready t v) u = waits_join v u"
  by (simp_all add: a_ready_def)

lemma a_unready_simps [simp]:
  "v_ready (a_unready t v) = remove1 t (v_ready v)" "v_sleep (a_unready t v) = v_sleep v"
  "v_dead (a_unready t v) = v_dead v" "v_all (a_unready t v) = v_all v" "v_join (a_unready t v) = v_join v"
  "waits_join (a_unready t v) u = waits_join v u"
  by (simp_all add: a_unready_def)

lemma sched_invD:
  assumes "sched_inv s v"
  shows "lists_ok s v" "flags_ok s v" "sleep_ok s v" "cpus_ok s v" "store (lists s) (vq v)"
    and "t \<in> set (v_all v) \<Longrightarrow> t \<in> dom (v_join v)"
    and "t \<in> dom (v_join v) \<Longrightarrow> is_runnable s t \<longleftrightarrow> t \<in> set (v_ready v)"
    and "t \<in> dom (v_join v) \<Longrightarrow> is_dying s t \<longleftrightarrow> t \<in> set (v_dead v)"
    and "t \<in> set (v_ready v) \<Longrightarrow> t \<in> set (v_all v)"
  using assms by (auto simp: sched_inv_def lists_ok_def flags_ok_def)

lemma sched_inv_frame:
  assumes i: "sched_inv s v" and c: "same_cpus s s'" "sleepers s' = sleepers s"
    and l: "lists s' = lists s" "max_nodes s' = max_nodes s" "thread_id s' = thread_id s"
    and f: "\<And>t. t \<in> dom (v_join v) \<Longrightarrow> is_runnable s' t = is_runnable s t \<and> is_dying s' t = is_dying s t \<and>
        (is_runnable s t \<longrightarrow> \<not> is_hibernating s' t \<and> \<not> is_suspended s' t) \<and>
        (waits_join v t \<longrightarrow> is_joining s' t)"
  shows "sched_inv s' v"
proof -
  have "lists_ok s' v" using sched_invD(1) [OF i] l by (simp add: lists_ok_def)
  moreover have "flags_ok s' v" using sched_invD(2) [OF i] f unfolding flags_ok_def by simp
  moreover have "sleep_ok s' v" using sleep_ok_cong [OF sched_invD(3) [OF i] c(2)] by simp
  moreover have "cpus_ok s' v" using cpus_ok_cong [OF sched_invD(4) [OF i] c(1)] by simp
  ultimately show ?thesis by (simp add: sched_inv_def)
qed

lemma sched_inv_regs [simp]:
  "sched_inv (upd_thread s t (\<lambda>th. th\<lparr>regs := r\<rparr>)) v = sched_inv s v"
proof -
  have "lists_ok (upd_thread s t (\<lambda>th. th\<lparr>regs := r\<rparr>)) v = lists_ok s v" by (simp add: lists_ok_def)
  moreover have "flags_ok (upd_thread s t (\<lambda>th. th\<lparr>regs := r\<rparr>)) v = flags_ok s v" by (simp add: flags_ok_def)
  moreover have "sleep_ok (upd_thread s t (\<lambda>th. th\<lparr>regs := r\<rparr>)) v = sleep_ok s v" by (simp add: sleep_ok_def)
  moreover have "cpus_ok (upd_thread s t (\<lambda>th. th\<lparr>regs := r\<rparr>)) v = cpus_ok s v"
    by (rule iffI; erule cpus_ok_cong) (simp_all add: same_cpus_def)
  ultimately show ?thesis by (simp add: sched_inv_def)
qed

lemma sched_inv_kicked [simp]: "sched_inv (s\<lparr>kicked := k\<rparr>) v = sched_inv s v"
  by (simp add: sched_inv_def lists_ok_def flags_ok_def sleep_ok_def cpus_ok_def)

lemma sched_inv_kick [simp]: "sched_inv (kick_unless_here me t s) v = sched_inv s v"
  using kick_unless_here_eq [of me t s] by auto

lemma make_ready_inv:
  assumes i: "sched_inv s v" and t: "t \<in> set (v_all v)" "t \<notin> set (v_ready v)" "t \<notin> set (v_dead v)"
    "\<not> waits_join v t" and f: "\<not> is_hibernating s t" "\<not> is_suspended s t"
  obtains h where "make_ready t s = Inr ((set_flag RUNNABLE_FLAG t s)\<lparr>lists := h\<rparr>)"
    and "sched_inv ((set_flag RUNNABLE_FLAG t s)\<lparr>lists := h\<rparr>) (a_ready t v)"
proof -
  note D = sched_invD [OF i]
  obtain h where h: "list_add_tail (lists s) (ReadyL t) ReadyQ = Inr h"
    "store h (vq (v\<lparr>v_ready := v_ready v @ [t]\<rparr>))"
    using store_ready_add [OF D(5) t(2-4)] .
  let ?s = "(set_flag RUNNABLE_FLAG t s)\<lparr>lists := h\<rparr>"
  have "lists_ok ?s (a_ready t v)" using D(1) h(2) t by (auto simp: lists_ok_def a_ready_def)
  moreover have "flags_ok ?s (a_ready t v)"
    using D(2) f unfolding flags_ok_def by (simp add: flag_simps) blast
  moreover have "sleep_ok ?s (a_ready t v)" by (rule sleep_ok_cong [OF D(3)]) simp_all
  moreover have "cpus_ok ?s (a_ready t v)" by (rule cpus_ok_cong [OF D(4)]) simp_all
  ultimately have "sched_inv ?s (a_ready t v)" by (simp add: sched_inv_def)
  moreover have "make_ready t s = Inr ?s" using h(1) by (simp add: make_ready_def set_lists_def Let_def)
  ultimately show ?thesis using that by blast
qed

definition wakeable :: "sched \<Rightarrow> view \<Rightarrow> nat \<Rightarrow> bool" where
  "wakeable s v t = (t \<in> set (v_all v) \<and> t \<notin> set (v_dead v) \<and> \<not> waits_join v t)"

definition a_wake :: "sched \<Rightarrow> nat \<Rightarrow> view \<Rightarrow> view" where
  "a_wake s t v =
     (if t \<in> set (v_ready v) \<or> is_hibernating s t \<or> is_suspended s t then v else a_ready t v)"

lemma a_wake_simps [simp]:
  "v_sleep (a_wake s t v) = v_sleep v" "v_dead (a_wake s t v) = v_dead v"
  "v_all (a_wake s t v) = v_all v" "v_join (a_wake s t v) = v_join v"
  "waits_join (a_wake s t v) u = waits_join v u"
  by (simp_all add: a_wake_def)

text \<open>\<open>quiet s s'\<close>: only links, thread flags and saved registers, and the log of kicks differ.\<close>

definition quiet :: "sched \<Rightarrow> sched \<Rightarrow> bool" where
  "quiet s s' =
     (\<exists>h fl rg k. s' = s\<lparr>lists := h, kicked := k,
        threads := (\<lambda>u. (threads s u)\<lparr>flags := fl u, regs := rg u\<rparr>)\<rparr>)"

lemma quietI:
  assumes "s' = s\<lparr>lists := h, kicked := k, threads := ths\<rparr>"
    and "\<And>u. ths u = (threads s u)\<lparr>flags := flags (ths u), regs := regs (ths u)\<rparr>"
  shows "quiet s s'"
proof -
  have "ths = (\<lambda>u. (threads s u)\<lparr>flags := flags (ths u), regs := regs (ths u)\<rparr>)"
    by (rule ext) (rule assms(2))
  from trans [OF assms(1) arg_cong [where f = "\<lambda>x. s\<lparr>lists := h, kicked := k, threads := x\<rparr>", OF this]]
  show ?thesis unfolding quiet_def
    by (intro exI [of _ h] exI [of _ "\<lambda>u. flags (ths u)"] exI [of _ "\<lambda>u. regs (ths u)"] exI [of _ k])
qed

lemma quiet_refl [simp]: "quiet s s"
  unfolding quiet_def
  by (rule exI [of _ "lists s"], rule exI [of _ "\<lambda>u. flags (threads s u)"],
      rule exI [of _ "\<lambda>u. regs (threads s u)"], rule exI [of _ "kicked s"]) simp

lemma quiet_trans: "quiet a b \<Longrightarrow> quiet b c \<Longrightarrow> quiet a c"
  unfolding quiet_def by clarsimp (rule exI, rule exI, rule exI, rule exI, rule refl)

lemma quiet_simps:
  assumes "quiet s s'"
  shows "sleepers s' = sleepers s" "max_nodes s' = max_nodes s" "irqs_disabled s' = irqs_disabled s"
    "irqcount s' = irqcount s" "smp_init_completed s' = smp_init_completed s" "cpu_state s' = cpu_state s"
    "current_thread s' = current_thread s" "idle_thread s' = idle_thread s" "thread_id s' = thread_id s"
    "completion_done s' = completion_done s" "waiter_of s' = waiter_of s"
    "lock_count (threads s' u) = lock_count (threads s u)" "cpu (threads s' u) = cpu (threads s u)"
    "ip (threads s' u) = ip (threads s u)" "preempt_count (threads s' u) = preempt_count (threads s u)"
    "same_cpus s s'"
  using assms unfolding quiet_def by (auto simp: same_cpus_def)

lemma quiet_set_flag: "quiet s s' \<Longrightarrow> quiet s (set_flag f t s')"
  by (rule quiet_trans, assumption, rule quietI [where h = "lists s'" and k = "kicked s'" and ths = "threads (set_flag f t s')"])
     (simp_all add: set_flag_def upd_thread_def)

lemma quiet_clear_flag: "quiet s s' \<Longrightarrow> quiet s (clear_flag f t s')"
  by (rule quiet_trans, assumption, rule quietI [where h = "lists s'" and k = "kicked s'" and ths = "threads (clear_flag f t s')"])
     (simp_all add: clear_flag_def upd_thread_def)

lemma quiet_lists: "quiet s s' \<Longrightarrow> quiet s (s'\<lparr>lists := h\<rparr>)"
  by (rule quiet_trans, assumption, rule quietI [where h = h and k = "kicked s'" and ths = "threads s'"]) simp_all

lemma quiet_kick: "quiet s s' \<Longrightarrow> quiet s (kick_unless_here me t s')"
proof -
  assume q: "quiet s s'"
  obtain k where k: "kick_unless_here me t s' = s'\<lparr>kicked := k\<rparr>" using kick_unless_here_eq by blast
  have "quiet s' (s'\<lparr>kicked := k\<rparr>)"
    by (rule quietI [where h = "lists s'" and k = k and ths = "threads s'"]) simp_all
  with q show ?thesis unfolding k by (rule quiet_trans)
qed

lemma quiet_regs: "quiet s s' \<Longrightarrow> quiet s (upd_thread s' t (\<lambda>th. th\<lparr>regs := r\<rparr>))"
  by (rule quiet_trans, assumption,
      rule quietI [where h = "lists s'" and k = "kicked s'" and ths = "threads (upd_thread s' t (\<lambda>th. th\<lparr>regs := r\<rparr>))"])
     (simp_all add: upd_thread_def)

lemmas quiet_intros = quiet_set_flag quiet_clear_flag quiet_lists quiet_kick quiet_regs quiet_refl

lemma has_flag_kick [simp]: "has_flag (kick_unless_here me t s) u g = has_flag s u g"
  using kick_unless_here_eq [of me t s] by auto

lemma wake_inv:
  assumes i: "sched_inv s v" and w: "wakeable s v t"
  obtains s' where "wake me t s = Inr s'" and "sched_inv s' (a_wake s t v)" and "quiet s s'"
    and "\<And>u g. RUNNABLE_FLAG AND g = 0 \<Longrightarrow> has_flag s' u g = has_flag s u g"
proof -
  let ?s0 = "upd_thread s t (\<lambda>th. th\<lparr>regs := 0\<rparr>)"
  note D = sched_invD [OF i]
  have td: "t \<in> dom (v_join v)" using D(6) w by (auto simp: wakeable_def)
  have nd: "\<not> is_dying s t" using D(8) [OF td] w by (simp add: wakeable_def)
  show thesis
  proof (cases "is_runnable s t \<or> is_hibernating s t \<or> is_suspended s t")
    case True
    have "wake me t s = Inr ?s0" using True nd by (auto simp: wake_def Let_def)
    moreover have "sched_inv ?s0 (a_wake s t v)" using i True D(7) [OF td] by (auto simp: a_wake_def)
    moreover have "quiet s ?s0" by (intro quiet_intros)
    ultimately show thesis using that by simp
  next
    case False
    have i0: "sched_inv ?s0 v" using i by simp
    have nr: "t \<notin> set (v_ready v)" using False D(7) [OF td] by simp
    obtain h where m: "make_ready t ?s0 = Inr ((set_flag RUNNABLE_FLAG t ?s0)\<lparr>lists := h\<rparr>)"
      "sched_inv ((set_flag RUNNABLE_FLAG t ?s0)\<lparr>lists := h\<rparr>) (a_ready t v)"
      using make_ready_inv [OF i0, of t] w nr False unfolding wakeable_def by auto
    let ?s1 = "kick_unless_here me t ((set_flag RUNNABLE_FLAG t ?s0)\<lparr>lists := h\<rparr>)"
    have "wake me t s = Inr ?s1"
      using False nd m(1) by (simp add: wake_def Let_def) (simp add: flag_simps)
    moreover have "sched_inv ?s1 (a_wake s t v)" using m(2) nr False by (simp add: a_wake_def)
    moreover have "quiet s ?s1" by (intro quiet_intros)
    moreover have "has_flag ?s1 u g = has_flag s u g" if "RUNNABLE_FLAG AND g = 0" for u g
      using that by (simp add: has_flag_set)
    ultimately show thesis using that by blast
  qed
qed

lemma set_remove1_queue: "store h (vq v) \<Longrightarrow> set (remove1 t (v_ready v)) = set (v_ready v) - {t}"
  using queues_disjoint(1) by (rule set_remove1_distinct)

lemma unready_inv:
  assumes i: "sched_inv s v" and t: "t \<notin> set (v_dead v)" "\<not> waits_join v t"
    and q: "quiet s s1" "lists s1 = lists s"
    and f: "\<And>u. is_runnable s1 u = (is_runnable s u \<and> u \<noteq> t)" "\<And>u. is_dying s1 u = is_dying s u"
      "\<And>u. is_runnable s1 u \<Longrightarrow> is_hibernating s1 u = is_hibernating s u \<and> is_suspended s1 u = is_suspended s u"
      "\<And>u. is_joining s1 u = is_joining s u"
  shows "sched_inv (s1\<lparr>lists := list_del_init (lists s1) (ReadyL t)\<rparr>) (a_unready t v)"
proof -
  note D = sched_invD [OF i] and Q = quiet_simps [OF q(1)]
  let ?h = "list_del_init (lists s1) (ReadyL t)"
  have st: "store ?h (vq (a_unready t v))"
  proof (cases "t \<in> set (v_ready v)")
    case True
    then show ?thesis using store_ready_del [OF D(5)] q(2) by (simp add: a_unready_def)
  next
    case False
    then have "a_unready t v = v" by (simp add: a_unready_def remove1_idem)
    then show ?thesis using store_ready_unlinked [OF D(5) False t] D(5) q(2) by simp
  qed
  have r: "set (remove1 t (v_ready v)) = set (v_ready v) - {t}" by (rule set_remove1_queue [OF D(5)])
  have "lists_ok (s1\<lparr>lists := ?h\<rparr>) (a_unready t v)"
    using D(1) st r Q by (auto simp: lists_ok_def)
  moreover have "flags_ok (s1\<lparr>lists := ?h\<rparr>) (a_unready t v)"
    using D(2) f r unfolding flags_ok_def by simp
  moreover have "sleep_ok (s1\<lparr>lists := ?h\<rparr>) (a_unready t v)" by (rule sleep_ok_cong [OF D(3)]) (simp_all add: Q)
  moreover have "cpus_ok (s1\<lparr>lists := ?h\<rparr>) (a_unready t v)" by (rule cpus_ok_cong [OF D(4)]) (simp_all add: Q)
  ultimately show ?thesis by (simp add: sched_inv_def)
qed

lemma block_inv:
  assumes i: "sched_inv s v" and t: "t \<in> set (v_ready v)" "\<not> is_joining s t"
  obtains s' where "block t s = Inr s'" and "sched_inv s' (a_unready t v)" and "quiet s s'"
    and "\<And>u g. RUNNABLE_FLAG AND g = 0 \<Longrightarrow> has_flag s' u g = has_flag s u g"
proof -
  note D = sched_invD [OF i]
  have td: "t \<in> dom (v_join v)" using D(6,9) t by blast
  have r: "is_runnable s t" using D(7) [OF td] t by simp
  have h: "\<not> is_hibernating s t" "\<not> is_suspended s t" using D(2) td r by (auto simp: flags_ok_def)
  have nd: "t \<notin> set (v_dead v)" "\<not> waits_join v t"
    using queues_disjoint(5,6) [OF D(5)] t by blast+
  let ?s1 = "clear_flag RUNNABLE_FLAG t s"
  let ?s = "?s1\<lparr>lists := list_del_init (lists ?s1) (ReadyL t)\<rparr>"
  have "block t s = Inr ?s"
    using r h t(2) by (simp add: block_def Let_def) (simp add: flag_simps)
  moreover have "sched_inv ?s (a_unready t v)"
    by (rule unready_inv [OF i nd]) (auto intro: quiet_intros simp: flag_simps)
  moreover have "quiet s ?s" by (intro quiet_intros)
  moreover have "has_flag ?s u g = has_flag s u g" if "RUNNABLE_FLAG AND g = 0" for u g
    using and_not_disjoint [OF that] by (simp add: has_flag_clear)
  ultimately show thesis using that by blast
qed

lemma suspend_thread_inv:
  assumes i: "sched_inv s v" and t: "t \<in> set (v_all v)" "t \<notin> set (v_dead v)"
    and g: "t \<in> set (v_ready v) \<Longrightarrow> \<not> is_sleeping s t \<and> \<not> is_joining s t"
  shows "sched_inv (suspend_thread t s) (a_unready t v)" and "quiet s (suspend_thread t s)"
proof -
  note D = sched_invD [OF i]
  have td: "t \<in> dom (v_join v)" using D(6) t by blast
  let ?s1 = "set_flag SUSPENDED_FLAG t (clear_flag RUNNING_FLAG t (clear_flag RUNNABLE_FLAG t s))"
  let ?del = "\<not> (is_hibernating s t \<or> is_sleeping s t \<or> is_joining s t)"
  have e: "suspend_thread t s = (if ?del then ?s1\<lparr>lists := list_del_init (lists ?s1) (ReadyL t)\<rparr> else ?s1)"
    by (simp add: suspend_thread_def Let_def) (simp add: flag_simps)
  have q: "quiet s ?s1" by (intro quiet_intros)
  then show "quiet s (suspend_thread t s)" unfolding e by (auto intro: quiet_intros)
  show "sched_inv (suspend_thread t s) (a_unready t v)"
  proof (cases ?del)
    case True
    have "\<not> waits_join v t" using True D(2) td by (auto simp: flags_ok_def)
    then have "sched_inv (?s1\<lparr>lists := list_del_init (lists ?s1) (ReadyL t)\<rparr>) (a_unready t v)"
      by (intro unready_inv [OF i t(2) _ q]) (auto simp: flag_simps)
    then show ?thesis using True unfolding e by simp
  next
    case False
    have nr: "t \<notin> set (v_ready v)"
      using False g D(2) td by (auto simp: flags_ok_def)
    then have "a_unready t v = v" by (simp add: a_unready_def remove1_idem)
    moreover have "sched_inv ?s1 v"
      by (rule sched_inv_frame [OF i]) (use D(2) nr td in \<open>auto simp: flags_ok_def flag_simps\<close>)
    ultimately show ?thesis using False unfolding e by simp
  qed
qed

lemma wake_suspended_inv:
  assumes i: "sched_inv s v" and t: "t \<in> set (v_all v)" "t \<notin> set (v_dead v)" "t \<notin> set (v_ready v)"
  obtains s' where "wake_suspended_thread me t s = Inr s'" and "quiet s s'"
    and "sched_inv s' (if is_hibernating s t \<or> is_sleeping s t \<or> is_joining s t then v else a_ready t v)"
proof -
  note D = sched_invD [OF i]
  have td: "t \<in> dom (v_join v)" using D(6) t by blast
  let ?s1 = "clear_flag SUSPENDED_FLAG t s"
  let ?held = "is_hibernating s t \<or> is_sleeping s t \<or> is_joining s t"
  have i1: "sched_inv ?s1 v"
    by (rule sched_inv_frame [OF i]) (use D(2) in \<open>auto simp: flags_ok_def flag_simps\<close>)
  have hs: "is_hibernating ?s1 t = is_hibernating s t" "is_sleeping ?s1 t = is_sleeping s t"
    "is_joining ?s1 t = is_joining s t" "\<not> is_suspended ?s1 t" by (simp_all add: flag_simps)
  show thesis
  proof (cases ?held)
    case True
    then have "wake_suspended_thread me t s = Inr ?s1" by (auto simp: wake_suspended_thread_def Let_def hs)
    moreover have "quiet s ?s1" by (intro quiet_intros)
    ultimately show thesis using that i1 True by simp
  next
    case False
    have "\<not> waits_join v t" using False D(2) td by (auto simp: flags_ok_def)
    then obtain h where m: "make_ready t ?s1 = Inr ((set_flag RUNNABLE_FLAG t ?s1)\<lparr>lists := h\<rparr>)"
      "sched_inv ((set_flag RUNNABLE_FLAG t ?s1)\<lparr>lists := h\<rparr>) (a_ready t v)"
      using make_ready_inv [OF i1 t(1) t(3) t(2)] False hs by auto
    let ?s2 = "kick_unless_here me t ((set_flag RUNNABLE_FLAG t ?s1)\<lparr>lists := h\<rparr>)"
    have "wake_suspended_thread me t s = Inr ?s2"
      using False m(1) by (simp add: wake_suspended_thread_def Let_def hs)
    moreover have "quiet s ?s2" by (intro quiet_intros)
    moreover have "sched_inv ?s2 (a_ready t v)" using m(2) by simp
    ultimately show thesis using that False by simp
  qed
qed

lemma hibernate_inv:
  assumes i: "sched_inv s v" and t: "t \<in> set (v_all v)" "t \<notin> set (v_dead v)" "\<not> waits_join v t"
    and g: "t \<in> set (v_ready v) \<Longrightarrow> \<not> is_sleeping s t"
  shows "sched_inv (hibernate t s) (a_unready t v)" and "quiet s (hibernate t s)"
proof -
  note D = sched_invD [OF i]
  have td: "t \<in> dom (v_join v)" using D(6) t by blast
  let ?s1 = "set_flag HIBERNATION_FLAG t (clear_flag RUNNING_FLAG t (clear_flag RUNNABLE_FLAG t s))"
  let ?del = "\<not> (is_suspended s t \<or> is_sleeping s t)"
  have e: "hibernate t s = (if ?del then ?s1\<lparr>lists := list_del_init (lists ?s1) (ReadyL t)\<rparr> else ?s1)"
    by (simp add: hibernate_def Let_def) (simp add: flag_simps)
  have q: "quiet s ?s1" by (intro quiet_intros)
  then show "quiet s (hibernate t s)" unfolding e by (auto intro: quiet_intros)
  show "sched_inv (hibernate t s) (a_unready t v)"
  proof (cases ?del)
    case True
    have "sched_inv (?s1\<lparr>lists := list_del_init (lists ?s1) (ReadyL t)\<rparr>) (a_unready t v)"
      by (intro unready_inv [OF i t(2,3) q]) (auto simp: flag_simps)
    then show ?thesis using True unfolding e by simp
  next
    case False
    have nr: "t \<notin> set (v_ready v)" using False g D(2) td by (auto simp: flags_ok_def)
    then have "a_unready t v = v" by (simp add: a_unready_def remove1_idem)
    moreover have "sched_inv ?s1 v"
      by (rule sched_inv_frame [OF i]) (use D(2) nr td in \<open>auto simp: flags_ok_def flag_simps\<close>)
    ultimately show ?thesis using False unfolding e by simp
  qed
qed

lemma restore_inv:
  assumes i: "sched_inv s v" and t: "t \<in> set (v_all v)" "t \<notin> set (v_dead v)" "t \<notin> set (v_ready v)"
    "\<not> waits_join v t"
  obtains s' where "restore me t s = Inr s'" and "quiet s s'"
    and "sched_inv s' (if is_suspended s t \<or> is_sleeping s t then v else a_ready t v)"
proof -
  note D = sched_invD [OF i]
  let ?s1 = "clear_flag HIBERNATION_FLAG t s"
  have i1: "sched_inv ?s1 v"
    by (rule sched_inv_frame [OF i]) (use D(2) in \<open>auto simp: flags_ok_def flag_simps\<close>)
  have hs: "is_suspended ?s1 t = is_suspended s t" "is_sleeping ?s1 t = is_sleeping s t"
    "\<not> is_hibernating ?s1 t" by (simp_all add: flag_simps)
  show thesis
  proof (cases "is_suspended s t \<or> is_sleeping s t")
    case True
    then have "restore me t s = Inr ?s1" by (auto simp: restore_def Let_def hs)
    moreover have "quiet s ?s1" by (intro quiet_intros)
    ultimately show thesis using that i1 True by simp
  next
    case False
    then obtain h where m: "make_ready t ?s1 = Inr ((set_flag RUNNABLE_FLAG t ?s1)\<lparr>lists := h\<rparr>)"
      "sched_inv ((set_flag RUNNABLE_FLAG t ?s1)\<lparr>lists := h\<rparr>) (a_ready t v)"
      using make_ready_inv [OF i1 t(1) t(3) t(2) t(4)] hs by auto
    let ?s2 = "kick_unless_here me t ((set_flag RUNNABLE_FLAG t ?s1)\<lparr>lists := h\<rparr>)"
    have "restore me t s = Inr ?s2" using False m(1) by (simp add: restore_def Let_def hs)
    moreover have "quiet s ?s2" by (intro quiet_intros)
    moreover have "sched_inv ?s2 (a_ready t v)" using m(2) by simp
    ultimately show thesis using that False by simp
  qed
qed

lemma start_thread_inv:
  assumes i: "sched_inv s v" and t: "t \<in> set (v_all v)" "t \<notin> set (v_ready v)" "t \<notin> set (v_dead v)"
    "\<not> waits_join v t" and f: "\<not> is_hibernating s t" "\<not> is_suspended s t"
  obtains s' where "start_thread me t s = Inr s'" and "sched_inv s' (a_ready t v)" and "quiet s s'"
proof -
  let ?s0 = "upd_thread s t (\<lambda>th. th\<lparr>regs := 0\<rparr>)"
  have i0: "sched_inv ?s0 v" using i by simp
  obtain h where m: "make_ready t ?s0 = Inr ((set_flag RUNNABLE_FLAG t ?s0)\<lparr>lists := h\<rparr>)"
    "sched_inv ((set_flag RUNNABLE_FLAG t ?s0)\<lparr>lists := h\<rparr>) (a_ready t v)"
    using make_ready_inv [OF i0 t] f by auto
  let ?s1 = "kick_unless_here me t ((set_flag RUNNABLE_FLAG t ?s0)\<lparr>lists := h\<rparr>)"
  have "start_thread me t s = Inr ?s1" using m(1) by (simp add: start_thread_def)
  moreover have "quiet s ?s1" by (intro quiet_intros)
  ultimately show thesis using that m(2) by simp
qed

section \<open>Waking a list of joiners\<close>

lemma ring_next:
  assumes "ring h head (xs @ y # ys)"
  shows "next_of h y = hd (ys @ [head])"
  using assms chain_first [of h y ys head] by (simp add: ring_def chain_append)

lemma ring_first: "ring h head xs \<Longrightarrow> next_of h head = hd (xs @ [head])"
  using chain_first [of h head xs head] by (simp add: ring_def)

definition a_unjoin :: "nat \<Rightarrow> nat list \<Rightarrow> view \<Rightarrow> view" where
  "a_unjoin j xs v = v\<lparr>v_join := (v_join v)(j \<mapsto> xs)\<rparr>"

lemma a_unjoin_simps [simp]:
  "v_ready (a_unjoin j xs v) = v_ready v" "v_sleep (a_unjoin j xs v) = v_sleep v"
  "v_dead (a_unjoin j xs v) = v_dead v" "v_all (a_unjoin j xs v) = v_all v"
  "v_join (a_unjoin j xs v) = (v_join v)(j \<mapsto> xs)"
  by (simp_all add: a_unjoin_def)

lemma waits_join_unjoin:
  assumes st: "store h (vq v)" and j: "v_join v j = Some (t # xs)"
  shows "waits_join (a_unjoin j xs v) u \<longleftrightarrow> waits_join v u \<and> u \<noteq> t"
proof -
  have dj: "distinct (t # xs)" using queues_disjoint(8) [OF st j] .
  have dk: "t \<notin> set ys" if "v_join v k = Some ys" "k \<noteq> j" for k ys
    using queues_disjoint(9) [OF st j that(1)] that(2) by auto
  show ?thesis
  proof
    assume "waits_join (a_unjoin j xs v) u"
    then obtain k ys where k: "((v_join v)(j \<mapsto> xs)) k = Some ys" "u \<in> set ys" by (auto simp: waits_join_def)
    show "waits_join v u \<and> u \<noteq> t"
    proof (cases "k = j")
      case True
      then have "u \<in> set (t # xs)" "u \<noteq> t" using k dj by auto
      then show ?thesis using j unfolding waits_join_def by blast
    next
      case False
      then show ?thesis using k dk [of k ys] by (auto simp: waits_join_def)
    qed
  next
    assume u: "waits_join v u \<and> u \<noteq> t"
    then obtain k ys where k: "v_join v k = Some ys" "u \<in> set ys" by (auto simp: waits_join_def)
    show "waits_join (a_unjoin j xs v) u"
    proof (cases "k = j")
      case True
      then show ?thesis using k j u by (auto simp: waits_join_def intro!: exI [of _ j])
    next
      case False
      then show ?thesis using k by (auto simp: waits_join_def intro!: exI [of _ k])
    qed
  qed
qed

lemma unjoin_inv:
  assumes i: "sched_inv s v" and j: "v_join v j = Some (t # xs)"
  shows "sched_inv (s\<lparr>lists := list_del_init (lists s) (ReadyL t)\<rparr>) (a_unjoin j xs v)"
proof -
  note D = sched_invD [OF i]
  let ?h = "list_del_init (lists s) (ReadyL t)"
  have st: "store ?h (vq (a_unjoin j xs v))"
    using store_del_init [OF D(5), of "Joiners j" "map ReadyL (t # xs)" "ReadyL t"] j
    by (simp add: a_unjoin_def vq_upd(5) [symmetric])
  have w: "waits_join (a_unjoin j xs v) u \<Longrightarrow> waits_join v u" for u
    using waits_join_unjoin [OF D(5) j] by blast
  have d: "dom (v_join (a_unjoin j xs v)) = dom (v_join v)" using j by auto
  have "lists_ok (s\<lparr>lists := ?h\<rparr>) (a_unjoin j xs v)"
    using D(1) st w d unfolding lists_ok_def by simp
  moreover have "flags_ok (s\<lparr>lists := ?h\<rparr>) (a_unjoin j xs v)"
    using D(2) w d unfolding flags_ok_def by simp
  moreover have "sleep_ok (s\<lparr>lists := ?h\<rparr>) (a_unjoin j xs v)" by (rule sleep_ok_cong [OF D(3)]) (simp_all add: w)
  moreover have "cpus_ok (s\<lparr>lists := ?h\<rparr>) (a_unjoin j xs v)"
    by (rule cpus_ok_cong [OF D(4)]) (simp_all only: same_cpus_upd same_cpus_refl d, simp)
  ultimately show ?thesis by (simp add: sched_inv_def)
qed

text \<open>\<open>sched_wake_joiners\<close> empties the list in order, waking each thread.\<close>

fun a_wake_joiners :: "sched \<Rightarrow> nat \<Rightarrow> nat list \<Rightarrow> view \<Rightarrow> view" where
  "a_wake_joiners s j [] v = v"
| "a_wake_joiners s j (t # ts) v = a_wake_joiners s j ts (a_wake s t (a_unjoin j ts v))"

lemma a_wake_cong:
  "(\<And>u. is_hibernating s' u = is_hibernating s u) \<Longrightarrow> (\<And>u. is_suspended s' u = is_suspended s u) \<Longrightarrow>
   a_wake s' t v = a_wake s t v"
  by (simp add: a_wake_def)

lemma a_wake_joiners_cong:
  assumes "\<And>u. is_hibernating s' u = is_hibernating s u" "\<And>u. is_suspended s' u = is_suspended s u"
  shows "a_wake_joiners s' j ts v = a_wake_joiners s j ts v"
proof -
  have "a_wake s' t x = a_wake s t x" for t x using assms by (rule a_wake_cong)
  then show ?thesis by (induction ts arbitrary: v) simp_all
qed

lemma wake_joiners_loop_inv:
  assumes "sched_inv s v" and "v_join v j = Some ts" and "length ts < n"
    and "p = hd (map ReadyL ts @ [Joiners j])"
  shows "\<exists>s'. wake_joiners_loop n me (Joiners j) s p = Inr s' \<and> sched_inv s' (a_wake_joiners s j ts v) \<and>
     quiet s s' \<and> (\<forall>u g. RUNNABLE_FLAG AND g = 0 \<longrightarrow> has_flag s' u g = has_flag s u g)"
  using assms
proof (induction ts arbitrary: n s v p)
  case Nil
  then show ?case by (cases n) auto
next
  case (Cons t ts)
  obtain k where n: "n = Suc k" using Cons.prems(3) by (cases n) auto
  note D = sched_invD [OF Cons.prems(1)]
  let ?s1 = "s\<lparr>lists := list_del_init (lists s) (ReadyL t)\<rparr>"
  let ?v1 = "a_unjoin j ts v"
  have i1: "sched_inv ?s1 ?v1" by (rule unjoin_inv [OF Cons.prems(1,2)])
  have wt: "waits_join v t" unfolding waits_join_def
    by (intro exI [of _ j] exI [of _ "t # ts"]) (simp add: Cons.prems(2))
  have "t \<in> set (v_all v)" using D(1) wt by (simp add: lists_ok_def)
  moreover have "t \<notin> set (v_dead v)" using queues_disjoint(7) [OF D(5)] wt by blast
  moreover have "\<not> waits_join ?v1 t" using waits_join_unjoin [OF D(5) Cons.prems(2)] by blast
  ultimately have w: "wakeable ?s1 ?v1 t" by (simp add: wakeable_def)
  obtain s2 where s2: "wake me t ?s1 = Inr s2" "sched_inv s2 (a_wake ?s1 t ?v1)" "quiet ?s1 s2"
    "\<And>u g. RUNNABLE_FLAG AND g = 0 \<Longrightarrow> has_flag s2 u g = has_flag ?s1 u g"
    using wake_inv [OF i1 w] by blast
  have nx: "next_of (lists s) (ReadyL t) = hd (map ReadyL ts @ [Joiners j])"
  proof -
    have "ring (lists s) (Joiners j) (map ReadyL (t # ts))"
      using store_ring [OF D(5), of "Joiners j"] Cons.prems(2) by simp
    then show ?thesis using ring_next [of "lists s" "Joiners j" "[]" "ReadyL t"] by simp
  qed
  have fl: "is_hibernating s2 u = is_hibernating s u" "is_suspended s2 u = is_suspended s u" for u
    using s2(4) [of HIBERNATION_FLAG u] s2(4) [of SUSPENDED_FLAG u] by (simp_all add: thread_flag_defs)
  obtain s3 where s3: "wake_joiners_loop k me (Joiners j) s2 (hd (map ReadyL ts @ [Joiners j])) = Inr s3"
    "sched_inv s3 (a_wake_joiners s2 j ts (a_wake ?s1 t ?v1))" "quiet s2 s3"
    "\<forall>u g. RUNNABLE_FLAG AND g = 0 \<longrightarrow> has_flag s3 u g = has_flag s2 u g"
    using Cons.IH [OF s2(2), of k] Cons.prems(3) n by auto
  have "a_wake_joiners s2 j ts (a_wake ?s1 t ?v1) = a_wake_joiners s j (t # ts) v"
    using a_wake_joiners_cong [of s2 s, OF fl] a_wake_cong [of ?s1 s] by simp
  moreover have "wake_joiners_loop n me (Joiners j) s p = Inr s3"
    using s2(1) s3(1) Cons.prems(4) n nx by (simp add: Let_def)
  moreover have "quiet s s3"
    by (rule quiet_trans [OF quiet_trans [OF _ s2(3)] s3(3)]) (intro quiet_intros)
  ultimately show ?case using s3(2,4) s2(4) by auto
qed

lemma joiners_bound:
  assumes i: "sched_inv s v" and j: "v_join v j = Some ts"
  shows "length ts < max_nodes s"
proof -
  note D = sched_invD [OF i]
  have "distinct ts" by (rule queues_disjoint(8) [OF D(5) j])
  moreover have "set ts \<subseteq> set (v_all v)" using D(1) j unfolding lists_ok_def waits_join_def by blast
  ultimately have "length ts \<le> length (v_all v)"
    using queues_disjoint(3) [OF D(5)] by (metis card_mono distinct_card finite_set)
  then show ?thesis using D(1) by (simp add: lists_ok_def)
qed

lemma sched_wake_joiners_inv:
  assumes i: "sched_inv s v" and j: "v_join v j = Some ts"
  obtains s' where "sched_wake_joiners me j s = Inr s'" and "sched_inv s' (a_wake_joiners s j ts v)"
    and "quiet s s'" and "\<And>u g. RUNNABLE_FLAG AND g = 0 \<Longrightarrow> has_flag s' u g = has_flag s u g"
proof -
  have "ring (lists s) (Joiners j) (map ReadyL ts)"
    using store_ring [OF sched_invD(5) [OF i], of "Joiners j"] j by simp
  then have "next_of (lists s) (Joiners j) = hd (map ReadyL ts @ [Joiners j])" by (rule ring_first)
  then show thesis
    using wake_joiners_loop_inv [OF i j joiners_bound [OF i j] refl, of me] that
    unfolding sched_wake_joiners_def by auto
qed

lemma a_wake_joiners_simps [simp]:
  "v_sleep (a_wake_joiners s j ts v) = v_sleep v" "v_dead (a_wake_joiners s j ts v) = v_dead v"
  "v_all (a_wake_joiners s j ts v) = v_all v"
  by (induction ts arbitrary: v) simp_all

lemma a_wake_joiners_join:
  "v_join v j = Some ts \<Longrightarrow> v_join (a_wake_joiners s j ts v) = (v_join v)(j \<mapsto> [])"
  by (induction ts arbitrary: v) auto

lemma a_wake_joiners_ready:
  assumes "distinct ts" and "set ts \<inter> set (v_ready v) = {}"
  shows "v_ready (a_wake_joiners s j ts v) =
     v_ready v @ filter (\<lambda>t. \<not> is_hibernating s t \<and> \<not> is_suspended s t) ts"
  using assms
proof (induction ts arbitrary: v)
  case (Cons t ts)
  have "v_ready (a_wake s t (a_unjoin j ts v)) =
      v_ready v @ (if \<not> is_hibernating s t \<and> \<not> is_suspended s t then [t] else [])"
    using Cons.prems by (auto simp: a_wake_def)
  then show ?case using Cons by auto
qed simp

section \<open>The sleep queue\<close>

definition insert_sleep :: "sched \<Rightarrow> nat \<Rightarrow> nat list \<Rightarrow> nat list" where
  "insert_sleep s q xs =
     takeWhile (\<lambda>e. timeout (sleepers s e) \<le> timeout (sleepers s q)) xs @
     q # dropWhile (\<lambda>e. timeout (sleepers s e) \<le> timeout (sleepers s q)) xs"

definition a_sleep :: "sched \<Rightarrow> nat \<Rightarrow> view \<Rightarrow> view" where
  "a_sleep s q v = v\<lparr>v_sleep := insert_sleep s q (v_sleep v)\<rparr>"

lemma sleep_insert_point_spec:
  assumes "ring (lists s) SleepQ (map SleepL (xs @ ys))" and "length ys < n"
    and "p = hd (map SleepL ys @ [SleepQ])"
  shows "sleep_insert_point n s t p =
     Inr (hd (map SleepL (dropWhile (\<lambda>e. timeout (sleepers s e) \<le> t) ys) @ [SleepQ]))"
  using assms
proof (induction ys arbitrary: xs n p)
  case Nil
  then show ?case by (cases n) auto
next
  case (Cons y ys)
  obtain k where n: "n = Suc k" using Cons.prems(2) by (cases n) auto
  have nx: "next_of (lists s) (SleepL y) = hd (map SleepL ys @ [SleepQ])"
    using ring_next [of "lists s" SleepQ "map SleepL xs" "SleepL y" "map SleepL ys"] Cons.prems(1) by simp
  show ?case
  proof (cases "timeout (sleepers s y) \<le> t")
    case True
    then show ?thesis using Cons.IH [of "xs @ [y]" k] Cons.prems n nx by simp
  next
    case False
    then show ?thesis using Cons.prems(3) n by simp
  qed
qed

lemma insert_sleep_sorted:
  assumes "sorted (map (\<lambda>q. timeout (sleepers s q)) xs)" and "q \<notin> set xs"
  shows "sorted (map (\<lambda>q. timeout (sleepers s q)) (insert_sleep s q xs))"
proof -
  let ?P = "\<lambda>e. timeout (sleepers s e) \<le> timeout (sleepers s q)"
  let ?f = "\<lambda>q. timeout (sleepers s q)"
  have "sorted (map ?f (takeWhile ?P xs @ dropWhile ?P xs))" using assms(1) by simp
  then have s: "sorted (map ?f (takeWhile ?P xs))" "sorted (map ?f (dropWhile ?P xs))"
    "\<forall>a \<in> set (takeWhile ?P xs). \<forall>b \<in> set (dropWhile ?P xs). ?f a \<le> ?f b"
    unfolding map_append sorted_append by auto
  have "?f q \<le> ?f b" if b: "b \<in> set (dropWhile ?P xs)" for b
  proof -
    obtain d ds where dw: "dropWhile ?P xs = d # ds" using b by (cases "dropWhile ?P xs") auto
    have "\<not> ?P d" using hd_dropWhile [of ?P xs] unfolding dw by simp
    moreover have "?f d \<le> ?f b" using b s(2) unfolding dw by auto
    ultimately show ?thesis by simp
  qed
  then show ?thesis
    unfolding insert_sleep_def using s by (auto simp: sorted_append dest: set_takeWhileD)
qed

lemma sleep_queue_add_inv:
  assumes i: "sched_inv s v" and q: "q \<notin> set (v_sleep v)" and b: "Suc (length (v_sleep v)) < max_nodes s"
    and w: "wakeable s v (sq_thread (sleepers s q))"
  obtains s' where "sleep_queue_add q s = Inr s'" and "sched_inv s' (a_sleep s q v)"
    and "threads s' = threads s" and "current_thread s' = current_thread s"
proof -
  note D = sched_invD [OF i]
  let ?P = "\<lambda>e. timeout (sleepers s e) \<le> timeout (sleepers s q)"
  let ?xs = "takeWhile ?P (v_sleep v)" and ?ys = "dropWhile ?P (v_sleep v)"
  have r: "ring (lists s) SleepQ (map SleepL ([] @ v_sleep v))"
    using store_ring [OF D(5), of SleepQ] by simp
  have bs: "length (v_sleep v) < max_nodes s" using D(1) by (simp add: lists_ok_def)
  have ip: "sleep_insert_point (max_nodes s) s (timeout (sleepers s q)) (next_of (lists s) SleepQ) =
      Inr (hd (map SleepL ?ys @ [SleepQ]))"
    by (rule sleep_insert_point_spec [OF r bs]) (use ring_first [OF r] in simp)
  obtain h where h: "list_add_tail (lists s) (SleepL q) (hd (map SleepL ?ys @ [SleepQ])) = Inr h"
    "store h ((vq v)(SleepQ \<mapsto> map SleepL ?xs @ SleepL q # map SleepL ?ys))"
  proof (rule store_insert_before [OF D(5), of SleepQ "map SleepL ?xs" "map SleepL ?ys" "SleepL q"])
    show "vq v SleepQ = Some (map SleepL ?xs @ map SleepL ?ys)"
      by (simp only: vq.simps map_append [symmetric] takeWhile_dropWhile_id)
    show "free_node (vq v) (SleepL q)" using q by (simp add: free_sleep)
  qed (rule that)
  let ?s = "upd_sleeper (s\<lparr>lists := h\<rparr>) q (\<lambda>e. e\<lparr>sq_flags := sq_flags e OR ACTIVE_SQ_FLAG\<rparr>)"
  have e: "map SleepL ?xs @ SleepL q # map SleepL ?ys = map SleepL (insert_sleep s q (v_sleep v))"
    by (simp add: insert_sleep_def)
  have st: "store h (vq (a_sleep s q v))" using h(2) unfolding e vq_upd(2) a_sleep_def .
  have tm: "timeout (sleepers ?s x) = timeout (sleepers s x)" "sq_thread (sleepers ?s x) = sq_thread (sleepers s x)" for x
    by simp_all
  have set: "set (insert_sleep s q (v_sleep v)) = insert q (set (v_sleep v))"
    unfolding insert_sleep_def using takeWhile_dropWhile_id [of ?P "v_sleep v"]
    by (metis (no_types, lifting) Un_insert_right list.simps(15) set_append)
  have len: "length (insert_sleep s q (v_sleep v)) = Suc (length (v_sleep v))"
    using arg_cong [OF takeWhile_dropWhile_id [of ?P "v_sleep v"], of length]
    unfolding insert_sleep_def length_append by simp
  have "lists_ok ?s (a_sleep s q v)" using D(1) st len b by (simp add: lists_ok_def a_sleep_def)
  moreover have "flags_ok ?s (a_sleep s q v)" using D(2) by (simp add: flags_ok_def a_sleep_def)
  moreover have "sleep_ok ?s (a_sleep s q v)"
  proof -
    have "sorted (map (\<lambda>q. timeout (sleepers s q)) (insert_sleep s q (v_sleep v)))"
      by (rule insert_sleep_sorted) (use D(3) q in \<open>simp_all add: sleep_ok_def\<close>)
    then show ?thesis
      unfolding sleep_ok_def tm using D(3) w by (simp add: sleep_ok_def a_sleep_def set wakeable_def)
  qed
  moreover have "cpus_ok ?s (a_sleep s q v)"
    by (rule cpus_ok_cong [OF D(4)]) (simp_all add: a_sleep_def)
  ultimately have "sched_inv ?s (a_sleep s q v)" by (simp add: sched_inv_def)
  moreover have "sleep_queue_add q s = Inr ?s"
    unfolding sleep_queue_add_def ip by (simp add: set_lists_def h(1))
  ultimately show thesis using that by simp
qed

lemma sleep_queue_del_inv:
  assumes i: "sched_inv s v"
  shows "sched_inv (sleep_queue_del q s) (v\<lparr>v_sleep := remove1 q (v_sleep v)\<rparr>)"
proof -
  note D = sched_invD [OF i]
  let ?h = "list_del_init (lists s) (SleepL q)" and ?v = "v\<lparr>v_sleep := remove1 q (v_sleep v)\<rparr>"
  have st: "store ?h (vq ?v)"
  proof (cases "q \<in> set (v_sleep v)")
    case True
    then show ?thesis
      using store_del_init [OF D(5), of SleepQ "map SleepL (v_sleep v)" "SleepL q"]
      by (simp add: map_remove1_inj vq_upd(2) [symmetric])
  next
    case False
    then have "list_del_init (lists s) (SleepL q) = lists s"
      using store_del_init_free [OF D(5)] by (simp add: free_sleep)
    moreover have "?v = v" using False by (simp add: remove1_idem)
    ultimately show ?thesis using D(5) by simp
  qed
  let ?s = "sleep_queue_del q s"
  have pr: "lists ?s = ?h" "threads ?s = threads s" "max_nodes ?s = max_nodes s" "thread_id ?s = thread_id s"
    "has_flag ?s t f = has_flag s t f" "timeout (sleepers ?s x) = timeout (sleepers s x)"
    "sq_thread (sleepers ?s x) = sq_thread (sleepers s x)" for t f x
    by (simp_all add: sleep_queue_del_def)
  have len: "length (remove1 q (v_sleep v)) \<le> length (v_sleep v)" by (simp add: length_remove1)
  have "lists_ok ?s ?v" using D(1) st len by (auto simp: lists_ok_def pr)
  moreover have "flags_ok ?s ?v" using D(2) by (simp add: flags_ok_def pr)
  moreover have "sleep_ok ?s ?v"
    using D(3) queues_disjoint(4) [OF D(5)] unfolding sleep_ok_def pr
    by (auto simp: sorted_map_remove1)
  moreover have "cpus_ok ?s ?v" by (rule cpus_ok_cong [OF D(4)]) (simp_all add: sleep_queue_del_def)
  ultimately show ?thesis by (simp add: sched_inv_def)
qed

text \<open>\<open>sched_wake_expired\<close> wakes the threads of the expired entries, which are a prefix.\<close>

fun a_wake_list :: "sched \<Rightarrow> nat list \<Rightarrow> view \<Rightarrow> view" where
  "a_wake_list s [] v = v"
| "a_wake_list s (t # ts) v = a_wake_list s ts (a_wake s t v)"

lemma a_wake_list_simps [simp]:
  "v_sleep (a_wake_list s ts v) = v_sleep v" "v_dead (a_wake_list s ts v) = v_dead v"
  "v_all (a_wake_list s ts v) = v_all v" "v_join (a_wake_list s ts v) = v_join v"
  "waits_join (a_wake_list s ts v) u = waits_join v u"
  by (induction ts arbitrary: v) simp_all

lemma a_wake_list_cong:
  assumes "\<And>u. is_hibernating s' u = is_hibernating s u" "\<And>u. is_suspended s' u = is_suspended s u"
  shows "a_wake_list s' ts v = a_wake_list s ts v"
proof -
  have "a_wake s' t x = a_wake s t x" for t x using assms by (rule a_wake_cong)
  then show ?thesis by (induction ts arbitrary: v) simp_all
qed

definition expired :: "int \<Rightarrow> sched \<Rightarrow> nat list \<Rightarrow> nat list" where
  "expired now s qs = map (\<lambda>q. sq_thread (sleepers s q)) (takeWhile (\<lambda>q. timeout (sleepers s q) \<le> now) qs)"

lemma wake_expired_loop_inv:
  assumes "sched_inv s v" and "v_sleep v = xs @ ys" and "length ys < n"
    and "p = hd (map SleepL ys @ [SleepQ])"
  shows "\<exists>s'. wake_expired_loop n me now s p = Inr s' \<and> sched_inv s' (a_wake_list s (expired now s ys) v) \<and>
     quiet s s' \<and> (\<forall>u g. RUNNABLE_FLAG AND g = 0 \<longrightarrow> has_flag s' u g = has_flag s u g)"
  using assms
proof (induction ys arbitrary: xs n s v p)
  case Nil
  then show ?case by (cases n) (auto simp: expired_def)
next
  case (Cons q ys)
  obtain k where n: "n = Suc k" using Cons.prems(3) by (cases n) auto
  note D = sched_invD [OF Cons.prems(1)]
  show ?case
  proof (cases "timeout (sleepers s q) \<le> now")
    case False
    then show ?thesis using Cons.prems n by (auto simp: expired_def)
  next
    case True
    let ?t = "sq_thread (sleepers s q)"
    have w: "wakeable s v ?t" using D(3) Cons.prems(2) by (simp add: sleep_ok_def wakeable_def)
    obtain s1 where s1: "wake me ?t s = Inr s1" "sched_inv s1 (a_wake s ?t v)" "quiet s s1"
      "\<And>u g. RUNNABLE_FLAG AND g = 0 \<Longrightarrow> has_flag s1 u g = has_flag s u g"
      using wake_inv [OF Cons.prems(1) w] by blast
    have "ring (lists s1) SleepQ (map SleepL xs @ SleepL q # map SleepL ys)"
      using store_ring [OF sched_invD(5) [OF s1(2)], of SleepQ] Cons.prems(2) by simp
    then have nx: "next_of (lists s1) (SleepL q) = hd (map SleepL ys @ [SleepQ])" by (rule ring_next)
    have fl: "is_hibernating s1 u = is_hibernating s u" "is_suspended s1 u = is_suspended s u" for u
      using s1(4) [of HIBERNATION_FLAG u] s1(4) [of SUSPENDED_FLAG u] by (simp_all add: thread_flag_defs)
    have ex: "expired now s1 ys = expired now s ys" using quiet_simps(1) [OF s1(3)] by (simp add: expired_def)
    obtain s2 where s2: "wake_expired_loop k me now s1 (hd (map SleepL ys @ [SleepQ])) = Inr s2"
      "sched_inv s2 (a_wake_list s1 (expired now s ys) (a_wake s ?t v))" "quiet s1 s2"
      "\<forall>u g. RUNNABLE_FLAG AND g = 0 \<longrightarrow> has_flag s2 u g = has_flag s1 u g"
      using Cons.IH [OF s1(2), of "xs @ [q]" k] Cons.prems(2,3) n ex by auto
    have "wake_expired_loop n me now s p = Inr s2" using s1(1) s2(1) Cons.prems(4) n nx True by simp
    moreover have "a_wake_list s1 (expired now s ys) (a_wake s ?t v) = a_wake_list s (expired now s (q # ys)) v"
      using a_wake_list_cong [of s1 s, OF fl] True by (simp add: expired_def)
    ultimately show ?thesis using s2(2,3,4) s1(3,4) quiet_trans by auto
  qed
qed

lemma sched_wake_expired_inv:
  assumes i: "sched_inv s v"
  obtains s' where "sched_wake_expired me now s = Inr s'"
    and "sched_inv s' (a_wake_list s (expired now s (v_sleep v)) v)" and "quiet s s'"
    and "\<And>u g. RUNNABLE_FLAG AND g = 0 \<Longrightarrow> has_flag s' u g = has_flag s u g"
proof -
  note D = sched_invD [OF i]
  have "ring (lists s) SleepQ (map SleepL (v_sleep v))" using store_ring [OF D(5), of SleepQ] by simp
  then have "next_of (lists s) SleepQ = hd (map SleepL (v_sleep v) @ [SleepQ])" by (rule ring_first)
  moreover have "length (v_sleep v) < max_nodes s" using D(1) by (simp add: lists_ok_def)
  ultimately show thesis
    using wake_expired_loop_inv [OF i, of "[]" "v_sleep v" "max_nodes s" _ me now] that
    unfolding sched_wake_expired_def by auto
qed

section \<open>Choosing the next thread\<close>

definition eligible :: "sched \<Rightarrow> u32 \<Rightarrow> nat \<Rightarrow> bool" where
  "eligible s c t = (\<not> is_running s t \<and> is_runnable s t \<and> (cpu (threads s t) = c \<or> cpu (threads s t) = - 1))"

definition a_requeue :: "nat \<Rightarrow> view \<Rightarrow> view" where
  "a_requeue t v = v\<lparr>v_ready := remove1 t (v_ready v) @ [t]\<rparr>"

definition a_rotate :: "nat \<Rightarrow> view \<Rightarrow> view" where
  "a_rotate t v = (if t \<in> set (v_ready v) then a_requeue t v else v)"

lemma a_rotate_simps [simp]:
  "v_sleep (a_rotate t v) = v_sleep v" "v_dead (a_rotate t v) = v_dead v" "v_all (a_rotate t v) = v_all v"
  "v_join (a_rotate t v) = v_join v" "waits_join (a_rotate t v) u = waits_join v u"
  by (simp_all add: a_rotate_def a_requeue_def)

definition first_eligible :: "sched \<Rightarrow> nat \<Rightarrow> u32 \<Rightarrow> nat list \<Rightarrow> nat" where
  "first_eligible s me c ts = (case find (eligible s c) ts of Some t \<Rightarrow> t | None \<Rightarrow> idle_thread s me)"

lemma pick_loop_spec:
  assumes "ring (lists s) ReadyQ (map ReadyL (xs @ ys))" and "length ys < n"
    and "i + length ys \<le> unat (thread_id s)" and "p = hd (map ReadyL ys @ [ReadyQ])"
  shows "pick_loop n i s c p = Inr (case find (eligible s c) ys of Some t \<Rightarrow> t | None \<Rightarrow> 0)"
  using assms
proof (induction ys arbitrary: xs n i p)
  case Nil
  then show ?case by (cases n) auto
next
  case (Cons y ys)
  obtain k where n: "n = Suc k" using Cons.prems(2) by (cases n) auto
  have nx: "next_of (lists s) (ReadyL y) = hd (map ReadyL ys @ [ReadyQ])"
    using ring_next [of "lists s" ReadyQ "map ReadyL xs" "ReadyL y" "map ReadyL ys"] Cons.prems(1) by simp
  have IH: "pick_loop k (i + 1) s c (hd (map ReadyL ys @ [ReadyQ])) =
      Inr (case find (eligible s c) ys of Some t \<Rightarrow> t | None \<Rightarrow> 0)"
    using Cons.IH [of "xs @ [y]" k "i + 1"] Cons.prems n by simp
  show ?case
    using IH Cons.prems(3,4) n nx
    by (cases "eligible s c y") (simp_all add: eligible_def [of s c y, symmetric] bug_on_def)
qed

lemma requeue_inv:
  assumes i: "sched_inv s v" and t: "t \<in> set (v_ready v)"
  obtains h where "requeue t s = Inr (s\<lparr>lists := h\<rparr>)" and "sched_inv (s\<lparr>lists := h\<rparr>) (a_requeue t v)"
proof -
  note D = sched_invD [OF i]
  let ?h1 = "list_del_init (lists s) (ReadyL t)" and ?v1 = "a_unready t v"
  have st1: "store ?h1 (vq ?v1)" using store_ready_del [OF D(5) t] by (simp add: a_unready_def)
  have f: "t \<notin> set (v_ready ?v1)" "t \<notin> set (v_dead ?v1)" "\<not> waits_join ?v1 t"
    using set_remove1_queue [OF D(5)] queues_disjoint(5,6) [OF D(5)] t by auto
  obtain h where h: "list_add_tail ?h1 (ReadyL t) ReadyQ = Inr h"
    "store h (vq (?v1\<lparr>v_ready := v_ready ?v1 @ [t]\<rparr>))"
    using store_ready_add [OF st1 f] .
  have v: "?v1\<lparr>v_ready := v_ready ?v1 @ [t]\<rparr> = a_requeue t v"
    by (simp add: a_unready_def a_requeue_def)
  have set: "set (v_ready (a_requeue t v)) = set (v_ready v)"
    using set_remove1_queue [OF D(5)] t by (auto simp: a_requeue_def)
  have pr: "v_sleep (a_requeue t v) = v_sleep v" "v_dead (a_requeue t v) = v_dead v"
    "v_all (a_requeue t v) = v_all v" "v_join (a_requeue t v) = v_join v"
    "waits_join (a_requeue t v) u = waits_join v u" for u
    by (simp_all add: a_requeue_def)
  let ?s = "s\<lparr>lists := h\<rparr>"
  have "lists_ok ?s (a_requeue t v)" using D(1) h(2) v by (simp add: lists_ok_def set pr)
  moreover have "flags_ok ?s (a_requeue t v)" using D(2) by (simp add: flags_ok_def set pr)
  moreover have "sleep_ok ?s (a_requeue t v)" by (rule sleep_ok_cong [OF D(3)]) (simp_all add: pr)
  moreover have "cpus_ok ?s (a_requeue t v)" by (rule cpus_ok_cong [OF D(4)]) (simp_all add: pr)
  ultimately have "sched_inv ?s (a_requeue t v)" by (simp add: sched_inv_def)
  moreover have "requeue t s = Inr ?s" using h(1) by (simp add: requeue_def set_lists_def Let_def)
  ultimately show thesis using that by blast
qed

lemma ready_bound:
  assumes i: "sched_inv s v"
  shows "length (v_ready v) \<le> length (v_all v)"
proof -
  note D = sched_invD [OF i]
  have "set (v_ready v) \<subseteq> set (v_all v)" using D(1) by (simp add: lists_ok_def)
  then show ?thesis using queues_disjoint(1,3) [OF D(5)] by (metis card_mono distinct_card finite_set)
qed

lemma pick_thread_inv:
  assumes i: "sched_inv s v" and up: "cpu_state s me = CPU_UP" and p: "prv \<in> dom (v_join v)"
  defines "v1 \<equiv> a_rotate prv v"
  obtains h where "pick_thread me prv c s =
      (let nx = first_eligible s me c (v_ready v1) in Inr (nx, set_flag RUNNING_FLAG nx (s\<lparr>lists := h\<rparr>)))"
    and "sched_inv (s\<lparr>lists := h\<rparr>) v1"
proof -
  note D = sched_invD [OF i]
  have idle: "idle_thread s me \<notin> set (v_all v)" using D(4) up by (simp add: cpus_ok_def)
  have rq: "(is_runnable s prv \<and> prv \<noteq> idle_thread s me) = (prv \<in> set (v_ready v))"
    using D(7) [OF p] D(9) idle by auto
  obtain h where h: "(if is_runnable s prv \<and> prv \<noteq> idle_thread s me then requeue prv s else Inr s) = Inr (s\<lparr>lists := h\<rparr>)"
    "sched_inv (s\<lparr>lists := h\<rparr>) v1"
  proof (cases "prv \<in> set (v_ready v)")
    case True
    then show thesis using requeue_inv [OF i True] rq that by (auto simp: v1_def a_rotate_def)
  next
    case False
    then show thesis using that [of "lists s"] rq i by (simp add: v1_def a_rotate_def)
  qed
  let ?s = "s\<lparr>lists := h\<rparr>"
  note E = sched_invD [OF h(2)]
  have r: "ring (lists ?s) ReadyQ (map ReadyL ([] @ v_ready v1))" using store_ring [OF E(5), of ReadyQ] by simp
  have b: "length (v_ready v1) < max_nodes ?s" "0 + length (v_ready v1) \<le> unat (thread_id ?s)"
    using ready_bound [OF h(2)] E(1) by (auto simp: lists_ok_def)
  have el: "eligible ?s c = eligible s c" by (rule ext) (simp add: eligible_def)
  have loop: "pick_loop (max_nodes ?s) 0 ?s c (next_of (lists ?s) ReadyQ) =
     Inr (case find (eligible s c) (v_ready v1) of Some t \<Rightarrow> t | None \<Rightarrow> 0)"
    unfolding el [symmetric] by (rule pick_loop_spec [OF r b]) (use ring_first [OF r] in simp)
  have nz: "t \<noteq> 0" if "find (eligible s c) (v_ready v1) = Some t" for t
  proof -
    have "t \<in> set (v_ready v1)" using that by (auto simp: find_Some_iff)
    then have "t \<in> dom (v_join v1)" using E(6,9) by blast
    then show ?thesis using E(1) unfolding lists_ok_def by metis
  qed
  have nr: "\<not> is_running s t" if "find (eligible s c) (v_ready v1) = Some t" for t
    using that by (auto simp: find_Some_iff eligible_def)
  have "pick_thread me prv c s =
      (let nx = first_eligible s me c (v_ready v1) in Inr (nx, set_flag RUNNING_FLAG nx ?s))"
    unfolding pick_thread_def h(1) rbind_Inr loop
    by (cases "find (eligible s c) (v_ready v1)") (simp_all add: first_eligible_def nz nr bug_on_def Let_def)
  then show thesis using that h(2) by blast
qed

section \<open>schedule\<close>

definition core_same :: "sched \<Rightarrow> sched \<Rightarrow> bool" where
  "core_same s s' =
     (lists s' = lists s \<and> max_nodes s' = max_nodes s \<and> thread_id s' = thread_id s \<and> sleepers s' = sleepers s \<and>
      (\<forall>u. is_runnable s' u = is_runnable s u \<and> is_dying s' u = is_dying s u \<and>
           is_hibernating s' u = is_hibernating s u \<and> is_suspended s' u = is_suspended s u \<and>
           is_joining s' u = is_joining s u))"

lemma core_sameI:
  "sched_inv s v \<Longrightarrow> core_same s s' \<Longrightarrow> cpus_ok s' v \<Longrightarrow> sched_inv s' v"
  by (simp add: sched_inv_def core_same_def lists_ok_def flags_ok_def sleep_ok_def)

lemma sched_inv_upd:
  assumes i: "sched_inv s v" and f: "\<And>th. flags (f th) = flags th" "\<And>th. cpu (f th) = cpu th"
    "\<And>th. ip (f th) = ip th" "\<And>th. preempt_count (f th) \<ge> preempt_count th"
  shows "sched_inv (upd_thread s t f) v"
proof (rule core_sameI [OF i])
  show "core_same s (upd_thread s t f)" using f(1) by (simp add: core_same_def)
  have p: "preempt_count (threads (upd_thread s t f) u) \<ge> preempt_count (threads s u)"
    "cpu (threads (upd_thread s t f) u) = cpu (threads s u)" "ip (threads (upd_thread s t f) u) = ip (threads s u)" for u
    using f(2,3,4) by simp_all
  have c: "current_thread (upd_thread s t f) = current_thread s" "cpu_state (upd_thread s t f) = cpu_state s"
    "idle_thread (upd_thread s t f) = idle_thread s" by simp_all
  show "cpus_ok (upd_thread s t f) v"
    using sched_invD(4) [OF i] p unfolding cpus_ok_def c p(2,3) by (meson order_trans)
qed

lemma of_nat_cpu: "a < 64 \<Longrightarrow> b < 64 \<Longrightarrow> (of_nat a = (of_nat b :: u32)) \<longleftrightarrow> a = b"
  by (auto simp: word_unat_eq_iff unat_of_nat)

lemma of_nat_cpu_no: "a < 64 \<Longrightarrow> (of_nat a :: u32) \<noteq> - 1"
proof
  assume "a < 64" and "(of_nat a :: u32) = - 1"
  then have "unat (of_nat a :: u32) = unat (- 1 :: u32)" by simp
  moreover have "unat (of_nat a :: u32) = a" using \<open>a < 64\<close> by (simp add: unat_of_nat)
  moreover have "unat (- 1 :: u32) = 2 ^ 32 - 1" by (simp add: unsigned_minus_1_eq_mask mask_eq_exp_minus_1)
  ultimately show False using \<open>a < 64\<close> by simp
qed

definition may_run :: "sched \<Rightarrow> u32 \<Rightarrow> nat \<Rightarrow> bool" where
  "may_run s c t = (\<not> is_running s t \<and> (cpu (threads s t) = c \<or> cpu (threads s t) = - 1))"

definition can_schedule :: "sched \<Rightarrow> nat \<Rightarrow> bool" where
  "can_schedule s me =
     (cpu_state s me = CPU_UP \<and> \<not> in_irq s me \<and> \<not> irqs_disabled s me \<and>
      lock_count (threads s (current_thread s me)) = 0 \<and> is_preemptible (threads s (current_thread s me)))"

text \<open>The abstract scheduler: wake the expired sleepers, put the old thread last, take the first
  thread that may run here.\<close>

definition a_schedule :: "sched \<Rightarrow> nat \<Rightarrow> int \<Rightarrow> view \<Rightarrow> view" where
  "a_schedule s me now v =
     a_rotate (current_thread s me) (a_wake_list s (expired now s (v_sleep v)) v)"

definition a_next :: "sched \<Rightarrow> nat \<Rightarrow> view \<Rightarrow> nat" where
  "a_next s me v =
     (case find (may_run s (of_nat me)) (v_ready v) of Some t \<Rightarrow> t | None \<Rightarrow> idle_thread s me)"

lemma find_cong_set: "(\<And>x. x \<in> set xs \<Longrightarrow> P x = Q x) \<Longrightarrow> find P xs = find Q xs"
  by (induction xs) auto

lemma switch_cpus_ok:
  assumes c: "cpus_ok s v" and up: "cpu_state s me = CPU_UP" and ne: "current_thread s me \<noteq> nx"
    and nx: "nx \<in> dom (v_join v)" "cpu (threads s nx) = of_nat me \<or> cpu (threads s nx) = - 1"
    and st: "cpu_state s' = cpu_state s" "idle_thread s' = idle_thread s"
      "current_thread s' = (current_thread s)(me := nx)"
    and th: "\<And>u. cpu (threads s' u) = (if u = nx then of_nat me else cpu (threads s u))"
      "\<And>u. ip (threads s' u) = (if u = current_thread s me then In_schedule else ip (threads s u))"
      "\<And>u. preempt_count (threads s' u) = preempt_count (threads s u) +
         (if u = current_thread s me then 1 else 0) - (if u = nx \<and> ip (threads s nx) = In_schedule then 1 else 0)"
  shows "cpus_ok s' v"
proof -
  have me: "me < 64" using c up by (simp add: cpus_ok_def)
  have other: "current_thread s d \<noteq> nx" if d: "cpu_state s d = CPU_UP" "d \<noteq> me" for d
  proof
    assume e: "current_thread s d = nx"
    have "d < 64" "cpu (threads s nx) = of_nat d" using c d e unfolding cpus_ok_def by auto
    then show False using nx(2) of_nat_cpu [of d me] of_nat_cpu_no [of d] me d(2) by auto
  qed
  have nxp: "preempt_count (threads s nx) \<ge> 0 \<and> (ip (threads s nx) = In_schedule \<longrightarrow> preempt_count (threads s nx) \<ge> 1)"
  proof -
    have "current_thread s d \<noteq> nx" if "cpu_state s d = CPU_UP" for d using other ne that by (cases "d = me") auto
    then show ?thesis using c nx(1) unfolding cpus_ok_def by blast
  qed
  have 1: "d < 64 \<and> current_thread s' d \<in> dom (v_join v) \<and> cpu (threads s' (current_thread s' d)) = of_nat d \<and>
      idle_thread s' d \<in> dom (v_join v) - set (v_all v) \<and> cpu (threads s' (idle_thread s' d)) = of_nat d"
    if d: "cpu_state s' d = CPU_UP" for d
  proof -
    have C: "d < 64" "current_thread s d \<in> dom (v_join v)" "cpu (threads s (current_thread s d)) = of_nat d"
      "idle_thread s d \<in> dom (v_join v) - set (v_all v)" "cpu (threads s (idle_thread s d)) = of_nat d"
      using c d st(1) unfolding cpus_ok_def by auto
    have i: "idle_thread s d = nx \<Longrightarrow> d = me"
      using C(1,5) nx(2) of_nat_cpu [of d me] of_nat_cpu_no [of d] me by auto
    have up': "cpu_state s d = CPU_UP" using d st(1) by simp
    have cur: "current_thread s' d = (if d = me then nx else current_thread s d)" by (simp add: st(3))
    have a: "current_thread s' d \<in> dom (v_join v)" unfolding cur using C(2) nx(1) by simp
    have b: "cpu (threads s' (current_thread s' d)) = of_nat d"
      unfolding cur th(1) using C(3) other [OF up'] by simp
    have e: "cpu (threads s' (idle_thread s' d)) = of_nat d"
      unfolding st(2) th(1) using C(5) i by simp
    show ?thesis using C(1,4) a b e unfolding st(2) by blast
  qed
  have 2: "0 \<le> preempt_count (threads s' t) \<and>
      (ip (threads s' t) = In_schedule \<and> (\<forall>d. cpu_state s' d = CPU_UP \<longrightarrow> current_thread s' d \<noteq> t) \<longrightarrow>
        1 \<le> preempt_count (threads s' t))" if t: "t \<in> dom (v_join v)" for t
  proof -
    have P: "0 \<le> preempt_count (threads s t)" using c t unfolding cpus_ok_def by blast
    consider "t = nx" | "t = current_thread s me" "t \<noteq> nx" | "t \<noteq> nx" "t \<noteq> current_thread s me" by blast
    then show ?thesis
    proof cases
      case 1
      moreover have "current_thread s' me = t" using 1 st(3) by simp
      ultimately show ?thesis using nxp ne up st(1) by (auto simp: th(3))
    next
      case 2
      then show ?thesis using P by (auto simp: th(3))
    next
      case 3
      have cur: "current_thread s d \<noteq> t" if "\<forall>d. cpu_state s' d = CPU_UP \<longrightarrow> current_thread s' d \<noteq> t" "cpu_state s d = CPU_UP" for d
        using that 3 st(1,3) by (cases "d = me") (auto dest: spec [of _ d])
      have e: "preempt_count (threads s' t) = preempt_count (threads s t)" "ip (threads s' t) = ip (threads s t)"
        using 3 by (simp_all add: th(2,3))
      have "ip (threads s t) = In_schedule \<and> (\<forall>d. cpu_state s d = CPU_UP \<longrightarrow> current_thread s d \<noteq> t) \<longrightarrow>
          1 \<le> preempt_count (threads s t)" using c t unfolding cpus_ok_def by blast
      then show ?thesis unfolding e using P cur by blast
    qed
  qed
  show ?thesis unfolding cpus_ok_def using 1 2 by blast
qed

lemma sched_inv_running:
  assumes "sched_inv s v"
  shows "sched_inv (set_flag RUNNING_FLAG t s) v"
  by (rule sched_inv_frame [OF assms]) (use assms in \<open>auto simp: flag_simps sched_inv_def flags_ok_def\<close>)

text \<open>The last part of \<open>schedule\<close>, from the choice of \<open>nx\<close> on.\<close>

definition finish_schedule :: "nat \<Rightarrow> nat \<Rightarrow> u64 \<Rightarrow> nat \<Rightarrow> sched \<Rightarrow> sched res" where
  "finish_schedule me prv rt nx s4 =
     bug_on (is_dying s4 nx)
       (let s5 = upd_thread s4 nx (\<lambda>th. th\<lparr>cpu := cpu (threads s4 prv)\<rparr>);
            s6 = clear_flag RESCHED_FLAG prv s5;
            s7 = upd_thread s6 nx (\<lambda>th. th\<lparr>resched_running_time := rt + timeslice th,
                                            start_running_time := rt\<rparr>);
            s8 = s7\<lparr>timer := (timer s7)(me := timeslice (threads s7 nx))\<rparr>
        in if prv \<noteq> nx then bug_on (irqs_disabled s8 me) (switch_threads me prv nx s8)
           else preempt_enable_no_resched me s8)"

lemma finish_schedule_inv:
  assumes i: "sched_inv s v" and up: "cpu_state s me = CPU_UP" and irq: "\<not> irqs_disabled s me"
    and s4: "s4 = upd_thread s (current_thread s me) (\<lambda>th. th\<lparr>preempt_count := preempt_count th + 1\<rparr>)"
    and i4: "sched_inv s4 v"
    and nx: "nx \<in> dom (v_join v)" "cpu (threads s nx) = of_nat me \<or> cpu (threads s nx) = - 1" "\<not> is_dying s nx"
  obtains s' where "finish_schedule me (current_thread s me) rt nx s4 = Inr s'" and "sched_inv s' v"
    and "current_thread s' me = nx" and "cpu (threads s' nx) = of_nat me"
proof -
  let ?prv = "current_thread s me"
  note D = sched_invD [OF i]
  have cp: "cpu (threads s ?prv) = of_nat me" "?prv \<in> dom (v_join v)"
    using D(4) up by (auto simp: cpus_ok_def)
  define s5 where "s5 = upd_thread s4 nx (\<lambda>th. th\<lparr>cpu := cpu (threads s4 ?prv)\<rparr>)"
  define s6 where "s6 = clear_flag RESCHED_FLAG ?prv s5"
  define s7 where "s7 = upd_thread s6 nx (\<lambda>th. th\<lparr>resched_running_time := rt + timeslice th, start_running_time := rt\<rparr>)"
  define s8 where "s8 = s7\<lparr>timer := (timer s7)(me := timeslice (threads s7 nx))\<rparr>"
  have nd: "\<not> is_dying s4 nx" using nx(3) unfolding s4 by simp
  have e8: "finish_schedule me ?prv rt nx s4 =
      (if ?prv \<noteq> nx then bug_on (irqs_disabled s8 me) (switch_threads me ?prv nx s8)
       else preempt_enable_no_resched me s8)"
    unfolding finish_schedule_def using nd by (simp only: bug_on_False Let_def s8_def s7_def s6_def s5_def)
  have th8: "cpu (threads s8 u) = (if u = nx then of_nat me else cpu (threads s u))"
    "ip (threads s8 u) = ip (threads s u)"
    "preempt_count (threads s8 u) = preempt_count (threads s u) + (if u = ?prv then 1 else 0)" for u
    using cp(1) unfolding s8_def s7_def s6_def s5_def s4 by (auto simp: clear_flag_def)
  have st8: "cpu_state s8 = cpu_state s" "idle_thread s8 = idle_thread s" "current_thread s8 = current_thread s"
    "irqs_disabled s8 = irqs_disabled s" by (simp_all add: s8_def s7_def s6_def s5_def s4)
  have core8: "core_same s s8"
    unfolding core_same_def s8_def s7_def s6_def s5_def by (simp add: s4) (simp add: flag_simps)
  show thesis
  proof (cases "?prv = nx")
    case True
    define s9 where "s9 = upd_thread s8 ?prv (\<lambda>th. th\<lparr>preempt_count := preempt_count th + - 1\<rparr>)"
    have pc: "0 \<le> preempt_count (threads s ?prv)" using D(4) cp(2) unfolding cpus_ok_def by blast
    have th9: "cpu (threads s9 u) = cpu (threads s u)" "ip (threads s9 u) = ip (threads s u)"
      "preempt_count (threads s9 u) = preempt_count (threads s u)" for u
      unfolding s9_def upd_thread_simps(3) fun_upd_apply using th8 [of u] th8 [of ?prv] cp(1) True by auto
    have st9: "cpu_state s9 = cpu_state s" "idle_thread s9 = idle_thread s" "current_thread s9 = current_thread s"
      by (simp_all add: s9_def st8)
    have "preempt_enable_no_resched me s8 = Inr s9"
      unfolding preempt_enable_no_resched_def add_preempt_count_def st8(3) Let_def s9_def [symmetric]
      using th9(3) [of ?prv] pc by (simp add: bug_on_def)
    then have r: "finish_schedule me ?prv rt nx s4 = Inr s9" unfolding e8 using True by simp
    have "core_same s s9" using core8 unfolding core_same_def s9_def by simp
    moreover have "cpus_ok s9 v"
      by (rule cpus_ok_cong [OF D(4)]) (simp_all add: same_cpus_def th9 st9)
    ultimately have "sched_inv s9 v" by (rule core_sameI [OF i])
    moreover have "current_thread s9 me = nx" unfolding st9 using True by simp
    moreover have "cpu (threads s9 nx) = of_nat me" unfolding th9 using True cp(1) by simp
    ultimately show thesis using that r by blast
  next
    case False
    define a where "a = s8\<lparr>irqs_disabled := (irqs_disabled s8)(me := True), current_thread := (current_thread s8)(me := nx)\<rparr>"
    define b where "b = upd_thread a ?prv (\<lambda>th. th\<lparr>ip := In_schedule\<rparr>)"
    define c where "c = sched_switch_thread_in me ?prv b"
    have thb: "cpu (threads b u) = (if u = nx then of_nat me else cpu (threads s u))"
      "ip (threads b u) = (if u = ?prv then In_schedule else ip (threads s u))"
      "preempt_count (threads b u) = preempt_count (threads s u) + (if u = ?prv then 1 else 0)" for u
      unfolding b_def a_def upd_thread_simps(3) fun_upd_apply using th8 [of u] th8 [of ?prv] by auto
    have ipn: "ip (threads b nx) = ip (threads s nx)" unfolding thb using False by simp
    have thc: "cpu (threads c u) = cpu (threads b u)" "ip (threads c u) = ip (threads b u)"
      "preempt_count (threads c u) = preempt_count (threads b u)" for u
      by (simp_all add: c_def sched_switch_thread_in_def Let_def)
    have stb: "cpu_state b = cpu_state s" "idle_thread b = idle_thread s"
      "current_thread b = (current_thread s)(me := nx)" unfolding b_def a_def upd_thread_simps using st8 by simp_all
    have stc: "cpu_state c = cpu_state s" "idle_thread c = idle_thread s"
      "current_thread c = (current_thread s)(me := nx)"
      by (simp_all add: c_def sched_switch_thread_in_def Let_def stb)
    have coreb: "core_same s b" using core8 unfolding core_same_def b_def a_def by simp
    have corec: "core_same s c"
      using coreb unfolding core_same_def c_def sched_switch_thread_in_def Let_def
      by simp (simp add: flag_simps)
    have sw: "switch_threads me ?prv nx s8 =
        (case ip (threads b nx) of Thread_starter \<Rightarrow> Inr c | Idle_starter \<Rightarrow> Inr b
         | In_schedule \<Rightarrow> preempt_enable_no_resched me c)"
      by (simp only: switch_threads_def Let_def a_def b_def c_def)
    have r: "finish_schedule me ?prv rt nx s4 = switch_threads me ?prv nx s8"
      unfolding e8 st8 using False irq by simp
    have ne: "current_thread s me \<noteq> nx" using False .
    show thesis
    proof (cases "ip (threads s nx)")
      case Thread_starter
      have "cpus_ok c v"
        by (rule switch_cpus_ok [OF D(4) up ne nx(1,2) stc]) (simp_all only: thc thb Thread_starter, auto)
      then have "sched_inv c v" by (rule core_sameI [OF i corec])
      then show thesis using that [of c] r sw ipn Thread_starter stc(3) thc(1) thb(1) by simp
    next
      case Idle_starter
      have "cpus_ok b v"
        by (rule switch_cpus_ok [OF D(4) up ne nx(1,2) stb]) (simp_all only: thb Idle_starter, auto)
      then have "sched_inv b v" by (rule core_sameI [OF i coreb])
      then show thesis using that [of b] r sw ipn Idle_starter stb(3) thb(1) by simp
    next
      case In_schedule
      define d where "d = upd_thread c nx (\<lambda>th. th\<lparr>preempt_count := preempt_count th + - 1\<rparr>)"
      have cur: "current_thread c me = nx" unfolding stc by simp
      have thd: "cpu (threads d u) = (if u = nx then of_nat me else cpu (threads s u))"
        "ip (threads d u) = (if u = ?prv then In_schedule else ip (threads s u))"
        "preempt_count (threads d u) = preempt_count (threads s u) + (if u = ?prv then 1 else 0) -
           (if u = nx \<and> ip (threads s nx) = In_schedule then 1 else 0)" for u
        unfolding d_def upd_thread_simps(3) fun_upd_apply using thc [of u] thb [of u] In_schedule by auto
      have std: "cpu_state d = cpu_state s" "idle_thread d = idle_thread s"
        "current_thread d = (current_thread s)(me := nx)" unfolding d_def upd_thread_simps using stc by simp_all
      have ok: "cpus_ok d v" by (rule switch_cpus_ok [OF D(4) up ne nx(1,2) std thd])
      have "core_same s d" using corec unfolding core_same_def d_def by simp
      then have si: "sched_inv d v" using ok by (rule core_sameI [OF i])
      have "0 \<le> preempt_count (threads d nx)" using ok nx(1) unfolding cpus_ok_def by blast
      then have "preempt_enable_no_resched me c = Inr d"
        unfolding preempt_enable_no_resched_def add_preempt_count_def cur Let_def d_def [symmetric]
        by (simp add: bug_on_def)
      then show thesis using that [of d] r sw ipn In_schedule si std(3) thd(1) by simp
    qed
  qed
qed

lemma schedule_unfold:
  "schedule me now rt s =
     (let prv = current_thread s me in
      bug_on (in_irq s me) (bug_on (irqs_disabled s me)
      (bug_on (\<not> is_pthread s prv \<and> lock_count (threads s prv) \<noteq> 0)
      (bug_on (\<not> is_pthread s prv \<and> \<not> is_preemptible (threads s prv))
       (rbind (sched_wake_expired me now (upd_thread s prv (\<lambda>th. th\<lparr>cum_running_time :=
                  cum_running_time th + (rt - start_running_time th)\<rparr>))) (\<lambda>s2.
       rbind (preempt_disable me s2) (\<lambda>s3.
       rbind (choose_next me prv s3) (\<lambda>(nx, s4). finish_schedule me prv rt nx s4))))))))"
  unfolding schedule_def finish_schedule_def Let_def ..

lemma schedule_inv:
  fixes now :: int
  assumes i: "sched_inv s v" and can: "can_schedule s me"
  defines "v2 \<equiv> a_schedule s me now v"
  obtains s' where "schedule me now rt s = Inr s'" and "sched_inv s' v2"
    and "current_thread s' me = a_next s me v2" and "cpu (threads s' (a_next s me v2)) = of_nat me"
proof -
  let ?prv = "current_thread s me" and ?c = "of_nat me :: u32"
  have up: "cpu_state s me = CPU_UP" and irq: "\<not> irqs_disabled s me" using can by (simp_all add: can_schedule_def)
  let ?s1 = "upd_thread s ?prv (\<lambda>th. th\<lparr>cum_running_time := cum_running_time th + (rt - start_running_time th)\<rparr>)"
  have i1: "sched_inv ?s1 v" by (rule sched_inv_upd [OF i]) simp_all
  obtain s2 where s2: "sched_wake_expired me now ?s1 = Inr s2"
    "sched_inv s2 (a_wake_list ?s1 (expired now ?s1 (v_sleep v)) v)" "quiet ?s1 s2"
    "\<And>u g. RUNNABLE_FLAG AND g = 0 \<Longrightarrow> has_flag s2 u g = has_flag ?s1 u g"
    using sched_wake_expired_inv [OF i1] by blast
  note Q = quiet_simps [OF s2(3)]
  define v1 where "v1 = a_wake_list s (expired now s (v_sleep v)) v"
  have "a_wake_list ?s1 (expired now ?s1 (v_sleep v)) v = v1"
    unfolding v1_def using a_wake_list_cong [of ?s1 s] by (simp add: expired_def)
  then have i2: "sched_inv s2 v1" using s2(2) by simp
  have v2: "v2 = a_rotate ?prv v1" unfolding v2_def a_schedule_def v1_def ..
  have st2: "current_thread s2 = current_thread s" "cpu_state s2 = cpu_state s" "idle_thread s2 = idle_thread s"
    "irqs_disabled s2 = irqs_disabled s" "cpu (threads s2 u) = cpu (threads s u)" for u
    using Q by (simp_all del: fun_upd_apply) (simp add: Q(13))
  note D2 = sched_invD [OF i2]
  have prv: "?prv \<in> dom (v_join v1)" "cpu (threads s2 ?prv) = ?c" "me < 64"
    using D2(4) up unfolding cpus_ok_def st2(1,2) by auto
  let ?s3 = "upd_thread s2 ?prv (\<lambda>th. th\<lparr>preempt_count := preempt_count th + 1\<rparr>)"
  have pc: "0 \<le> preempt_count (threads s2 ?prv)" using D2(4) prv(1) unfolding cpus_ok_def by blast
  have s3: "preempt_disable me s2 = Inr ?s3"
    using pc by (simp add: preempt_disable_def add_preempt_count_def st2(1) bug_on_def Let_def)
  have i3: "sched_inv ?s3 v1" by (rule sched_inv_upd [OF i2]) simp_all
  have up3: "cpu_state ?s3 me = CPU_UP" using up st2 by simp
  define nx where "nx = first_eligible ?s3 me ?c (v_ready v2)"
  obtain h where h: "pick_thread me ?prv ?c ?s3 = Inr (nx, set_flag RUNNING_FLAG nx (?s3\<lparr>lists := h\<rparr>))"
    "sched_inv (?s3\<lparr>lists := h\<rparr>) v2"
    using pick_thread_inv [OF i3 up3 prv(1), of ?c] unfolding v2 nx_def Let_def by blast
  define sb where "sb = set_flag RUNNING_FLAG nx (s2\<lparr>lists := h\<rparr>)"
  define s4 where "s4 = set_flag RUNNING_FLAG nx (?s3\<lparr>lists := h\<rparr>)"
  have s4b: "s4 = upd_thread sb (current_thread sb me) (\<lambda>th. th\<lparr>preempt_count := preempt_count th + 1\<rparr>)"
    unfolding s4_def sb_def set_flag_def upd_thread_def using st2(1) by (auto simp: fun_eq_iff)
  have i4: "sched_inv s4 v2" unfolding s4_def by (rule sched_inv_running [OF h(2)])
  have ib: "sched_inv sb v2"
  proof (rule core_sameI [OF i4])
    show "core_same s4 sb" unfolding s4b core_same_def by simp
    have "cpus_ok s2 v1" by (rule D2(4))
    then show "cpus_ok sb v2" by (rule cpus_ok_cong) (simp_all add: sb_def v2)
  qed
  note Db = sched_invD [OF ib]
  have stb: "current_thread sb = current_thread s" "cpu_state sb = cpu_state s" "idle_thread sb = idle_thread s"
    "irqs_disabled sb = irqs_disabled s" "cpu (threads sb u) = cpu (threads s u)" for u
    by (simp_all add: sb_def st2)
  have run: "is_running ?s3 u = is_running s u" for u
    using s2(4) [of RUNNING_FLAG u] by (simp add: thread_flag_defs)
  have el: "eligible ?s3 ?c u = may_run s ?c u" if "u \<in> set (v_ready v2)" for u
  proof -
    have "u \<in> dom (v_join v2)" using sched_invD(6,9) [OF h(2)] that by blast
    then have "is_runnable (?s3\<lparr>lists := h\<rparr>) u" using sched_invD(7) [OF h(2)] that by blast
    then show ?thesis using run [of u] by (simp add: eligible_def may_run_def st2(5))
  qed
  have fe: "find (eligible ?s3 ?c) (v_ready v2) = find (may_run s ?c) (v_ready v2)"
    by (rule find_cong_set) (rule el)
  have id3: "idle_thread ?s3 = idle_thread s" using st2(3) by simp
  have nxe: "nx = a_next s me v2"
    unfolding nx_def first_eligible_def a_next_def fe id3 ..
  have nxd: "nx \<in> dom (v_join v2) \<and> (cpu (threads sb nx) = ?c \<or> cpu (threads sb nx) = - 1) \<and> \<not> is_dying sb nx
     \<and> (nx \<in> set (v_ready v2) \<or> nx = idle_thread s me)"
  proof (cases "find (may_run s ?c) (v_ready v2)")
    case None
    then have e: "nx = idle_thread s me" by (simp add: nxe a_next_def)
    have id: "idle_thread s me \<in> dom (v_join v2) - set (v_all v2)" "cpu (threads sb (idle_thread s me)) = ?c"
      using Db(4) up unfolding cpus_ok_def stb by auto
    moreover have "\<not> is_dying sb nx"
      using Db(8) [of nx] id e Db(1) unfolding lists_ok_def by blast
    ultimately show ?thesis using e by blast
  next
    case (Some t)
    have t: "nx = t" using Some by (simp add: nxe a_next_def)
    have t: "nx = t" "t \<in> set (v_ready v2)" "may_run s ?c t"
      using t Some by (auto simp: find_Some_iff)
    have "t \<in> dom (v_join v2)" using Db(6,9) t(2) by blast
    moreover have "\<not> is_dying sb t" using Db(8) calculation queues_disjoint(5) [OF Db(5)] t(2) by blast
    ultimately show ?thesis using t by (auto simp: may_run_def stb)
  qed
  have "unat (cpu (threads ?s3 ?prv)) = me" using prv(2,3) by (simp add: unat_of_nat)
  then have "choose_next me ?prv ?s3 = Inr (nx, s4)"
  proof -
    have c3: "cpu (threads ?s3 ?prv) = ?c" using prv(2) by simp
    have m: "unat ?c = me" using prv(3) by (simp add: unat_of_nat)
    have "is_runnable s4 nx \<or> nx = idle_thread s4 me"
      using nxd sched_invD(7) [OF i4] by (auto simp: s4_def st2(3))
    then show ?thesis
      unfolding choose_next_def c3 m Let_def h(1) s4_def [symmetric] using up3 by (simp add: bug_on_def)
  qed
  moreover obtain s' where fin: "finish_schedule me ?prv rt nx s4 = Inr s'" "sched_inv s' v2"
    "current_thread s' me = nx" "cpu (threads s' nx) = ?c"
    using finish_schedule_inv [OF ib _ _ s4b i4, of nx rt] nxd up irq unfolding stb by blast
  ultimately have "schedule me now rt s = Inr s'"
    using can s2(1) s3 unfolding schedule_unfold Let_def by (simp add: can_schedule_def)
  then show thesis using that fin nxe by simp
qed

end
