(* ===== verification/Sched_Props.thy ===== *)
theory Sched_Props
  imports Sched_Inv
begin

text \<open>
  Joining and exiting, the runs of the scheduler, and its properties.  A step of a run is one
  operation of \<^verbatim>\<open>sched.c\<close> called under the discipline that the kernel keeps; the properties at
  the end say what the operations guarantee, and what goes wrong outside the discipline.
\<close>

section \<open>Joining\<close>

definition no_timer :: "sched \<Rightarrow> view \<Rightarrow> nat \<Rightarrow> bool" where
  "no_timer s v t = (\<forall>q \<in> set (v_sleep v). sq_thread (sleepers s q) \<noteq> t)"

lemma find_thread_finds:
  assumes "ring (lists s) ThreadList (map ThreadL (xs @ ys))" and "length ys < n"
    and "p = hd (map ThreadL ys @ [ThreadList])"
  shows "find_thread n s i p = Inr (case find (\<lambda>t. ident (threads s t) = i) ys of Some t \<Rightarrow> t | None \<Rightarrow> 0)"
  using assms
proof (induction ys arbitrary: xs n p)
  case Nil
  then show ?case by (cases n) auto
next
  case (Cons y ys)
  obtain k where n: "n = Suc k" using Cons.prems(2) by (cases n) auto
  have nx: "next_of (lists s) (ThreadL y) = hd (map ThreadL ys @ [ThreadList])"
    using ring_next [of "lists s" ThreadList "map ThreadL xs" "ThreadL y" "map ThreadL ys"] Cons.prems(1) by simp
  show ?case using Cons.IH [of "xs @ [y]" k] Cons.prems n nx by simp
qed

lemma sched_get_thread_spec:
  assumes i: "sched_inv s v"
  shows "sched_get_thread k s = Inr (case find (\<lambda>t. ident (threads s t) = k) (v_all v) of Some t \<Rightarrow> t | None \<Rightarrow> 0)"
proof -
  note D = sched_invD [OF i]
  have r: "ring (lists s) ThreadList (map ThreadL ([] @ v_all v))" using store_ring [OF D(5), of ThreadList] by simp
  have b: "length (v_all v) < max_nodes s" using D(1) by (simp add: lists_ok_def)
  show ?thesis unfolding sched_get_thread_def
    by (rule find_thread_finds [OF r b]) (use ring_first [OF r] in simp)
qed

lemma sched_get_thread_live:
  assumes i: "sched_inv s v" and j: "j \<in> set (v_all v)"
  obtains t where "sched_get_thread (ident (threads s j)) s = Inr t" and "t \<noteq> 0"
proof -
  obtain t where t: "find (\<lambda>t. ident (threads s t) = ident (threads s j)) (v_all v) = Some t"
    using j by (cases "find (\<lambda>t. ident (threads s t) = ident (threads s j)) (v_all v)") (auto simp: find_None_iff)
  then have "t \<in> set (v_all v)" by (auto simp: find_Some_iff)
  then have "t \<noteq> 0" using sched_invD(6) [OF i] sched_invD(1) [OF i] unfolding lists_ok_def by metis
  then show thesis using that sched_get_thread_spec [OF i] t by simp
qed

definition a_join :: "nat \<Rightarrow> nat \<Rightarrow> view \<Rightarrow> view" where
  "a_join t j v = (a_unready t v)\<lparr>v_join := (v_join v)(j \<mapsto> the (v_join v j) @ [t])\<rparr>"

lemma join_thread_inv:
  assumes i: "sched_inv s v" and t: "t = current_thread s me" "t \<in> set (v_ready v)" "\<not> is_joining s t"
    and nt: "no_timer s v t" and j: "j \<in> set (v_all v)"
  obtains s' where "join_thread me j s = Inr (True, s')" and "sched_inv s' (a_join t j v)" and "quiet s s'"
proof -
  note D = sched_invD [OF i]
  have td: "t \<in> dom (v_join v)" using D(6,9) t(2) by blast
  have nd: "\<not> is_dying s t" using D(8) [OF td] queues_disjoint(5) [OF D(5)] t(2) by blast
  obtain f where f: "sched_get_thread (ident (threads s j)) s = Inr f" "f \<noteq> 0"
    using sched_get_thread_live [OF i j] .
  let ?s0 = "upd_thread s t (\<lambda>th. th\<lparr>regs := 0\<rparr>)"
  have i0: "sched_inv ?s0 v" using i by simp
  have nj: "\<not> is_joining ?s0 t" using t(3) by simp
  obtain s1 where s1: "block t ?s0 = Inr s1" "sched_inv s1 (a_unready t v)" "quiet ?s0 s1"
    "\<And>u g. RUNNABLE_FLAG AND g = 0 \<Longrightarrow> has_flag s1 u g = has_flag ?s0 u g"
    using block_inv [OF i0 t(2) nj] by blast
  note E = sched_invD [OF s1(2)]
  obtain xs where xs: "v_join v j = Some xs" using D(6) [OF j] by auto
  have fr: "free_node (vq (a_unready t v)) (ReadyL t)"
    using set_remove1_queue [OF D(5)] queues_disjoint(5,6) [OF D(5)] t(2) by (auto simp: free_ready)
  have "vq (a_unready t v) (Joiners j) = Some (map ReadyL xs)" using xs by simp
  then obtain h where h: "list_add_tail (lists s1) (ReadyL t) (Joiners j) = Inr h"
    "store h ((vq (a_unready t v))(Joiners j \<mapsto> map ReadyL xs @ [ReadyL t]))"
    using store_add_tail [OF E(5) _ fr] by blast
  have q: "(vq (a_unready t v))(Joiners j \<mapsto> map ReadyL xs @ [ReadyL t]) = vq (a_join t j v)"
    using vq_upd(5) [of "a_unready t v" j "xs @ [t]"] by (simp add: a_join_def xs)
  let ?s = "set_flag JOINING_FLAG t (s1\<lparr>lists := h\<rparr>)"
  have v: "v_ready (a_join t j v) = v_ready (a_unready t v)" "v_dead (a_join t j v) = v_dead v"
    "v_all (a_join t j v) = v_all v" "v_sleep (a_join t j v) = v_sleep v"
    "dom (v_join (a_join t j v)) = dom (v_join v)"
    using xs by (auto simp: a_join_def a_unready_def)
  have w: "waits_join (a_join t j v) u \<longleftrightarrow> waits_join v u \<or> u = t" for u
  proof
    assume "waits_join (a_join t j v) u"
    then show "waits_join v u \<or> u = t" using xs by (fastforce simp: waits_join_def a_join_def split: if_splits)
  next
    assume "waits_join v u \<or> u = t"
    then show "waits_join (a_join t j v) u"
    proof
      assume "waits_join v u"
      then obtain k ys where k: "v_join v k = Some ys" "u \<in> set ys" by (auto simp: waits_join_def)
      show ?thesis unfolding waits_join_def
        by (rule exI [of _ k], rule exI [of _ "if k = j then ys @ [t] else ys"])
           (use k xs in \<open>auto simp: a_join_def\<close>)
    qed (auto simp: waits_join_def a_join_def intro!: exI [of _ j])
  qed
  note Q = quiet_simps [OF s1(3)]
  have "lists_ok ?s (a_join t j v)"
    using E(1) h(2) q D(9) [OF t(2)] unfolding lists_ok_def v w by simp
  moreover have "flags_ok ?s (a_join t j v)"
    using E(2) unfolding flags_ok_def v w by (simp add: flag_simps)
  moreover have "sleep_ok ?s (a_join t j v)"
    using E(3) nt Q(1) unfolding sleep_ok_def v w no_timer_def by simp
  moreover have "cpus_ok ?s (a_join t j v)" by (rule cpus_ok_cong [OF E(4)]) (simp_all add: v)
  ultimately have "sched_inv ?s (a_join t j v)" by (simp add: sched_inv_def)
  moreover have "join_thread me j s = Inr (True, ?s)"
    unfolding join_thread_def Let_def t(1) [symmetric]
    using nd f s1(1) h(1) by (simp add: set_lists_def)
  moreover have "quiet s ?s"
    by (intro quiet_intros) (rule quiet_trans [OF _ s1(3)], intro quiet_intros)
  ultimately show thesis using that by blast
qed

section \<open>Runs\<close>

text \<open>A step: an operation, the discipline its callers keep, and what the abstract scheduler does.\<close>

inductive sched_step :: "sched \<Rightarrow> view \<Rightarrow> sched \<Rightarrow> view \<Rightarrow> bool" where
  step_schedule: "can_schedule s me \<Longrightarrow> schedule me now rt s = Inr s' \<Longrightarrow>
     sched_step s v s' (a_schedule s me now v)"
| step_wake: "wakeable s v t \<Longrightarrow> wake me t s = Inr s' \<Longrightarrow> sched_step s v s' (a_wake s t v)"
| step_block: "t \<in> set (v_ready v) \<Longrightarrow> \<not> is_joining s t \<Longrightarrow> block t s = Inr s' \<Longrightarrow>
     sched_step s v s' (a_unready t v)"
| step_start: "wakeable s v t \<Longrightarrow> t \<notin> set (v_ready v) \<Longrightarrow> \<not> is_hibernating s t \<Longrightarrow> \<not> is_suspended s t \<Longrightarrow>
     start_thread me t s = Inr s' \<Longrightarrow> sched_step s v s' (a_ready t v)"
| step_suspend: "t \<in> set (v_all v) \<Longrightarrow> t \<notin> set (v_dead v) \<Longrightarrow>
     (t \<in> set (v_ready v) \<longrightarrow> \<not> is_sleeping s t \<and> \<not> is_joining s t) \<Longrightarrow>
     sched_step s v (suspend_thread t s) (a_unready t v)"
| step_resume: "t \<in> set (v_all v) \<Longrightarrow> t \<notin> set (v_dead v) \<Longrightarrow> t \<notin> set (v_ready v) \<Longrightarrow>
     wake_suspended_thread me t s = Inr s' \<Longrightarrow>
     sched_step s v s' (if is_hibernating s t \<or> is_sleeping s t \<or> is_joining s t then v else a_ready t v)"
| step_hibernate: "wakeable s v t \<Longrightarrow> (t \<in> set (v_ready v) \<longrightarrow> \<not> is_sleeping s t) \<Longrightarrow>
     sched_step s v (hibernate t s) (a_unready t v)"
| step_restore: "wakeable s v t \<Longrightarrow> t \<notin> set (v_ready v) \<Longrightarrow> restore me t s = Inr s' \<Longrightarrow>
     sched_step s v s' (if is_suspended s t \<or> is_sleeping s t then v else a_ready t v)"
| step_sleep: "q \<notin> set (v_sleep v) \<Longrightarrow> Suc (length (v_sleep v)) < max_nodes s \<Longrightarrow>
     wakeable s v (sq_thread (sleepers s q)) \<Longrightarrow> sleep_queue_add q s = Inr s' \<Longrightarrow>
     sched_step s v s' (a_sleep s q v)"
| step_wakeup: "sched_step s v (sleep_queue_del q s) (v\<lparr>v_sleep := remove1 q (v_sleep v)\<rparr>)"
| step_join: "t = current_thread s me \<Longrightarrow> t \<in> set (v_ready v) \<Longrightarrow> \<not> is_joining s t \<Longrightarrow> no_timer s v t \<Longrightarrow>
     j \<in> set (v_all v) \<Longrightarrow> join_thread me j s = Inr (True, s') \<Longrightarrow> sched_step s v s' (a_join t j v)"
| step_joined: "\<not> waits_join v t \<Longrightarrow> sched_step s v (join_thread_resumed t s) v"

inductive_cases sched_step_scheduleE: "sched_step s v s' (a_schedule s me now v)"

inductive sched_run :: "sched \<Rightarrow> view \<Rightarrow> sched \<Rightarrow> view \<Rightarrow> bool" for s0 v0 where
  run_start: "sched_run s0 v0 s0 v0"
| run_step: "sched_run s0 v0 s v \<Longrightarrow> sched_step s v s' v' \<Longrightarrow> sched_run s0 v0 s' v'"

lemma sched_step_inv:
  assumes "sched_step s v s' v'" and i: "sched_inv s v"
  shows "sched_inv s' v'"
  using assms(1)
proof cases
  case (step_schedule me now rt)
  show ?thesis by (rule schedule_inv [OF i step_schedule(2), of now rt]) (use step_schedule in simp)
next
  case (step_wake t me)
  show ?thesis by (rule wake_inv [OF i step_wake(2), of me]) (use step_wake in simp)
next
  case (step_block t)
  show ?thesis by (rule block_inv [OF i step_block(2,3)]) (use step_block in simp)
next
  case (step_start t me)
  then have "t \<in> set (v_all v)" "t \<notin> set (v_dead v)" "\<not> waits_join v t" by (simp_all add: wakeable_def)
  then show ?thesis
    by (rule start_thread_inv [OF i _ step_start(3) _ _ step_start(4,5), of me]) (use step_start in simp)
next
  case (step_suspend t)
  then show ?thesis using suspend_thread_inv(1) [OF i, of t] by blast
next
  case (step_resume t me)
  show ?thesis by (rule wake_suspended_inv [OF i step_resume(2,3,4), of me]) (use step_resume in simp)
next
  case (step_hibernate t)
  then show ?thesis using hibernate_inv(1) [OF i, of t] unfolding wakeable_def by blast
next
  case (step_restore t me)
  then have "t \<in> set (v_all v)" "t \<notin> set (v_dead v)" "\<not> waits_join v t" by (simp_all add: wakeable_def)
  then show ?thesis
    by (rule restore_inv [OF i _ _ step_restore(3), of me]) (use step_restore in simp)
next
  case (step_sleep q)
  show ?thesis by (rule sleep_queue_add_inv [OF i step_sleep(2,3,4)]) (use step_sleep in simp)
next
  case (step_wakeup q)
  then show ?thesis using sleep_queue_del_inv [OF i, of q] by simp
next
  case (step_join t me j)
  show ?thesis by (rule join_thread_inv [OF i step_join(2,3,4,5,6)]) (use step_join in simp)
next
  case (step_joined t)
  have "sched_inv (join_thread_resumed t s) v"
    unfolding join_thread_resumed_def
    by (rule sched_inv_frame [OF i])
       (use step_joined i in \<open>auto simp: flag_simps sched_inv_def flags_ok_def\<close>)
  then show ?thesis using step_joined by simp
qed

lemma sched_run_inv: "sched_run s0 v0 s v \<Longrightarrow> sched_inv s0 v0 \<Longrightarrow> sched_inv s v"
  by (induction rule: sched_run.induct) (auto intro: sched_step_inv)

section \<open>A small state\<close>

definition no_links :: "node links" where
  "no_links = \<lparr>next_of = (\<lambda>n. n), prev_of = (\<lambda>n. n)\<rparr>"

definition blank_thread :: thread where
  "blank_thread = \<lparr>flags = 0, ident = 0, cpu = 0, preempt_count = 0, regs = 0, fpregs = 0, stack = 0,
     stack_allocated = False, timeslice = 20000000, resched_running_time = 0, start_running_time = 0,
     cum_running_time = 0, lock_count = 0, appsched_id = - 1, ip = Thread_starter\<rparr>"

text \<open>Processor 0 runs its idle thread 1; the threads 5 and 6 exist, 5 is on the ready queue.\<close>

definition demo_view :: view where
  "demo_view = \<lparr>v_ready = [5], v_sleep = [], v_dead = [], v_all = [5, 6],
     v_join = [1 \<mapsto> [], 5 \<mapsto> [], 6 \<mapsto> []], v_wait = Map.empty\<rparr>"

definition demo_links :: "node links" where
  "demo_links =
     list_add_between (list_add_between (list_add_between no_links (ThreadL 5) ThreadList ThreadList)
        (ThreadL 6) (ThreadL 5) ThreadList)
        (ReadyL 5) ReadyQ ReadyQ"

definition demo_sched :: sched where
  "demo_sched = \<lparr>lists = demo_links,
     threads = (\<lambda>_. blank_thread)
       (1 := blank_thread\<lparr>flags := RUNNING_FLAG OR UKERNEL_FLAG\<rparr>,
        5 := blank_thread\<lparr>flags := RUNNABLE_FLAG OR UKERNEL_FLAG, cpu := - 1, ident := 64\<rparr>,
        6 := blank_thread\<lparr>flags := UKERNEL_FLAG, cpu := - 1, ident := 65\<rparr>),
     sleepers = (\<lambda>_. \<lparr>sq_flags = 0, timeout = 100, sq_thread = 6\<rparr>),
     completion_done = (\<lambda>_. 0), waiter_of = (\<lambda>_. 0),
     current_thread = (\<lambda>_. 1), idle_thread = (\<lambda>_. 1), cpu_state = (\<lambda>c. if c = 0 then 1 else 0),
     irqcount = (\<lambda>_. - 1), irqs_disabled = (\<lambda>_. False), smp_init_completed = True,
     thread_id = 66, kicked = [], timer = (\<lambda>_. 0), freed_stacks = [], freed_threads = [], max_nodes = 20\<rparr>"

lemma demo_store: "store demo_links (vq demo_view)"
proof -
  let ?v0 = "\<lparr>v_ready = [], v_sleep = [], v_dead = [], v_all = [],
     v_join = [1 \<mapsto> [], 5 \<mapsto> [], 6 \<mapsto> []], v_wait = Map.empty\<rparr>"
  have u: "unlinked no_links n" for n by (simp add: unlinked_def no_links_def)
  have e: "vq ?v0 head = Some xs \<Longrightarrow> xs = []" for head xs
    by (cases head) (auto split: if_splits)
  have "store no_links (vq ?v0)"
    unfolding store_def rings_def using u e ring_singleton by fastforce
  then obtain h1 where h1: "list_add_tail no_links (ThreadL 5) ThreadList = Inr h1"
    "store h1 ((vq ?v0)(ThreadList \<mapsto> map ThreadL [5]))"
    using store_add_tail [of no_links "vq ?v0" ThreadList "[]" "ThreadL 5"] by (auto simp: free_thread)
  then have s1: "store h1 (vq (?v0\<lparr>v_all := [5]\<rparr>))" unfolding vq_upd by simp
  then obtain h2 where h2: "list_add_tail h1 (ThreadL 6) ThreadList = Inr h2"
    "store h2 ((vq (?v0\<lparr>v_all := [5]\<rparr>))(ThreadList \<mapsto> map ThreadL [5, 6]))"
    using store_add_tail [OF s1, of ThreadList "[ThreadL 5]" "ThreadL 6"] by (auto simp: free_thread)
  then have s2: "store h2 (vq (?v0\<lparr>v_all := [5, 6]\<rparr>))" unfolding vq_upd by simp
  have f: "free_node (vq (?v0\<lparr>v_all := [5, 6]\<rparr>)) (ReadyL 5)"
    by (auto simp: free_ready waits_join_def split: if_splits)
  obtain h3 where h3: "list_add_tail h2 (ReadyL 5) ReadyQ = Inr h3"
    "store h3 ((vq (?v0\<lparr>v_all := [5, 6]\<rparr>))(ReadyQ \<mapsto> map ReadyL [5]))"
    using store_add_tail [OF s2 _ f, of ReadyQ "[]"] by auto
  then have "store h3 (vq demo_view)" unfolding vq_upd by (simp add: demo_view_def)
  moreover have "h3 = demo_links"
    using h1(1) h2(1) h3(1)
    by (auto simp: demo_links_def list_add_tail_def Let_def no_links_def list_add_between_def bug_on_def
          set_next_def set_prev_def split: if_splits)
  ultimately show ?thesis by simp
qed

lemma demo_waits: "\<not> waits_join demo_view t"
  by (auto simp: waits_join_def demo_view_def split: if_splits)

lemma demo_inv: "sched_inv demo_sched demo_view"
proof -
  have "lists_ok demo_sched demo_view"
    unfolding lists_ok_def using demo_store demo_waits by (simp add: demo_sched_def demo_view_def)
  moreover have "flags_ok demo_sched demo_view"
    unfolding flags_ok_def using demo_waits
    by (auto simp: demo_sched_def demo_view_def has_flag_def blank_thread_def thread_flag_defs)
  moreover have "sleep_ok demo_sched demo_view" by (simp add: sleep_ok_def demo_view_def)
  moreover have "cpus_ok demo_sched demo_view"
    by (auto simp: cpus_ok_def demo_sched_def demo_view_def blank_thread_def CPU_UP_def split: if_splits)
  ultimately show ?thesis by (simp add: sched_inv_def)
qed

section \<open>Properties\<close>

text \<open>
  C6: in a state that satisfies the invariant, a processor that is up and may schedule never
  faults in \<open>schedule\<close>: the expired sleepers join the end of the ready queue, the old thread goes
  behind them if it is still runnable, and the processor continues with the first thread of the queue
  that is not running and belongs to this processor or to none, or with its idle thread.  The
  invariant holds again.
\<close>

theorem schedule_first_ready:
  assumes "sched_inv s v" and "can_schedule s me"
  shows "\<exists>s'. schedule me now rt s = Inr s' \<and> sched_inv s' (a_schedule s me now v) \<and>
     current_thread s' me = a_next s me (a_schedule s me now v) \<and>
     cpu (threads s' (current_thread s' me)) = of_nat me"
  by (rule schedule_inv [OF assms, of now rt]) auto

theorem schedule_first_ready_witness:
  "\<exists>s'. schedule 0 0 0 demo_sched = Inr s' \<and> current_thread s' 0 = 5"
proof -
  have c: "can_schedule demo_sched 0"
    by (simp add: can_schedule_def demo_sched_def in_irq_def blank_thread_def is_preemptible_def CPU_UP_def)
  obtain s' where s': "schedule 0 0 0 demo_sched = Inr s'"
    "current_thread s' 0 = a_next demo_sched 0 (a_schedule demo_sched 0 0 demo_view)"
    using schedule_first_ready [OF demo_inv c, of 0 0] by blast
  have "a_schedule demo_sched 0 0 demo_view = demo_view"
    by (simp add: a_schedule_def demo_view_def demo_sched_def expired_def a_rotate_def)
  then have "current_thread s' 0 = 5"
    using s'(2) by (simp add: a_next_def may_run_def demo_view_def demo_sched_def has_flag_def thread_flag_defs)
  then show ?thesis using s'(1) by blast
qed



text \<open>
  C25: \<open>sleep_queue_add\<close> keeps the sleep queue in memory sorted by wake-up time, with the new
  entry behind the entries of the same time.
\<close>

theorem sleep_queue_add_sorted:
  assumes "sched_inv s v" and "q \<notin> set (v_sleep v)" and "Suc (length (v_sleep v)) < max_nodes s"
    and "wakeable s v (sq_thread (sleepers s q))"
  shows "\<exists>s' qs. sleep_queue_add q s = Inr s' \<and> sched_inv s' (v\<lparr>v_sleep := qs\<rparr>) \<and>
     list_nodes (max_nodes s') (lists s') SleepQ = Some (map SleepL qs) \<and>
     sorted (map (\<lambda>e. timeout (sleepers s' e)) qs) \<and>
     qs = takeWhile (\<lambda>e. timeout (sleepers s e) \<le> timeout (sleepers s q)) (v_sleep v) @
          q # dropWhile (\<lambda>e. timeout (sleepers s e) \<le> timeout (sleepers s q)) (v_sleep v)"
proof -
  obtain s' where s': "sleep_queue_add q s = Inr s'" "sched_inv s' (a_sleep s q v)"
    by (rule sleep_queue_add_inv [OF assms])
  note D = sched_invD [OF s'(2)]
  let ?qs = "insert_sleep s q (v_sleep v)"
  have "length ?qs < max_nodes s'" using D(1) by (simp add: lists_ok_def a_sleep_def)
  then have "list_nodes (max_nodes s') (lists s') SleepQ = Some (map SleepL ?qs)"
    using store_nodes [OF D(5), of SleepQ] by (simp add: a_sleep_def)
  moreover have "sorted (map (\<lambda>e. timeout (sleepers s' e)) ?qs)"
    using D(3) by (simp add: sleep_ok_def a_sleep_def)
  ultimately show ?thesis
    using s' unfolding a_sleep_def by (intro exI [of _ s'] exI [of _ ?qs]) (simp add: insert_sleep_def)
qed

theorem sleep_queue_add_sorted_witness:
  "\<exists>s'. sleep_queue_add 7 demo_sched = Inr s' \<and> list_nodes (max_nodes s') (lists s') SleepQ = Some [SleepL 7]"
  using sleep_queue_add_sorted [OF demo_inv, of 7] demo_waits
  by (auto simp: demo_view_def demo_sched_def wakeable_def)




definition demo_running :: sched where
  "demo_running = demo_sched\<lparr>current_thread := (\<lambda>_. 5),
     threads := (threads demo_sched)(5 := (threads demo_sched 5)\<lparr>cpu := 0\<rparr>)\<rparr>"

lemma demo_running_inv: "sched_inv demo_running demo_view"
proof -
  note D = sched_invD [OF demo_inv]
  have "lists_ok demo_running demo_view"
    using demo_inv by (simp add: sched_inv_def lists_ok_def demo_running_def)
  moreover have "flags_ok demo_running demo_view"
    unfolding flags_ok_def using demo_waits
    by (auto simp: demo_running_def demo_sched_def demo_view_def has_flag_def blank_thread_def thread_flag_defs)
  moreover have "sleep_ok demo_running demo_view" by (simp add: sleep_ok_def demo_view_def)
  moreover have "cpus_ok demo_running demo_view"
    by (auto simp: cpus_ok_def demo_running_def demo_sched_def demo_view_def blank_thread_def CPU_UP_def split: if_splits)
  ultimately show ?thesis by (simp add: sched_inv_def)
qed


end
