(* ===== verification/Sync.thy ===== *)
theory Sync
  imports Sched_Props "HOL-Library.Monad_Syntax"
begin

text \<open>
  Spin locks, mutexes and semaphores: \<^verbatim>\<open>spinlock.c\<close> with \<^verbatim>\<open>include/os/spinlock.h\<close>,
  \<^verbatim>\<open>mutexes.c\<close> and \<^verbatim>\<open>semaphores.c\<close>, on top of the scheduler.

  A lock operation acts on the lock and on the thread that executes it, \<^verbatim>\<open>current\<close>, here the
  argument \<open>t\<close>; the processor does not matter to it.  The loop of \<open>os_spin_lock\<close> is cut into its
  atomic pieces, so that the first half of the theory can interleave any number of threads and show
  mutual exclusion; the mutexes and semaphores use it as a whole.  The pending reschedule that
  \<^verbatim>\<open>preempt_enable\<close> may serve is a step of the scheduler, as in \<open>Sched\<close>.
\<close>

section \<open>Spin locks\<close>

record spinlock =
  slock :: u32
  break_lock :: u32
  spin_count :: u64
  owner :: nat

definition SPIN_LOCK_UNLOCKED :: spinlock where
  "SPIN_LOCK_UNLOCKED = \<lparr>slock = 1, break_lock = 0, spin_count = 0, owner = 0\<rparr>"

text \<open>The low byte of the word \<^verbatim>\<open>slock\<close> is the lock: the assembly code exchanges that byte.\<close>

definition lock_byte :: "spinlock \<Rightarrow> u8" where
  "lock_byte l = ucast (slock l)"

definition set_lock_byte :: "u8 \<Rightarrow> spinlock \<Rightarrow> spinlock" where
  "set_lock_byte b l = l\<lparr>slock := (slock l AND NOT 0xff) OR ucast b\<rparr>"

definition spin_is_locked :: "spinlock \<Rightarrow> bool" where
  "spin_is_locked l = (sint (lock_byte l) \<le> 0)"

definition spin_can_lock :: "spinlock \<Rightarrow> bool" where
  "spin_can_lock l = (\<not> spin_is_locked l)"

definition raw_spin_trylock :: "spinlock \<Rightarrow> bool \<times> spinlock" where
  "raw_spin_trylock l = (0 < sint (lock_byte l), set_lock_byte 0 l)"

definition raw_spin_unlock :: "spinlock \<Rightarrow> spinlock" where
  "raw_spin_unlock l = set_lock_byte 1 l"

text \<open>The pieces of \<open>os_spin_lock\<close>: one attempt, one turn of the waiting loop (\<open>None\<close> when the
  loop ends), and the stores after the loop.\<close>

definition spin_attempt :: "nat \<Rightarrow> spinlock \<Rightarrow> sched \<Rightarrow> (bool \<times> spinlock \<times> sched) res" where
  "spin_attempt t l s =
     rbind (add_preempt_count t 1 s) (\<lambda>s1.
       case raw_spin_trylock l of
         (True, l1) \<Rightarrow> Inr (True, l1, s1)
       | (False, l1) \<Rightarrow> rbind (add_preempt_count t (- 1) s1) (\<lambda>s2.
           Inr (False, if break_lock l1 = 0 then l1\<lparr>break_lock := 1\<rparr> else l1, s2)))"

definition spin_wait :: "spinlock \<Rightarrow> spinlock option" where
  "spin_wait l =
     (if \<not> spin_can_lock l \<and> break_lock l \<noteq> 0 then Some (l\<lparr>spin_count := spin_count l + 1\<rparr>) else None)"

definition spin_claim :: "nat \<Rightarrow> spinlock \<Rightarrow> sched \<Rightarrow> spinlock \<times> sched" where
  "spin_claim t l s =
     (l\<lparr>break_lock := 0, spin_count := 0, owner := t\<rparr>,
      upd_thread s t (\<lambda>th. th\<lparr>lock_count := lock_count th + 1\<rparr>))"

text \<open>
  The whole of \<open>os_spin_lock\<close> when no other processor touches the lock meanwhile; \<open>None\<close> is a
  fuel of \<open>n\<close> rounds that does not suffice.
\<close>

fun os_spin_lock :: "nat \<Rightarrow> nat \<Rightarrow> spinlock \<Rightarrow> sched \<Rightarrow> (spinlock \<times> sched) res option"
  and spin_wait_loop :: "nat \<Rightarrow> nat \<Rightarrow> spinlock \<Rightarrow> sched \<Rightarrow> (spinlock \<times> sched) res option" where
  "os_spin_lock 0 t l s = None"
| "os_spin_lock (Suc n) t l s =
     (case spin_attempt t l s of
        Inl e \<Rightarrow> Some (Inl e)
      | Inr (True, l1, s1) \<Rightarrow> Some (Inr (spin_claim t l1 s1))
      | Inr (False, l1, s1) \<Rightarrow> spin_wait_loop n t l1 s1)"
| "spin_wait_loop 0 t l s = None"
| "spin_wait_loop (Suc n) t l s =
     (case spin_wait l of Some l1 \<Rightarrow> spin_wait_loop n t l1 s | None \<Rightarrow> os_spin_lock n t l s)"

text \<open>The pieces of \<open>os_spin_unlock\<close>: up to the store of the owner, the exchange, and the test of
  \<^verbatim>\<open>DEBUG_LOCKS\<close> with \<^verbatim>\<open>preempt_enable\<close>.\<close>

definition spin_release :: "nat \<Rightarrow> spinlock \<Rightarrow> sched \<Rightarrow> (spinlock \<times> sched) res" where
  "spin_release t l s =
     bug_on (owner l \<noteq> t)
       (Inr (l\<lparr>owner := 0\<rparr>, upd_thread s t (\<lambda>th. th\<lparr>lock_count := lock_count th - 1\<rparr>)))"

definition spin_finish :: "nat \<Rightarrow> sched \<Rightarrow> sched res" where
  "spin_finish t s = bug_on (lock_count (threads s t) < 0) (add_preempt_count t (- 1) s)"

definition os_spin_unlock :: "nat \<Rightarrow> spinlock \<Rightarrow> sched \<Rightarrow> (spinlock \<times> sched) res" where
  "os_spin_unlock t l s =
     rbind (spin_release t l s) (\<lambda>(l1, s1).
     rbind (spin_finish t s1) (\<lambda>s2. Inr (raw_spin_unlock l1, s2)))"

text \<open>
  The variants that also disable the interrupts of the processor \<open>me\<close>.  An attempt that fails
  restores them before it waits; the flags that \<open>os_spin_lock_irqsave\<close> returns are those read by
  the attempt that succeeds.
\<close>

definition spin_attempt_irqsave ::
    "nat \<Rightarrow> nat \<Rightarrow> spinlock \<Rightarrow> sched \<Rightarrow> (bool option \<times> spinlock \<times> sched) res" where
  "spin_attempt_irqsave me t l s =
     rbind (add_preempt_count t 1 s) (\<lambda>s1.
       let saved = irqs_disabled s1 me;
           s2 = s1\<lparr>irqs_disabled := (irqs_disabled s1)(me := True)\<rparr>
       in case raw_spin_trylock l of
         (True, l1) \<Rightarrow> Inr (Some saved, l1, s2)
       | (False, l1) \<Rightarrow>
           rbind (add_preempt_count t (- 1) (s2\<lparr>irqs_disabled := (irqs_disabled s2)(me := saved)\<rparr>)) (\<lambda>s3.
             Inr (None, if break_lock l1 = 0 then l1\<lparr>break_lock := 1\<rparr> else l1, s3)))"

fun os_spin_lock_irqsave ::
    "nat \<Rightarrow> nat \<Rightarrow> nat \<Rightarrow> spinlock \<Rightarrow> sched \<Rightarrow> (bool \<times> spinlock \<times> sched) res option"
  and spin_wait_loop_irqsave ::
    "nat \<Rightarrow> nat \<Rightarrow> nat \<Rightarrow> spinlock \<Rightarrow> sched \<Rightarrow> (bool \<times> spinlock \<times> sched) res option" where
  "os_spin_lock_irqsave 0 me t l s = None"
| "os_spin_lock_irqsave (Suc n) me t l s =
     (case spin_attempt_irqsave me t l s of
        Inl e \<Rightarrow> Some (Inl e)
      | Inr (Some saved, l1, s1) \<Rightarrow> Some (Inr (saved, spin_claim t l1 s1))
      | Inr (None, l1, s1) \<Rightarrow> spin_wait_loop_irqsave n me t l1 s1)"
| "spin_wait_loop_irqsave 0 me t l s = None"
| "spin_wait_loop_irqsave (Suc n) me t l s =
     (case spin_wait l of
        Some l1 \<Rightarrow> spin_wait_loop_irqsave n me t l1 s
      | None \<Rightarrow> os_spin_lock_irqsave n me t l s)"

definition os_spin_unlock_irqrestore :: "nat \<Rightarrow> nat \<Rightarrow> bool \<Rightarrow> spinlock \<Rightarrow> sched \<Rightarrow> (spinlock \<times> sched) res" where
  "os_spin_unlock_irqrestore me t saved l s =
     rbind (spin_release t l s) (\<lambda>(l1, s1).
       let s2 = s1\<lparr>irqs_disabled := (irqs_disabled s1)(me := saved)\<rparr> in
     rbind (spin_finish t s2) (\<lambda>s3. Inr (raw_spin_unlock l1, s3)))"

lemma lock_byte_set [simp]: "lock_byte (set_lock_byte b l) = b"
proof -
  have m: "(0xff :: u32) = mask 8" by (simp add: mask_eq_exp_minus_1)
  show ?thesis
    unfolding lock_byte_def set_lock_byte_def m by (rule bit_word_eqI) (auto simp: bit_simps)
qed

lemma lock_byte_upd [simp]:
  "lock_byte (l\<lparr>break_lock := a\<rparr>) = lock_byte l" "lock_byte (l\<lparr>spin_count := c\<rparr>) = lock_byte l"
  "lock_byte (l\<lparr>owner := p\<rparr>) = lock_byte l"
  by (simp_all add: lock_byte_def)

lemma set_lock_byte_fields [simp]:
  "owner (set_lock_byte b l) = owner l" "break_lock (set_lock_byte b l) = break_lock l"
  "spin_count (set_lock_byte b l) = spin_count l"
  by (simp_all add: set_lock_byte_def)

lemma lock_byte_unlock [simp]: "lock_byte (raw_spin_unlock l) = 1"
  by (simp add: raw_spin_unlock_def)

lemma trylock_eq: "raw_spin_trylock l = (b, l1) \<longleftrightarrow> b = (0 < sint (lock_byte l)) \<and> l1 = set_lock_byte 0 l"
  by (auto simp: raw_spin_trylock_def)

section \<open>Any number of threads on one lock\<close>

text \<open>
  A thread is \<open>Outside\<close>, \<open>Trying\<close> to take the lock, \<open>Waiting\<close> in the inner loop, has \<open>Won\<close> the
  exchange, is \<open>Inside\<close> its critical section, is \<open>Leaving\<close> after the store of the owner, or has
  \<open>Left\<close> after the exchange of \<open>os_spin_unlock\<close>.  The threads take their steps in any order; a
  fault of a piece is the state \<open>Stopped\<close>.
\<close>

datatype lock_pc = Outside | Trying | Waiting | Won | Inside | Leaving | Left | Stopped

record lock_state =
  the_lock :: spinlock
  lock_sched :: sched
  lock_pc :: "nat \<Rightarrow> lock_pc"

definition holds :: "lock_state \<Rightarrow> nat \<Rightarrow> bool" where
  "holds z t = (lock_pc z t \<in> {Won, Inside, Leaving})"

definition after_attempt :: "nat \<Rightarrow> lock_state \<Rightarrow> lock_state" where
  "after_attempt t z =
     (case spin_attempt t (the_lock z) (lock_sched z) of
        Inl e \<Rightarrow> z\<lparr>lock_pc := (lock_pc z)(t := Stopped)\<rparr>
      | Inr (b, l, s) \<Rightarrow> \<lparr>the_lock = l, lock_sched = s,
                          lock_pc = (lock_pc z)(t := if b then Won else Waiting)\<rparr>)"

definition after_wait :: "nat \<Rightarrow> lock_state \<Rightarrow> lock_state" where
  "after_wait t z =
     (case spin_wait (the_lock z) of
        Some l \<Rightarrow> z\<lparr>the_lock := l\<rparr>
      | None \<Rightarrow> z\<lparr>lock_pc := (lock_pc z)(t := Trying)\<rparr>)"

definition after_claim :: "nat \<Rightarrow> lock_state \<Rightarrow> lock_state" where
  "after_claim t z =
     (case spin_claim t (the_lock z) (lock_sched z) of
        (l, s) \<Rightarrow> \<lparr>the_lock = l, lock_sched = s, lock_pc = (lock_pc z)(t := Inside)\<rparr>)"

definition after_release :: "nat \<Rightarrow> lock_state \<Rightarrow> lock_state" where
  "after_release t z =
     (case spin_release t (the_lock z) (lock_sched z) of
        Inl e \<Rightarrow> z\<lparr>lock_pc := (lock_pc z)(t := Stopped)\<rparr>
      | Inr (l, s) \<Rightarrow> \<lparr>the_lock = l, lock_sched = s, lock_pc = (lock_pc z)(t := Leaving)\<rparr>)"

definition after_exchange :: "nat \<Rightarrow> lock_state \<Rightarrow> lock_state" where
  "after_exchange t z =
     z\<lparr>the_lock := raw_spin_unlock (the_lock z), lock_pc := (lock_pc z)(t := Left)\<rparr>"

definition after_finish :: "nat \<Rightarrow> lock_state \<Rightarrow> lock_state" where
  "after_finish t z =
     (case spin_finish t (lock_sched z) of
        Inl e \<Rightarrow> z\<lparr>lock_pc := (lock_pc z)(t := Stopped)\<rparr>
      | Inr s \<Rightarrow> z\<lparr>lock_sched := s, lock_pc := (lock_pc z)(t := Outside)\<rparr>)"

inductive lock_step :: "nat \<Rightarrow> lock_state \<Rightarrow> lock_state \<Rightarrow> bool" where
  step_enter: "lock_pc z t = Outside \<Longrightarrow> lock_step t z (z\<lparr>lock_pc := (lock_pc z)(t := Trying)\<rparr>)"
| step_attempt: "lock_pc z t = Trying \<Longrightarrow> lock_step t z (after_attempt t z)"
| step_wait: "lock_pc z t = Waiting \<Longrightarrow> lock_step t z (after_wait t z)"
| step_claim: "lock_pc z t = Won \<Longrightarrow> lock_step t z (after_claim t z)"
| step_release: "lock_pc z t = Inside \<Longrightarrow> lock_step t z (after_release t z)"
| step_exchange: "lock_pc z t = Leaving \<Longrightarrow> lock_step t z (after_exchange t z)"
| step_finish: "lock_pc z t = Left \<Longrightarrow> lock_step t z (after_finish t z)"



inductive lock_run :: "lock_state \<Rightarrow> lock_state \<Rightarrow> bool" for z0 where
  run_refl: "lock_run z0 z0"
| run_step: "lock_run z0 z \<Longrightarrow> lock_step t z z' \<Longrightarrow> t \<noteq> 0 \<Longrightarrow> lock_run z0 z'"

text \<open>At the start the lock is free, every thread is outside, and no counter is negative.\<close>

definition lock_start :: "lock_state \<Rightarrow> bool" where
  "lock_start z = (lock_byte (the_lock z) = 1 \<and> (\<forall>t. lock_pc z t = Outside) \<and>
     (\<forall>t. 0 \<le> preempt_count (threads (lock_sched z) t) \<and> 0 \<le> lock_count (threads (lock_sched z) t)))"

text \<open>
  The invariant: the byte is 1 and nobody holds the lock, or it is 0 and one thread does; a thread
  inside is the owner; and the counters of a thread stand above their initial values by what it
  is doing.
\<close>

definition lock_inv :: "lock_state \<Rightarrow> lock_state \<Rightarrow> bool" where
  "lock_inv z0 z =
     (lock_byte (the_lock z) = (if \<exists>t. holds z t then 0 else 1) \<and>
      (\<forall>t u. holds z t \<longrightarrow> holds z u \<longrightarrow> t = u) \<and>
      (\<forall>t. lock_pc z t = Inside \<longrightarrow> owner (the_lock z) = t) \<and>
      (\<forall>t. lock_pc z t \<noteq> Stopped \<and>
         lock_count (threads (lock_sched z) t) =
           lock_count (threads (lock_sched z0) t) + (if lock_pc z t = Inside then 1 else 0) \<and>
         preempt_count (threads (lock_sched z) t) =
           preempt_count (threads (lock_sched z0) t) + (if holds z t \<or> lock_pc z t = Left then 1 else 0)))"

lemma lock_invD:
  assumes "lock_inv z0 z"
  shows "lock_pc z t = Inside \<Longrightarrow> owner (the_lock z) = t"
    and "lock_count (threads (lock_sched z) t) =
      lock_count (threads (lock_sched z0) t) + (if lock_pc z t = Inside then 1 else 0)"
    and "preempt_count (threads (lock_sched z) t) =
      preempt_count (threads (lock_sched z0) t) + (if holds z t \<or> lock_pc z t = Left then 1 else 0)"
    and "holds z t \<Longrightarrow> holds z u \<longleftrightarrow> u = t"
    and "holds z t \<Longrightarrow> lock_byte (the_lock z) = 0"
    and "\<not> (\<exists>t. holds z t) \<Longrightarrow> lock_byte (the_lock z) = 1"
proof -
  show "lock_pc z t = Inside \<Longrightarrow> owner (the_lock z) = t"
    "lock_count (threads (lock_sched z) t) =
      lock_count (threads (lock_sched z0) t) + (if lock_pc z t = Inside then 1 else 0)"
    "preempt_count (threads (lock_sched z) t) =
      preempt_count (threads (lock_sched z0) t) + (if holds z t \<or> lock_pc z t = Left then 1 else 0)"
    using assms unfolding lock_inv_def by blast+
  show "holds z t \<Longrightarrow> holds z u \<longleftrightarrow> u = t" using assms unfolding lock_inv_def by blast
  show "holds z t \<Longrightarrow> lock_byte (the_lock z) = 0" "\<not> (\<exists>t. holds z t) \<Longrightarrow> lock_byte (the_lock z) = 1"
    using assms unfolding lock_inv_def by auto
qed

lemma lock_start_inv: "lock_start z \<Longrightarrow> lock_inv z z"
  by (simp add: lock_start_def lock_inv_def holds_def)

lemma spin_attempt_eq:
  assumes "0 \<le> preempt_count (threads s t)"
  shows "spin_attempt t l s =
     (if 0 < sint (lock_byte l)
      then Inr (True, set_lock_byte 0 l, upd_thread s t (\<lambda>th. th\<lparr>preempt_count := preempt_count th + 1\<rparr>))
      else Inr (False, (set_lock_byte 0 l)\<lparr>break_lock := (if break_lock l = 0 then 1 else break_lock l)\<rparr>, s))"
proof -
  have u: "upd_thread (upd_thread s t (\<lambda>th. th\<lparr>preempt_count := preempt_count th + 1\<rparr>)) t
      (\<lambda>th. th\<lparr>preempt_count := preempt_count th - 1\<rparr>) = s"
    by (simp add: upd_thread_def)
  have b: "(set_lock_byte 0 l)\<lparr>break_lock := break_lock l\<rparr> = set_lock_byte 0 l"
    by (simp add: set_lock_byte_def)
  show ?thesis
    using assms u b
    by (simp add: spin_attempt_def add_preempt_count_def Let_def raw_spin_trylock_def)
qed

text \<open>Most steps do not change who holds the lock.\<close>

lemma lock_inv_same:
  assumes "lock_inv z0 z" and "holds z' = holds z" and "lock_byte (the_lock z') = lock_byte (the_lock z)"
    and "\<And>u. lock_pc z' u = Inside \<Longrightarrow> owner (the_lock z') = u"
    and "\<And>u. lock_pc z' u \<noteq> Stopped"
    and "\<And>u. lock_count (threads (lock_sched z') u) =
           lock_count (threads (lock_sched z0) u) + (if lock_pc z' u = Inside then 1 else 0)"
    and "\<And>u. preempt_count (threads (lock_sched z') u) =
           preempt_count (threads (lock_sched z0) u) + (if holds z u \<or> lock_pc z' u = Left then 1 else 0)"
  shows "lock_inv z0 z'"
  using assms by (simp add: lock_inv_def)

lemma lock_step_inv:
  assumes i: "lock_inv z0 z" and s: "lock_start z0" and st: "lock_step t z z'"
  shows "lock_inv z0 z'"
proof -
  note D = lock_invD [OF i]
  have ns: "lock_pc z u \<noteq> Stopped" for u using i by (simp add: lock_inv_def)
  have n: "0 \<le> preempt_count (threads (lock_sched z0) u)" "0 \<le> lock_count (threads (lock_sched z0) u)" for u
    using s by (simp_all add: lock_start_def)
  have p: "0 \<le> preempt_count (threads (lock_sched z) u)" for u using n(1) [of u] D(3) [of u] by simp
  have h: "holds z u \<longleftrightarrow> u = t" if "lock_pc z t \<in> {Won, Inside, Leaving}" for u
    using that D(4) [of t u] by (simp add: holds_def)
  show ?thesis using st
  proof (cases rule: lock_step.cases)
    case step_attempt
    show ?thesis
    proof (cases "0 < sint (lock_byte (the_lock z))")
      case True
      then have "\<not> holds z u" for u using D(5) [of u] by auto
      then show ?thesis using True i step_attempt p [of t]
        by (auto simp: holds_def after_attempt_def spin_attempt_eq lock_inv_def upd_thread_def)
    next
      case False
      then have b: "lock_byte (the_lock z) = 0" using D(5,6) by fastforce
      show ?thesis using False step_attempt p [of t] b
        by (intro lock_inv_same [OF i])
          (auto simp: after_attempt_def spin_attempt_eq holds_def fun_eq_iff D(1-3) ns split: if_splits)
    qed
  next
    case step_claim
    then show ?thesis using h
      by (intro lock_inv_same [OF i])
        (auto simp: after_claim_def spin_claim_def holds_def fun_eq_iff D(2,3) ns upd_thread_def split: if_splits)
  next
    case step_release
    then show ?thesis using h D(1) [of t]
      by (intro lock_inv_same [OF i])
        (auto simp: after_release_def spin_release_def holds_def fun_eq_iff D(2,3) ns upd_thread_def split: if_splits)
  next
    case step_exchange
    then show ?thesis using i h
      by (auto simp: after_exchange_def lock_inv_def holds_def)
  next
    case step_finish
    then have "\<not> lock_count (threads (lock_sched z) t) < 0"
      "\<not> preempt_count (threads (lock_sched z) t) - 1 < 0"
      using D(2,3) [of t] n [of t] by simp_all
    then show ?thesis using step_finish
      by (intro lock_inv_same [OF i])
        (auto simp: after_finish_def spin_finish_def add_preempt_count_def Let_def holds_def fun_eq_iff
            D(1-3) ns upd_thread_def split: if_splits)
  qed (intro lock_inv_same [OF i];
      auto simp: after_wait_def spin_wait_def holds_def fun_eq_iff D(1-3) ns split: option.splits if_splits)+
qed

lemma lock_run_inv: "lock_run z0 z \<Longrightarrow> lock_start z0 \<Longrightarrow> lock_inv z0 z"
  by (induction rule: lock_run.induct) (auto intro: lock_start_inv lock_step_inv)

section \<open>Locking and unlocking alone\<close>

text \<open>What \<open>os_spin_lock\<close> changes in the thread that takes the lock.\<close>

definition locked_thread :: "nat \<Rightarrow> sched \<Rightarrow> sched" where
  "locked_thread t s =
     upd_thread s t (\<lambda>th. th\<lparr>preempt_count := preempt_count th + 1, lock_count := lock_count th + 1\<rparr>)"

definition owned_by :: "nat \<Rightarrow> spinlock \<Rightarrow> spinlock" where
  "owned_by t l = (set_lock_byte 0 l)\<lparr>break_lock := 0, spin_count := 0, owner := t\<rparr>"

definition free_lock :: "spinlock \<Rightarrow> bool" where
  "free_lock l = (lock_byte l = 1)"

lemma os_spin_lock_free:
  assumes "free_lock l" and "0 \<le> preempt_count (threads s t)"
  shows "os_spin_lock (Suc n) t l s = Some (Inr (owned_by t l, locked_thread t s))"
  using assms
  by (simp add: spin_attempt_eq free_lock_def spin_claim_def owned_by_def locked_thread_def upd_thread_def)

lemma os_spin_unlock_owned:
  assumes "0 \<le> preempt_count (threads s t)" and "0 \<le> lock_count (threads s t)" and "owner l = t"
  shows "os_spin_unlock t l (locked_thread t s) = Inr (raw_spin_unlock (l\<lparr>owner := 0\<rparr>), s)"
proof -
  have "spin_release t l (locked_thread t s) = Inr (l\<lparr>owner := 0\<rparr>,
      upd_thread s t (\<lambda>th. th\<lparr>preempt_count := preempt_count th + 1\<rparr>))"
    using assms(3) by (simp add: spin_release_def locked_thread_def upd_thread_def)
  then show ?thesis using assms(1,2)
    by (simp add: os_spin_unlock_def spin_finish_def add_preempt_count_def upd_thread_def Let_def)
qed

lemma free_lock_unlock [simp]: "free_lock (raw_spin_unlock l)"
  by (simp add: free_lock_def)

lemma owner_owned_by [simp]: "owner (owned_by t l) = t"
  by (simp add: owned_by_def)

text \<open>A lock whose byte is 0 is never taken when nobody else runs, not even by its owner.\<close>

lemma spin_wait_held:
  assumes "lock_byte l = 0" and "break_lock l \<noteq> 0"
  shows "spin_wait_loop n t l s = None"
  using assms
proof (induction n arbitrary: l)
  case (Suc n)
  then have "spin_wait l = Some (l\<lparr>spin_count := spin_count l + 1\<rparr>)"
    by (simp add: spin_wait_def spin_can_lock_def spin_is_locked_def)
  then show ?case using Suc by simp
qed simp

lemma os_spin_lock_held:
  assumes "lock_byte l = 0" and "0 \<le> preempt_count (threads s t)"
  shows "os_spin_lock n t l s = None"
proof (cases n)
  case (Suc m)
  then show ?thesis using assms spin_wait_held
    by (simp add: spin_attempt_eq)
qed simp

section \<open>Mutexes\<close>

text \<open>
  A mutex has a lock of its own, allocated with it.  The addresses that \<^verbatim>\<open>xmalloc\<close> returns are
  arguments, 0 for failure; neither is checked before it is written through.
\<close>

record mutex =
  m_lock :: spinlock
  m_lock_addr :: nat

definition create_spin_lock :: "nat \<Rightarrow> spinlock res" where
  "create_spin_lock addr = (if addr = 0 then Inl Undef else Inr SPIN_LOCK_UNLOCKED)"

definition mutex_create :: "nat \<Rightarrow> nat \<Rightarrow> mutex res" where
  "mutex_create m_addr l_addr =
     rbind (create_spin_lock l_addr) (\<lambda>l.
       if m_addr = 0 then Inl Undef else Inr \<lparr>m_lock = l, m_lock_addr = l_addr\<rparr>)"

definition mutex_lock :: "nat \<Rightarrow> nat \<Rightarrow> mutex \<Rightarrow> sched \<Rightarrow> (mutex \<times> sched) res option" where
  "mutex_lock n t m s =
     (case os_spin_lock n t (m_lock m) s of
        None \<Rightarrow> None | Some r \<Rightarrow> Some (rbind r (\<lambda>(l, s1). Inr (m\<lparr>m_lock := l\<rparr>, s1))))"

definition mutex_unlock :: "nat \<Rightarrow> mutex \<Rightarrow> sched \<Rightarrow> (mutex \<times> sched) res" where
  "mutex_unlock t m s = rbind (os_spin_unlock t (m_lock m) s) (\<lambda>(l, s1). Inr (m\<lparr>m_lock := l\<rparr>, s1))"

text \<open>The addresses that \<open>mutex_delete\<close> gives to \<^verbatim>\<open>xfree\<close>, in order.\<close>

definition delete_spin_lock :: "nat \<Rightarrow> nat list" where
  "delete_spin_lock addr = [addr]"

definition mutex_delete :: "nat \<Rightarrow> mutex \<Rightarrow> nat list" where
  "mutex_delete m_addr m = delete_spin_lock (m_lock_addr m) @ [m_addr]"

text \<open>
  \<open>mutex_try_lock\<close> looks at the lock and then waits for it like \<open>mutex_lock\<close>; between the two
  another processor may take it, so the lock it finds in the second step is an argument.
\<close>

definition mutex_try_lock :: "nat \<Rightarrow> nat \<Rightarrow> spinlock \<Rightarrow> mutex \<Rightarrow> sched \<Rightarrow> (bool \<times> mutex \<times> sched) res option" where
  "mutex_try_lock n t found m s =
     (if spin_can_lock (m_lock m)
      then case mutex_lock n t (m\<lparr>m_lock := found\<rparr>) s of
             None \<Rightarrow> None | Some r \<Rightarrow> Some (rbind r (\<lambda>(m1, s1). Inr (True, m1, s1)))
      else Some (Inr (False, m, s)))"

text \<open>The rounds of \<open>mutex_timed_lock\<close>: the time that a round reads, and the lock it finds.\<close>

fun timed_lock_loop ::
    "nat \<Rightarrow> nat \<Rightarrow> int \<Rightarrow> (int \<times> spinlock) list \<Rightarrow> mutex \<Rightarrow> sched \<Rightarrow> (bool \<times> mutex \<times> sched) res option" where
  "timed_lock_loop n t until [] m s = None"
| "timed_lock_loop n t until ((now, l) # rest) m s =
     (if now < until then
        case mutex_try_lock n t l (m\<lparr>m_lock := l\<rparr>) s of
          None \<Rightarrow> None
        | Some (Inl e) \<Rightarrow> Some (Inl e)
        | Some (Inr (True, m1, s1)) \<Rightarrow> Some (Inr (True, m1, s1))
        | Some (Inr (False, m1, s1)) \<Rightarrow> timed_lock_loop n t until rest m1 s1
      else Some (Inr (False, m, s)))"

definition mutex_timed_lock ::
    "nat \<Rightarrow> nat \<Rightarrow> u32 \<Rightarrow> int \<Rightarrow> (int \<times> spinlock) list \<Rightarrow> mutex \<Rightarrow> sched \<Rightarrow> (bool \<times> mutex \<times> sched) res option" where
  "mutex_timed_lock n t millisecs now rounds m s =
     timed_lock_loop n t (sint (of_int now + (ucast millisecs :: u64) * 1000000)) rounds m s"

lemma mutex_lock_free:
  assumes "free_lock (m_lock m)" and "0 \<le> preempt_count (threads s t)"
  shows "mutex_lock (Suc n) t m s = Some (Inr (m\<lparr>m_lock := owned_by t (m_lock m)\<rparr>, locked_thread t s))"
  using assms by (simp add: mutex_lock_def os_spin_lock_free del: os_spin_lock.simps)

lemma mutex_unlock_owned:
  assumes "0 \<le> preempt_count (threads s t)" and "0 \<le> lock_count (threads s t)" and "owner (m_lock m) = t"
  shows "mutex_unlock t m (locked_thread t s) =
    Inr (m\<lparr>m_lock := raw_spin_unlock ((m_lock m)\<lparr>owner := 0\<rparr>)\<rparr>, s)"
  using assms by (simp add: mutex_unlock_def os_spin_unlock_owned)

section \<open>Semaphores\<close>

text \<open>
  The waiting threads are a singly linked list of nodes on the heap, in the order of their calls;
  \<open>sem_nodes\<close> gives the thread and the successor of the node at an address, \<open>freed_nodes\<close> the
  nodes given to \<^verbatim>\<open>xfree\<close> so far.  A value outside the range of \<^verbatim>\<open>int\<close> is the overflow that C
  leaves undefined.
\<close>

record semaphore =
  sem_value :: int
  sem_mutex :: mutex
  sem_mutex_addr :: nat
  sem_head :: nat
  sem_nodes :: "nat \<Rightarrow> nat \<times> nat"
  freed_nodes :: "nat list"

definition c_int :: "int \<Rightarrow> int res" where
  "c_int i = (if - (2 ^ 31) \<le> i \<and> i < 2 ^ 31 then Inr i else Inl Undef)"

definition semaphore_list_create :: "nat \<Rightarrow> nat \<Rightarrow> nat \<Rightarrow> (nat \<Rightarrow> nat \<times> nat) \<Rightarrow> (nat \<Rightarrow> nat \<times> nat) res" where
  "semaphore_list_create addr t nxt nodes = (if addr = 0 then Inl Undef else Inr (nodes(addr := (t, nxt))))"

text \<open>The cursor of \<open>semaphore_list_append\<close>; \<open>None\<close> is a list without an end.\<close>

partial_function (option) last_node :: "(nat \<Rightarrow> nat \<times> nat) \<Rightarrow> nat \<Rightarrow> nat option" where
  "last_node nodes c = (if snd (nodes c) = 0 then Some c else last_node nodes (snd (nodes c)))"

declare last_node.simps [code]

definition semaphore_list_append ::
    "nat \<Rightarrow> nat \<Rightarrow> nat \<Rightarrow> (nat \<Rightarrow> nat \<times> nat) \<Rightarrow> (nat \<times> (nat \<Rightarrow> nat \<times> nat)) res option" where
  "semaphore_list_append addr t head nodes =
     (case semaphore_list_create addr t 0 nodes of
        Inl e \<Rightarrow> Some (Inl e)
      | Inr nodes1 \<Rightarrow>
          if head = 0 then Some (Inr (addr, nodes1))
          else do {
            c \<leftarrow> last_node nodes1 head;
            Some (Inr (head, nodes1(c := (fst (nodes1 c), addr))))
          })"

text \<open>The new head and the nodes that are freed, one or none.\<close>

definition semaphore_list_delete_first :: "nat \<Rightarrow> (nat \<Rightarrow> nat \<times> nat) \<Rightarrow> nat \<times> nat list" where
  "semaphore_list_delete_first head nodes = (if head = 0 then (0, []) else (snd (nodes head), [head]))"

definition semaphore_create :: "nat \<Rightarrow> nat \<Rightarrow> nat \<Rightarrow> int \<Rightarrow> semaphore res" where
  "semaphore_create addr m_addr l_addr v =
     (if addr = 0 then rbind (mutex_create m_addr l_addr) (\<lambda>_. Inl Undef)
      else rbind (mutex_create m_addr l_addr) (\<lambda>m.
        Inr \<lparr>sem_value = v, sem_mutex = m, sem_mutex_addr = m_addr, sem_head = 0, sem_nodes = (\<lambda>_. (0, 0)),
          freed_nodes = []\<rparr>))"

definition hibernate_thread :: "nat \<Rightarrow> nat \<Rightarrow> semaphore \<Rightarrow> sched \<Rightarrow> (semaphore \<times> sched) res option" where
  "hibernate_thread me addr sem s =
     (let t = current_thread s me in
      dbind (semaphore_list_append addr t (sem_head sem) (sem_nodes sem)) (\<lambda>(h, nodes).
        Some (rbind (mutex_unlock t (sem_mutex sem) (hibernate t s)) (\<lambda>(m, s1).
          Inr (sem\<lparr>sem_head := h, sem_nodes := nodes, sem_mutex := m\<rparr>, s1)))))"

definition restore_thread :: "nat \<Rightarrow> semaphore \<Rightarrow> sched \<Rightarrow> (semaphore \<times> sched) res" where
  "restore_thread me sem s =
     (if sem_head sem = 0 then Inl Undef
      else let t = fst (sem_nodes sem (sem_head sem)) in
        if t \<noteq> 0
        then case semaphore_list_delete_first (sem_head sem) (sem_nodes sem) of (h, fr) \<Rightarrow>
               rbind (restore me t s) (\<lambda>s1.
                 Inr (sem\<lparr>sem_head := h, freed_nodes := freed_nodes sem @ fr\<rparr>, s1))
        else Inr (sem, s))"

text \<open>\<open>semaphore_pend\<close> up to its call of \<^verbatim>\<open>schedule\<close>, if it gets there: the flag says so.\<close>

definition semaphore_pend :: "nat \<Rightarrow> nat \<Rightarrow> nat \<Rightarrow> semaphore \<Rightarrow> sched \<Rightarrow> (bool \<times> semaphore \<times> sched) res option" where
  "semaphore_pend n me addr sem s =
     (let t = current_thread s me in
      dbind (mutex_lock n t (sem_mutex sem) s) (\<lambda>(m, s1).
      dbind (Some (c_int (sem_value sem - 1))) (\<lambda>v.
      let sem1 = sem\<lparr>sem_mutex := m, sem_value := v\<rparr> in
      if v < 0 then dbind (hibernate_thread me addr sem1 s1) (\<lambda>(sem2, s2). Some (Inr (True, sem2, s2)))
      else Some (rbind (mutex_unlock t m s1) (\<lambda>(m1, s2). Inr (False, sem1\<lparr>sem_mutex := m1\<rparr>, s2))))))"

definition semaphore_post :: "nat \<Rightarrow> nat \<Rightarrow> semaphore \<Rightarrow> sched \<Rightarrow> (semaphore \<times> sched) res option" where
  "semaphore_post n me sem s =
     (let t = current_thread s me in
      dbind (mutex_lock n t (sem_mutex sem) s) (\<lambda>(m, s1).
      dbind (Some (c_int (sem_value sem + 1))) (\<lambda>v.
      let sem1 = sem\<lparr>sem_mutex := m, sem_value := v\<rparr> in
      Some (rbind (if v \<le> 0 then restore_thread me sem1 s1 else Inr (sem1, s1)) (\<lambda>(sem2, s2).
            rbind (mutex_unlock t (sem_mutex sem2) s2) (\<lambda>(m1, s3). Inr (sem2\<lparr>sem_mutex := m1\<rparr>, s3)))))))"

definition semaphore_count :: "nat \<Rightarrow> nat \<Rightarrow> semaphore \<Rightarrow> sched \<Rightarrow> (int \<times> semaphore \<times> sched) res option" where
  "semaphore_count n me sem s =
     (let t = current_thread s me in
      dbind (mutex_lock n t (sem_mutex sem) s) (\<lambda>(m, s1).
      Some (rbind (mutex_unlock t m s1) (\<lambda>(m1, s2). Inr (sem_value sem, sem\<lparr>sem_mutex := m1\<rparr>, s2)))))"

definition semaphore_try_pend :: "nat \<Rightarrow> nat \<Rightarrow> semaphore \<Rightarrow> sched \<Rightarrow> (bool \<times> semaphore \<times> sched) res option" where
  "semaphore_try_pend n me sem s =
     (let t = current_thread s me in
      dbind (mutex_lock n t (sem_mutex sem) s) (\<lambda>(m, s1).
      if sem_value sem \<le> 0
      then Some (rbind (mutex_unlock t m s1) (\<lambda>(m1, s2). Inr (False, sem\<lparr>sem_mutex := m1\<rparr>, s2)))
      else Some (rbind (mutex_unlock t m s1) (\<lambda>(m1, s2).
             Inr (True, sem\<lparr>sem_mutex := m1, sem_value := sem_value sem - 1\<rparr>, s2)))))"

text \<open>The addresses that \<open>semaphore_delete\<close> gives to \<^verbatim>\<open>xfree\<close>: the nodes are not among them.\<close>

definition semaphore_delete :: "nat \<Rightarrow> semaphore \<Rightarrow> nat list" where
  "semaphore_delete addr sem = mutex_delete (sem_mutex_addr sem) (sem_mutex sem) @ [addr]"

section \<open>The list of waiting threads\<close>

fun chain :: "(nat \<Rightarrow> nat \<times> nat) \<Rightarrow> nat \<Rightarrow> nat list \<Rightarrow> bool" where
  "chain nodes p [] = (p = 0)"
| "chain nodes p (a # as) = (p = a \<and> a \<noteq> 0 \<and> chain nodes (snd (nodes a)) as)"

lemma chain_other: "a \<notin> set as \<Longrightarrow> chain (nodes(a := x)) p as = chain nodes p as"
  by (induction as arbitrary: p) auto

lemma last_node_chain:
  "chain nodes p (as @ [z]) \<Longrightarrow> last_node nodes p = Some z"
proof (induction as arbitrary: p)
  case Nil
  then show ?case by (simp add: last_node.simps)
next
  case (Cons a as)
  then have "snd (nodes a) \<noteq> 0" by (cases as) auto
  then show ?case using Cons by (simp add: last_node.simps [of nodes a])
qed

lemma chain_snoc:
  assumes "chain nodes p (as @ [z])" and "distinct (as @ [z, b])" and "b \<noteq> 0" and "snd (nodes b) = 0"
  shows "chain (nodes(z := (x, b))) p (as @ [z, b])"
  using assms by (induction as arbitrary: p) auto

lemma semaphore_list_append_chain:
  assumes c: "chain nodes p as" and d: "distinct as" "b \<notin> set as" "b \<noteq> 0"
  obtains q nodes' where "semaphore_list_append b t p nodes = Some (Inr (q, nodes'))"
    and "chain nodes' q (as @ [b])" and "map (fst \<circ> nodes') (as @ [b]) = map (fst \<circ> nodes) as @ [t]"
proof -
  let ?n1 = "nodes(b := (t, 0))"
  show thesis
  proof (cases as rule: rev_cases)
    case Nil
    then show thesis using c d that [of b ?n1]
      by (simp add: semaphore_list_append_def semaphore_list_create_def)
  next
    case (snoc ys z)
    have c1: "chain ?n1 p (ys @ [z])" using c d(2) snoc by (simp add: chain_other)
    have p: "p \<noteq> 0" using c snoc by (cases ys) auto
    let ?n2 = "?n1(z := (fst (?n1 z), b))"
    have "semaphore_list_append b t p nodes = Some (Inr (p, ?n2))"
      using last_node_chain [OF c1] p d(3) by (simp add: semaphore_list_append_def semaphore_list_create_def)
    moreover have "chain ?n2 p (as @ [b])"
      using chain_snoc [OF c1, of b "fst (?n1 z)"] d snoc by simp
    moreover have "map (fst \<circ> ?n2) (as @ [b]) = map (fst \<circ> nodes) as @ [t]"
      using d snoc by auto
    ultimately show thesis by (rule that)
  qed
qed

section \<open>What a semaphore promises\<close>

record a_semaphore =
  permits :: nat
  sem_queue :: "nat list"

definition a_pend :: "nat \<Rightarrow> a_semaphore \<Rightarrow> a_semaphore" where
  "a_pend t a = (if permits a > 0 then a\<lparr>permits := permits a - 1\<rparr> else a\<lparr>sem_queue := sem_queue a @ [t]\<rparr>)"

definition a_post :: "a_semaphore \<Rightarrow> a_semaphore" where
  "a_post a = (case sem_queue a of [] \<Rightarrow> a\<lparr>permits := permits a + 1\<rparr> | t # ts \<Rightarrow> a\<lparr>sem_queue := ts\<rparr>)"

definition waiters :: "semaphore \<Rightarrow> nat list \<Rightarrow> nat list" where
  "waiters sem as = map (fst \<circ> sem_nodes sem) as"

definition sem_abs :: "semaphore \<Rightarrow> nat list \<Rightarrow> a_semaphore" where
  "sem_abs sem as = \<lparr>permits = nat (sem_value sem), sem_queue = waiters sem as\<rparr>"

text \<open>
  The addresses \<open>as\<close> are the nodes of the list, as many as the value is below zero, and every
  waiting thread hibernates and is on no queue of the scheduler.
\<close>

definition parked :: "sched \<Rightarrow> view \<Rightarrow> nat \<Rightarrow> bool" where
  "parked s v t = (t \<noteq> 0 \<and> is_hibernating s t \<and> t \<in> set (v_all v) \<and> t \<notin> set (v_dead v) \<and>
     t \<notin> set (v_ready v) \<and> \<not> waits_join v t)"

definition sem_ok :: "semaphore \<Rightarrow> nat list \<Rightarrow> sched \<Rightarrow> view \<Rightarrow> bool" where
  "sem_ok sem as s v =
     (free_lock (m_lock (sem_mutex sem)) \<and> - (2 ^ 31) \<le> sem_value sem \<and> sem_value sem < 2 ^ 31 \<and>
      chain (sem_nodes sem) (sem_head sem) as \<and> distinct as \<and> length as = nat (- sem_value sem) \<and>
      distinct (waiters sem as) \<and> (\<forall>t \<in> set (waiters sem as). parked s v t))"

section \<open>Scheduler operations under a lock\<close>

text \<open>The counters of the thread that holds a lock do not influence the queues.\<close>

lemma locked_thread_simps [simp]:
  "lists (locked_thread t s) = lists s" "current_thread (locked_thread t s) = current_thread s"
  "has_flag (locked_thread t s) u g = has_flag s u g"
  "cpu (threads (locked_thread t s) u) = cpu (threads s u)"
  by (simp_all add: locked_thread_def upd_thread_def has_flag_def)

lemma upd_thread_commute:
  assumes "\<And>th. f (g th) = g (f th)"
  shows "upd_thread (upd_thread s t g) u f = upd_thread (upd_thread s u f) t g"
  using assms by (cases "u = t") (auto simp: upd_thread_def fun_eq_iff)

lemma set_flag_locked: "set_flag f u (locked_thread t s) = locked_thread t (set_flag f u s)"
  unfolding set_flag_def locked_thread_def by (rule upd_thread_commute) simp

lemma clear_flag_locked: "clear_flag f u (locked_thread t s) = locked_thread t (clear_flag f u s)"
  unfolding clear_flag_def locked_thread_def by (rule upd_thread_commute) simp

lemma lists_locked: "(locked_thread t s)\<lparr>lists := h\<rparr> = locked_thread t (s\<lparr>lists := h\<rparr>)"
  by (simp add: locked_thread_def upd_thread_def)

lemma hibernate_locked: "hibernate u (locked_thread t s) = locked_thread t (hibernate u s)"
  by (simp add: hibernate_def Let_def set_flag_locked clear_flag_locked lists_locked)

lemma kick_locked: "kick_unless_here me u (locked_thread t s) = locked_thread t (kick_unless_here me u s)"
  by (simp add: kick_unless_here_def) (simp add: sched_kick_processor_def locked_thread_def upd_thread_def)

lemma make_ready_locked:
  "make_ready u (locked_thread t s) = rbind (make_ready u s) (\<lambda>s1. Inr (locked_thread t s1))"
  by (cases "list_add_tail (lists (set_flag RUNNABLE_FLAG u s)) (ReadyL u) ReadyQ")
    (simp_all add: make_ready_def Let_def set_flag_locked set_lists_def lists_locked)

lemma restore_locked:
  "restore me u (locked_thread t s) = rbind (restore me u s) (\<lambda>s1. Inr (locked_thread t s1))"
  by (cases "make_ready u (clear_flag HIBERNATION_FLAG u s)")
    (simp_all add: restore_def Let_def clear_flag_locked make_ready_locked kick_locked)

lemma hibernate_counts:
  "preempt_count (threads (hibernate u s) t) = preempt_count (threads s t)"
  "lock_count (threads (hibernate u s) t) = lock_count (threads s t)"
  by (simp_all add: hibernate_def Let_def set_flag_def clear_flag_def upd_thread_def)

lemma quiet_counts:
  "quiet s s' \<Longrightarrow> preempt_count (threads s' t) = preempt_count (threads s t)"
  "quiet s s' \<Longrightarrow> lock_count (threads s' t) = lock_count (threads s t)"
  by (auto simp: quiet_def)

lemma hibernate_flags:
  assumes "(HIBERNATION_FLAG OR RUNNING_FLAG OR RUNNABLE_FLAG) AND g = 0"
  shows "has_flag (hibernate t s) u g = has_flag s u g"
proof -
  have "HIBERNATION_FLAG AND g = 0" "RUNNING_FLAG AND g = 0" "RUNNABLE_FLAG AND g = 0"
    using assms by (simp_all add: bit.conj_disj_distrib2 or_eq_0_iff)
  then show ?thesis
    by (auto simp: hibernate_def Let_def has_flag_set has_flag_clear and_not_disjoint)
qed

lemma hibernate_hibernating: "is_hibernating (hibernate t s) u = (is_hibernating s u \<or> u = t)"
  by (auto simp: hibernate_def Let_def flag_simps)

lemma restore_hibernating:
  assumes "restore me t s = Inr s'"
  shows "is_hibernating s' u = (is_hibernating s u \<and> u \<noteq> t)"
proof -
  have r: "has_flag s2 u g = has_flag (set_flag RUNNABLE_FLAG t s1) u g" if "make_ready t s1 = Inr s2" for s1 s2 g
    using that by (auto simp: make_ready_def Let_def set_lists_def res_simps)
  show ?thesis using assms r
    by (auto simp: restore_def Let_def res_simps flag_simps split: if_splits)
qed

section \<open>The operations implement the promise\<close>

lemma sem_okD:
  assumes "sem_ok sem as s v"
  shows "free_lock (m_lock (sem_mutex sem))" "- (2 ^ 31) \<le> sem_value sem" "sem_value sem < 2 ^ 31"
    "chain (sem_nodes sem) (sem_head sem) as" "distinct as" "length as = nat (- sem_value sem)"
    "distinct (waiters sem as)" "t \<in> set (waiters sem as) \<Longrightarrow> parked s v t"
  using assms by (simp_all add: sem_ok_def)

text \<open>The thread that calls: it runs, so it is on the ready queue and waits for nothing.\<close>

definition caller :: "sched \<Rightarrow> view \<Rightarrow> nat \<Rightarrow> bool" where
  "caller s v t = (t \<noteq> 0 \<and> t \<in> set (v_ready v) \<and> \<not> is_sleeping s t \<and> 0 \<le> lock_count (threads s t))"

lemma callerD:
  assumes i: "sched_inv s v" and c: "caller s v t"
  shows "0 \<le> preempt_count (threads s t)" "0 \<le> lock_count (threads s t)" "t \<in> set (v_all v)"
    "t \<notin> set (v_dead v)" "\<not> waits_join v t" "t \<noteq> 0"
proof -
  note D = sched_invD [OF i]
  have r: "t \<in> set (v_ready v)" using c by (simp add: caller_def)
  have d: "t \<in> dom (v_join v)" using D(6,9) r by blast
  show "0 \<le> preempt_count (threads s t)" using D(4) d by (auto simp: cpus_ok_def)
  show "t \<in> set (v_all v)" using D(9) r by blast
  show "t \<notin> set (v_dead v)" using queues_disjoint(5) [OF D(5)] r by blast
  show "\<not> waits_join v t" using queues_disjoint(6) [OF D(5)] r by blast
qed (use c in \<open>simp_all add: caller_def\<close>)

lemma parked_hibernate:
  assumes "parked s v w" and "w \<noteq> t"
  shows "parked (hibernate t s) (a_unready t v) w"
  using assms set_remove1_subset [of t "v_ready v"] by (auto simp: parked_def hibernate_hibernating)

lemma semaphore_pend_now:
  assumes i: "sched_inv s v" and ok: "sem_ok sem as s v" and c: "caller s v (current_thread s me)"
    and v: "0 < sem_value sem"
  obtains sem' where "semaphore_pend (Suc n) me addr sem s = Some (Inr (False, sem', s))"
    and "sem_ok sem' as s v" and "sem_abs sem' as = a_pend (current_thread s me) (sem_abs sem as)"
proof -
  let ?t = "current_thread s me"
  note O = sem_okD [OF ok] and C = callerD [OF i c]
  let ?m = "(sem_mutex sem)\<lparr>m_lock := owned_by ?t (m_lock (sem_mutex sem))\<rparr>"
  let ?m' = "?m\<lparr>m_lock := raw_spin_unlock ((m_lock ?m)\<lparr>owner := 0\<rparr>)\<rparr>"
  let ?sem = "sem\<lparr>sem_mutex := ?m, sem_value := sem_value sem - 1\<rparr>\<lparr>sem_mutex := ?m'\<rparr>"
  have ci: "c_int (sem_value sem - 1) = Inr (sem_value sem - 1)" using O(2,3) v by (simp add: c_int_def)
  have "semaphore_pend (Suc n) me addr sem s = Some (Inr (False, ?sem, s))"
    using v mutex_lock_free [OF O(1) C(1)] mutex_unlock_owned [OF C(1,2), of ?m] ci
    by (simp add: semaphore_pend_def Let_def)
  moreover have "as = []" using O(6) v by simp
  then have "sem_ok ?sem as s v" using ok v by (simp add: sem_ok_def waiters_def)
  moreover have "sem_abs ?sem as = a_pend ?t (sem_abs sem as)"
    using v by (simp add: sem_abs_def a_pend_def waiters_def nat_diff_distrib)
  ultimately show thesis by (rule that)
qed

lemma semaphore_pend_park:
  assumes i: "sched_inv s v" and ok: "sem_ok sem as s v" and c: "caller s v (current_thread s me)"
    and v: "sem_value sem \<le> 0" "- (2 ^ 31) < sem_value sem" and a: "addr \<noteq> 0" "addr \<notin> set as"
  obtains sem' where "semaphore_pend (Suc n) me addr sem s =
      Some (Inr (True, sem', hibernate (current_thread s me) s))"
    and "sem_ok sem' (as @ [addr]) (hibernate (current_thread s me) s) (a_unready (current_thread s me) v)"
    and "sched_inv (hibernate (current_thread s me) s) (a_unready (current_thread s me) v)"
    and "sem_abs sem' (as @ [addr]) = a_pend (current_thread s me) (sem_abs sem as)"
proof -
  define t where "t = current_thread s me"
  note O = sem_okD [OF ok] and C = callerD [OF i c, folded t_def] and D = sched_invD [OF i]
  have r: "t \<in> set (v_ready v)" "\<not> is_sleeping s t" using c by (simp_all add: caller_def t_def)
  have hi: "sched_inv (hibernate t s) (a_unready t v)"
    using hibernate_inv(1) [OF i C(3,4,5)] r(2) by blast
  let ?m = "(sem_mutex sem)\<lparr>m_lock := owned_by t (m_lock (sem_mutex sem))\<rparr>"
  let ?m' = "?m\<lparr>m_lock := raw_spin_unlock ((m_lock ?m)\<lparr>owner := 0\<rparr>)\<rparr>"
  obtain q nodes where app: "semaphore_list_append addr t (sem_head sem) (sem_nodes sem) = Some (Inr (q, nodes))"
    "chain nodes q (as @ [addr])" "map (fst \<circ> nodes) (as @ [addr]) = map (fst \<circ> sem_nodes sem) as @ [t]"
    by (rule semaphore_list_append_chain [OF O(4,5) a(2,1)])
  let ?sem = "sem\<lparr>sem_mutex := ?m, sem_value := sem_value sem - 1\<rparr>\<lparr>sem_head := q, sem_nodes := nodes, sem_mutex := ?m'\<rparr>"
  have ci: "c_int (sem_value sem - 1) = Inr (sem_value sem - 1)" using v by (simp add: c_int_def)
  have ul: "mutex_unlock t ?m (locked_thread t (hibernate t s)) = Inr (?m', hibernate t s)"
    by (rule mutex_unlock_owned) (use C(1,2) in \<open>simp_all add: hibernate_counts\<close>)
  have "semaphore_pend (Suc n) me addr sem s = Some (Inr (True, ?sem, hibernate t s))"
    using v mutex_lock_free [OF O(1) C(1)] ul ci app(1)
    by (simp add: semaphore_pend_def Let_def hibernate_thread_def hibernate_locked t_def [symmetric])
  moreover have w: "waiters ?sem (as @ [addr]) = waiters sem as @ [t]"
    using app(3) by (simp add: waiters_def)
  have nt: "t \<notin> set (waiters sem as)" using O(8) [of t] r(1) by (auto simp: parked_def)
  have pt: "parked (hibernate t s) (a_unready t v) t"
    using C queues_disjoint(1) [OF D(5)] by (simp add: parked_def hibernate_hibernating)
  have len: "length (as @ [addr]) = nat (- (sem_value sem - 1))" using O(6) v by simp
  have "\<forall>w \<in> set (waiters sem as @ [t]). parked (hibernate t s) (a_unready t v) w"
  proof
    fix w assume "w \<in> set (waiters sem as @ [t])"
    then show "parked (hibernate t s) (a_unready t v) w"
      using pt O(8) [of w] parked_hibernate [of s v w t] by (cases "w = t") auto
  qed
  then have "sem_ok ?sem (as @ [addr]) (hibernate t s) (a_unready t v)"
    unfolding sem_ok_def w
  proof (intro conjI)
    show "free_lock (m_lock (sem_mutex ?sem))" by simp
    show "- (2 ^ 31) \<le> sem_value ?sem" "sem_value ?sem < 2 ^ 31" using v O(3) by simp_all
    show "chain (sem_nodes ?sem) (sem_head ?sem) (as @ [addr])" using app(2) by simp
    show "distinct (as @ [addr])" "distinct (waiters sem as @ [t])" using O(5,7) a(2) nt by simp_all
    show "length (as @ [addr]) = nat (- sem_value ?sem)" using len by simp
  qed
  moreover have "sem_abs ?sem (as @ [addr]) = a_pend t (sem_abs sem as)"
    unfolding sem_abs_def w using v by (simp add: a_pend_def)
  ultimately show thesis using hi that unfolding t_def by blast
qed

lemma semaphore_post_add:
  assumes i: "sched_inv s v" and ok: "sem_ok sem as s v" and c: "caller s v (current_thread s me)"
    and v: "0 \<le> sem_value sem" "sem_value sem < 2 ^ 31 - 1"
  obtains sem' where "semaphore_post (Suc n) me sem s = Some (Inr (sem', s))"
    and "sem_ok sem' as s v" and "sem_abs sem' as = a_post (sem_abs sem as)" and "as = []"
proof -
  let ?t = "current_thread s me"
  note O = sem_okD [OF ok] and C = callerD [OF i c]
  let ?m = "(sem_mutex sem)\<lparr>m_lock := owned_by ?t (m_lock (sem_mutex sem))\<rparr>"
  let ?m' = "?m\<lparr>m_lock := raw_spin_unlock ((m_lock ?m)\<lparr>owner := 0\<rparr>)\<rparr>"
  let ?sem = "sem\<lparr>sem_mutex := ?m, sem_value := sem_value sem + 1\<rparr>\<lparr>sem_mutex := ?m'\<rparr>"
  have ci: "c_int (sem_value sem + 1) = Inr (sem_value sem + 1)" using v by (simp add: c_int_def)
  have ul: "mutex_unlock ?t ?m (locked_thread ?t s) = Inr (?m', s)"
    by (rule mutex_unlock_owned [OF C(1,2)]) simp
  have "semaphore_post (Suc n) me sem s = Some (Inr (?sem, s))"
    using v mutex_lock_free [OF O(1) C(1)] ul ci by (simp add: semaphore_post_def Let_def)
  moreover have e: "as = []" using O(6) v by simp
  then have "sem_ok ?sem as s v" using ok v by (simp add: sem_ok_def waiters_def)
  moreover have "sem_abs ?sem as = a_post (sem_abs sem as)"
    using v e by (simp add: sem_abs_def a_post_def waiters_def nat_add_distrib)
  ultimately show thesis using e by (rule that)
qed

lemma parked_ready:
  assumes "parked s v u" and "u \<noteq> w" and "is_hibernating s' u = is_hibernating s u"
  shows "parked s' (if b then v else a_ready w v) u"
  using assms by (auto simp: parked_def)

lemma semaphore_post_wake:
  assumes i: "sched_inv s v" and ok: "sem_ok sem (a # as) s v" and c: "caller s v (current_thread s me)"
  defines "w \<equiv> fst (sem_nodes sem a)"
  obtains sem' s' where "semaphore_post (Suc n) me sem s = Some (Inr (sem', s'))"
    and "sched_inv s' (if is_suspended s w \<or> is_sleeping s w then v else a_ready w v)"
    and "sem_ok sem' as s' (if is_suspended s w \<or> is_sleeping s w then v else a_ready w v)"
    and "sem_abs sem' as = a_post (sem_abs sem (a # as))"
    and "freed_nodes sem' = freed_nodes sem @ [a]" and "quiet s s'"
proof -
  define t where "t = current_thread s me"
  note O = sem_okD [OF ok] and C = callerD [OF i c, folded t_def]
  have h: "sem_head sem = a" "a \<noteq> 0" "chain (sem_nodes sem) (snd (sem_nodes sem a)) as" using O(4) by simp_all
  have ww: "waiters sem (a # as) = w # waiters sem as" by (simp add: waiters_def w_def)
  have neg: "sem_value sem < 0" "length as = nat (- (sem_value sem + 1))" using O(6) by simp_all
  have pw: "parked s v w" using O(8) ww by simp
  then have w: "w \<noteq> 0" "w \<in> set (v_all v)" "w \<notin> set (v_dead v)" "w \<notin> set (v_ready v)" "\<not> waits_join v w"
    by (simp_all add: parked_def)
  obtain s' where s': "restore me w s = Inr s'" "quiet s s'"
    "sched_inv s' (if is_suspended s w \<or> is_sleeping s w then v else a_ready w v)"
    by (rule restore_inv [OF i w(2-5)])
  let ?m = "(sem_mutex sem)\<lparr>m_lock := owned_by t (m_lock (sem_mutex sem))\<rparr>"
  let ?m' = "?m\<lparr>m_lock := raw_spin_unlock ((m_lock ?m)\<lparr>owner := 0\<rparr>)\<rparr>"
  let ?sem1 = "sem\<lparr>sem_mutex := ?m, sem_value := sem_value sem + 1\<rparr>"
  let ?sem = "?sem1\<lparr>sem_head := snd (sem_nodes sem a), freed_nodes := freed_nodes sem @ [a]\<rparr>\<lparr>sem_mutex := ?m'\<rparr>"
  have ci: "c_int (sem_value sem + 1) = Inr (sem_value sem + 1)" using neg O(2) by (simp add: c_int_def)
  have ul: "mutex_unlock t ?m (locked_thread t s') = Inr (?m', s')"
    by (rule mutex_unlock_owned) (use C(1,2) in \<open>simp_all add: quiet_counts [OF s'(2)]\<close>)
  have rt: "restore_thread me ?sem1 (locked_thread t s) =
      Inr (?sem1\<lparr>sem_head := snd (sem_nodes sem a), freed_nodes := freed_nodes sem @ [a]\<rparr>, locked_thread t s')"
    using h w(1) s'(1) by (simp add: restore_thread_def Let_def restore_locked semaphore_list_delete_first_def w_def)
  have "semaphore_post (Suc n) me sem s = Some (Inr (?sem, s'))"
    using neg mutex_lock_free [OF O(1) C(1)] ul ci rt
    by (simp add: semaphore_post_def Let_def t_def [symmetric])
  moreover have q: "waiters ?sem as = waiters sem as" by (simp add: waiters_def)
  have d: "w \<notin> set (waiters sem as)" "distinct (waiters sem as)" using O(7) ww by simp_all
  have "\<forall>u \<in> set (waiters sem as). parked s' (if is_suspended s w \<or> is_sleeping s w then v else a_ready w v) u"
  proof
    fix u assume u: "u \<in> set (waiters sem as)"
    then have "u \<noteq> w" using d(1) by auto
    then show "parked s' (if is_suspended s w \<or> is_sleeping s w then v else a_ready w v) u"
      using parked_ready [of s v u w s'] O(8) [of u] u ww restore_hibernating [OF s'(1), of u] by simp
  qed
  then have "sem_ok ?sem as s' (if is_suspended s w \<or> is_sleeping s w then v else a_ready w v)"
    unfolding sem_ok_def q using O(2,5) neg h(3) d(2) by simp
  moreover have "sem_abs ?sem as = a_post (sem_abs sem (a # as))"
    unfolding sem_abs_def q ww using neg by (simp add: a_post_def)
  ultimately show thesis using that s'(2,3) by simp
qed

section \<open>Properties\<close>

text \<open>
  C28: whatever the interleaving of any number of threads, at most one holds the spin lock; a thread
  in its critical section is the owner and cannot be preempted, no \<open>BUG_ON\<close> of the lock ever fires,
  and when nobody holds the lock the next attempt succeeds.
\<close>

theorem spin_mutual_exclusion:
  assumes "lock_start z0" and "lock_run z0 z"
  shows "(holds z t \<and> holds z u \<longrightarrow> t = u) \<and> lock_pc z t \<noteq> Stopped \<and>
    (lock_pc z t = Inside \<longrightarrow> owner (the_lock z) = t \<and> preempt_count (threads (lock_sched z) t) > 0 \<and>
       lock_pc (after_release t z) t = Leaving) \<and>
    ((\<forall>u. \<not> holds z u) \<longrightarrow> lock_pc (after_attempt t z) t = Won)"
proof -
  have i: "lock_inv z0 z" by (rule lock_run_inv [OF assms(2,1)])
  note D = lock_invD [OF i]
  have p0: "0 \<le> preempt_count (threads (lock_sched z0) t)" using assms(1) by (simp add: lock_start_def)
  then have p: "0 \<le> preempt_count (threads (lock_sched z) t)" using D(3) [of t] by simp
  have "t = u" if "holds z t" "holds z u" using D(4) [OF that(1), of u] that(2) by simp
  moreover have "lock_pc z t \<noteq> Stopped" using i by (simp add: lock_inv_def)
  moreover have "preempt_count (threads (lock_sched z) t) > 0 \<and> lock_pc (after_release t z) t = Leaving"
    if "lock_pc z t = Inside"
    using that D(1) [of t] D(3) [of t] p0 by (simp add: holds_def after_release_def spin_release_def)
  moreover have "lock_pc (after_attempt t z) t = Won" if "\<forall>u. \<not> holds z u"
    using that D(6) p by (simp add: after_attempt_def spin_attempt_eq)
  ultimately show ?thesis using D(1) by blast
qed

definition demo_locks :: lock_state where
  "demo_locks = \<lparr>the_lock = SPIN_LOCK_UNLOCKED, lock_sched = demo_running, lock_pc = (\<lambda>_. Outside)\<rparr>"

lemma demo_locks_start: "lock_start demo_locks"
  by (simp add: lock_start_def demo_locks_def SPIN_LOCK_UNLOCKED_def lock_byte_def demo_running_def
      demo_sched_def blank_thread_def)

theorem spin_mutual_exclusion_witness:
  "lock_pc (after_attempt 5 (demo_locks\<lparr>lock_pc := (lock_pc demo_locks)(5 := Trying)\<rparr>)) 5 = Won"
proof -
  let ?z = "demo_locks\<lparr>lock_pc := (lock_pc demo_locks)(5 := Trying)\<rparr>"
  have "lock_run demo_locks ?z"
    by (rule run_step [OF run_refl step_enter]) (simp_all add: demo_locks_def)
  moreover have "\<forall>u. \<not> holds ?z u" by (simp add: holds_def demo_locks_def)
  ultimately show ?thesis using spin_mutual_exclusion [OF demo_locks_start, of ?z 5] by blast
qed

text \<open>
  Run alone, \<open>os_spin_lock\<close> returns exactly when the lock is free, at its first attempt: a thread
  that takes a lock it already holds spins for ever.  \<open>os_spin_unlock\<close> frees the lock and leaves the
  counters of the thread as they were.
\<close>

theorem spin_lock_alone:
  assumes "lock_byte l = 0 \<or> lock_byte l = 1" and "0 \<le> preempt_count (threads s t)" and "0 \<le> lock_count (threads s t)"
  shows "(os_spin_lock n t l s = None \<longleftrightarrow> n = 0 \<or> lock_byte l = 0) \<and>
    (\<forall>l1 s1. os_spin_lock n t l s = Some (Inr (l1, s1)) \<longrightarrow>
       (\<forall>k. os_spin_lock k t l1 s1 = None) \<and>
       (\<exists>l2. os_spin_unlock t l1 s1 = Inr (l2, s) \<and> lock_byte l2 = 1))"
proof (cases "n = 0 \<or> lock_byte l = 0")
  case True
  then have "os_spin_lock n t l s = None" using os_spin_lock_held [OF _ assms(2)] by auto
  then show ?thesis using True by simp
next
  case False
  then obtain m where n: "n = Suc m" and f: "free_lock l"
    using assms(1) by (cases n) (auto simp: free_lock_def)
  have b: "lock_byte (owned_by t l) = 0" by (simp add: owned_by_def)
  have p: "0 \<le> preempt_count (threads (locked_thread t s) t)"
    using assms(2) by (simp add: locked_thread_def upd_thread_def)
  have "os_spin_lock k t (owned_by t l) (locked_thread t s) = None" for k
    by (rule os_spin_lock_held [OF b p])
  moreover have "os_spin_unlock t (owned_by t l) (locked_thread t s) =
      Inr (raw_spin_unlock ((owned_by t l)\<lparr>owner := 0\<rparr>), s)"
    by (rule os_spin_unlock_owned [OF assms(2,3)]) simp
  ultimately show ?thesis
    using False os_spin_lock_free [OF f assms(2)] n by (simp del: os_spin_lock.simps)
qed

theorem spin_lock_alone_witness:
  "os_spin_lock 9 5 (SPIN_LOCK_UNLOCKED\<lparr>slock := 0\<rparr>) demo_running = None"
proof -
  let ?l = "SPIN_LOCK_UNLOCKED\<lparr>slock := 0\<rparr>"
  have "lock_byte ?l = 0" by (simp add: lock_byte_def)
  moreover have "0 \<le> preempt_count (threads demo_running 5)" "0 \<le> lock_count (threads demo_running 5)"
    by (simp_all add: demo_running_def demo_sched_def blank_thread_def)
  ultimately show ?thesis using spin_lock_alone [of ?l demo_running 5 9] by blast
qed

text \<open>
  C29: \<open>semaphore_pend\<close> takes a permit at once if there is one; otherwise it appends the caller to the
  queue, takes it off the ready queue and goes on to \<open>schedule\<close>.  It keeps the invariants of the
  semaphore and of the scheduler.
\<close>

theorem semaphore_pend_refines:
  assumes i: "sched_inv s v" and ok: "sem_ok sem as s v" and c: "caller s v (current_thread s me)"
    and r: "- (2 ^ 31) < sem_value sem" and a: "addr \<noteq> 0" "addr \<notin> set as"
  shows "\<exists>b sem' s' as' v'. semaphore_pend (Suc n) me addr sem s = Some (Inr (b, sem', s')) \<and>
    sched_inv s' v' \<and> sem_ok sem' as' s' v' \<and>
    sem_abs sem' as' = a_pend (current_thread s me) (sem_abs sem as) \<and>
    b = (permits (sem_abs sem as) = 0) \<and>
    v_ready v' = (if b then remove1 (current_thread s me) (v_ready v) else v_ready v)"
proof (cases "0 < sem_value sem")
  case True
  then have p: "permits (sem_abs sem as) \<noteq> 0" by (simp add: sem_abs_def)
  obtain sem' where "semaphore_pend (Suc n) me addr sem s = Some (Inr (False, sem', s))"
    "sem_ok sem' as s v" "sem_abs sem' as = a_pend (current_thread s me) (sem_abs sem as)"
    by (rule semaphore_pend_now [OF i ok c True])
  then show ?thesis using i p by fastforce
next
  case False
  then have p: "permits (sem_abs sem as) = 0" by (simp add: sem_abs_def)
  let ?t = "current_thread s me"
  obtain sem' where "semaphore_pend (Suc n) me addr sem s = Some (Inr (True, sem', hibernate ?t s))"
    "sem_ok sem' (as @ [addr]) (hibernate ?t s) (a_unready ?t v)"
    "sched_inv (hibernate ?t s) (a_unready ?t v)" "sem_abs sem' (as @ [addr]) = a_pend ?t (sem_abs sem as)"
    by (rule semaphore_pend_park [OF i ok c _ r a]) (use False in simp)
  then show ?thesis using p a_unready_simps(1) [of ?t v] by fastforce
qed

text \<open>
  C30: \<open>semaphore_post\<close> gives the permit to the thread that has waited longest, which becomes ready
  unless it is suspended or sleeping, and counts it when nobody waits.
\<close>

theorem semaphore_post_refines:
  assumes i: "sched_inv s v" and ok: "sem_ok sem as s v" and c: "caller s v (current_thread s me)"
    and r: "sem_value sem < 2 ^ 31 - 1"
  shows "\<exists>sem' s' as' v'. semaphore_post (Suc n) me sem s = Some (Inr (sem', s')) \<and>
    sched_inv s' v' \<and> sem_ok sem' as' s' v' \<and> sem_abs sem' as' = a_post (sem_abs sem as) \<and>
    v_ready v' = v_ready v @
      filter (\<lambda>w. \<not> is_suspended s w \<and> \<not> is_sleeping s w) (take 1 (sem_queue (sem_abs sem as)))"
proof (cases as)
  case Nil
  then have v: "0 \<le> sem_value sem" using sem_okD(6) [OF ok] by simp
  obtain sem' where "semaphore_post (Suc n) me sem s = Some (Inr (sem', s))" "sem_ok sem' as s v"
    "sem_abs sem' as = a_post (sem_abs sem as)"
    by (rule semaphore_post_add [OF i ok c v r])
  then show ?thesis using i Nil by (fastforce simp: sem_abs_def waiters_def)
next
  case (Cons a bs)
  let ?w = "fst (sem_nodes sem a)"
  let ?v = "if is_suspended s ?w \<or> is_sleeping s ?w then v else a_ready ?w v"
  obtain sem' s' where "semaphore_post (Suc n) me sem s = Some (Inr (sem', s'))" "sched_inv s' ?v"
    "sem_ok sem' bs s' ?v" "sem_abs sem' bs = a_post (sem_abs sem (a # bs))"
    by (rule semaphore_post_wake [OF i ok [unfolded Cons] c])
  moreover have "v_ready ?v = v_ready v @
      filter (\<lambda>w. \<not> is_suspended s w \<and> \<not> is_sleeping s w) (take 1 (sem_queue (sem_abs sem as)))"
    using Cons by (simp add: sem_abs_def waiters_def)
  ultimately show ?thesis using Cons by blast
qed

definition demo_sem :: semaphore where
  "demo_sem = \<lparr>sem_value = 0, sem_mutex = \<lparr>m_lock = SPIN_LOCK_UNLOCKED, m_lock_addr = 32\<rparr>, sem_mutex_addr = 16,
     sem_head = 0, sem_nodes = (\<lambda>_. (0, 0)), freed_nodes = []\<rparr>"

lemma demo_sem_ok: "sem_ok demo_sem [] demo_running demo_view"
  by (simp add: sem_ok_def demo_sem_def free_lock_def lock_byte_def SPIN_LOCK_UNLOCKED_def waiters_def)

lemma demo_caller: "caller demo_running demo_view (current_thread demo_running 0)"
  by (simp add: caller_def demo_running_def demo_view_def demo_sched_def has_flag_def blank_thread_def
      thread_flag_defs)

theorem semaphore_pend_refines_witness:
  "\<exists>sem' s'. semaphore_pend 1 0 48 demo_sem demo_running = Some (Inr (True, sem', s'))"
  using semaphore_pend_refines [OF demo_running_inv demo_sem_ok demo_caller, of 48 0]
  by (auto simp: demo_sem_def sem_abs_def)

theorem semaphore_post_refines_witness:
  "\<exists>sem' s' as. semaphore_post 1 0 demo_sem demo_running = Some (Inr (sem', s')) \<and>
     permits (sem_abs sem' as) = 1"
  using semaphore_post_refines [OF demo_running_inv demo_sem_ok demo_caller, of 0]
  by (auto simp: demo_sem_def sem_abs_def a_post_def waiters_def)

end
