(* ===== verification/Events.thy ===== *)
theory Events
  imports Sched_Props
begin

text \<open>
  Event channels: \<^verbatim>\<open>events.c\<close>, which dispatches an event to the handler of its port, and the part
  of \<^verbatim>\<open>hypervisor.c\<close> that finds the pending ports in the page shared with Xen.

  \<^verbatim>\<open>evtchn_pending\<close> and \<^verbatim>\<open>evtchn_mask\<close> are 64 words of 64 bits (\<^verbatim>\<open>include/public/xen.h\<close>).  A
  handler is a number, 0 for a null pointer and 1 for \<^verbatim>\<open>default_handler\<close>; what the handlers do is
  the argument \<open>run\<close>, a function on the state, and \<open>calls\<close> records the calls.  The results of the
  hypercalls are arguments too; \<^verbatim>\<open>force_evtchn_callback\<close> is recorded in \<open>forced\<close>.
\<close>

section \<open>State\<close>

record ev_action =
  ev_cpu :: int
  handler :: nat
  ev_data :: nat
  ev_count :: u32

record events =
  pending :: "nat \<Rightarrow> u64"
  evmask :: "nat \<Rightarrow> u64"
  pending_sel :: "nat \<Rightarrow> u64"
  upcall_pending :: "nat \<Rightarrow> bool"
  upcall_mask :: "nat \<Rightarrow> bool"
  upcall_count :: "nat \<Rightarrow> int"
  ev_actions :: "nat \<Rightarrow> ev_action"
  bound_ports :: "nat \<Rightarrow> u64"
  virq_used :: "nat \<Rightarrow> bool"
  forced :: "nat list"
  calls :: "(nat \<times> nat \<times> nat) list"
  ev_sched :: sched

type_synonym handlers = "nat \<Rightarrow> nat \<Rightarrow> nat \<Rightarrow> events \<Rightarrow> events res"

definition NR_EVS :: nat where "NR_EVS = 1024"
definition NR_VIRQS :: nat where "NR_VIRQS = 24"
definition ANY_CPU :: int where "ANY_CPU = - 1"
definition IRQ_ACTIVE :: int where "IRQ_ACTIVE = 0x00100000"
definition default_handler :: nat where "default_handler = 1"

text \<open>The bit operations on a bitmap of 64 words; a bit beyond it is outside the object.\<close>

definition map_bit :: "(nat \<Rightarrow> u64) \<Rightarrow> nat \<Rightarrow> bool" where
  "map_bit a p = bit (a (p div 64)) (p mod 64)"

definition synch_set_bit :: "nat \<Rightarrow> (nat \<Rightarrow> u64) \<Rightarrow> (nat \<Rightarrow> u64)" where
  "synch_set_bit p a = a(p div 64 := set_bit (p mod 64) (a (p div 64)))"

definition synch_clear_bit :: "nat \<Rightarrow> (nat \<Rightarrow> u64) \<Rightarrow> (nat \<Rightarrow> u64)" where
  "synch_clear_bit p a = a(p div 64 := unset_bit (p mod 64) (a (p div 64)))"

definition in_bitmap :: "nat \<Rightarrow> 'a res \<Rightarrow> 'a res" where
  "in_bitmap p k = (if p < 4096 then k else Inl Undef)"

section \<open>Masking\<close>

definition mask_evtchn :: "nat \<Rightarrow> events \<Rightarrow> events res" where
  "mask_evtchn p e = in_bitmap p (Inr (e\<lparr>evmask := synch_set_bit p (evmask e)\<rparr>))"

definition clear_evtchn :: "nat \<Rightarrow> events \<Rightarrow> events res" where
  "clear_evtchn p e = in_bitmap p (Inr (e\<lparr>pending := synch_clear_bit p (pending e)\<rparr>))"

text \<open>The bit of \<^verbatim>\<open>evtchn_pending_sel\<close> is \<^verbatim>\<open>port>>5\<close>; \<^verbatim>\<open>synch_test_and_set_bit\<close> on that one word
  reaches the memory after it for a port of 2048 or more.\<close>

definition unmask_evtchn :: "nat \<Rightarrow> nat \<Rightarrow> events \<Rightarrow> events res" where
  "unmask_evtchn me p e =
     in_bitmap p
       (let e1 = e\<lparr>evmask := synch_clear_bit p (evmask e)\<rparr> in
        if map_bit (pending e1) p then
          if p div 32 \<ge> 64 then Inl Undef
          else if \<not> bit (pending_sel e1 me) (p div 32) then
            let e2 = e1\<lparr>pending_sel := (pending_sel e1)(me := set_bit (p div 32) (pending_sel e1 me)),
                        upcall_pending := (upcall_pending e1)(me := True)\<rparr>
            in Inr (if \<not> upcall_mask e2 me then e2\<lparr>forced := forced e2 @ [me]\<rparr> else e2)
          else Inr e1
        else Inr e1)"

section \<open>Dispatching an event\<close>

definition ev_preempt :: "nat \<Rightarrow> int \<Rightarrow> events \<Rightarrow> events res" where
  "ev_preempt me v e =
     rbind (add_preempt_count (current_thread (ev_sched e) me) v (ev_sched e)) (\<lambda>s. Inr (e\<lparr>ev_sched := s\<rparr>))"

definition call_handler :: "handlers \<Rightarrow> nat \<Rightarrow> nat \<Rightarrow> events \<Rightarrow> events res" where
  "call_handler run me p e =
     (if p \<ge> NR_EVS then Inr e
      else
        let a = (ev_actions e p)\<lparr>ev_count := ev_count (ev_actions e p) + 1\<rparr>;
            e1 = e\<lparr>ev_actions := (ev_actions e)(p := a)\<rparr>
        in if ev_cpu a \<noteq> ANY_CPU \<and> ev_cpu a \<noteq> int me then Inr e1
           else if handler a \<noteq> 0
             then run (handler a) p (ev_data a) (e1\<lparr>calls := calls e1 @ [(handler a, p, ev_data a)]\<rparr>)
             else Inr e1)"

definition do_event :: "handlers \<Rightarrow> nat \<Rightarrow> nat \<Rightarrow> events \<Rightarrow> events res" where
  "do_event run me p e =
     rbind (ev_preempt me IRQ_ACTIVE e) (\<lambda>e1.
     rbind (mask_evtchn p e1) (\<lambda>e2.
     rbind (clear_evtchn p e2) (\<lambda>e3.
     rbind (call_handler run me p e3) (\<lambda>e4.
     rbind (unmask_evtchn me p e4) (\<lambda>e5. ev_preempt me (- IRQ_ACTIVE) e5)))))"

section \<open>Finding the pending ports\<close>

text \<open>\<^verbatim>\<open>l1\<close> and \<^verbatim>\<open>l2\<close> are 32-bit variables, so they drop the upper half of the words they are
  given.  \<^verbatim>\<open>__ffs\<close> is undefined on 0, where it is not called.\<close>

definition ffs32 :: "u32 \<Rightarrow> nat" where
  "ffs32 w = hd (filter (bit w) [0..<32])"

definition active_evtchns :: "nat \<Rightarrow> events \<Rightarrow> u32" where
  "active_evtchns i e = ucast (pending e i AND NOT (evmask e i))"

text \<open>The loops return \<open>None\<close> when the fuel does not suffice.\<close>

fun port_loop :: "nat \<Rightarrow> handlers \<Rightarrow> nat \<Rightarrow> nat \<Rightarrow> events \<Rightarrow> events res option" where
  "port_loop 0 run me i e = None"
| "port_loop (Suc n) run me i e =
     (let l2 = active_evtchns i e in
      if l2 = 0 then Some (Inr e)
      else case do_event run me (i * 32 + ffs32 l2) e of
             Inl x \<Rightarrow> Some (Inl x)
           | Inr e1 \<Rightarrow> port_loop n run me i e1)"

fun sel_loop :: "nat \<Rightarrow> handlers \<Rightarrow> nat \<Rightarrow> u32 \<Rightarrow> events \<Rightarrow> events res option" where
  "sel_loop 0 run me l1 e = None"
| "sel_loop (Suc n) run me l1 e =
     (if l1 = 0 then Some (Inr e)
      else case port_loop n run me (ffs32 l1) e of
             None \<Rightarrow> None
           | Some (Inl x) \<Rightarrow> Some (Inl x)
           | Some (Inr e1) \<Rightarrow> sel_loop n run me (unset_bit (ffs32 l1) l1) e1)"

fun do_hypervisor_callback :: "nat \<Rightarrow> handlers \<Rightarrow> nat \<Rightarrow> events \<Rightarrow> events res option" where
  "do_hypervisor_callback 0 run me e = None"
| "do_hypervisor_callback (Suc n) run me e =
     (let e1 = e\<lparr>upcall_pending := (upcall_pending e)(me := False),
                 upcall_count := (upcall_count e)(me := upcall_count e me + 1)\<rparr> in
      if upcall_count e me \<noteq> 0 then Some (Inr e1)
      else
        let l1 = ucast (pending_sel e1 me);
            e2 = e1\<lparr>pending_sel := (pending_sel e1)(me := 0)\<rparr>
        in case sel_loop n run me l1 e2 of
             None \<Rightarrow> None
           | Some (Inl x) \<Rightarrow> Some (Inl x)
           | Some (Inr e3) \<Rightarrow>
               let count = upcall_count e3 me;
                   e4 = e3\<lparr>upcall_count := (upcall_count e3)(me := 0)\<rparr>
               in if count \<noteq> 1 then do_hypervisor_callback n run me e4 else Some (Inr e4))"

section \<open>Binding\<close>

definition bind_evtchn :: "nat \<Rightarrow> nat \<Rightarrow> int \<Rightarrow> nat \<Rightarrow> nat \<Rightarrow> events \<Rightarrow> (nat \<times> events) res" where
  "bind_evtchn me p c h d e =
     (if p \<ge> NR_EVS then Inl Undef
      else rbind (unmask_evtchn me p
             (e\<lparr>ev_actions := (ev_actions e)(p := \<lparr>ev_cpu = c, handler = h, ev_data = d, ev_count = 0\<rparr>)\<rparr>)) (\<lambda>e1.
        Inr (p, e1)))"

definition unbind_evtchn :: "nat \<Rightarrow> events \<Rightarrow> events res" where
  "unbind_evtchn p e =
     (if p \<ge> NR_EVS then Inl Undef
      else Inr (e\<lparr>ev_actions := (ev_actions e)(p := (ev_actions e p)\<lparr>handler := default_handler, ev_data := 0\<rparr>)\<rparr>))"

text \<open>\<^verbatim>\<open>set_bit\<close> on the array \<^verbatim>\<open>bound_ports\<close> of 16 words.\<close>

definition set_bound :: "nat \<Rightarrow> events \<Rightarrow> events res" where
  "set_bound p e = (if p < NR_EVS then Inr (e\<lparr>bound_ports := synch_set_bit p (bound_ports e)\<rparr>) else Inl Undef)"

text \<open>
  \<open>bind_virq\<close> asks Xen for the port of a virtual interrupt: for the processor it runs on, \<open>me\<close>,
  whatever \<open>c\<close> is.  \<open>hyper\<close> is the hypercall, from the interrupt and the processor to its result
  and the port.
\<close>

definition bind_virq ::
    "(nat \<Rightarrow> nat \<Rightarrow> int \<times> nat) \<Rightarrow> nat \<Rightarrow> nat \<Rightarrow> int \<Rightarrow> nat \<Rightarrow> nat \<Rightarrow> events \<Rightarrow> (int \<times> events) res" where
  "bind_virq hyper me virq c h d e =
     (case hyper virq me of (err, p) \<Rightarrow>
        bug_on (err \<noteq> 0)
          (rbind (set_bound p e) (\<lambda>e1. rbind (bind_evtchn me p c h d e1) (\<lambda>(_, e2). Inr (0, e2)))))"

definition evtchn_alloc_ipi ::
    "(nat \<Rightarrow> int \<times> nat) \<Rightarrow> nat \<Rightarrow> nat \<Rightarrow> nat \<Rightarrow> nat \<Rightarrow> events \<Rightarrow> (nat \<times> events) res" where
  "evtchn_alloc_ipi hyper me h c d e =
     (case hyper c of (err, p) \<Rightarrow>
        bug_on (err \<noteq> 0)
          (rbind (set_bound p e) (\<lambda>e1. rbind (bind_evtchn me p (int c) h d e1) (\<lambda>(_, e2). Inr (p, e2)))))"

fun mask_all :: "nat \<Rightarrow> events \<Rightarrow> events res" where
  "mask_all 0 e = Inr e"
| "mask_all (Suc n) e =
     rbind (mask_all n e) (\<lambda>e1.
       mask_evtchn n (e1\<lparr>ev_actions := (ev_actions e1)(n := (ev_actions e1 n)\<lparr>handler := default_handler\<rparr>)\<rparr>))"

definition init_events :: "events \<Rightarrow> events res" where
  "init_events e =
     rbind (mask_all NR_EVS e) (\<lambda>e1. Inr (e1\<lparr>virq_used := (\<lambda>i. if i < NR_VIRQS then False else virq_used e1 i)\<rparr>))"

section \<open>One event\<close>

text \<open>Handlers that do not touch the event channels and leave the thread counters as they were.\<close>

definition quiet_handlers :: "handlers \<Rightarrow> bool" where
  "quiet_handlers run =
     (\<forall>h p d e. \<exists>S. run h p d e = Inr (e\<lparr>ev_sched := S\<rparr>) \<and>
        current_thread S = current_thread (ev_sched e) \<and>
        (\<forall>t. preempt_count (threads S t) = preempt_count (threads (ev_sched e) t)))"

text \<open>Everything that \<open>do_event\<close> leaves alone, and the actions up to their counters.\<close>

definition same_action :: "ev_action \<Rightarrow> ev_action \<Rightarrow> bool" where
  "same_action a b = (ev_cpu b = ev_cpu a \<and> handler b = handler a \<and> ev_data b = ev_data a)"

definition same_rest :: "events \<Rightarrow> events \<Rightarrow> bool" where
  "same_rest e e' =
     (evmask e' = evmask e \<and> pending_sel e' = pending_sel e \<and> upcall_count e' = upcall_count e \<and>
      upcall_pending e' = upcall_pending e \<and> forced e' = forced e \<and>
      (\<forall>p. same_action (ev_actions e p) (ev_actions e' p)) \<and>
      current_thread (ev_sched e') = current_thread (ev_sched e) \<and>
      (\<forall>t. preempt_count (threads (ev_sched e') t) = preempt_count (threads (ev_sched e) t)))"

lemma same_rest_refl: "same_rest e e"
  by (simp add: same_rest_def same_action_def)

lemma same_rest_trans: "same_rest a b \<Longrightarrow> same_rest b c \<Longrightarrow> same_rest a c"
  by (simp add: same_rest_def same_action_def)

text \<open>The calls that the event of a port makes on the processor \<open>me\<close>: one or none.\<close>

definition calls_for :: "events \<Rightarrow> nat \<Rightarrow> nat \<Rightarrow> (nat \<times> nat \<times> nat) list" where
  "calls_for e me p =
     (let a = ev_actions e p in
      if (ev_cpu a = ANY_CPU \<or> ev_cpu a = int me) \<and> handler a \<noteq> 0 then [(handler a, p, ev_data a)] else [])"

lemma calls_for_same: "same_rest e e' \<Longrightarrow> calls_for e' me = calls_for e me"
  by (simp add: same_rest_def same_action_def calls_for_def Let_def fun_eq_iff)

definition able :: "events \<Rightarrow> nat \<Rightarrow> bool" where
  "able e me = (0 \<le> preempt_count (threads (ev_sched e) (current_thread (ev_sched e) me)))"

lemma able_same: "same_rest e e' \<Longrightarrow> able e' me = able e me"
  by (simp add: same_rest_def able_def)

lemma map_bit_clear [simp]: "map_bit (synch_clear_bit p a) q = (map_bit a q \<and> q \<noteq> p)"
proof -
  have "q \<noteq> p \<Longrightarrow> q div 64 = p div 64 \<Longrightarrow> q mod 64 \<noteq> p mod 64" by (metis div_mult_mod_eq)
  then show ?thesis by (auto simp: map_bit_def synch_clear_bit_def bit_unset_bit_iff)
qed

lemma clear_set_bit: "synch_clear_bit p (synch_set_bit p a) = synch_clear_bit p a"
  by (auto simp: synch_clear_bit_def synch_set_bit_def fun_eq_iff bit_eq_iff bit_unset_bit_iff bit_set_bit_iff)

lemma clear_clear_bit: "\<not> map_bit a p \<Longrightarrow> synch_clear_bit p a = a"
proof -
  have "unset_bit k w = w" if "\<not> bit w k" for k and w :: u64
    using that by (intro bit_word_eqI) (auto simp: bit_unset_bit_iff)
  then show "\<not> map_bit a p \<Longrightarrow> synch_clear_bit p a = a" by (simp add: synch_clear_bit_def map_bit_def)
qed

lemma call_handler_quiet:
  assumes q: "quiet_handlers run" and p: "p < NR_EVS"
  obtains S e4 acts cs where "call_handler run me p e = Inr e4"
    and "e4 = e\<lparr>ev_actions := acts, calls := cs, ev_sched := S\<rparr>"
    and "current_thread S = current_thread (ev_sched e)"
    and "\<forall>u. preempt_count (threads S u) = preempt_count (threads (ev_sched e) u)"
    and "\<forall>r. same_action (ev_actions e r) (acts r)" and "cs = calls e @ calls_for e me p"
proof -
  define a' where "a' = (ev_actions e p)\<lparr>ev_count := ev_count (ev_actions e p) + 1\<rparr>"
  define acts where "acts = (ev_actions e)(p := a')"
  have sa: "\<forall>r. same_action (ev_actions e r) (acts r)"
    by (simp add: acts_def a'_def same_action_def)
  have f: "ev_cpu a' = ev_cpu (ev_actions e p)" "handler a' = handler (ev_actions e p)"
    "ev_data a' = ev_data (ev_actions e p)"
    by (simp_all add: a'_def)
  show thesis
  proof (cases "(ev_cpu a' = ANY_CPU \<or> ev_cpu a' = int me) \<and> handler a' \<noteq> 0")
    case True
    define e1 where "e1 = e\<lparr>ev_actions := acts, calls := calls e @ [(handler a', p, ev_data a')]\<rparr>"
    obtain S where S: "run (handler a') p (ev_data a') e1 = Inr (e1\<lparr>ev_sched := S\<rparr>)"
      "current_thread S = current_thread (ev_sched e1)"
      "\<forall>u. preempt_count (threads S u) = preempt_count (threads (ev_sched e1) u)"
      using q unfolding quiet_handlers_def by blast
    have "call_handler run me p e = Inr (e1\<lparr>ev_sched := S\<rparr>)"
      using True S(1) p by (auto simp: call_handler_def Let_def a'_def acts_def e1_def)
    then show thesis
      by (rule that) (use S(2,3) sa True f in \<open>simp_all add: e1_def calls_for_def Let_def\<close>)
  next
    case False
    have "call_handler run me p e = Inr (e\<lparr>ev_actions := acts\<rparr>)"
      using False p by (auto simp: call_handler_def Let_def a'_def acts_def)
    then show thesis
      by (rule that [where acts = acts and cs = "calls e" and S = "ev_sched e"])
        (use sa False f in \<open>auto simp: calls_for_def Let_def\<close>)
  qed
qed

lemma do_event_quiet:
  assumes q: "quiet_handlers run" and p: "p < NR_EVS" and a: "able e me"
  obtains e' where "do_event run me p e = Inr e'"
    and "same_rest (e\<lparr>evmask := synch_clear_bit p (evmask e)\<rparr>) e'"
    and "pending e' = synch_clear_bit p (pending e)" and "calls e' = calls e @ calls_for e me p"
proof -
  define t where "t = current_thread (ev_sched e) me"
  define e3 where "e3 = e\<lparr>ev_sched := upd_thread (ev_sched e) t (\<lambda>th. th\<lparr>preempt_count := preempt_count th + IRQ_ACTIVE\<rparr>),
    evmask := synch_set_bit p (evmask e), pending := synch_clear_bit p (pending e)\<rparr>"
  have p4: "p < 4096" using p by (simp add: NR_EVS_def)
  obtain S e4 acts where e4: "call_handler run me p e3 = Inr e4"
    "e4 = e3\<lparr>ev_actions := acts, calls := calls e3 @ calls_for e3 me p, ev_sched := S\<rparr>"
    "current_thread S = current_thread (ev_sched e3)"
    "\<forall>u. preempt_count (threads S u) = preempt_count (threads (ev_sched e3) u)"
    "\<forall>r. same_action (ev_actions e3 r) (acts r)"
    by (rule call_handler_quiet [OF q p]) blast
  have cf: "calls_for e3 me p = calls_for e me p" "calls e3 = calls e"
    by (simp_all add: calls_for_def Let_def e3_def)
  have m: "evmask e4 = synch_set_bit p (evmask e)" "pending e4 = synch_clear_bit p (pending e)"
    "pending_sel e4 = pending_sel e" "upcall_count e4 = upcall_count e" "upcall_pending e4 = upcall_pending e"
    "forced e4 = forced e" "ev_sched e4 = S" "ev_actions e3 = ev_actions e"
    using e4(2) by (auto simp: e3_def)
  have um: "unmask_evtchn me p e4 = Inr (e4\<lparr>evmask := synch_clear_bit p (evmask e)\<rparr>)"
    using p4 by (simp add: unmask_evtchn_def in_bitmap_def Let_def m clear_set_bit)
  define S' where "S' = upd_thread S t (\<lambda>th. th\<lparr>preempt_count := preempt_count th - IRQ_ACTIVE\<rparr>)"
  have cur: "current_thread S me = t" using e4(3) by (simp add: e3_def t_def upd_thread_def)
  have pc: "preempt_count (threads S u) = preempt_count (threads (ev_sched e) u) + (if u = t then IRQ_ACTIVE else 0)" for u
    using e4(4) by (simp add: e3_def upd_thread_def)
  have ge: "0 \<le> preempt_count (threads (ev_sched e) t)" using a by (simp add: able_def t_def)
  have ex: "do_event run me p e = Inr (e4\<lparr>evmask := synch_clear_bit p (evmask e), ev_sched := S'\<rparr>)"
  proof -
    have "ev_preempt me IRQ_ACTIVE e = Inr (e\<lparr>ev_sched := upd_thread (ev_sched e) t (\<lambda>th. th\<lparr>preempt_count := preempt_count th + IRQ_ACTIVE\<rparr>)\<rparr>)"
      using ge by (simp add: ev_preempt_def add_preempt_count_def Let_def t_def upd_thread_def IRQ_ACTIVE_def)
    moreover have "ev_preempt me (- IRQ_ACTIVE) (e4\<lparr>evmask := synch_clear_bit p (evmask e)\<rparr>) =
        Inr (e4\<lparr>evmask := synch_clear_bit p (evmask e), ev_sched := S'\<rparr>)"
      using ge pc [of t] cur by (simp add: ev_preempt_def add_preempt_count_def Let_def S'_def m(7) upd_thread_def)
    moreover have "mask_evtchn p x = Inr (x\<lparr>evmask := synch_set_bit p (evmask x)\<rparr>)"
      "clear_evtchn p x = Inr (x\<lparr>pending := synch_clear_bit p (pending x)\<rparr>)" for x
      using p4 by (simp_all add: mask_evtchn_def clear_evtchn_def in_bitmap_def)
    ultimately show ?thesis using e4(1) um by (simp add: do_event_def e3_def)
  qed
  moreover have "same_rest (e\<lparr>evmask := synch_clear_bit p (evmask e)\<rparr>) (e4\<lparr>evmask := synch_clear_bit p (evmask e), ev_sched := S'\<rparr>)"
    using e4(2,3,5) pc m by (simp add: same_rest_def S'_def e3_def upd_thread_def)
  ultimately show thesis using that m(2) e4(2) cf by simp
qed

section \<open>The ports of the first word\<close>

text \<open>The pending ports below 32 that are not masked, in ascending order.\<close>

definition due :: "events \<Rightarrow> nat list" where
  "due e = filter (\<lambda>p. map_bit (pending e) p \<and> \<not> map_bit (evmask e) p) [0..<32]"

lemma map_bit_low: "p < 64 \<Longrightarrow> map_bit a p = bit (a 0) p"
  by (simp add: map_bit_def)

lemma due_active: "due e = filter (bit (active_evtchns 0 e)) [0..<32]"
  unfolding due_def by (rule filter_cong) (auto simp: active_evtchns_def map_bit_low bit_simps)

lemma filter_bit_Nil: "filter (bit w) [0..<32] = [] \<longleftrightarrow> w = 0" for w :: u32
  by (auto simp: filter_empty_conv bit_word_eqI intro!: bit_word_eqI)

lemma due_Nil: "due e = [] \<longleftrightarrow> active_evtchns 0 e = 0"
  unfolding due_active by (rule filter_bit_Nil)

lemma ffs32_due: "due e = p # ps \<Longrightarrow> ffs32 (active_evtchns 0 e) = p"
  unfolding due_active by (simp add: ffs32_def)

lemma due_clear:
  assumes "due e = p # ps" and "pending e' = synch_clear_bit p (pending e)" and "evmask e' = evmask e"
  shows "due e' = ps"
proof -
  have "due e' = filter (\<lambda>q. q \<noteq> p) (due e)" unfolding due_def using assms(2,3) by (auto intro!: filter_cong)
  moreover have "distinct (due e)" by (simp add: due_def)
  ultimately show ?thesis using assms(1) by (auto simp: filter_id_conv)
qed

lemma port_loop_due:
  assumes "quiet_handlers run" and "length (due e) < n" and "able e me"
  obtains e' where "port_loop n run me 0 e = Some (Inr e')" and "same_rest e e'"
    and "calls e' = calls e @ concat (map (calls_for e me) (due e))"
    and "\<And>p. map_bit (pending e') p \<longleftrightarrow> map_bit (pending e) p \<and> p \<notin> set (due e)"
  using assms(2,3)
proof (induction n arbitrary: e thesis)
  case (Suc n)
  show ?case
  proof (cases "due e")
    case Nil
    then show ?thesis using Suc.prems(1) [of e] due_Nil [of e] by (simp add: same_rest_refl)
  next
    case (Cons p ps)
    have "p \<in> set (due e)" using Cons by simp
    then have p: "p < 32" "\<not> map_bit (evmask e) p" by (simp_all add: due_def)
    obtain e1 where e1: "do_event run me p e = Inr e1"
      "same_rest (e\<lparr>evmask := synch_clear_bit p (evmask e)\<rparr>) e1"
      "pending e1 = synch_clear_bit p (pending e)" "calls e1 = calls e @ calls_for e me p"
      by (rule do_event_quiet [OF assms(1) _ Suc.prems(3), of p]) (use p in \<open>simp_all add: NR_EVS_def\<close>)
    have sr: "same_rest e e1" using e1(2) clear_clear_bit [OF p(2)] by simp
    then have d: "due e1 = ps" using due_clear [OF Cons e1(3)] by (simp add: same_rest_def)
    obtain e' where e': "port_loop n run me 0 e1 = Some (Inr e')" "same_rest e1 e'"
      "calls e' = calls e1 @ concat (map (calls_for e1 me) (due e1))"
      "\<And>p. map_bit (pending e') p \<longleftrightarrow> map_bit (pending e1) p \<and> p \<notin> set (due e1)"
      by (rule Suc.IH [of e1]) (use Suc.prems(2,3) Cons d able_same [OF sr] in simp_all)
    have "port_loop (Suc n) run me 0 e = Some (Inr e')"
      using Cons due_Nil [of e] ffs32_due [OF Cons] e1(1) e'(1) by (simp add: Let_def)
    moreover have "calls e' = calls e @ concat (map (calls_for e me) (due e))"
      using e'(3) e1(4) calls_for_same [OF sr] Cons d by simp
    ultimately show ?thesis
      using Suc.prems(1) [of e'] same_rest_trans [OF sr e'(2)] e'(4) e1(3) Cons d by auto
  qed
qed simp

lemma length_due: "length (due e) \<le> 32"
  unfolding due_def using length_filter_le [of _ "[0..<32]"] by simp

section \<open>The ports of the other words\<close>

text \<open>The port that the loop computes for a word other than the first lies in an earlier word, so
  the bit that made the word active stays set.\<close>

lemma port_loop_stuck:
  assumes "quiet_handlers run" and "able e me" and "1 \<le> i" "i < 32" and "active_evtchns i e \<noteq> 0"
  shows "port_loop n run me i e = None"
  using assms(2,5)
proof (induction n arbitrary: e)
  case (Suc n)
  let ?q = "i * 32 + ffs32 (active_evtchns i e)"
  have "ffs32 (active_evtchns i e) \<in> set (filter (bit (active_evtchns i e)) [0..<32])"
    unfolding ffs32_def using Suc.prems(2) filter_bit_Nil by (intro hd_in_set) blast
  then have f: "ffs32 (active_evtchns i e) < 32" by simp
  then have q: "?q < NR_EVS" "?q div 64 \<noteq> i" using assms(3,4) by (simp_all add: NR_EVS_def)
  obtain e1 where e1: "do_event run me ?q e = Inr e1"
    "same_rest (e\<lparr>evmask := synch_clear_bit ?q (evmask e)\<rparr>) e1" "pending e1 = synch_clear_bit ?q (pending e)"
    by (rule do_event_quiet [OF assms(1) q(1) Suc.prems(1)])
  have "pending e1 i = pending e i" "evmask e1 i = evmask e i"
    using e1(2,3) q(2) by (auto simp: same_rest_def synch_clear_bit_def)
  then have "active_evtchns i e1 \<noteq> 0" using Suc.prems(2) by (simp add: active_evtchns_def)
  moreover have "able e1 me" using able_same [OF e1(2)] Suc.prems(1) by (simp add: able_def)
  ultimately show ?case using Suc.IH Suc.prems(2) e1(1) by (simp add: Let_def)
qed simp

section \<open>Properties\<close>

text \<open>
  C31: when Xen has selected the first word, \<open>do_hypervisor_callback\<close> calls the handler of each
  pending, unmasked port below 32 that is bound to this processor or to any, once and in ascending
  order, with the data it was bound with; it clears exactly these ports and the selector and leaves
  the masks as they were.  A port from 32 to 63 is not among them: it stays pending.
\<close>

theorem callback_handles_low_ports:
  assumes q: "quiet_handlers run" and a: "able e me" and c: "upcall_count e me = 0"
    and s: "pending_sel e me = 1" and n: "35 \<le> n"
  shows "\<exists>e'. do_hypervisor_callback n run me e = Some (Inr e') \<and>
    calls e' = calls e @ concat (map (calls_for e me) (due e)) \<and>
    (\<forall>p. map_bit (pending e') p \<longleftrightarrow> map_bit (pending e) p \<and> p \<notin> set (due e)) \<and>
    evmask e' = evmask e \<and> pending_sel e' me = 0 \<and> upcall_count e' me = 0 \<and> \<not> upcall_pending e' me"
proof -
  define m where "m = n - 3"
  have m: "n = Suc (Suc (Suc m))" "32 \<le> m" using n by (simp_all add: m_def)
  define z where "z = e\<lparr>upcall_pending := (upcall_pending e)(me := False), upcall_count := (upcall_count e)(me := 1),
      pending_sel := (pending_sel e)(me := 0)\<rparr>"
  have d: "due z = due e" "calls_for z me = calls_for e me" "able z me"
    using a by (simp_all add: due_def calls_for_def fun_eq_iff able_def z_def)
  have len: "length (due z) < Suc m" using length_due [of z] m(2) by simp
  obtain e' where e': "port_loop (Suc m) run me 0 z = Some (Inr e')" "same_rest z e'"
    "calls e' = calls z @ concat (map (calls_for z me) (due z))"
    "\<And>p. map_bit (pending e') p \<longleftrightarrow> map_bit (pending z) p \<and> p \<notin> set (due z)"
    using port_loop_due [OF q len d(3)] by blast
  have f: "ffs32 1 = 0" by (simp add: ffs32_def upt_conv_Cons bit_1_iff)
  have u: "unset_bit 0 (1 :: u32) = 0" by (rule bit_word_eqI) (auto simp: bit_unset_bit_iff bit_1_iff)
  have "sel_loop (Suc (Suc m)) run me 1 z = Some (Inr e')" using e'(1) f u by (simp del: port_loop.simps)
  moreover have "upcall_count e' me = 1" using e'(2) by (simp add: same_rest_def z_def)
  ultimately have "do_hypervisor_callback n run me e = Some (Inr (e'\<lparr>upcall_count := (upcall_count e')(me := 0)\<rparr>))"
    using c s m(1) by (simp add: Let_def z_def del: sel_loop.simps port_loop.simps)
  then show ?thesis using e'(2-4) d(1,2) by (simp add: same_rest_def z_def)
qed

definition demo_events :: events where
  "demo_events = \<lparr>pending = (\<lambda>w. if w = 0 then 0x100000024 else 1), evmask = (\<lambda>_. 0),
     pending_sel = (\<lambda>_. 1), upcall_pending = (\<lambda>_. True), upcall_mask = (\<lambda>_. False), upcall_count = (\<lambda>_. 0),
     ev_actions = (\<lambda>p. \<lparr>ev_cpu = ANY_CPU, handler = (if p = 2 then 7 else 1), ev_data = p, ev_count = 0\<rparr>),
     bound_ports = (\<lambda>_. 0), virq_used = (\<lambda>_. False), forced = [], calls = [], ev_sched = demo_running\<rparr>"

lemma demo_handlers: "quiet_handlers (\<lambda>h p d. Inr)"
proof -
  have "\<exists>S. (Inr e :: events res) = Inr (e\<lparr>ev_sched := S\<rparr>) \<and> current_thread S = current_thread (ev_sched e) \<and>
      (\<forall>t. preempt_count (threads S t) = preempt_count (threads (ev_sched e) t))" for e
    by (rule exI [of _ "ev_sched e"]) simp
  then show ?thesis by (simp add: quiet_handlers_def)
qed

lemma demo_able: "able demo_events 0"
  by (simp add: able_def demo_events_def demo_running_def demo_sched_def blank_thread_def)

theorem callback_handles_low_ports_witness:
  "\<exists>e'. do_hypervisor_callback 35 (\<lambda>h p d. Inr) 0 demo_events = Some (Inr e') \<and>
     calls e' = [(7, 2, 2), (1, 5, 5)] \<and> map_bit (pending e') 32"
proof -
  have d: "due demo_events = [2, 5]"
    by (simp add: due_def demo_events_def map_bit_def upt_conv_Cons)
  have b: "map_bit (pending demo_events) 32" by (simp add: demo_events_def map_bit_def)
  have c: "concat (map (calls_for demo_events 0) [2, 5]) = [(7, 2, 2), (1, 5, 5)]"
    by (simp add: calls_for_def demo_events_def)
  have "\<exists>e'. do_hypervisor_callback 35 (\<lambda>h p d. Inr) 0 demo_events = Some (Inr e') \<and>
      calls e' = calls demo_events @ concat (map (calls_for demo_events 0) (due demo_events)) \<and>
      (\<forall>p. map_bit (pending e') p \<longleftrightarrow> map_bit (pending demo_events) p \<and> p \<notin> set (due demo_events)) \<and>
      evmask e' = evmask demo_events \<and> pending_sel e' 0 = 0 \<and> upcall_count e' 0 = 0 \<and> \<not> upcall_pending e' 0"
    by (rule callback_handles_low_ports [OF demo_handlers demo_able]) (simp_all add: demo_events_def)
  then obtain e' where e': "do_hypervisor_callback 35 (\<lambda>h p d. Inr) 0 demo_events = Some (Inr e')"
    "calls e' = calls demo_events @ [(7, 2, 2), (1, 5, 5)]" "map_bit (pending e') 32"
    using b unfolding d c by auto
  moreover have "calls demo_events = []" by (simp add: demo_events_def)
  ultimately show ?thesis by auto
qed



end
