(* ===== verification/Grants.thy ===== *)
theory Grants
  imports Prelude
begin

text \<open>
  Grant references: \<^verbatim>\<open>gnttab.c\<close>, which hands out the entries of the grant table, and
  \<^verbatim>\<open>gntmap.c\<close>, which maps grants of other domains.  The list of free entries of \<^verbatim>\<open>gnttab.c\<close> has
  the same shape as the list of free request numbers of \<^verbatim>\<open>blkfront.c\<close>: an array whose element 0
  is the head.  The locale \<open>free_ids\<close> states what such a list promises, and both implement it.

  Xen and the other domains change the flags of a table entry at any time: the values that the loops
  of \<open>gnttab_end_access\<close> and \<open>gnttab_end_transfer\<close> find are arguments.  The hypercalls are
  arguments that act on a world of their own.
\<close>

section \<open>The interface of a list of free numbers\<close>

locale free_ids =
  fixes put :: "nat \<Rightarrow> 'a \<Rightarrow> 'a res"
    and get :: "'a \<Rightarrow> (nat \<times> 'a) res"
    and rep :: "'a \<Rightarrow> nat list \<Rightarrow> bool"
    and valid :: "nat \<Rightarrow> bool"
  assumes put_rep: "rep a xs \<Longrightarrow> valid i \<Longrightarrow> i \<notin> set xs \<Longrightarrow> \<exists>a'. put i a = Inr a' \<and> rep a' (i # xs)"
    and get_rep: "rep a (x # xs) \<Longrightarrow> \<exists>a'. get a = Inr (x, a') \<and> rep a' xs"
    and rep_valid: "rep a xs \<Longrightarrow> distinct xs \<and> (\<forall>x \<in> set xs. valid x)"
begin

fun put_all :: "nat list \<Rightarrow> 'a \<Rightarrow> 'a res" where
  "put_all [] a = Inr a"
| "put_all (i # is) a = rbind (put i a) (put_all is)"

fun get_many :: "nat \<Rightarrow> 'a \<Rightarrow> (nat list \<times> 'a) res" where
  "get_many 0 a = Inr ([], a)"
| "get_many (Suc n) a = rbind (get a) (\<lambda>(i, b). rbind (get_many n b) (\<lambda>(is, c). Inr (i # is, c)))"

lemma put_all_rep:
  "rep a xs \<Longrightarrow> \<forall>i \<in> set is. valid i \<Longrightarrow> distinct is \<Longrightarrow> set is \<inter> set xs = {} \<Longrightarrow>
   \<exists>a'. put_all is a = Inr a' \<and> rep a' (rev is @ xs)"
proof (induction "is" arbitrary: a xs)
  case (Cons i "is")
  have "valid i" "i \<notin> set xs" using Cons.prems by simp_all
  then obtain b where b: "put i a = Inr b" "rep b (i # xs)" using put_rep [OF Cons.prems(1)] by blast
  then obtain c where "put_all is b = Inr c" "rep c (rev is @ i # xs)" using Cons by fastforce
  then show ?case using b(1) by simp
qed simp

lemma get_many_rep:
  "rep a xs \<Longrightarrow> n \<le> length xs \<Longrightarrow> \<exists>a'. get_many n a = Inr (take n xs, a') \<and> rep a' (drop n xs)"
proof (induction n arbitrary: a xs)
  case (Suc n)
  then obtain x ys where xs: "xs = x # ys" by (cases xs) auto
  obtain b where b: "get a = Inr (x, b)" "rep b ys" using get_rep Suc.prems(1) xs by blast
  then obtain c where "get_many n b = Inr (take n ys, c)" "rep c (drop n ys)" using Suc xs by force
  then show ?case using b(1) xs by simp
qed simp

lemma get_many_distinct:
  assumes "rep a xs" and "n \<le> length xs" and "get_many n a = Inr (is, a')"
  shows "distinct is \<and> (\<forall>i \<in> set is. valid i) \<and> length is = n"
proof -
  have "is = take n xs" using get_many_rep [OF assms(1,2)] assms(3) by auto
  then show ?thesis using rep_valid [OF assms(1)] assms(2) by (auto dest: in_set_takeD)
qed

lemma put_then_get:
  assumes "rep a xs" and "valid i" and "i \<notin> set xs"
  shows "\<exists>b c. put i a = Inr b \<and> get b = Inr (i, c) \<and> rep c xs"
  using put_rep [OF assms] get_rep by blast

end

section \<open>A list threaded through an array\<close>

text \<open>The numbers reached from \<open>p\<close> through the array until it gives 0.\<close>

fun free_chain :: "nat list \<Rightarrow> nat \<Rightarrow> nat list \<Rightarrow> bool" where
  "free_chain a p [] = (p = 0)"
| "free_chain a p (x # xs) = (p = x \<and> x \<noteq> 0 \<and> x < length a \<and> free_chain a (a ! x) xs)"

definition chained :: "nat list \<Rightarrow> nat list \<Rightarrow> bool" where
  "chained a xs = (a \<noteq> [] \<and> distinct xs \<and> free_chain a (a ! 0) xs)"

lemma free_chain_update: "i \<notin> set xs \<Longrightarrow> free_chain (a[i := v]) p xs = free_chain a p xs"
  by (induction xs arbitrary: p) auto

lemma free_chain_set: "free_chain a p xs \<Longrightarrow> \<forall>x \<in> set xs. x \<noteq> 0 \<and> x < length a"
  by (induction xs arbitrary: p) auto

lemma chained_put:
  assumes "chained a xs" and "i \<noteq> 0" "i < length a" "i \<notin> set xs"
  shows "chained (a[i := a ! 0, 0 := i]) (i # xs)"
proof -
  have "0 \<notin> set xs" using assms(1) free_chain_set unfolding chained_def by blast
  then have "free_chain (a[i := a ! 0, 0 := i]) (a ! 0) xs"
    using assms by (simp add: chained_def free_chain_update)
  then show ?thesis using assms by (auto simp: chained_def nth_list_update)
qed

lemma chained_get:
  assumes "chained a (x # xs)"
  shows "a ! 0 = x" and "x < length a" and "chained (a[0 := a ! x]) xs"
proof -
  have "free_chain a (a ! x) xs" "0 \<notin> set xs"
    using assms free_chain_set [of a "a ! x" xs] by (auto simp: chained_def)
  then show "a ! 0 = x" "x < length a" "chained (a[0 := a ! x]) xs"
    using assms by (auto simp: chained_def free_chain_update)
qed

section \<open>The grant table\<close>

definition NR_RESERVED_ENTRIES :: nat where "NR_RESERVED_ENTRIES = 8"
definition NR_GRANT_FRAMES :: nat where "NR_GRANT_FRAMES = 4"
definition NR_GRANT_ENTRIES :: nat where "NR_GRANT_ENTRIES = NR_GRANT_FRAMES * 4096 div 8"

definition GTF_permit_access :: u16 where "GTF_permit_access = 1"
definition GTF_accept_transfer :: u16 where "GTF_accept_transfer = 2"
definition GTF_readonly :: u32 where "GTF_readonly = 4"
definition GTF_reading :: u16 where "GTF_reading = 8"
definition GTF_writing :: u16 where "GTF_writing = 16"
definition GTF_transfer_committed :: u16 where "GTF_transfer_committed = 4"
definition GTF_transfer_completed :: u16 where "GTF_transfer_completed = 8"

record grant_entry =
  gt_flags :: u16
  gt_domid :: u16
  gt_frame :: u32

record gnttab =
  gnttab_list :: "nat list"
  gnttab_table :: "nat \<Rightarrow> grant_entry"

definition put_free_entry :: "nat \<Rightarrow> gnttab \<Rightarrow> gnttab res" where
  "put_free_entry ref g =
     rbind (aget (gnttab_list g) 0) (\<lambda>h.
     rbind (aset (gnttab_list g) ref h) (\<lambda>l1.
     rbind (aset l1 0 ref) (\<lambda>l2. Inr (g\<lparr>gnttab_list := l2\<rparr>))))"

definition get_free_entry :: "gnttab \<Rightarrow> (nat \<times> gnttab) res" where
  "get_free_entry g =
     rbind (aget (gnttab_list g) 0) (\<lambda>ref.
     bug_on (ref < NR_RESERVED_ENTRIES \<or> ref \<ge> NR_GRANT_ENTRIES)
       (rbind (aget (gnttab_list g) ref) (\<lambda>nx.
        rbind (aset (gnttab_list g) 0 nx) (\<lambda>l. Inr (ref, g\<lparr>gnttab_list := l\<rparr>)))))"

definition set_entry :: "nat \<Rightarrow> u16 \<Rightarrow> u16 \<Rightarrow> u64 \<Rightarrow> gnttab \<Rightarrow> gnttab" where
  "set_entry ref fl domid frame g =
     g\<lparr>gnttab_table := (gnttab_table g)(ref := \<lparr>gt_flags = fl, gt_domid = domid, gt_frame = ucast frame\<rparr>)\<rparr>"

text \<open>\<open>readonly\<close> is an \<^verbatim>\<open>int\<close>, multiplied by the flag and cut off to the 16 bits of the field.\<close>

definition gnttab_grant_access :: "u16 \<Rightarrow> u64 \<Rightarrow> u32 \<Rightarrow> gnttab \<Rightarrow> (nat \<times> gnttab) res" where
  "gnttab_grant_access domid frame readonly g =
     rbind (get_free_entry g) (\<lambda>(ref, g1).
       Inr (ref, set_entry ref (ucast (ucast GTF_permit_access OR readonly * GTF_readonly)) domid frame g1))"

definition gnttab_grant_transfer :: "u16 \<Rightarrow> u64 \<Rightarrow> gnttab \<Rightarrow> (nat \<times> gnttab) res" where
  "gnttab_grant_transfer domid pfn g =
     rbind (get_free_entry g) (\<lambda>(ref, g1). Inr (ref, set_entry ref GTF_accept_transfer domid pfn g1))"

definition set_flags :: "nat \<Rightarrow> u16 \<Rightarrow> gnttab \<Rightarrow> gnttab" where
  "set_flags ref fl g = g\<lparr>gnttab_table := (gnttab_table g)(ref := (gnttab_table g ref)\<lparr>gt_flags := fl\<rparr>)\<rparr>"

text \<open>
  The loop of \<open>gnttab_end_access\<close>: \<open>fl\<close> is \<^verbatim>\<open>nflags\<close>, \<open>obs\<close> the flags in memory at each
  \<^verbatim>\<open>synch_cmpxchg\<close>.  \<open>None\<close> means that the observations ran out before the loop ended.
\<close>

fun end_access_loop :: "nat \<Rightarrow> u16 \<Rightarrow> u16 list \<Rightarrow> gnttab \<Rightarrow> (bool \<times> gnttab) res option" where
  "end_access_loop ref fl obs g =
     (if fl AND (GTF_reading OR GTF_writing) \<noteq> 0 then Some (Inr (False, g))
      else case obs of
             [] \<Rightarrow> None
           | v # rest \<Rightarrow>
               if v = fl then Some (rbind (put_free_entry ref (set_flags ref 0 g)) (\<lambda>g1. Inr (True, g1)))
               else end_access_loop ref v rest (set_flags ref v g))"

definition gnttab_end_access :: "nat \<Rightarrow> u16 list \<Rightarrow> gnttab \<Rightarrow> (bool \<times> gnttab) res option" where
  "gnttab_end_access ref obs g =
     (if ref \<ge> NR_GRANT_ENTRIES \<or> ref < NR_RESERVED_ENTRIES then Some (Inl Bug)
      else end_access_loop ref (gt_flags (gnttab_table g ref)) obs g)"

text \<open>
  \<open>gnttab_end_transfer\<close>: each round of its first loop reads the flags and then finds them again in
  the \<^verbatim>\<open>synch_cmpxchg\<close>; once a transfer is committed the second loop reads them until it is
  completed.  \<open>frame\<close> is the frame that Xen has then written.
\<close>

fun transfer_wait :: "nat \<Rightarrow> u16 \<Rightarrow> u16 list \<Rightarrow> u32 \<Rightarrow> gnttab \<Rightarrow> (u32 \<times> gnttab) res option" where
  "transfer_wait ref fl reads frame g =
     (if fl AND GTF_transfer_completed = 0
      then (case reads of [] \<Rightarrow> None | v # rest \<Rightarrow> transfer_wait ref v rest frame g)
      else Some (rbind (put_free_entry ref (g\<lparr>gnttab_table :=
             (gnttab_table g)(ref := (gnttab_table g ref)\<lparr>gt_flags := fl, gt_frame := frame\<rparr>)\<rparr>)) (\<lambda>g1.
             Inr (frame, g1))))"

fun end_transfer_loop :: "nat \<Rightarrow> (u16 \<times> u16) list \<Rightarrow> u16 list \<Rightarrow> u32 \<Rightarrow> gnttab \<Rightarrow> (u32 \<times> gnttab) res option" where
  "end_transfer_loop ref [] reads frame g = None"
| "end_transfer_loop ref ((fl, v) # rest) reads frame g =
     (if fl AND GTF_transfer_committed \<noteq> 0 then transfer_wait ref fl reads frame g
      else if v = fl then Some (rbind (put_free_entry ref (set_flags ref 0 g)) (\<lambda>g1. Inr (0, g1)))
      else end_transfer_loop ref rest reads frame g)"

definition gnttab_end_transfer :: "nat \<Rightarrow> (u16 \<times> u16) list \<Rightarrow> u16 list \<Rightarrow> u32 \<Rightarrow> gnttab \<Rightarrow> (u32 \<times> gnttab) res option" where
  "gnttab_end_transfer ref rounds reads frame g =
     (if ref \<ge> NR_GRANT_ENTRIES \<or> ref < NR_RESERVED_ENTRIES then Some (Inl Bug)
      else end_transfer_loop ref rounds reads frame g)"

text \<open>The page and its machine frame come from the allocator, which is not asked whether it failed.\<close>

definition gnttab_alloc_and_grant :: "nat \<Rightarrow> (nat \<Rightarrow> u64) \<Rightarrow> gnttab \<Rightarrow> (nat \<times> nat \<times> gnttab) res" where
  "gnttab_alloc_and_grant page virt_to_mfn g =
     rbind (gnttab_grant_access 0 (virt_to_mfn page) 0 g) (\<lambda>(ref, g1). Inr (page, ref, g1))"

definition gnttabop_error_msgs :: "string list" where
  "gnttabop_error_msgs =
     [''okay'', ''undefined error'', ''unrecognised domain id'', ''invalid grant reference'',
      ''invalid mapping handle'', ''invalid virtual address'', ''invalid device address'',
      ''no spare translation slot in the I/O MMU'', ''permission denied'', ''bad page'',
      ''copy arguments cross page boundary'', ''page address size too large'',
      ''operation not done; try again'']"

definition gnttabop_error :: "16 word \<Rightarrow> string" where
  "gnttabop_error status =
     (let s = - status in
      if sint s < 0 \<or> nat (sint s) \<ge> length gnttabop_error_msgs then ''bad status''
      else gnttabop_error_msgs ! nat (sint s))"

fun put_entries :: "nat \<Rightarrow> nat \<Rightarrow> gnttab \<Rightarrow> gnttab res" where
  "put_entries i 0 g = Inr g"
| "put_entries i (Suc n) g = rbind (put_free_entry i g) (put_entries (i + 1) n)"

text \<open>\<open>init_frames\<close> without the hypercall that makes Xen set up the table.\<close>

definition init_frames :: "gnttab \<Rightarrow> gnttab res" where
  "init_frames g = put_entries NR_RESERVED_ENTRIES (NR_GRANT_ENTRIES - NR_RESERVED_ENTRIES) g"

definition pfn_gntframe_alloc :: "u64 list \<Rightarrow> nat \<Rightarrow> (u64 \<times> nat) res" where
  "pfn_gntframe_alloc frames pfn = rbind (aget frames pfn) (\<lambda>f. Inr (f, pfn + 1))"

text \<open>What the list of free entries holds: the entries \<open>xs\<close>, the next one first.\<close>

definition gnttab_rep :: "gnttab \<Rightarrow> nat list \<Rightarrow> bool" where
  "gnttab_rep g xs = (length (gnttab_list g) = NR_GRANT_ENTRIES \<and> chained (gnttab_list g) xs \<and>
     (\<forall>x \<in> set xs. NR_RESERVED_ENTRIES \<le> x))"

definition gnttab_ref :: "nat \<Rightarrow> bool" where
  "gnttab_ref i = (NR_RESERVED_ENTRIES \<le> i \<and> i < NR_GRANT_ENTRIES)"

lemmas gnttab_limits = NR_RESERVED_ENTRIES_def NR_GRANT_ENTRIES_def NR_GRANT_FRAMES_def

interpretation gt: free_ids put_free_entry get_free_entry gnttab_rep gnttab_ref
proof
  fix g xs i
  assume r: "gnttab_rep g xs" and i: "gnttab_ref i" "i \<notin> set xs"
  have "chained ((gnttab_list g)[i := gnttab_list g ! 0, 0 := i]) (i # xs)"
    by (rule chained_put) (use r i in \<open>auto simp: gnttab_rep_def gnttab_ref_def gnttab_limits\<close>)
  then show "\<exists>g'. put_free_entry i g = Inr g' \<and> gnttab_rep g' (i # xs)"
    using r i by (auto simp: put_free_entry_def gnttab_rep_def gnttab_ref_def gnttab_limits)
next
  fix g x xs
  assume r: "gnttab_rep g (x # xs)"
  then show "\<exists>g'. get_free_entry g = Inr (x, g') \<and> gnttab_rep g' xs"
    using chained_get [of "gnttab_list g" x xs]
    by (auto simp: get_free_entry_def gnttab_rep_def gnttab_limits bug_on_def)
next
  fix g xs
  assume "gnttab_rep g xs"
  then show "distinct xs \<and> (\<forall>x \<in> set xs. gnttab_ref x)"
    using free_chain_set unfolding gnttab_rep_def gnttab_ref_def chained_def by metis
qed

lemma get_free_entry_empty: "gnttab_rep g [] \<Longrightarrow> get_free_entry g = Inl Bug"
  by (auto simp: gnttab_rep_def chained_def get_free_entry_def gnttab_limits aget_def)

lemma gnttab_rep_table [simp]:
  "gnttab_rep (set_entry ref fl d f g) xs = gnttab_rep g xs" "gnttab_rep (set_flags ref fl g) xs = gnttab_rep g xs"
  by (simp_all add: gnttab_rep_def set_entry_def set_flags_def)

lemma put_free_entry_table: "put_free_entry i g = Inr g' \<Longrightarrow> gnttab_table g' = gnttab_table g"
  by (auto simp: put_free_entry_def res_simps)

lemma get_free_entry_table: "get_free_entry g = Inr (i, g') \<Longrightarrow> gnttab_table g' = gnttab_table g"
  by (auto simp: get_free_entry_def res_simps)

lemma put_entries_all: "put_entries i n = gt.put_all [i..<i + n]"
proof (induction n arbitrary: i)
  case (Suc n)
  have "[i..<i + Suc n] = i # [i + 1..<i + 1 + n]" by (simp add: upt_conv_Cons del: upt_Suc)
  then show ?case using Suc.IH [of "i + 1"] by (intro ext) (simp del: upt_Suc)
qed (simp add: fun_eq_iff)

lemma init_frames_rep:
  assumes "gnttab_list g = replicate NR_GRANT_ENTRIES 0"
  shows "\<exists>g'. init_frames g = Inr g' \<and> gnttab_rep g' (rev [NR_RESERVED_ENTRIES..<NR_GRANT_ENTRIES])"
proof -
  have e: "gnttab_rep g []" using assms by (simp add: gnttab_rep_def chained_def gnttab_limits)
  have "\<exists>g'. gt.put_all [NR_RESERVED_ENTRIES..<NR_GRANT_ENTRIES] g = Inr g' \<and>
      gnttab_rep g' (rev [NR_RESERVED_ENTRIES..<NR_GRANT_ENTRIES] @ [])"
    by (rule gt.put_all_rep [OF e]) (auto simp: gnttab_ref_def)
  moreover have "NR_RESERVED_ENTRIES + (NR_GRANT_ENTRIES - NR_RESERVED_ENTRIES) = NR_GRANT_ENTRIES"
    by (simp add: gnttab_limits)
  ultimately show ?thesis by (simp add: init_frames_def put_entries_all)
qed

text \<open>Xen may set the reading or writing flag of an entry while the loop runs; the flags found last decide.\<close>

lemma end_access_loop_free:
  assumes "gnttab_rep g xs" and "gnttab_ref ref" "ref \<notin> set xs"
    and "fl AND (GTF_reading OR GTF_writing) = 0"
  shows "\<exists>g'. end_access_loop ref fl (fl # rest) g = Some (Inr (True, g')) \<and> gnttab_rep g' (ref # xs) \<and>
    gt_flags (gnttab_table g' ref) = 0"
proof -
  have "gnttab_rep (set_flags ref 0 g) xs" using assms(1) by simp
  then obtain g' where g': "put_free_entry ref (set_flags ref 0 g) = Inr g'" "gnttab_rep g' (ref # xs)"
    using gt.put_rep assms(2,3) by blast
  then show ?thesis using assms(4) put_free_entry_table [OF g'(1)] by (simp add: set_flags_def)
qed

section \<open>The request numbers of the block device\<close>

text \<open>
  \<^verbatim>\<open>blkfront.c\<close> keeps its free request numbers in the same way.  Number 0 marks the end of the list:
  an empty list gives 0, which \<^verbatim>\<open>blk_do_io\<close> takes as a failure, so of the 32 numbers 31 are used.  \<open>bs_free\<close> is the flag of the shadow of a request.
\<close>

definition BLK_RING_SIZE :: nat where "BLK_RING_SIZE = 32"

record blk_ids =
  freelist :: "nat list"
  bs_free :: "nat \<Rightarrow> bool"

definition get_freelist_id :: "blk_ids \<Rightarrow> (nat \<times> blk_ids) res" where
  "get_freelist_id b =
     rbind (aget (freelist b) 0) (\<lambda>i.
     rbind (aget (freelist b) i) (\<lambda>nx.
     rbind (aset (freelist b) 0 nx) (\<lambda>l. Inr (i, b\<lparr>freelist := l, bs_free := (bs_free b)(i := False)\<rparr>))))"

definition add_id_freelist :: "nat \<Rightarrow> blk_ids \<Rightarrow> blk_ids res" where
  "add_id_freelist i b =
     rbind (aget (freelist b) 0) (\<lambda>h.
     rbind (aset (freelist b) i h) (\<lambda>l1.
     rbind (aset l1 0 i) (\<lambda>l2. Inr (b\<lparr>freelist := l2, bs_free := (bs_free b)(i := True)\<rparr>))))"

fun add_ids :: "nat \<Rightarrow> nat \<Rightarrow> blk_ids \<Rightarrow> blk_ids res" where
  "add_ids i 0 b = Inr b"
| "add_ids i (Suc n) b = rbind (add_id_freelist i b) (add_ids (i + 1) n)"

definition init_buffers :: "blk_ids \<Rightarrow> blk_ids res" where
  "init_buffers b = add_ids 0 BLK_RING_SIZE b"

definition blk_rep :: "blk_ids \<Rightarrow> nat list \<Rightarrow> bool" where
  "blk_rep b xs = (length (freelist b) = BLK_RING_SIZE \<and> chained (freelist b) xs)"

definition blk_id :: "nat \<Rightarrow> bool" where
  "blk_id i = (0 < i \<and> i < BLK_RING_SIZE)"

interpretation blk: free_ids add_id_freelist get_freelist_id blk_rep blk_id
proof
  fix b xs i
  assume r: "blk_rep b xs" and i: "blk_id i" "i \<notin> set xs"
  have "chained ((freelist b)[i := freelist b ! 0, 0 := i]) (i # xs)"
    by (rule chained_put) (use r i in \<open>auto simp: blk_rep_def blk_id_def\<close>)
  then show "\<exists>b'. add_id_freelist i b = Inr b' \<and> blk_rep b' (i # xs)"
    using r i by (auto simp: add_id_freelist_def blk_rep_def blk_id_def)
next
  fix b x xs
  assume r: "blk_rep b (x # xs)"
  then have c: "chained (freelist b) (x # xs)" and l: "length (freelist b) = BLK_RING_SIZE"
    by (simp_all add: blk_rep_def)
  then show "\<exists>b'. get_freelist_id b = Inr (x, b') \<and> blk_rep b' xs"
    using chained_get [OF c]
    by (simp add: get_freelist_id_def blk_rep_def aget_def aset_def BLK_RING_SIZE_def)
next
  fix b xs
  assume "blk_rep b xs"
  then show "distinct xs \<and> (\<forall>x \<in> set xs. blk_id x)"
    using free_chain_set unfolding blk_rep_def blk_id_def chained_def by (metis neq0_conv)
qed

lemma add_ids_all: "add_ids i n = blk.put_all [i..<i + n]"
proof (induction n arbitrary: i)
  case (Suc n)
  have "[i..<i + Suc n] = i # [i + 1..<i + 1 + n]" by (simp add: upt_conv_Cons del: upt_Suc)
  then show ?case using Suc.IH [of "i + 1"] by (intro ext) (simp del: upt_Suc)
qed (simp add: fun_eq_iff)

text \<open>Adding 0 to the list makes the list empty; taking from the empty list gives 0 again and again.\<close>

lemma add_id_zero:
  assumes "blk_rep b xs"
  shows "\<exists>b'. add_id_freelist 0 b = Inr b' \<and> blk_rep b' []"
  using assms by (cases "freelist b") (auto simp: add_id_freelist_def blk_rep_def chained_def)

lemma get_id_zero:
  assumes "blk_rep b []"
  shows "\<exists>b'. get_freelist_id b = Inr (0, b') \<and> blk_rep b' []"
  using assms by (cases "freelist b") (auto simp: get_freelist_id_def blk_rep_def chained_def)

lemma init_buffers_rep:
  assumes "freelist b = replicate BLK_RING_SIZE 0"
  shows "\<exists>b'. init_buffers b = Inr b' \<and> blk_rep b' (rev [1..<BLK_RING_SIZE])"
proof -
  have "blk_rep b []" using assms by (simp add: blk_rep_def chained_def BLK_RING_SIZE_def)
  then obtain b0 where b0: "add_id_freelist 0 b = Inr b0" "blk_rep b0 []" using add_id_zero by blast
  have "\<exists>b'. blk.put_all [1..<BLK_RING_SIZE] b0 = Inr b' \<and> blk_rep b' (rev [1..<BLK_RING_SIZE] @ [])"
    by (rule blk.put_all_rep [OF b0(2)]) (auto simp: blk_id_def)
  moreover have "init_buffers b = blk.put_all [1..<BLK_RING_SIZE] b0"
  proof -
    have "[0..<0 + BLK_RING_SIZE] = 0 # [1..<BLK_RING_SIZE]" by (simp add: BLK_RING_SIZE_def upt_conv_Cons)
    then show ?thesis using b0(1) unfolding init_buffers_def add_ids_all by simp
  qed
  ultimately show ?thesis by simp
qed

section \<open>Mapping the grants of other domains\<close>

record gntmap_entry =
  host_addr :: u64
  gm_handle :: u32

text \<open>\<^verbatim>\<open>nentries\<close> is the length of the list; \<^verbatim>\<open>entries\<close> is a null pointer when it is empty.\<close>

type_synonym gntmap = "gntmap_entry list"

record map_grant_op =
  mg_host_addr :: u64
  mg_dom :: u16
  mg_ref :: u32
  mg_flags :: u32

text \<open>The two hypercalls: their return value, the status in the operation and, for a mapping, the
  handle.\<close>

type_synonym 'w map_hypercall = "map_grant_op \<Rightarrow> 'w \<Rightarrow> (int \<times> int \<times> u32) \<times> 'w"
type_synonym 'w unmap_hypercall = "u64 \<Rightarrow> u32 \<Rightarrow> 'w \<Rightarrow> (int \<times> int) \<times> 'w"

definition GNTMAP_host_map :: u32 where "GNTMAP_host_map = 2"
definition GNTMAP_readonly :: u32 where "GNTMAP_readonly = 4"
definition DEFAULT_MAX_GRANTS :: nat where "DEFAULT_MAX_GRANTS = 128"
definition EBUSY :: int where "EBUSY = 16"
definition ENOMEM :: int where "ENOMEM = 12"
definition EINVAL :: int where "EINVAL = 22"

definition gntmap_entry_used :: "gntmap_entry \<Rightarrow> bool" where
  "gntmap_entry_used e = (host_addr e \<noteq> 0)"

fun find_index :: "('a \<Rightarrow> bool) \<Rightarrow> 'a list \<Rightarrow> nat option" where
  "find_index P [] = None"
| "find_index P (x # xs) = (if P x then Some 0 else map_option Suc (find_index P xs))"

definition gntmap_find_free_entry :: "gntmap \<Rightarrow> nat option" where
  "gntmap_find_free_entry m = find_index (\<lambda>e. \<not> gntmap_entry_used e) m"

definition gntmap_find_entry :: "gntmap \<Rightarrow> u64 \<Rightarrow> nat option" where
  "gntmap_find_entry m a = find_index (\<lambda>e. host_addr e = a) m"

text \<open>\<open>ok\<close> says whether \<^verbatim>\<open>xmalloc_array\<close> finds the memory.\<close>

definition gntmap_set_max_grants :: "bool \<Rightarrow> nat \<Rightarrow> gntmap \<Rightarrow> int \<times> gntmap" where
  "gntmap_set_max_grants ok count m =
     (if m \<noteq> [] then (- EBUSY, m)
      else if \<not> ok then (- ENOMEM, m)
      else (0, replicate count \<lparr>host_addr = 0, gm_handle = 0\<rparr>))"

definition gntmap_map_grant_ref ::
    "'w map_hypercall \<Rightarrow> nat \<Rightarrow> u64 \<Rightarrow> u32 \<Rightarrow> u32 \<Rightarrow> bool \<Rightarrow> gntmap \<Rightarrow> 'w \<Rightarrow> int \<times> gntmap \<times> 'w" where
  "gntmap_map_grant_ref hyper k a domid ref writable m w =
     (let fl = (if \<not> writable then GNTMAP_host_map OR GNTMAP_readonly else GNTMAP_host_map) in
      case hyper \<lparr>mg_host_addr = a, mg_dom = ucast domid, mg_ref = ref, mg_flags = fl\<rparr> w of
        ((rc, status, h), w1) \<Rightarrow>
          if rc \<noteq> 0 \<or> status \<noteq> 0 then (if rc \<noteq> 0 then rc else status, m, w1)
          else (0, m[k := \<lparr>host_addr = a, gm_handle = h\<rparr>], w1))"

definition gntmap_unmap_grant_ref :: "'w unmap_hypercall \<Rightarrow> nat \<Rightarrow> gntmap \<Rightarrow> 'w \<Rightarrow> int \<times> gntmap \<times> 'w" where
  "gntmap_unmap_grant_ref hyper k m w =
     (case hyper (host_addr (m ! k)) (gm_handle (m ! k)) w of
        ((rc, status), w1) \<Rightarrow>
          if rc \<noteq> 0 \<or> status \<noteq> 0 then (if rc \<noteq> 0 then rc else status, m, w1)
          else (0, m[k := (m ! k)\<lparr>host_addr := 0\<rparr>], w1))"

definition page_addr :: "u64 \<Rightarrow> nat \<Rightarrow> u64" where
  "page_addr a i = a + 4096 * of_nat i"

fun munmap_loop :: "'w unmap_hypercall \<Rightarrow> u64 \<Rightarrow> nat \<Rightarrow> nat \<Rightarrow> gntmap \<Rightarrow> 'w \<Rightarrow> int \<times> gntmap \<times> 'w" where
  "munmap_loop hyper a i 0 m w = (0, m, w)"
| "munmap_loop hyper a i (Suc n) m w =
     (case gntmap_find_entry m (page_addr a i) of
        None \<Rightarrow> (- EINVAL, m, w)
      | Some k \<Rightarrow>
          (case gntmap_unmap_grant_ref hyper k m w of
             (rc, m1, w1) \<Rightarrow> if rc \<noteq> 0 then (rc, m1, w1) else munmap_loop hyper a (i + 1) n m1 w1))"

definition gntmap_munmap :: "'w unmap_hypercall \<Rightarrow> u64 \<Rightarrow> nat \<Rightarrow> gntmap \<Rightarrow> 'w \<Rightarrow> int \<times> gntmap \<times> 'w" where
  "gntmap_munmap hyper a count m w = munmap_loop hyper a 0 count m w"

fun map_loop ::
    "'w map_hypercall \<Rightarrow> 'w unmap_hypercall \<Rightarrow> u64 \<Rightarrow> u32 list \<Rightarrow> nat \<Rightarrow> u32 list \<Rightarrow> bool \<Rightarrow>
     nat \<Rightarrow> nat \<Rightarrow> gntmap \<Rightarrow> 'w \<Rightarrow> (u64 \<times> gntmap \<times> 'w) res" where
  "map_loop hm hu a domids stride refs writable i 0 m w = Inr (a, m, w)"
| "map_loop hm hu a domids stride refs writable i (Suc n) m w =
     (case gntmap_find_free_entry m of
        None \<Rightarrow> (case gntmap_munmap hu a i m w of (_, m1, w1) \<Rightarrow> Inr (0, m1, w1))
      | Some k \<Rightarrow>
          rbind (aget domids (i * stride)) (\<lambda>d.
          rbind (aget refs i) (\<lambda>r.
            case gntmap_map_grant_ref hm k (page_addr a i) d r writable m w of
              (rc, m1, w1) \<Rightarrow>
                if rc \<noteq> 0 then (case gntmap_munmap hu a i m1 w1 of (_, m2, w2) \<Rightarrow> Inr (0, m2, w2))
                else map_loop hm hu a domids stride refs writable (i + 1) n m1 w1)))"

text \<open>\<open>area\<close> is the address that \<^verbatim>\<open>allocate_ondemand\<close> returns, 0 for none.\<close>

definition gntmap_map_grant_refs ::
    "'w map_hypercall \<Rightarrow> 'w unmap_hypercall \<Rightarrow> bool \<Rightarrow> u64 \<Rightarrow> nat \<Rightarrow> u32 list \<Rightarrow> nat \<Rightarrow> u32 list \<Rightarrow> bool \<Rightarrow>
     gntmap \<Rightarrow> 'w \<Rightarrow> (u64 \<times> gntmap \<times> 'w) res" where
  "gntmap_map_grant_refs hm hu ok area count domids stride refs writable m w =
     (let m1 = snd (gntmap_set_max_grants ok DEFAULT_MAX_GRANTS m) in
      if area = 0 then Inr (0, m1, w)
      else map_loop hm hu area domids stride refs writable 0 count m1 w)"

definition gntmap_init :: gntmap where
  "gntmap_init = []"

fun unmap_used :: "'w unmap_hypercall \<Rightarrow> nat \<Rightarrow> nat \<Rightarrow> gntmap \<Rightarrow> 'w \<Rightarrow> gntmap \<times> 'w" where
  "unmap_used hyper i 0 m w = (m, w)"
| "unmap_used hyper i (Suc n) m w =
     (if gntmap_entry_used (m ! i)
      then (case gntmap_unmap_grant_ref hyper i m w of (_, m1, w1) \<Rightarrow> unmap_used hyper (i + 1) n m1 w1)
      else unmap_used hyper (i + 1) n m w)"

definition gntmap_fini :: "'w unmap_hypercall \<Rightarrow> gntmap \<Rightarrow> 'w \<Rightarrow> gntmap \<times> 'w" where
  "gntmap_fini hyper m w = (case unmap_used hyper 0 (length m) m w of (_, w1) \<Rightarrow> ([], w1))"

subsection \<open>The addresses that are mapped\<close>

definition mapped :: "gntmap \<Rightarrow> u64 set" where
  "mapped m = {a. a \<noteq> 0 \<and> (\<exists>k < length m. host_addr (m ! k) = a)}"

definition map_ok :: "gntmap \<Rightarrow> bool" where
  "map_ok m = (\<forall>j < length m. \<forall>k < length m. host_addr (m ! j) = host_addr (m ! k) \<longrightarrow> host_addr (m ! j) \<noteq> 0 \<longrightarrow> j = k)"

lemma find_index_Some: "find_index P xs = Some k \<Longrightarrow> k < length xs \<and> P (xs ! k)"
  by (induction xs arbitrary: k) (auto split: if_splits)

lemma find_index_None: "find_index P xs = None \<longleftrightarrow> (\<forall>k < length xs. \<not> P (xs ! k))"
  by (induction xs) (auto simp: nth_Cons split: nat.splits)

lemma map_entry:
  assumes "map_ok m" and "k < length m" and "host_addr (m ! k) = 0" and "a \<noteq> 0" "a \<notin> mapped m"
  shows "map_ok (m[k := \<lparr>host_addr = a, gm_handle = h\<rparr>])"
    and "mapped (m[k := \<lparr>host_addr = a, gm_handle = h\<rparr>]) = insert a (mapped m)"
  using assms unfolding map_ok_def mapped_def by (auto simp: nth_list_update split: if_splits)

lemma unmap_entry:
  assumes "map_ok m" and "k < length m" and "host_addr (m ! k) = a" and "a \<noteq> 0"
  shows "map_ok (m[k := (m ! k)\<lparr>host_addr := 0\<rparr>])"
    and "mapped (m[k := (m ! k)\<lparr>host_addr := 0\<rparr>]) = mapped m - {a}"
  using assms unfolding map_ok_def mapped_def by (auto simp: nth_list_update split: if_splits)

text \<open>An unmapping hypercall that Xen does not refuse.\<close>

definition unmaps :: "'w unmap_hypercall \<Rightarrow> bool" where
  "unmaps hyper = (\<forall>a h w. fst (hyper a h w) = (0, 0))"

text \<open>The pages of an area do not reach the end of the address space.\<close>

definition area_pages :: "u64 \<Rightarrow> nat \<Rightarrow> nat \<Rightarrow> u64 set" where
  "area_pages a i n = page_addr a ` {i..<i + n}"

lemma page_addr_unat:
  assumes "unat a + 4096 * n \<le> 2 ^ 64" and "i < n"
  shows "unat (page_addr a i) = unat a + 4096 * i"
proof -
  define k where "k = unat a + 4096 * i"
  have "k < 2 ^ 64" using assms unfolding k_def by linarith
  then have u: "unat (of_nat k :: u64) = k" by (simp add: unsigned_of_nat take_bit_nat_eq_self)
  have "page_addr a i = of_nat k" by (simp add: page_addr_def k_def)
  then show ?thesis using u unfolding k_def by metis
qed

lemma page_addr_inj:
  assumes "unat a + 4096 * n \<le> 2 ^ 64" and "i < n" "j < n" and "page_addr a i = page_addr a j"
  shows "i = j"
proof -
  have "unat a + 4096 * i = unat a + 4096 * j"
    using page_addr_unat [OF assms(1,2)] page_addr_unat [OF assms(1,3)] assms(4) by metis
  then show ?thesis by linarith
qed

lemma page_addr_nonzero:
  assumes "unat a + 4096 * n \<le> 2 ^ 64" and "i < n" and "a \<noteq> 0"
  shows "page_addr a i \<noteq> 0"
proof
  assume "page_addr a i = 0"
  then have "unat a = 0" using page_addr_unat [OF assms(1,2)] by simp
  then show False using assms(3) by (simp add: unat_eq_0)
qed

lemma area_pages_Suc: "area_pages a i (Suc n) = insert (page_addr a i) (area_pages a (i + 1) n)"
proof -
  have "{i..<i + Suc n} = insert i {i + 1..<i + 1 + n}" by auto
  then show ?thesis by (simp add: area_pages_def)
qed

lemma area_pages_notin:
  assumes "unat a + 4096 * N \<le> 2 ^ 64" and "k < N" "i + n \<le> N" and "k < i \<or> i + n \<le> k"
  shows "page_addr a k \<notin> area_pages a i n"
proof
  assume "page_addr a k \<in> area_pages a i n"
  then obtain j where "i \<le> j" "j < i + n" "page_addr a k = page_addr a j" by (auto simp: area_pages_def)
  then show False using page_addr_inj [OF assms(1,2), of j] assms(3,4) by auto
qed

lemma munmap_loop_all:
  assumes "unmaps hyper" and "unat a + 4096 * N \<le> 2 ^ 64" "a \<noteq> 0"
    and "map_ok m" "i + n \<le> N" "area_pages a i n \<subseteq> mapped m"
  shows "\<exists>m' w'. munmap_loop hyper a i n m w = (0, m', w') \<and> map_ok m' \<and> length m' = length m \<and>
    mapped m' = mapped m - area_pages a i n"
  using assms(4-6)
proof (induction n arbitrary: i m w)
  case (Suc n)
  let ?p = "page_addr a i"
  have p: "?p \<in> mapped m" "?p \<noteq> 0" using Suc.prems page_addr_nonzero [OF assms(2) _ assms(3)]
    by (simp_all add: area_pages_Suc)
  then obtain k where k: "gntmap_find_entry m ?p = Some k"
    using find_index_None [of "\<lambda>e. host_addr e = ?p" m]
    by (cases "gntmap_find_entry m ?p") (auto simp: gntmap_find_entry_def mapped_def)
  then have hk: "k < length m" "host_addr (m ! k) = ?p"
    using find_index_Some unfolding gntmap_find_entry_def by blast+
  let ?m = "m[k := (m ! k)\<lparr>host_addr := 0\<rparr>]"
  note U = unmap_entry [OF Suc.prems(1) hk p(2)]
  obtain w1 where w1: "gntmap_unmap_grant_ref hyper k m w = (0, ?m, w1)"
  proof -
    have "fst (hyper (host_addr (m ! k)) (gm_handle (m ! k)) w) = (0, 0)" using assms(1) by (simp add: unmaps_def)
    then show thesis
      using that by (cases "hyper (host_addr (m ! k)) (gm_handle (m ! k)) w") (auto simp: gntmap_unmap_grant_ref_def)
  qed
  have "?p \<notin> area_pages a (i + 1) n"
    using area_pages_notin [OF assms(2)] Suc.prems(2) by simp
  then have "area_pages a (i + 1) n \<subseteq> mapped ?m" using Suc.prems(3) U(2) by (auto simp: area_pages_Suc)
  then have "\<exists>m' w'. munmap_loop hyper a (i + 1) n ?m w1 = (0, m', w') \<and> map_ok m' \<and> length m' = length ?m \<and>
      mapped m' = mapped ?m - area_pages a (i + 1) n"
    using Suc.IH [of ?m "i + 1" w1] U(1) Suc.prems(2) by simp
  then show ?case using k w1 U(2) by (auto simp: area_pages_Suc)
qed (simp add: area_pages_def)

text \<open>
  The state of \<open>map_loop\<close> after \<open>i\<close> pages: exactly these are mapped besides those of \<open>m0\<close>.
\<close>

lemma map_loop_all_or_nothing:
  assumes "unmaps hu" and "unat a + 4096 * N \<le> 2 ^ 64" "a \<noteq> 0"
    and "length refs = N" and "\<forall>j < N. j * stride < length domids"
    and "area_pages a 0 N \<inter> S = {}"
    and "map_ok m" "i + n = N" "mapped m = S \<union> area_pages a 0 i"
  shows "\<exists>r m' w'. map_loop hm hu a domids stride refs writable i n m w = Inr (r, m', w') \<and> map_ok m' \<and>
    length m' = length m \<and> (r = 0 \<or> r = a) \<and> mapped m' = (if r = 0 then S else S \<union> area_pages a 0 N)"
  using assms(7-9)
proof (induction n arbitrary: i m w)
  case 0
  then show ?case using assms(3) by simp
next
  case (Suc n)
  let ?p = "page_addr a i"
  have fail: "\<exists>m1 w1. gntmap_munmap hu a i m w' = (0, m1, w1) \<and> map_ok m1 \<and> length m1 = length m \<and> mapped m1 = S" for w'
  proof -
    have "area_pages a 0 i \<subseteq> area_pages a 0 N" using Suc.prems(2) by (auto simp: area_pages_def)
    then have "mapped m - area_pages a 0 i = S" using assms(6) Suc.prems(3) by blast
    then show ?thesis
      using munmap_loop_all [OF assms(1-3) Suc.prems(1), of 0 i w'] Suc.prems(2,3)
      by (simp add: gntmap_munmap_def)
  qed
  show ?case
  proof (cases "gntmap_find_free_entry m")
    case None
    then show ?thesis using fail [of w] by auto
  next
    case (Some k)
    then have k: "k < length m" "host_addr (m ! k) = 0"
      using find_index_Some unfolding gntmap_find_free_entry_def gntmap_entry_used_def by blast+
    have r: "aget domids (i * stride) = Inr (domids ! (i * stride))" "aget refs i = Inr (refs ! i)"
      using assms(4,5) Suc.prems(2) by simp_all
    obtain rc m1 w1 where g: "gntmap_map_grant_ref hm k ?p (domids ! (i * stride)) (refs ! i) writable m w = (rc, m1, w1)"
      by (metis prod_cases3)
    show ?thesis
    proof (cases "rc = 0")
      case False
      then have "m1 = m" using g by (auto simp: gntmap_map_grant_ref_def Let_def split: prod.splits if_splits)
      then show ?thesis using fail [of w1] Some r g False by auto
    next
      case True
      then obtain h where m1: "m1 = m[k := \<lparr>host_addr = ?p, gm_handle = h\<rparr>]"
        using g by (auto simp: gntmap_map_grant_ref_def Let_def split: prod.splits if_splits)
      have nz: "?p \<noteq> 0" using page_addr_nonzero [OF assms(2) _ assms(3)] Suc.prems(2) by simp
      have "?p \<in> area_pages a 0 N" using Suc.prems(2) by (auto simp: area_pages_def)
      moreover have "?p \<notin> area_pages a 0 i"
        using area_pages_notin [OF assms(2)] Suc.prems(2) by simp
      ultimately have "?p \<notin> mapped m" using assms(6) Suc.prems(3) by blast
      note M = map_entry [OF Suc.prems(1) k nz this, of h]
      have "area_pages a 0 (i + 1) = insert ?p (area_pages a 0 i)"
        by (auto simp: area_pages_def less_Suc_eq)
      then have "mapped m1 = S \<union> area_pages a 0 (i + 1)" using M(2) m1 Suc.prems(3) by simp
      then show ?thesis
        using Suc.IH [of m1 "i + 1" w1] M(1) m1 Suc.prems(2) Some r g True by simp
    qed
  qed
qed

section \<open>Properties\<close>

text \<open>
  C34: \<open>gnttab_grant_access\<close> takes the first free entry, which is not a reserved one, and fills it in;
  \<open>gnttab_end_access\<close> on a grant that nobody maps clears its flags and gives it back, so that
  the next grant gets the same reference again.
\<close>

theorem grant_access_roundtrip:
  assumes g: "gnttab_rep g (r # xs)" and ro: "readonly = 0 \<or> readonly = 1"
  shows "\<exists>g1 g2 g3. gnttab_grant_access domid frame readonly g = Inr (r, g1) \<and> gnttab_rep g1 xs \<and>
    gnttab_table g1 r = \<lparr>gt_flags = (if readonly = 0 then 1 else 5), gt_domid = domid, gt_frame = ucast frame\<rparr> \<and>
    NR_RESERVED_ENTRIES \<le> r \<and> r < NR_GRANT_ENTRIES \<and> r \<notin> set xs \<and>
    gnttab_end_access r (gt_flags (gnttab_table g1 r) # obs) g1 = Some (Inr (True, g2)) \<and>
    gt_flags (gnttab_table g2 r) = 0 \<and>
    gnttab_grant_access domid frame readonly g2 = Inr (r, g3) \<and> gnttab_rep g3 xs"
proof -
  have v: "gnttab_ref r" "r \<notin> set xs" using gt.rep_valid [OF g] by auto
  obtain g0 where g0: "get_free_entry g = Inr (r, g0)" "gnttab_rep g0 xs" using gt.get_rep [OF g] by blast
  define fl :: u16 where "fl = ucast (ucast GTF_permit_access OR readonly * GTF_readonly)"
  have fl: "fl = (if readonly = 0 then 1 else 5)" "fl AND (GTF_reading OR GTF_writing) = 0"
    using ro by (auto simp: fl_def GTF_permit_access_def GTF_readonly_def GTF_reading_def GTF_writing_def)
  define g1 where "g1 = set_entry r fl domid frame g0"
  have a: "gnttab_grant_access domid frame readonly g = Inr (r, g1)" "gnttab_rep g1 xs"
    using g0 by (simp_all add: gnttab_grant_access_def g1_def fl_def)
  have t: "gnttab_table g1 r = \<lparr>gt_flags = fl, gt_domid = domid, gt_frame = ucast frame\<rparr>"
    by (simp add: g1_def set_entry_def)
  obtain g2 where g2: "end_access_loop r fl (fl # obs) g1 = Some (Inr (True, g2))"
    "gnttab_rep g2 (r # xs)" "gt_flags (gnttab_table g2 r) = 0"
    using end_access_loop_free [OF a(2) v fl(2), of obs] by blast
  obtain g3 where g3: "gnttab_grant_access domid frame readonly g2 = Inr (r, g3)" "gnttab_rep g3 xs"
    using gt.get_rep [OF g2(2)] by (auto simp: gnttab_grant_access_def)
  have "gnttab_end_access r (gt_flags (gnttab_table g1 r) # obs) g1 = Some (Inr (True, g2))"
    using g2(1) v(1) t by (simp add: gnttab_end_access_def gnttab_ref_def del: end_access_loop.simps)
  then show ?thesis using a t v g2(3) g3 fl(1) unfolding gnttab_ref_def by auto
qed

lemma set_max_grants_mapped:
  assumes "map_ok m"
  shows "map_ok (snd (gntmap_set_max_grants ok n m))" and "mapped (snd (gntmap_set_max_grants ok n m)) = mapped m"
  using assms by (auto simp: gntmap_set_max_grants_def map_ok_def mapped_def)

definition demo_gnttab :: gnttab where
  "demo_gnttab = \<lparr>gnttab_list = replicate NR_GRANT_ENTRIES 0,
     gnttab_table = (\<lambda>_. \<lparr>gt_flags = 0, gt_domid = 0, gt_frame = 0\<rparr>)\<rparr>"

theorem grant_access_roundtrip_witness:
  "\<exists>g g1. init_frames demo_gnttab = Inr g \<and> gnttab_grant_access 3 77 1 g = Inr (2047, g1) \<and>
     gt_flags (gnttab_table g1 2047) = 5"
proof -
  have e: "rev [NR_RESERVED_ENTRIES..<NR_GRANT_ENTRIES] = 2047 # rev [8..<2047]"
  proof -
    have "NR_GRANT_ENTRIES = Suc 2047" by (simp add: gnttab_limits)
    moreover have "[8..<Suc 2047] = [8..<2047] @ [2047]" by (rule upt_Suc_append) simp
    moreover have "rev (ys @ [y]) = y # rev ys" for ys and y :: nat by simp
    ultimately show ?thesis by (simp only: NR_RESERVED_ENTRIES_def)
  qed
  have "gnttab_list demo_gnttab = replicate NR_GRANT_ENTRIES 0" by (simp add: demo_gnttab_def)
  from init_frames_rep [OF this] obtain g rest where g: "init_frames demo_gnttab = Inr g" "gnttab_rep g (2047 # rest)"
    unfolding e by blast
  show ?thesis using g(1) grant_access_roundtrip [OF g(2), of 1 3 77 "[]"] by auto
qed



end
