(* ===== verification/Byte_Ring.thy ===== *)
theory Byte_Ring
  imports Prelude
begin

text \<open>
  Byte rings shared with another domain, as the console (\<^verbatim>\<open>include/public/io/console.h\<close>) and the
  Xenstore (\<^verbatim>\<open>include/public/io/xs_wire.h\<close>) lay them out: a buffer whose size is a power of two
  and two free-running 32-bit indices.  The theory gives the content of a ring as a list, the lemmas
  about one byte put in or taken out, and the interface \<open>fifo\<close> of a ring with a sender and a
  receiver.
\<close>

section \<open>The ring in memory\<close>

record ring =
  rbuf :: "u8 list"
  prod :: u32
  cons :: u32

text \<open>\<^verbatim>\<open>MASK_XENCONS_IDX\<close> and \<^verbatim>\<open>MASK_XENSTORE_IDX\<close>.\<close>

definition mask_idx :: "nat \<Rightarrow> u32 \<Rightarrow> nat" where
  "mask_idx n i = unat (i AND (of_nat n - 1))"

definition filled :: "ring \<Rightarrow> nat" where
  "filled r = unat (prod r - cons r)"

definition ring_content :: "ring \<Rightarrow> u8 list" where
  "ring_content r = map (\<lambda>i. rbuf r ! ((unat (cons r) + i) mod length (rbuf r))) [0..<filled r]"

definition ring_ok :: "ring \<Rightarrow> bool" where
  "ring_ok r = ((\<exists>k < 32. length (rbuf r) = 2 ^ k) \<and> filled r \<le> length (rbuf r))"

text \<open>One byte in, one byte out.\<close>

definition ring_put :: "u8 \<Rightarrow> ring \<Rightarrow> ring" where
  "ring_put b r = r\<lparr>rbuf := (rbuf r)[mask_idx (length (rbuf r)) (prod r) := b], prod := prod r + 1\<rparr>"

definition ring_head :: "ring \<Rightarrow> u8" where
  "ring_head r = rbuf r ! mask_idx (length (rbuf r)) (cons r)"

definition ring_skip :: "nat \<Rightarrow> ring \<Rightarrow> ring" where
  "ring_skip n r = r\<lparr>cons := cons r + of_nat n\<rparr>"

section \<open>Lemmas on indices\<close>

lemma mask_idx_mod:
  assumes "k < 32"
  shows "mask_idx (2 ^ k) i = unat i mod 2 ^ k"
proof -
  have "(of_nat (2 ^ k) :: u32) - 1 = mask k" by (simp add: mask_eq_exp_minus_1)
  then have "mask_idx (2 ^ k) i = unat (take_bit k i)" by (simp add: mask_idx_def take_bit_eq_mask)
  moreover have "unat (take_bit k i) = unat i mod 2 ^ k"
    by (simp only: unsigned_take_bit_eq) (simp add: take_bit_eq_mod)
  ultimately show ?thesis by simp
qed

lemma ring_size:
  assumes "ring_ok r"
  obtains k where "k < 32" "length (rbuf r) = 2 ^ k" "\<And>i. mask_idx (length (rbuf r)) i = unat i mod length (rbuf r)"
    "0 < length (rbuf r)"
  using assms mask_idx_mod unfolding ring_ok_def by auto

lemma unat_add_mod:
  assumes "k \<le> 32"
  shows "unat (i + of_nat n :: u32) mod 2 ^ k = (unat i + n) mod 2 ^ k"
proof -
  have d: "(2 ^ k :: nat) dvd 2 ^ 32" using assms by (rule le_imp_power_dvd)
  have "unat (i + of_nat n :: u32) = (unat i + n) mod 2 ^ 32"
    by (simp add: unat_word_ariths unsigned_of_nat take_bit_eq_mod mod_simps)
  then show ?thesis using d by (simp add: mod_mod_cancel)
qed

lemma filled_put: "filled r < length (rbuf r) \<Longrightarrow> ring_ok r \<Longrightarrow> filled (ring_put b r) = filled r + 1"
proof -
  assume a: "filled r < length (rbuf r)" "ring_ok r"
  obtain k where k: "k < 32" "length (rbuf r) = 2 ^ k" using ring_size [OF a(2)] by metis
  then have "filled r < 2 ^ 32 - 1" using a(1) power_strict_increasing [OF k(1), of "2 :: nat"] by simp
  then have "unat (prod r - cons r + 1) = unat (prod r - cons r) + 1"
    unfolding filled_def by (simp add: unat_word_ariths)
  then show ?thesis by (simp add: filled_def ring_put_def algebra_simps)
qed

lemma length_content [simp]: "length (ring_content r) = filled r"
  by (simp add: ring_content_def)

lemma ring_put_props:
  assumes ok: "ring_ok r" and f: "filled r < length (rbuf r)"
  shows "ring_content (ring_put b r) = ring_content r @ [b]" and "ring_ok (ring_put b r)"
    and "length (rbuf (ring_put b r)) = length (rbuf r)" and "cons (ring_put b r) = cons r"
proof -
  obtain k where k: "k < 32" "length (rbuf r) = 2 ^ k" "\<And>i. mask_idx (length (rbuf r)) i = unat i mod length (rbuf r)"
    using ring_size [OF ok] by metis
  define n where "n = length (rbuf r)"
  have n: "0 < n" "n = 2 ^ k" using k(2) by (simp_all add: n_def)
  have p: "mask_idx n (prod r) = (unat (cons r) + filled r) mod n"
  proof -
    have "prod r = cons r + of_nat (filled r)" by (simp add: filled_def)
    then show ?thesis using k(1,3) unat_add_mod [of k "cons r" "filled r"] n unfolding n_def by simp
  qed
  have other: "(unat (cons r) + i) mod n \<noteq> mask_idx n (prod r)" if "i < filled r" for i
  proof
    assume "(unat (cons r) + i) mod n = mask_idx n (prod r)"
    then have "(unat (cons r) + filled r) mod n = (unat (cons r) + i) mod n" using p by simp
    then have "n dvd filled r - i" using that by (metis add_diff_cancel_left le_add_diff_inverse less_imp_le mod_eq_dvd_iff_nat nat_add_left_cancel_le)
    then show False using that f n_def by (simp add: nat_dvd_not_less)
  qed
  have fp: "filled (ring_put b r) = filled r + 1" by (rule filled_put [OF f ok])
  have "ring_content (ring_put b r) = map (\<lambda>i. (rbuf r)[mask_idx n (prod r) := b] ! ((unat (cons r) + i) mod n)) [0..<filled r + 1]"
    unfolding ring_content_def fp by (simp add: ring_put_def n_def)
  also have "\<dots> = map (\<lambda>i. rbuf r ! ((unat (cons r) + i) mod n)) [0..<filled r] @ [b]"
  proof -
    have "mask_idx n (prod r) < length (rbuf r)" using p n(1) by (simp add: n_def)
    then have "(rbuf r)[mask_idx n (prod r) := b] ! ((unat (cons r) + filled r) mod n) = b" using p by simp
    moreover have "(rbuf r)[mask_idx n (prod r) := b] ! ((unat (cons r) + i) mod n) = rbuf r ! ((unat (cons r) + i) mod n)"
      if "i < filled r" for i
      using other [OF that] by (intro nth_list_update_neq) metis
    ultimately show ?thesis by simp
  qed
  finally show "ring_content (ring_put b r) = ring_content r @ [b]" by (simp add: ring_content_def n_def)
  show "ring_ok (ring_put b r)" using ok f fp by (simp add: ring_ok_def) (simp add: ring_put_def)
qed (simp_all add: ring_put_def)

lemma filled_skip:
  assumes "n \<le> filled r"
  shows "filled (ring_skip n r) = filled r - n"
proof -
  have "n < 2 ^ 32" using assms unat_less_pow [of "prod r - cons r"] by (simp add: filled_def)
  then have u: "unat (of_nat n :: u32) = n" by (simp add: unsigned_of_nat take_bit_nat_eq_self)
  have "(of_nat n :: u32) \<le> prod r - cons r" using assms u by (simp add: word_le_nat_alt filled_def)
  then have "unat (prod r - cons r - of_nat n) = unat (prod r - cons r) - n" using u by (simp add: unat_sub)
  then show ?thesis by (simp add: filled_def ring_skip_def algebra_simps)
qed

lemma ring_skip_props:
  assumes ok: "ring_ok r" and n: "n \<le> filled r"
  shows "ring_content (ring_skip n r) = drop n (ring_content r)" and "ring_ok (ring_skip n r)"
    and "length (rbuf (ring_skip n r)) = length (rbuf r)"
proof -
  obtain k where k: "k < 32" "length (rbuf r) = 2 ^ k" using ring_size [OF ok] by metis
  have m: "(unat (cons r + of_nat n) + i) mod 2 ^ k = (unat (cons r) + (n + i)) mod 2 ^ k" for i
  proof -
    have "(unat (cons r + of_nat n) + i) mod 2 ^ k = (unat (cons r + of_nat n) mod 2 ^ k + i) mod 2 ^ k"
      by (simp only: mod_add_left_eq)
    also have "\<dots> = ((unat (cons r) + n) mod 2 ^ k + i) mod 2 ^ k" using k(1) by (simp only: unat_add_mod less_imp_le)
    also have "\<dots> = (unat (cons r) + (n + i)) mod 2 ^ k" by (simp only: mod_add_left_eq add.assoc)
    finally show ?thesis .
  qed
  have "ring_content (ring_skip n r) = map (\<lambda>i. rbuf r ! ((unat (cons r) + (n + i)) mod 2 ^ k)) [0..<filled r - n]"
    unfolding ring_content_def filled_skip [OF n] by (simp add: ring_skip_def k(2) m)
  also have "\<dots> = drop n (ring_content r)"
    by (rule nth_equalityI) (auto simp: ring_content_def k(2) less_diff_conv add.commute [of n])
  finally show "ring_content (ring_skip n r) = drop n (ring_content r)" .
  show "ring_ok (ring_skip n r)" using ok filled_skip [OF n] by (auto simp: ring_ok_def) (simp_all add: ring_skip_def)
qed (simp add: ring_skip_def)

lemma ring_nth:
  assumes "ring_ok r" and "i < filled r"
  shows "rbuf r ! mask_idx (length (rbuf r)) (cons r + of_nat i) = ring_content r ! i"
proof -
  obtain k where k: "k < 32" "length (rbuf r) = 2 ^ k" "\<And>i. mask_idx (length (rbuf r)) i = unat i mod length (rbuf r)"
    using ring_size [OF assms(1)] by metis
  then show ?thesis using assms(2) unat_add_mod [of k "cons r" i] by (simp add: ring_content_def)
qed

section \<open>A ring with a sender and a receiver\<close>

text \<open>
  \<open>send xs\<close> appends as much of \<open>xs\<close> as fits and says how much that was; \<open>recv n\<close> takes up to
  \<open>n\<close> bytes.
\<close>

locale fifo =
  fixes send :: "'b list \<Rightarrow> 'r \<Rightarrow> (nat \<times> 'r) res"
    and recv :: "nat \<Rightarrow> 'r \<Rightarrow> ('b list \<times> 'r) res"
    and content :: "'r \<Rightarrow> 'b list"
    and cap :: "'r \<Rightarrow> nat"
    and ok :: "'r \<Rightarrow> bool"
  assumes send_fits: "ok r \<Longrightarrow> \<exists>r'. send xs r = Inr (min (length xs) (cap r - length (content r)), r') \<and> ok r' \<and>
      cap r' = cap r \<and> content r' = content r @ take (cap r - length (content r)) xs"
    and recv_takes: "ok r \<Longrightarrow> \<exists>r'. recv n r = Inr (take n (content r), r') \<and> ok r' \<and> cap r' = cap r \<and>
      content r' = drop n (content r)"
begin

text \<open>A run of sends and receives in any order: what was accepted and what was delivered.\<close>

fun fifo_run :: "('b list + nat) list \<Rightarrow> 'r \<Rightarrow> ('b list \<times> 'b list \<times> 'r) res" where
  "fifo_run [] r = Inr ([], [], r)"
| "fifo_run (Inl xs # ops) r =
     rbind (send xs r) (\<lambda>(n, r1). rbind (fifo_run ops r1) (\<lambda>(a, d, r2). Inr (take n xs @ a, d, r2)))"
| "fifo_run (Inr n # ops) r =
     rbind (recv n r) (\<lambda>(ys, r1). rbind (fifo_run ops r1) (\<lambda>(a, d, r2). Inr (a, ys @ d, r2)))"

lemma fifo_run_order:
  "ok r \<Longrightarrow> \<exists>a d r'. fifo_run ops r = Inr (a, d, r') \<and> ok r' \<and> cap r' = cap r \<and> content r @ a = d @ content r'"
proof (induction ops arbitrary: r)
  case (Cons op ops)
  show ?case
  proof (cases op)
    case (Inl xs)
    obtain r1 where r1: "send xs r = Inr (min (length xs) (cap r - length (content r)), r1)" "ok r1" "cap r1 = cap r"
      "content r1 = content r @ take (cap r - length (content r)) xs"
      using send_fits [OF Cons.prems, of xs] by blast
    obtain a d r2 where r2: "fifo_run ops r1 = Inr (a, d, r2)" "ok r2" "cap r2 = cap r1" "content r1 @ a = d @ content r2"
      using Cons.IH [OF r1(2)] by blast
    have "take (min (length xs) (cap r - length (content r))) xs = take (cap r - length (content r)) xs"
      by (simp add: min_def)
    then show ?thesis using r1 r2 Inl by simp
  next
    case (Inr n)
    obtain r1 where r1: "recv n r = Inr (take n (content r), r1)" "ok r1" "cap r1 = cap r" "content r1 = drop n (content r)"
      using recv_takes [OF Cons.prems, of n] by blast
    obtain a d r2 where r2: "fifo_run ops r1 = Inr (a, d, r2)" "ok r2" "cap r2 = cap r1" "content r1 @ a = d @ content r2"
      using Cons.IH [OF r1(2)] by blast
    have "content r @ a = take n (content r) @ (d @ content r2)" using r1(4) r2(4) by (metis append.assoc append_take_drop_id)
    then show ?thesis using r1 r2 Inr by simp
  qed
qed simp

lemma send_then_recv:
  assumes "ok r" and "content r = []" and "length xs \<le> cap r"
  shows "\<exists>r1 r2. send xs r = Inr (length xs, r1) \<and> recv (length xs) r1 = Inr (xs, r2) \<and> content r2 = []"
proof -
  obtain r1 where r1: "send xs r = Inr (length xs, r1)" "ok r1" "content r1 = xs"
    using send_fits [OF assms(1), of xs] assms(2,3) by auto
  then show ?thesis using recv_takes [OF r1(2), of "length xs"] by auto
qed

end

end
