(* ===== verification/Console.thy ===== *)
theory Console
  imports Byte_Ring Printf Sched_Props Events
begin

text \<open>
  The console: \<^verbatim>\<open>console.c\<close>.  Output goes byte by byte into a ring of 2048 bytes that the console
  daemon empties, input comes from a ring of 1024 bytes.

  Where the code waits for room in a loop, the daemon takes bytes out meanwhile: the numbers of bytes
  it takes before each attempt are the argument \<open>ds\<close>, and \<open>wire\<close> collects what it has taken.
  A result \<open>None\<close> means that \<open>ds\<close> ran out before the loop ended.
\<close>

section \<open>The rings of the console\<close>

text \<open>
  \<open>xencons_ring_send_no_notify\<close> on the output ring and \<open>xencons_ring_recv\<close> on the input ring; the
  index is stored once at the end, after the bytes.
\<close>

fun send_loop :: "u8 list \<Rightarrow> ring \<Rightarrow> nat \<times> ring" where
  "send_loop [] r = (0, r)"
| "send_loop (b # bs) r =
     (if filled r < length (rbuf r)
      then case send_loop bs (ring_put b r) of (n, r1) \<Rightarrow> (Suc n, r1)
      else (0, r))"

definition ring_send :: "u8 list \<Rightarrow> ring \<Rightarrow> (nat \<times> ring) res" where
  "ring_send xs r = bug_on (filled r > length (rbuf r)) (Inr (send_loop xs r))"

function recv_loop :: "nat \<Rightarrow> ring \<Rightarrow> nat \<Rightarrow> u8 list" where
  "recv_loop n r k =
     (if k < n \<and> cons r + of_nat k \<noteq> prod r
      then rbuf r ! mask_idx (length (rbuf r)) (cons r + of_nat k) # recv_loop n r (k + 1)
      else [])"
  by pat_completeness auto
termination by (relation "measure (\<lambda>(n, r, k). n - k)") auto

declare recv_loop.simps [simp del]

definition ring_recv :: "nat \<Rightarrow> ring \<Rightarrow> (u8 list \<times> ring) res" where
  "ring_recv n r =
     bug_on (filled r > length (rbuf r)) (let xs = recv_loop n r 0 in Inr (xs, ring_skip (length xs) r))"

definition ring_avail :: "ring \<Rightarrow> int res" where
  "ring_avail r = bug_on (filled r > length (rbuf r)) (Inr (int (filled r)))"

lemma send_loop_fits:
  "ring_ok r \<Longrightarrow> \<exists>r1. send_loop xs r = (min (length xs) (length (rbuf r) - filled r), r1) \<and> ring_ok r1 \<and>
     length (rbuf r1) = length (rbuf r) \<and> cons r1 = cons r \<and>
     ring_content r1 = ring_content r @ take (length (rbuf r) - filled r) xs"
proof (induction xs arbitrary: r)
  case (Cons b bs)
  show ?case
  proof (cases "filled r < length (rbuf r)")
    case True
    note P = ring_put_props [OF Cons.prems True, of b] and F = filled_put [OF True Cons.prems, of b]
    obtain r1 where r1: "send_loop bs (ring_put b r) = (min (length bs) (length (rbuf r) - Suc (filled r)), r1)"
      "ring_ok r1" "length (rbuf r1) = length (rbuf r)" "cons r1 = cons r"
      "ring_content r1 = ring_content r @ b # take (length (rbuf r) - Suc (filled r)) bs"
      using Cons.IH [OF P(2)] P F by auto
    have "length (rbuf r) - filled r = Suc (length (rbuf r) - Suc (filled r))" using True by simp
    then show ?thesis using r1 True by simp
  next
    case False
    then show ?thesis using Cons.prems by simp
  qed
qed simp

lemma recv_loop_content:
  assumes ok: "ring_ok r" and "k \<le> filled r"
  shows "recv_loop n r k = take (n - k) (drop k (ring_content r))"
  using assms(2)
proof (induction "n - k" arbitrary: k)
  case 0
  then show ?case by (simp add: recv_loop.simps [of n r k])
next
  case (Suc m)
  show ?case
  proof (cases "k = filled r")
    case True
    then have "cons r + of_nat k = prod r" by (simp add: filled_def)
    then have "recv_loop n r k = []" by (subst recv_loop.simps) simp
    then show ?thesis using True by simp
  next
    case False
    then have k: "k < filled r" using Suc.prems by simp
    have "cons r + of_nat k \<noteq> prod r"
    proof
      assume "cons r + of_nat k = prod r"
      then have "filled (ring_skip k r) = 0" by (simp add: filled_def ring_skip_def)
      then show False using filled_skip [of k r] k by simp
    qed
    moreover have "drop k (ring_content r) = ring_content r ! k # drop (Suc k) (ring_content r)"
      using k by (simp add: Cons_nth_drop_Suc)
    moreover have "n - k = Suc (n - Suc k)" using Suc.hyps(2) by simp
    moreover have "recv_loop n r (Suc k) = take (n - Suc k) (drop (Suc k) (ring_content r))"
      using Suc.hyps(1) [of "Suc k"] Suc.hyps(2) k by simp
    ultimately show ?thesis using ring_nth [OF ok k] Suc.hyps(2) by (simp add: recv_loop.simps [of n r k])
  qed
qed

interpretation con: fifo ring_send ring_recv ring_content "\<lambda>r. length (rbuf r)" ring_ok
proof
  fix r :: ring and xs :: "u8 list"
  assume ok: "ring_ok r"
  then have "filled r \<le> length (rbuf r)" by (simp add: ring_ok_def)
  then show "\<exists>r'. ring_send xs r = Inr (min (length xs) (length (rbuf r) - length (ring_content r)), r') \<and>
      ring_ok r' \<and> length (rbuf r') = length (rbuf r) \<and>
      ring_content r' = ring_content r @ take (length (rbuf r) - length (ring_content r)) xs"
    using send_loop_fits [OF ok, of xs] by (auto simp: ring_send_def)
next
  fix r :: ring and n
  assume ok: "ring_ok r"
  have n: "length (take n (ring_content r)) \<le> filled r" by simp
  have d: "drop (length (take n (ring_content r))) (ring_content r) = drop n (ring_content r)" by (simp add: min_def)
  have "recv_loop n r 0 = take n (ring_content r)" using recv_loop_content [OF ok, of 0 n] by simp
  then show "\<exists>r'. ring_recv n r = Inr (take n (ring_content r), r') \<and> ring_ok r' \<and>
      length (rbuf r') = length (rbuf r) \<and> ring_content r' = drop n (ring_content r)"
    using ring_skip_props [OF ok n] d ok by (auto simp: ring_recv_def Let_def ring_ok_def)
qed

section \<open>State and output\<close>

record console =
  cin :: ring
  cout :: ring
  console_initialised :: bool
  console_dying :: bool
  sends_notify :: bool
  notified :: nat
  wire :: "u8 list"
  hyper_out :: "u8 list list"

definition xencons_notify_daemon :: "console \<Rightarrow> console" where
  "xencons_notify_daemon c = c\<lparr>notified := notified c + 1\<rparr>"

definition xencons_ring_avail :: "console \<Rightarrow> int res" where
  "xencons_ring_avail c = ring_avail (cin c)"

definition xencons_ring_send_no_notify :: "u8 list \<Rightarrow> console \<Rightarrow> (nat \<times> console) res" where
  "xencons_ring_send_no_notify xs c = rbind (ring_send xs (cout c)) (\<lambda>(n, r). Inr (n, c\<lparr>cout := r\<rparr>))"

definition xencons_ring_send :: "u8 list \<Rightarrow> console \<Rightarrow> (nat \<times> console) res" where
  "xencons_ring_send xs c =
     rbind (xencons_ring_send_no_notify xs c) (\<lambda>(n, c1). Inr (n, xencons_notify_daemon c1))"

definition xencons_ring_recv :: "nat \<Rightarrow> console \<Rightarrow> (u8 list \<times> console) res" where
  "xencons_ring_recv n c =
     rbind (ring_recv n (cin c)) (\<lambda>(xs, r). Inr (xs, xencons_notify_daemon (c\<lparr>cin := r\<rparr>)))"

text \<open>The function pointer \<^verbatim>\<open>xencons_ring_send_fn\<close> points to one of the two.\<close>

definition xencons_ring_send_fn :: "u8 list \<Rightarrow> console \<Rightarrow> (nat \<times> console) res" where
  "xencons_ring_send_fn xs c = (if sends_notify c then xencons_ring_send xs c else xencons_ring_send_no_notify xs c)"

text \<open>The daemon takes \<open>k\<close> bytes, or what there is.\<close>

definition drain :: "nat \<Rightarrow> console \<Rightarrow> console" where
  "drain k c =
     (let n = min k (filled (cout c))
      in c\<lparr>cout := ring_skip n (cout c), wire := wire c @ take n (ring_content (cout c))\<rparr>)"

fun checked_print :: "u8 list \<Rightarrow> console \<Rightarrow> nat list \<Rightarrow> (console \<times> nat list) res option" where
  "checked_print xs c ds =
     (if xs = [] then Some (Inr (c, ds))
      else case ds of
        [] \<Rightarrow> None
      | d # rest \<Rightarrow>
          (case xencons_ring_send_fn xs (drain d c) of
             Inl e \<Rightarrow> Some (Inl e)
           | Inr (n, c1) \<Rightarrow> checked_print (drop n xs) c1 rest))"

declare checked_print.simps [simp del]

definition part :: "u8 list \<Rightarrow> nat \<Rightarrow> nat \<Rightarrow> u8 list" where
  "part xs st n = take n (drop st xs)"

text \<open>
  The loop of \<open>console_print\<close> over the caller's buffer: \<open>st\<close> is \<^verbatim>\<open>data\<close>, \<open>n\<close> is \<^verbatim>\<open>length\<close> and
  \<open>cur\<close> is \<^verbatim>\<open>curr_char\<close>.  It overwrites a line feed and the byte after it, prints, and puts both
  back.
\<close>

function print_loop ::
    "u8 list \<Rightarrow> nat \<Rightarrow> nat \<Rightarrow> nat \<Rightarrow> console \<Rightarrow> nat list \<Rightarrow> (u8 list \<times> nat \<times> nat \<times> console \<times> nat list) res option" where
  "print_loop buf st n cur c ds =
     (if cur + 1 < st + n then
        if buf ! cur = 10 then
          let saved = buf ! (cur + 1);
              buf1 = buf[cur := 13, cur + 1 := 10];
              part_len = cur - st + 2
          in dbind (checked_print (part buf1 st part_len) c ds) (\<lambda>(c1, ds1).
               print_loop (buf1[cur + 1 := saved, cur := 10]) (cur + 1) (st + n - (cur + 1)) (cur + 1) c1 ds1)
        else print_loop buf st n (cur + 1) c ds
      else Some (Inr (buf, st, n, c, ds)))"
  by pat_completeness auto
termination by (relation "measure (\<lambda>(buf, st, n, cur, c, ds). st + n - cur)") auto

declare print_loop.simps [simp del]

definition init_overflow :: "u8 list" where
  "init_overflow = map (\<lambda>ch. of_char ch) ''init_overflow'' @ [13, 10]"

text \<open>
  The test of the early console subtracts the length from what is in the \<^emph>\<open>input\<close> ring and compares
  the result, converted to \<^verbatim>\<open>size_t\<close>.  An empty buffer makes the code read the byte before it.
\<close>

definition overflow_guard :: "int \<Rightarrow> nat \<Rightarrow> bool" where
  "overflow_guard avail n = ((word_of_int (avail - int n) :: u64) < of_nat (length init_overflow))"

definition console_print :: "u8 list \<Rightarrow> console \<Rightarrow> nat list \<Rightarrow> (u8 list \<times> console \<times> nat list) res option" where
  "console_print buf c ds =
     (if console_dying c then Some (Inr (buf, c, ds))
      else dbind (Some (if console_initialised c then Inr False
                        else rbind (xencons_ring_avail c) (\<lambda>a. Inr (overflow_guard a (length buf))))) (\<lambda>full.
        if full
        then dbind (Some (xencons_ring_send init_overflow
               (c\<lparr>console_dying := True, hyper_out := hyper_out c @ [init_overflow]\<rparr>))) (\<lambda>_. Some (Inl Bug))
        else dbind (print_loop buf 0 (length buf) 0 c ds) (\<lambda>(buf1, st, n, c1, ds1).
          if n = 0 then Some (Inl Undef)
          else if buf1 ! (st + n - 1) = 10
          then dbind (checked_print (part buf1 st (n - 1)) c1 ds1) (\<lambda>(c2, ds2).
               dbind (checked_print [13, 10] c2 ds2) (\<lambda>(c3, ds3). Some (Inr (buf1, c3, ds3))))
          else dbind (checked_print (part buf1 st n) c1 ds1) (\<lambda>(c2, ds2). Some (Inr (buf1, c2, ds2))))))"

text \<open>\<open>printbytes\<close> is \<open>console_print\<close> under the lock; the other functions format first.\<close>

definition printbytes :: "u8 list \<Rightarrow> console \<Rightarrow> nat list \<Rightarrow> (u8 list \<times> console \<times> nat list) res option" where
  "printbytes buf c ds = console_print buf c ds"

definition console_io :: "u8 list \<Rightarrow> console \<Rightarrow> console" where
  "console_io xs c = c\<lparr>hyper_out := hyper_out c @ [xs]\<rparr>"

text \<open>The static buffer of 1024 bytes is \<open>kbuf\<close>; the result holds its new content.\<close>

definition format_text :: "memory \<Rightarrow> memory \<Rightarrow> nat \<Rightarrow> u64 list \<Rightarrow> (memory \<times> nat) res" where
  "format_text kbuf fm fmt args =
     rbind (vsnprintf kbuf 0 1024 fm fmt args) (\<lambda>(m, _). rbind (strlen m 0) (\<lambda>n. Inr (m, n)))"

definition print_text :: "memory \<Rightarrow> nat \<Rightarrow> console \<Rightarrow> nat list \<Rightarrow> (memory \<times> console \<times> nat list) res option" where
  "print_text m n c ds =
     dbind (console_print (take n m) c ds) (\<lambda>(xs, c1, ds1). Some (Inr (xs @ drop n m, c1, ds1)))"

definition cprintk ::
    "bool \<Rightarrow> memory \<Rightarrow> memory \<Rightarrow> nat \<Rightarrow> u64 list \<Rightarrow> console \<Rightarrow> nat list \<Rightarrow> (memory \<times> console \<times> nat list) res option" where
  "cprintk tohyp kbuf fm fmt args c ds =
     dbind (Some (format_text kbuf fm fmt args)) (\<lambda>(m, n).
       if tohyp then Some (Inr (m, console_io (take n m) c, ds)) else print_text m n c ds)"

definition print ::
    "bool \<Rightarrow> memory \<Rightarrow> memory \<Rightarrow> nat \<Rightarrow> u64 list \<Rightarrow> console \<Rightarrow> nat list \<Rightarrow> (memory \<times> console \<times> nat list) res option" where
  "print direct kbuf fm fmt args c ds =
     dbind (Some (format_text kbuf fm fmt args)) (\<lambda>(m, n).
       if direct then Some (Inr (m, console_io (take n m) c, ds))
       else print_text m n (if \<not> console_initialised c then console_io (take n m) c else c) ds)"

definition printk :: "memory \<Rightarrow> memory \<Rightarrow> nat \<Rightarrow> u64 list \<Rightarrow> console \<Rightarrow> nat list \<Rightarrow> (memory \<times> console \<times> nat list) res option" where
  "printk kbuf fm fmt args c ds = cprintk False kbuf fm fmt args c ds"

definition xprintk :: "memory \<Rightarrow> memory \<Rightarrow> nat \<Rightarrow> u64 list \<Rightarrow> console \<Rightarrow> nat list \<Rightarrow> (memory \<times> console \<times> nat list) res option" where
  "xprintk kbuf fm fmt args c ds = cprintk True kbuf fm fmt args c ds"

definition init_console :: "console \<Rightarrow> console" where
  "init_console c = c\<lparr>console_initialised := True, sends_notify := True\<rparr>"

section \<open>Input\<close>

text \<open>
  \<open>readbytes\<close> returns at once when there is input, and otherwise puts the entry \<open>w\<close> on the
  wait queue \<open>cq\<close>, blocks and calls \<^verbatim>\<open>schedule\<close>.  Resumed, it reads; if there is still nothing it
  blocks again (the result has no bytes and it goes to \<^verbatim>\<open>schedule\<close>).
\<close>

definition readbytes ::
    "nat \<Rightarrow> nat \<Rightarrow> nat \<Rightarrow> nat \<Rightarrow> console \<Rightarrow> sched \<Rightarrow> (u8 list option \<times> console \<times> sched) res" where
  "readbytes me cq w n c s =
     rbind (xencons_ring_avail c) (\<lambda>a.
       if a \<noteq> 0 then rbind (xencons_ring_recv n c) (\<lambda>(xs, c1). Inr (Some xs, c1, s))
       else
         let s1 = s\<lparr>lists := init_list_head (lists s) (WaitL w), waiter_of := (waiter_of s)(w := current_thread s me)\<rparr> in
         rbind (add_wait_queue cq w s1) (\<lambda>s2.
         rbind (block (current_thread s2 me) s2) (\<lambda>s3. Inr (None, c, s3))))"

definition readbytes_resumed ::
    "nat \<Rightarrow> nat \<Rightarrow> nat \<Rightarrow> console \<Rightarrow> sched \<Rightarrow> (u8 list option \<times> console \<times> sched) res" where
  "readbytes_resumed me w n c s =
     rbind (xencons_ring_recv n c) (\<lambda>(xs, c1).
       if xs \<noteq> [] then Inr (Some xs, c1, remove_wait_queue w s)
       else rbind (block (current_thread s me) s) (\<lambda>s1. Inr (None, c1, s1)))"

definition handle_input :: "nat \<Rightarrow> nat \<Rightarrow> sched \<Rightarrow> sched res" where
  "handle_input me cq s = wake_up me cq s"

text \<open>\<open>xencons_ring_init\<close>: \<open>h\<close> is the number of \<open>handle_input\<close> among the handlers.\<close>

definition xencons_ring_init :: "nat \<Rightarrow> nat \<Rightarrow> nat \<Rightarrow> console \<Rightarrow> events \<Rightarrow> (int \<times> console \<times> events) res" where
  "xencons_ring_init me port h c e =
     (if port = 0 then Inr (0, c, e)
      else rbind (bind_evtchn me port ANY_CPU h 0 e) (\<lambda>(err, e1).
        if err = 0 then Inr (int err, c, e1) else Inr (0, xencons_notify_daemon c, e1)))"

section \<open>What goes out\<close>

text \<open>All bytes that have been handed over: those on the wire and those still in the ring.\<close>

definition stream :: "console \<Rightarrow> u8 list" where
  "stream c = wire c @ ring_content (cout c)"

definition con_ok :: "console \<Rightarrow> bool" where
  "con_ok c = ring_ok (cout c)"

definition same_con :: "console \<Rightarrow> console \<Rightarrow> bool" where
  "same_con c c' = (cin c' = cin c \<and> console_initialised c' = console_initialised c \<and>
     console_dying c' = console_dying c \<and> sends_notify c' = sends_notify c \<and> hyper_out c' = hyper_out c)"

lemma same_con_refl: "same_con c c"
  by (simp add: same_con_def)

lemma same_con_trans: "same_con a b \<Longrightarrow> same_con b c \<Longrightarrow> same_con a c"
  by (simp add: same_con_def)

lemma drain_props:
  assumes "con_ok c"
  shows "stream (drain k c) = stream c" and "con_ok (drain k c)" and "same_con c (drain k c)"
    and "1 \<le> k \<Longrightarrow> filled (cout (drain k c)) < length (rbuf (cout (drain k c)))"
proof -
  let ?n = "min k (filled (cout c))"
  note P = ring_skip_props [OF assms [unfolded con_ok_def], of ?n]
  show "stream (drain k c) = stream c" using P(1) by (simp add: stream_def drain_def Let_def)
  show "con_ok (drain k c)" using P(2) by (simp add: con_ok_def drain_def Let_def)
  show "same_con c (drain k c)" by (simp add: same_con_def drain_def Let_def)
  obtain j where "length (rbuf (cout c)) = 2 ^ j" "filled (cout c) \<le> length (rbuf (cout c))"
    using assms by (auto simp: con_ok_def ring_ok_def)
  then have "0 < length (rbuf (cout c))" "filled (cout c) \<le> length (rbuf (cout c))" by simp_all
  then have "1 \<le> k \<Longrightarrow> filled (cout c) - ?n < length (rbuf (cout c))" by (cases "filled (cout c)") auto
  then show "1 \<le> k \<Longrightarrow> filled (cout (drain k c)) < length (rbuf (cout (drain k c)))"
    using P(3) filled_skip [of ?n "cout c"] by (auto simp: drain_def Let_def)
qed

lemma send_fn_props:
  assumes "con_ok c"
  obtains n c1 where "xencons_ring_send_fn xs c = Inr (n, c1)" and "n = min (length xs) (length (rbuf (cout c)) - filled (cout c))"
    and "stream c1 = stream c @ take n xs" and "con_ok c1" and "same_con c c1"
proof -
  let ?sp = "length (rbuf (cout c)) - filled (cout c)"
  obtain r where r: "ring_send xs (cout c) = Inr (min (length xs) ?sp, r)" "ring_ok r"
    "ring_content r = ring_content (cout c) @ take ?sp xs"
    using con.send_fits [OF assms [unfolded con_ok_def], of xs] by auto
  have t: "take (min (length xs) ?sp) xs = take ?sp xs" by (simp add: min_def)
  let ?c = "if sends_notify c then xencons_notify_daemon (c\<lparr>cout := r\<rparr>) else c\<lparr>cout := r\<rparr>"
  have "xencons_ring_send_fn xs c = Inr (min (length xs) ?sp, ?c)"
    using r(1) by (simp add: xencons_ring_send_fn_def xencons_ring_send_def xencons_ring_send_no_notify_def)
  then show thesis
    by (rule that) (use r t in \<open>simp_all add: stream_def con_ok_def same_con_def xencons_notify_daemon_def\<close>)
qed

text \<open>Every attempt after the daemon took a byte prints at least one, so as many attempts as bytes suffice.\<close>

lemma checked_print_sends:
  assumes "con_ok c" and "\<forall>d \<in> set ds. 1 \<le> d" and "length xs \<le> length ds"
  shows "\<exists>c1 ds1. checked_print xs c ds = Some (Inr (c1, ds1)) \<and> con_ok c1 \<and> same_con c c1 \<and>
    stream c1 = stream c @ xs \<and> length ds \<le> length ds1 + length xs \<and> set ds1 \<subseteq> set ds"
  using assms
proof (induction ds arbitrary: xs c)
  case Nil
  then show ?case by (simp add: checked_print.simps [of "[]"] same_con_refl)
next
  case (Cons d rest)
  show ?case
  proof (cases "xs = []")
    case True
    then show ?thesis using Cons.prems by (simp add: checked_print.simps [of "[]"] same_con_refl)
  next
    case False
    have d: "1 \<le> d" using Cons.prems(2) by simp
    note D = drain_props [OF Cons.prems(1), of d]
    obtain n c1 where n: "xencons_ring_send_fn xs (drain d c) = Inr (n, c1)"
      "n = min (length xs) (length (rbuf (cout (drain d c))) - filled (cout (drain d c)))"
      "stream c1 = stream (drain d c) @ take n xs" "con_ok c1" "same_con (drain d c) c1"
      by (rule send_fn_props [OF D(2)])
    have "1 \<le> n" using n(2) D(4) [OF d] False by (cases xs) auto
    then have l: "length (drop n xs) \<le> length rest" using Cons.prems(3) by simp
    obtain c2 ds2 where c2: "checked_print (drop n xs) c1 rest = Some (Inr (c2, ds2))" "con_ok c2" "same_con c1 c2"
      "stream c2 = stream c1 @ drop n xs" "length rest \<le> length ds2 + length (drop n xs)" "set ds2 \<subseteq> set rest"
      using Cons.IH [OF n(4) _ l] Cons.prems(2) by auto
    have "checked_print xs c (d # rest) = Some (Inr (c2, ds2))"
      using False n(1) c2(1) by (subst checked_print.simps) simp
    moreover have "same_con c c2" using D(3) n(5) c2(3) same_con_trans by blast
    moreover have "stream c2 = stream c @ xs" using c2(4) n(3) D(1) by simp
    moreover have "length (d # rest) \<le> length ds2 + length xs" using c2(5) \<open>1 \<le> n\<close> n(2) False by auto
    ultimately show ?thesis using c2(2,6) by auto
  qed
qed

text \<open>The text as the terminal wants it: a carriage return before every line feed.\<close>

definition crlf :: "u8 list \<Rightarrow> u8 list" where
  "crlf xs = concat (map (\<lambda>b. if b = 10 then [13, 10] else [b]) xs)"

lemma crlf_simps [simp]: "crlf [] = []" "crlf (xs @ ys) = crlf xs @ crlf ys" "crlf [10] = [13, 10]"
  by (simp_all add: crlf_def)

lemma crlf_no_newline: "10 \<notin> set xs \<Longrightarrow> crlf xs = xs"
  unfolding crlf_def by (induction xs) auto

lemma part_append:
  "st \<le> m \<Longrightarrow> m \<le> st + n \<Longrightarrow> part xs st n = part xs st (m - st) @ part xs m (st + n - m)"
proof -
  assume a: "st \<le> m" "m \<le> st + n"
  then have "n = (m - st) + (st + n - m)" by simp
  then have "take n (drop st xs) = take (m - st) (drop st xs) @ take (st + n - m) (drop (m - st) (drop st xs))"
    by (metis take_add)
  then show ?thesis using a by (simp add: part_def)
qed

lemma part_snoc: "st \<le> m \<Longrightarrow> m < length xs \<Longrightarrow> part xs st (m + 1 - st) = part xs st (m - st) @ [xs ! m]"
  unfolding part_def by (simp add: Suc_diff_le take_Suc_conv_app_nth)

lemma part_edit:
  assumes "st \<le> cur" and "cur + 1 < length buf"
  shows "part (buf[cur := x, cur + 1 := y]) st (cur - st + 2) = part buf st (cur - st) @ [x, y]"
proof -
  let ?b = "buf[cur := x, cur + 1 := y]"
  have "part ?b st (cur + 1 + 1 - st) = part ?b st (cur + 1 - st) @ [?b ! (cur + 1)]"
    using assms by (intro part_snoc) simp_all
  also have "part ?b st (cur + 1 - st) = part ?b st (cur - st) @ [?b ! cur]"
    using assms by (intro part_snoc) simp_all
  also have "part ?b st (cur - st) = part buf st (cur - st)"
    using assms by (auto simp: part_def list_eq_iff_nth_eq)
  finally show ?thesis using assms by (simp add: Suc_diff_le)
qed

lemma print_loop_sends:
  assumes "con_ok c" and "\<forall>d \<in> set ds. 1 \<le> d" and "length (crlf (part buf st n)) \<le> length ds"
    and "st + n = length buf" "1 \<le> n" "st \<le> cur" "cur < length buf" "10 \<notin> set (part buf st (cur - st))"
  shows "\<exists>st1 n1 c1 ds1. print_loop buf st n cur c ds = Some (Inr (buf, st1, n1, c1, ds1)) \<and> con_ok c1 \<and>
    same_con c c1 \<and> set ds1 \<subseteq> set ds \<and> st1 + n1 = length buf \<and> 1 \<le> n1 \<and> 10 \<notin> set (part buf st1 (n1 - 1)) \<and>
    stream c @ crlf (part buf st n) = stream c1 @ crlf (part buf st1 n1) \<and>
    length (crlf (part buf st1 n1)) \<le> length ds1"
  using assms
proof (induction "length buf - cur" arbitrary: st n cur c ds rule: less_induct)
  case less
  note p = less.prems
  show ?case
  proof (cases "cur + 1 < st + n")
    case False
    then have "cur - st = n - 1" using p(4,5,6,7) by simp
    then show ?thesis using p False same_con_refl by (auto simp: print_loop.simps [of buf st n cur])
  next
    case True
    then have c1: "cur + 1 < length buf" using p(4) by simp
    show ?thesis
    proof (cases "buf ! cur = 10")
      case False
      have "10 \<notin> set (part buf st (cur + 1 - st))"
        using part_snoc [of st cur buf] p(6,7,8) False by (simp add: Suc_diff_le)
      then show ?thesis
        using less.hyps [of "cur + 1" c ds st n] p True False c1 by (simp add: print_loop.simps [of buf st n cur])
    next
      case nl: True
      let ?piece = "part (buf[cur := 13, cur + 1 := 10]) st (cur - st + 2)"
      have piece: "?piece = crlf (part buf st (cur + 1 - st))"
        using part_edit [of st cur buf 13 10] part_snoc [of st cur buf] crlf_no_newline [OF p(8)] p(6,7) c1 nl
        by simp
      have sp: "part buf st n = part buf st (cur + 1 - st) @ part buf (cur + 1) (st + n - (cur + 1))"
        using part_append [of st "cur + 1" n buf] p(6) True by simp
      have len: "length ?piece + length (crlf (part buf (cur + 1) (st + n - (cur + 1)))) \<le> length ds"
        using p(3) unfolding sp piece by simp
      then have "length ?piece \<le> length ds" by simp
      from checked_print_sends [OF p(1,2) this]
      obtain c2 ds2 where c2: "checked_print ?piece c ds = Some (Inr (c2, ds2))" "con_ok c2" "same_con c c2"
        "stream c2 = stream c @ ?piece" "length ds \<le> length ds2 + length ?piece" "set ds2 \<subseteq> set ds" by blast
      have b: "buf[cur := 13, cur + 1 := 10, cur + 1 := buf ! (cur + 1), cur := 10] = buf"
        using c1 nl by (auto simp: list_eq_iff_nth_eq nth_list_update)
      have step: "print_loop buf st n cur c ds = print_loop buf (cur + 1) (st + n - (cur + 1)) (cur + 1) c2 ds2"
        using True nl c2(1) b by (subst print_loop.simps) (simp add: Let_def)
      have l2: "length (crlf (part buf (cur + 1) (st + n - (cur + 1)))) \<le> length ds2" using len c2(5) by simp
      have "\<exists>st1 n1 c1 ds1. print_loop buf (cur + 1) (st + n - (cur + 1)) (cur + 1) c2 ds2 =
          Some (Inr (buf, st1, n1, c1, ds1)) \<and> con_ok c1 \<and> same_con c2 c1 \<and> set ds1 \<subseteq> set ds2 \<and>
          st1 + n1 = length buf \<and> 1 \<le> n1 \<and> 10 \<notin> set (part buf st1 (n1 - 1)) \<and>
          stream c2 @ crlf (part buf (cur + 1) (st + n - (cur + 1))) = stream c1 @ crlf (part buf st1 n1) \<and>
          length (crlf (part buf st1 n1)) \<le> length ds1"
        using p(2) c2(6) True c1 p(4) by (intro less.hyps c2(2) l2) (auto simp: part_def)
      then obtain st1 n1 c3 ds3 where "print_loop buf st n cur c ds = Some (Inr (buf, st1, n1, c3, ds3))"
        "con_ok c3" "same_con c2 c3" "set ds3 \<subseteq> set ds2" "st1 + n1 = length buf" "1 \<le> n1"
        "10 \<notin> set (part buf st1 (n1 - 1))"
        "stream c2 @ crlf (part buf (cur + 1) (st + n - (cur + 1))) = stream c3 @ crlf (part buf st1 n1)"
        "length (crlf (part buf st1 n1)) \<le> length ds3"
        unfolding step by blast
      moreover have "stream c @ crlf (part buf st n) = stream c2 @ crlf (part buf (cur + 1) (st + n - (cur + 1)))"
        using c2(4) unfolding sp piece by simp
      ultimately show ?thesis using same_con_trans [OF c2(3)] c2(6) by (metis (no_types, lifting) order_trans)
    qed
  qed
qed

section \<open>Properties\<close>

text \<open>
  C10: \<open>console_print\<close> of a nonempty buffer hands over the text with a carriage return before every
  line feed, behind everything handed over before, and leaves the buffer as it was.  It ends as long
  as the daemon takes at least one byte before each attempt.
\<close>

theorem console_print_output:
  assumes c: "con_ok c" "\<not> console_dying c"
    and g: "console_initialised c \<or> (\<exists>a. xencons_ring_avail c = Inr a \<and> \<not> overflow_guard a (length buf))"
    and b: "buf \<noteq> []" and d: "\<forall>d \<in> set ds. 1 \<le> d" "length (crlf buf) \<le> length ds"
  shows "\<exists>c1 ds1. console_print buf c ds = Some (Inr (buf, c1, ds1)) \<and> con_ok c1 \<and>
    stream c1 = stream c @ crlf buf"
proof -
  have w: "part buf 0 (length buf) = buf" by (simp add: part_def)
  have "\<exists>st n c1 ds1. print_loop buf 0 (length buf) 0 c ds = Some (Inr (buf, st, n, c1, ds1)) \<and> con_ok c1 \<and>
    same_con c c1 \<and> set ds1 \<subseteq> set ds \<and> st + n = length buf \<and> 1 \<le> n \<and> 10 \<notin> set (part buf st (n - 1)) \<and>
    stream c @ crlf (part buf 0 (length buf)) = stream c1 @ crlf (part buf st n) \<and>
    length (crlf (part buf st n)) \<le> length ds1"
    by (rule print_loop_sends [OF c(1) d(1)]) (use b d w in \<open>auto simp: part_def Suc_le_eq\<close>)
  then obtain st n c1 ds1 where L: "print_loop buf 0 (length buf) 0 c ds = Some (Inr (buf, st, n, c1, ds1))"
    "con_ok c1" "set ds1 \<subseteq> set ds" "st + n = length buf" "1 \<le> n" "10 \<notin> set (part buf st (n - 1))"
    "stream c @ crlf buf = stream c1 @ crlf (part buf st n)" "length (crlf (part buf st n)) \<le> length ds1"
    unfolding w by blast
  have d1: "\<forall>d \<in> set ds1. 1 \<le> d" using d(1) L(3) by blast
  have sp: "part buf st n = part buf st (n - 1) @ [buf ! (st + n - 1)]"
  proof -
    have "st + n - 1 + 1 - st = n" "st + n - 1 - st = n - 1" "st \<le> st + n - 1" "st + n - 1 < length buf"
      using L(4,5) by linarith+
    then show ?thesis using part_snoc [of st "st + n - 1" buf] by metis
  qed
  have e: "console_print buf c ds = dbind (print_loop buf 0 (length buf) 0 c ds) (\<lambda>(buf1, st, n, c1, ds1).
      if n = 0 then Some (Inl Undef)
      else if buf1 ! (st + n - 1) = 10
      then dbind (checked_print (part buf1 st (n - 1)) c1 ds1) (\<lambda>(c2, ds2).
           dbind (checked_print [13, 10] c2 ds2) (\<lambda>(c3, ds3). Some (Inr (buf1, c3, ds3))))
      else dbind (checked_print (part buf1 st n) c1 ds1) (\<lambda>(c2, ds2). Some (Inr (buf1, c2, ds2))))"
    using c(2) g by (auto simp: console_print_def)
  show ?thesis
  proof (cases "buf ! (st + n - 1) = 10")
    case True
    have cr: "crlf (part buf st n) = part buf st (n - 1) @ [13, 10]"
      unfolding sp True using crlf_no_newline [OF L(6)] by simp
    then have "length (part buf st (n - 1)) \<le> length ds1" using L(8) by simp
    from checked_print_sends [OF L(2) d1 this]
    obtain c2 ds2 where c2: "checked_print (part buf st (n - 1)) c1 ds1 = Some (Inr (c2, ds2))" "con_ok c2"
      "stream c2 = stream c1 @ part buf st (n - 1)" "length ds1 \<le> length ds2 + length (part buf st (n - 1))"
      "set ds2 \<subseteq> set ds1" by blast
    have "length [13 :: u8, 10] \<le> length ds2" "\<forall>d \<in> set ds2. 1 \<le> d" using c2(4,5) L(8) cr d1 by auto
    from checked_print_sends [OF c2(2) this(2,1)] c2(1,3) L(1,5,7) cr True e show ?thesis by auto
  next
    case False
    have cr: "crlf (part buf st n) = part buf st n"
      using crlf_no_newline [of "part buf st n"] L(6) False unfolding sp by auto
    then have "length (part buf st n) \<le> length ds1" using L(8) by simp
    from checked_print_sends [OF L(2) d1 this] L(1,5,7) cr False e show ?thesis by auto
  qed
qed

definition demo_console :: console where
  "demo_console = \<lparr>cin = \<lparr>rbuf = replicate 1024 0, prod = 0, cons = 0\<rparr>,
     cout = \<lparr>rbuf = replicate 2048 0, prod = - 2, cons = - 2\<rparr>, console_initialised = True, console_dying = False,
     sends_notify = True, notified = 0, wire = [], hyper_out = []\<rparr>"

lemma demo_console_ok: "con_ok demo_console"
proof -
  have "length (rbuf (cout demo_console)) = 2 ^ 11" by (simp add: demo_console_def)
  then have "\<exists>k < 32. length (rbuf (cout demo_console)) = 2 ^ k" by (rule exI [of _ 11, OF conjI, rotated]) simp
  then show ?thesis unfolding con_ok_def ring_ok_def by (simp add: demo_console_def filled_def)
qed

theorem console_print_output_witness:
  "\<exists>c1 ds1. console_print [104, 10, 105] demo_console [1, 1, 1, 1] = Some (Inr ([104, 10, 105], c1, ds1)) \<and>
     stream c1 = [104, 13, 10, 105]"
proof -
  have "stream demo_console = []" by (simp add: stream_def demo_console_def ring_content_def filled_def)
  then show ?thesis
    using console_print_output [OF demo_console_ok, of "[104, 10, 105]" "[1, 1, 1, 1]"]
    by (auto simp: demo_console_def crlf_def)
qed

text \<open>
  C11: the rings of the console keep the order of bytes: after any sequence of sends and receives, also
  across the wrap-around of the buffer and of the indices, what was in the ring followed by what the
  sends accepted is what the receives delivered followed by what is in the ring.
\<close>

theorem console_ring_order:
  assumes "ring_ok r"
  shows "\<exists>accepted delivered r1. con.fifo_run ops r = Inr (accepted, delivered, r1) \<and> ring_ok r1 \<and>
    ring_content r @ accepted = delivered @ ring_content r1"
  using con.fifo_run_order [OF assms, of ops] by blast

theorem console_ring_order_witness:
  "\<exists>a d r1. con.fifo_run [Inl [1, 2, 3], Inr 2, Inl [4]] (cout demo_console) = Inr (a, d, r1)"
  using console_ring_order [OF demo_console_ok [unfolded con_ok_def], of "[Inl [1, 2, 3], Inr 2, Inl [4]]"] by blast

end
