(* ===== verification/Wait_Queues.thy ===== *)
theory Wait_Queues
  imports Sched_Props
begin

text \<open>
  Wait queues: the macros of \<^verbatim>\<open>include/os/wait.h\<close> that let a thread wait for a condition, and what
  \<open>wake_up\<close> and \<open>complete\<close> of the scheduler model do to the ready queue.

  \<open>wait_event\<close> is cut at its call of \<^verbatim>\<open>schedule()\<close>: a result \<open>True\<close> means that the macro has
  ended, \<open>False\<close> that the thread has blocked and goes to \<^verbatim>\<open>schedule()\<close>, after which
  \<open>wait_event_resumed\<close> continues.  The values of the condition are arguments, one for each place
  where the macro evaluates it.
\<close>

section \<open>Waiting for a condition\<close>

definition define_wait :: "nat \<Rightarrow> nat \<Rightarrow> sched \<Rightarrow> sched" where
  "define_wait me w s =
     s\<lparr>lists := init_list_head (lists s) (WaitL w), waiter_of := (waiter_of s)(w := current_thread s me)\<rparr>"

definition add_waiter :: "nat \<Rightarrow> nat \<Rightarrow> nat \<Rightarrow> sched \<Rightarrow> sched res" where
  "add_waiter me c w s = rbind (add_wait_queue c w s) (\<lambda>s1. block (current_thread s1 me) s1)"

definition finish_wait :: "nat \<Rightarrow> sched \<Rightarrow> sched" where
  "finish_wait w s = (if \<not> list_empty (lists s) (WaitL w) then remove_wait_queue w s else s)"

text \<open>One round of the loop, up to the call of \<^verbatim>\<open>schedule()\<close>.\<close>

definition wait_round :: "nat \<Rightarrow> nat \<Rightarrow> nat \<Rightarrow> bool \<Rightarrow> sched \<Rightarrow> (bool \<times> sched) res" where
  "wait_round me c w holds s =
     rbind (add_waiter me c w s) (\<lambda>s1.
       if holds then rbind (wake me (current_thread s1 me) s1) (\<lambda>s2. Inr (True, finish_wait w s2))
       else Inr (False, s1))"

definition wait_event :: "nat \<Rightarrow> nat \<Rightarrow> nat \<Rightarrow> bool \<Rightarrow> bool \<Rightarrow> sched \<Rightarrow> (bool \<times> sched) res" where
  "wait_event me c w first holds s =
     (if first then Inr (True, s) else wait_round me c w holds (define_wait me w s))"

definition wait_event_resumed :: "nat \<Rightarrow> nat \<Rightarrow> nat \<Rightarrow> bool \<Rightarrow> sched \<Rightarrow> (bool \<times> sched) res" where
  "wait_event_resumed me c w holds s = wait_round me c w holds s"

section \<open>Joining a wait queue\<close>

lemma free_wait: "free_node (vq v) (WaitL w) \<longleftrightarrow> (\<forall>c ws. v_wait v c = Some ws \<longrightarrow> w \<notin> set ws)"
proof
  assume f: "free_node (vq v) (WaitL w)"
  show "\<forall>c ws. v_wait v c = Some ws \<longrightarrow> w \<notin> set ws"
  proof (intro allI impI)
    fix c ws assume "v_wait v c = Some ws"
    then have "vq v (WaitHead c) = Some (map WaitL ws)" by simp
    then have "WaitL w \<notin> set (map WaitL ws)" using f unfolding free_node_def by fastforce
    then show "w \<notin> set ws" by auto
  qed
next
  assume a: "\<forall>c ws. v_wait v c = Some ws \<longrightarrow> w \<notin> set ws"
  show "free_node (vq v) (WaitL w)"
    unfolding free_node_def
  proof (intro allI impI)
    fix head xs assume "vq v head = Some xs"
    then show "WaitL w \<notin> set (head # xs)" using a by (cases head) auto
  qed
qed

definition a_wait :: "nat \<Rightarrow> nat \<Rightarrow> view \<Rightarrow> view" where
  "a_wait c w v = v\<lparr>v_wait := (v_wait v)(c := map_option (\<lambda>ws. ws @ [w]) (v_wait v c))\<rparr>"

lemma a_wait_simps [simp]:
  "v_ready (a_wait c w v) = v_ready v" "v_sleep (a_wait c w v) = v_sleep v" "v_dead (a_wait c w v) = v_dead v"
  "v_all (a_wait c w v) = v_all v" "v_join (a_wait c w v) = v_join v"
  "waits_join (a_wait c w v) t = waits_join v t"
  by (simp_all add: a_wait_def waits_join_def)

lemma v_wait_kept [simp]:
  "v_wait (a_ready t v) = v_wait v" "v_wait (a_unready t v) = v_wait v" "v_wait (a_wake s t v) = v_wait v"
  by (simp_all add: a_ready_def a_unready_def a_wake_def)

lemma v_wait_wake_list [simp]: "v_wait (a_wake_list s ts v) = v_wait v"
  by (induction ts arbitrary: v) simp_all

lemma store_links_eq:
  assumes "store h Q" and "free_node Q n"
  shows "init_list_head h n = h"
  using store_unlinked [OF assms] by (simp add: unlinked_def init_list_head_def Let_def set_next_def set_prev_def fun_upd_idem)

lemma define_wait_inv:
  assumes i: "sched_inv s v" and f: "free_node (vq v) (WaitL w)"
  shows "sched_inv (define_wait me w s) v"
proof -
  have l: "lists (define_wait me w s) = lists s"
    using store_links_eq [OF sched_invD(5) [OF i] f] by (simp add: define_wait_def)
  show ?thesis
    by (rule sched_inv_frame [OF i _ _ l])
       (use sched_invD(2) [OF i] in \<open>simp_all add: define_wait_def same_cpus_def has_flag_def flags_ok_def\<close>)
qed

lemma add_wait_queue_inv:
  assumes i: "sched_inv s v" and f: "free_node (vq v) (WaitL w)" and c: "v_wait v c = Some ws"
  obtains h where "add_wait_queue c w s = Inr (s\<lparr>lists := h\<rparr>)" and "sched_inv (s\<lparr>lists := h\<rparr>) (a_wait c w v)"
proof -
  note D = sched_invD [OF i]
  have e: "list_empty (lists s) (WaitL w)" using store_unlinked [OF D(5) f] by (simp add: unlinked_def list_empty_def)
  have "vq v (WaitHead c) = Some (map WaitL ws)" using c by simp
  then obtain h where h: "list_add_tail (lists s) (WaitL w) (WaitHead c) = Inr h"
    "store h ((vq v)(WaitHead c \<mapsto> map WaitL (ws @ [w])))"
    using store_add_tail [OF D(5), of "WaitHead c" "map WaitL ws" "WaitL w"] f
    by (metis list.map(1) list.map(2) map_append)
  let ?s = "s\<lparr>lists := h\<rparr>" and ?v = "a_wait c w v"
  have "store h (vq ?v)" using h(2) c unfolding vq_upd a_wait_def by simp
  then have "lists_ok ?s ?v" using D(1) by (simp add: lists_ok_def)
  moreover have "flags_ok ?s ?v" using D(2) by (simp add: flags_ok_def has_flag_def)
  moreover have "sleep_ok ?s ?v" using D(3) by (simp add: sleep_ok_def)
  moreover have "cpus_ok ?s ?v" using D(4) by (simp add: cpus_ok_def)
  ultimately have "sched_inv ?s ?v" by (simp add: sched_inv_def)
  then show ?thesis using that h(1) e by (simp add: add_wait_queue_def set_lists_def)
qed

lemma add_waiter_inv:
  assumes i: "sched_inv s v" and f: "free_node (vq v) (WaitL w)" and c: "v_wait v c = Some ws"
    and t: "current_thread s me \<in> set (v_ready v)" "\<not> is_joining s (current_thread s me)"
  obtains s' where "add_waiter me c w s = Inr s'"
    and "sched_inv s' (a_unready (current_thread s me) (a_wait c w v))" and "quiet s s'"
    and "\<And>u g. RUNNABLE_FLAG AND g = 0 \<Longrightarrow> has_flag s' u g = has_flag s u g"
proof -
  obtain h where h: "add_wait_queue c w s = Inr (s\<lparr>lists := h\<rparr>)" "sched_inv (s\<lparr>lists := h\<rparr>) (a_wait c w v)"
    using add_wait_queue_inv [OF i f c] by blast
  have r: "current_thread s me \<in> set (v_ready (a_wait c w v))" "\<not> is_joining (s\<lparr>lists := h\<rparr>) (current_thread s me)"
    using t by (simp_all add: has_flag_def)
  obtain s' where s': "block (current_thread s me) (s\<lparr>lists := h\<rparr>) = Inr s'"
    "sched_inv s' (a_unready (current_thread s me) (a_wait c w v))" "quiet (s\<lparr>lists := h\<rparr>) s'"
    "\<And>u g. RUNNABLE_FLAG AND g = 0 \<Longrightarrow> has_flag s' u g = has_flag (s\<lparr>lists := h\<rparr>) u g"
    using block_inv [OF h(2) r] by blast
  have "quiet s (s\<lparr>lists := h\<rparr>)" by (intro quiet_intros)
  then have "quiet s s'" using s'(3) by (rule quiet_trans)
  moreover have "has_flag s' u g = has_flag s u g" if "RUNNABLE_FLAG AND g = 0" for u g
    using s'(4) [OF that] by (simp add: has_flag_def)
  ultimately show ?thesis using that [of s'] h(1) s'(1,2) by (simp add: add_waiter_def)
qed

section \<open>Waking a queue\<close>

lemma wakeable_quiet: "wakeable s' (a_wake s0 u v) t = wakeable s v t"
  by (simp add: wakeable_def)

lemma wake_up_loop_inv:
  assumes "sched_inv s v" and "v_wait v c = Some (xs @ ws)" and "length ws < n"
    and "\<And>w. w \<in> set ws \<Longrightarrow> wakeable s v (waiter_of s w)" and "p = hd (map WaitL ws @ [WaitHead c])"
  shows "\<exists>s'. wake_up_loop n me (WaitHead c) s p = Inr s' \<and>
     sched_inv s' (a_wake_list s (map (waiter_of s) ws) v) \<and> quiet s s' \<and>
     (\<forall>u g. RUNNABLE_FLAG AND g = 0 \<longrightarrow> has_flag s' u g = has_flag s u g)"
  using assms
proof (induction ws arbitrary: xs n s v p)
  case Nil
  then show ?case by (cases n) auto
next
  case (Cons w ws)
  obtain k where n: "n = Suc k" using Cons.prems(3) by (cases n) auto
  let ?t = "waiter_of s w"
  obtain s1 where s1: "wake me ?t s = Inr s1" "sched_inv s1 (a_wake s ?t v)" "quiet s s1"
    "\<And>u g. RUNNABLE_FLAG AND g = 0 \<Longrightarrow> has_flag s1 u g = has_flag s u g"
    using wake_inv [OF Cons.prems(1), of ?t] Cons.prems(4) [of w] by auto
  have "ring (lists s) (WaitHead c) (map WaitL xs @ WaitL w # map WaitL ws)"
    using store_ring [OF sched_invD(5) [OF Cons.prems(1)], of "WaitHead c"] Cons.prems(2) by simp
  then have nx: "next_of (lists s) (WaitL w) = hd (map WaitL ws @ [WaitHead c])" by (rule ring_next)
  have fl: "is_hibernating s1 u = is_hibernating s u" "is_suspended s1 u = is_suspended s u" for u
    using s1(4) [of HIBERNATION_FLAG u] s1(4) [of SUSPENDED_FLAG u] by (simp_all add: thread_flag_defs)
  have wo: "waiter_of s1 = waiter_of s" using quiet_simps(11) [OF s1(3)] .
  have v1: "v_wait (a_wake s ?t v) c = Some ((xs @ [w]) @ ws)" using Cons.prems(2) by simp
  have l1: "length ws < k" using Cons.prems(3) n by simp
  have w1: "\<And>u. u \<in> set ws \<Longrightarrow> wakeable s1 (a_wake s ?t v) (waiter_of s1 u)"
    using Cons.prems(4) wo by (simp add: wakeable_def)
  obtain s2 where s2: "wake_up_loop k me (WaitHead c) s1 (hd (map WaitL ws @ [WaitHead c])) = Inr s2"
    "sched_inv s2 (a_wake_list s1 (map (waiter_of s1) ws) (a_wake s ?t v))" "quiet s1 s2"
    "\<forall>u g. RUNNABLE_FLAG AND g = 0 \<longrightarrow> has_flag s2 u g = has_flag s1 u g"
    using Cons.IH [OF s1(2) v1 l1 w1 refl] by blast
  have "wake_up_loop n me (WaitHead c) s p = Inr s2"
    using s1(1) s2(1) Cons.prems(5) n nx by (simp add: Let_def)
  moreover have "a_wake_list s1 (map (waiter_of s1) ws) (a_wake s ?t v) = a_wake_list s (map (waiter_of s) (w # ws)) v"
    using a_wake_list_cong [of s1 s, OF fl] wo by simp
  ultimately show ?case using s2(2,3,4) s1(3,4) quiet_trans by auto
qed

lemma wake_up_inv:
  assumes i: "sched_inv s v" and c: "v_wait v c = Some ws" and n: "length ws < max_nodes s"
    and w: "\<And>w. w \<in> set ws \<Longrightarrow> wakeable s v (waiter_of s w)"
  obtains s' where "wake_up me c s = Inr s'" and "sched_inv s' (a_wake_list s (map (waiter_of s) ws) v)"
    and "quiet s s'" and "\<And>u g. RUNNABLE_FLAG AND g = 0 \<Longrightarrow> has_flag s' u g = has_flag s u g"
proof -
  have "ring (lists s) (WaitHead c) (map WaitL ws)"
    using store_ring [OF sched_invD(5) [OF i], of "WaitHead c"] c by simp
  then have p: "next_of (lists s) (WaitHead c) = hd (map WaitL ws @ [WaitHead c])" by (rule ring_first)
  have c0: "v_wait v c = Some ([] @ ws)" using c by simp
  show thesis
    using wake_up_loop_inv [OF i c0 n w p, of me] that unfolding wake_up_def by blast
qed

lemma a_wake_list_ready:
  assumes "distinct ts"
  shows "v_ready (a_wake_list s ts v) =
     v_ready v @ filter (\<lambda>t. t \<notin> set (v_ready v) \<and> \<not> is_hibernating s t \<and> \<not> is_suspended s t) ts"
  using assms
proof (induction ts arbitrary: v)
  case (Cons t ts)
  have "v_ready (a_wake s t v) = v_ready v @ (if t \<notin> set (v_ready v) \<and> \<not> is_hibernating s t \<and> \<not> is_suspended s t then [t] else [])"
    by (auto simp: a_wake_def)
  moreover have "filter (\<lambda>u. u \<notin> set (v_ready (a_wake s t v)) \<and> \<not> is_hibernating s u \<and> \<not> is_suspended s u) ts =
      filter (\<lambda>u. u \<notin> set (v_ready v) \<and> \<not> is_hibernating s u \<and> \<not> is_suspended s u) ts"
    using Cons.prems by (intro filter_cong) (auto simp: a_wake_def)
  ultimately show ?case using Cons by auto
qed simp

lemma store_new_queue:
  assumes s: "store h Q" and f: "free_node Q n"
  shows "store h (Q(n \<mapsto> []))"
proof -
  have u: "unlinked h n" by (rule store_unlinked [OF s f])
  have n: "Q n = None" using f unfolding free_node_def by (cases "Q n") fastforce+
  have d: "n \<notin> set (k # zs)" if "Q k = Some zs" for k zs using f that unfolding free_node_def by blast
  have "rings h (Q(n \<mapsto> []))"
    using s u d unfolding store_def rings_def by (auto simp: ring_singleton)
  moreover have "unlinked h p" if "free_node (Q(n \<mapsto> [])) p" for p
  proof -
    have "free_node Q p" using that n unfolding free_node_def by (metis fun_upd_apply option.distinct(1))
    then show ?thesis by (rule store_unlinked [OF s])
  qed
  ultimately show ?thesis by (simp add: store_def)
qed

lemma init_waitqueue_head_inv:
  assumes i: "sched_inv s v" and f: "free_node (vq v) (WaitHead c)"
  shows "sched_inv (init_waitqueue_head c s) (v\<lparr>v_wait := (v_wait v)(c \<mapsto> [])\<rparr>)"
proof -
  note D = sched_invD [OF i]
  have l: "init_waitqueue_head c s = s" using store_links_eq [OF D(5) f] by (simp add: init_waitqueue_head_def)
  let ?v = "v\<lparr>v_wait := (v_wait v)(c \<mapsto> [])\<rparr>"
  have w: "waits_join ?v t = waits_join v t" for t by (simp add: waits_join_def)
  have "store (lists s) (vq ?v)" using store_new_queue [OF D(5) f] vq_upd(6) [of v c "[]"] by simp
  then have "lists_ok s ?v" using D(1) by (simp add: lists_ok_def w)
  moreover have "flags_ok s ?v" using D(2) by (simp add: flags_ok_def w)
  moreover have "sleep_ok s ?v" using D(3) by (simp add: sleep_ok_def w)
  moreover have "cpus_ok s ?v" using D(4) by (simp add: cpus_ok_def)
  ultimately show ?thesis by (simp add: sched_inv_def l)
qed

section \<open>Completions\<close>

lemma sched_inv_done: "sched_inv (s\<lparr>completion_done := d\<rparr>) v = sched_inv s v"
  by (simp add: sched_inv_def lists_ok_def flags_ok_def sleep_ok_def cpus_ok_def has_flag_def)

text \<open>
  C36: \<open>complete\<close> never faults while its waiters are live threads.  It marks the completion as done
  and appends the waiting threads to the ready queue, in the order in which they came to wait, except
  those that are already on it or are suspended or hibernating.  The scheduler's invariant holds again.
\<close>

theorem complete_wakes_in_order:
  assumes "sched_inv s v" and "v_wait v c = Some ws" and "length ws < max_nodes s"
    and "distinct (map (waiter_of s) ws)" and "\<And>w. w \<in> set ws \<Longrightarrow> wakeable s v (waiter_of s w)"
  shows "\<exists>s' v'. complete me c s = Inr s' \<and> sched_inv s' v' \<and> completion_done s' c = 1 \<and>
     v_ready v' = v_ready v @ filter (\<lambda>t. t \<notin> set (v_ready v) \<and> \<not> is_hibernating s t \<and> \<not> is_suspended s t)
       (map (waiter_of s) ws)"
proof -
  let ?s = "s\<lparr>completion_done := (completion_done s)(c := 1)\<rparr>"
  have w: "\<And>w. w \<in> set ws \<Longrightarrow> wakeable ?s v (waiter_of ?s w)" using assms(5) by (simp add: wakeable_def)
  have i: "sched_inv ?s v" using assms(1) by (simp add: sched_inv_done)
  have n: "length ws < max_nodes ?s" using assms(3) by simp
  obtain s' where s': "wake_up me c ?s = Inr s'" "sched_inv s' (a_wake_list ?s (map (waiter_of ?s) ws) v)" "quiet ?s s'"
    using wake_up_inv [OF i assms(2) n w] by blast
  have "completion_done s' c = 1" using quiet_simps(10) [OF s'(3)] by simp
  moreover have "v_ready (a_wake_list ?s (map (waiter_of ?s) ws) v) = v_ready v @
      filter (\<lambda>t. t \<notin> set (v_ready v) \<and> \<not> is_hibernating s t \<and> \<not> is_suspended s t) (map (waiter_of s) ws)"
    using a_wake_list_ready [of "map (waiter_of s) ws" ?s v] assms(4) by (simp add: has_flag_def)
  ultimately show ?thesis using s'(1,2) by (auto simp: complete_def)
qed

text \<open>The state of \<open>demo_sched\<close> with thread 6 waiting on queue \<open>c\<close> by the entry 3.\<close>

definition demo_waiting :: "nat \<Rightarrow> sched" where
  "demo_waiting c = demo_sched\<lparr>lists := list_add_between demo_links (WaitL 3) (WaitHead c) (WaitHead c),
     waiter_of := (\<lambda>_. 6)\<rparr>"

lemma demo_waiting_inv: "sched_inv (demo_waiting c) (demo_view\<lparr>v_wait := [c \<mapsto> [3]]\<rparr>)"
proof -
  let ?s = "demo_sched\<lparr>waiter_of := (\<lambda>_. 6)\<rparr>" and ?v = "demo_view\<lparr>v_wait := [c \<mapsto> []]\<rparr>"
  have fh: "free_node (vq demo_view) (WaitHead c)"
    unfolding free_node_def
  proof (intro allI impI)
    fix head xs assume "vq demo_view head = Some xs"
    then show "WaitHead c \<notin> set (head # xs)" by (cases head) (auto simp: demo_view_def)
  qed
  have i: "sched_inv ?s demo_view"
    by (rule sched_inv_frame [OF demo_inv])
       (use sched_invD(2) [OF demo_inv] in \<open>simp_all add: same_cpus_def has_flag_def flags_ok_def\<close>)
  have l: "init_waitqueue_head c ?s = ?s"
    using store_links_eq [OF demo_store fh] by (simp add: init_waitqueue_head_def demo_sched_def)
  have iv: "sched_inv ?s ?v" using init_waitqueue_head_inv [OF i fh] l by (simp add: demo_view_def)
  have f: "free_node (vq ?v) (WaitL 3)" by (simp add: free_wait)
  obtain h where h: "add_wait_queue c 3 ?s = Inr (?s\<lparr>lists := h\<rparr>)" "sched_inv (?s\<lparr>lists := h\<rparr>) (a_wait c 3 ?v)"
    using add_wait_queue_inv [OF iv f, of c "[]"] by auto
  have "h = list_add_between demo_links (WaitL 3) (WaitHead c) (WaitHead c)"
    using h(1) by (auto simp: add_wait_queue_def set_lists_def demo_sched_def demo_links_def list_add_tail_def Let_def
        no_links_def list_add_between_def list_empty_def bug_on_def set_next_def set_prev_def rbind_eq_Inr split: if_splits)
  moreover have "a_wait c 3 ?v = demo_view\<lparr>v_wait := [c \<mapsto> [3]]\<rparr>" by (simp add: a_wait_def demo_view_def)
  ultimately show ?thesis using h(2) by (simp add: demo_waiting_def demo_sched_def)
qed

theorem complete_wakes_in_order_witness:
  "\<exists>s' v'. complete 0 0 (demo_waiting 0) = Inr s' \<and> sched_inv s' v' \<and> completion_done s' 0 = 1 \<and> v_ready v' = [5, 6]"
proof -
  have w: "wakeable (demo_waiting 0) (demo_view\<lparr>v_wait := [0 \<mapsto> [3]]\<rparr>) (waiter_of (demo_waiting 0) 3)"
    by (auto simp: wakeable_def waits_join_def demo_view_def demo_waiting_def split: if_splits)
  have "(is_hibernating (demo_waiting 0) 6 = False) \<and> (is_suspended (demo_waiting 0) 6 = False)"
    by (simp add: has_flag_def demo_waiting_def demo_sched_def blank_thread_def thread_flag_defs)
  then show ?thesis
    using complete_wakes_in_order [OF demo_waiting_inv, of 0 0 "[3]" 0] w
    by (auto simp: demo_view_def demo_waiting_def demo_sched_def)
qed

end
