(* ===== verification/Xs_Wire.thy ===== *)
theory Xs_Wire
  imports Byte_Ring
begin

text \<open>
  The wire format of the Xenstore (\<^verbatim>\<open>include/public/io/xs_wire.h\<close>): the message header as sixteen
  little-endian bytes, the message types the code uses, and copies of several bytes into and out of
  a ring, with the lemmas that reduce them to the single-byte steps of \<^theory_text>\<open>Byte_Ring\<close>.
\<close>

section \<open>Messages\<close>

definition XENSTORE_RING_SIZE :: nat where "XENSTORE_RING_SIZE = 1024"

definition XS_DIRECTORY :: u32 where "XS_DIRECTORY = 1"
definition XS_READ :: u32 where "XS_READ = 2"
definition XS_GET_PERMS :: u32 where "XS_GET_PERMS = 3"
definition XS_WATCH :: u32 where "XS_WATCH = 4"
definition XS_UNWATCH :: u32 where "XS_UNWATCH = 5"
definition XS_TRANSACTION_START :: u32 where "XS_TRANSACTION_START = 6"
definition XS_TRANSACTION_END :: u32 where "XS_TRANSACTION_END = 7"
definition XS_WRITE :: u32 where "XS_WRITE = 11"
definition XS_RM :: u32 where "XS_RM = 13"
definition XS_SET_PERMS :: u32 where "XS_SET_PERMS = 14"
definition XS_WATCH_EVENT :: u32 where "XS_WATCH_EVENT = 15"
definition XS_ERROR :: u32 where "XS_ERROR = 16"

lemmas xs_types = XS_DIRECTORY_def XS_READ_def XS_GET_PERMS_def XS_WATCH_def XS_UNWATCH_def
  XS_TRANSACTION_START_def XS_TRANSACTION_END_def XS_WRITE_def XS_RM_def XS_SET_PERMS_def
  XS_WATCH_EVENT_def XS_ERROR_def

record sockmsg =
  mtype :: u32
  mreq_id :: u32
  mtx_id :: u32
  mlen :: u32

definition le32 :: "u32 \<Rightarrow> u8 list" where
  "le32 w = [ucast w, ucast (drop_bit 8 w), ucast (drop_bit 16 w), ucast (drop_bit 24 w)]"

definition of_le32 :: "u8 list \<Rightarrow> u32" where
  "of_le32 b = ucast (b ! 0) OR push_bit 8 (ucast (b ! 1)) OR push_bit 16 (ucast (b ! 2)) OR push_bit 24 (ucast (b ! 3))"

definition msg_bytes :: "sockmsg \<Rightarrow> u8 list" where
  "msg_bytes m = le32 (mtype m) @ le32 (mreq_id m) @ le32 (mtx_id m) @ le32 (mlen m)"

definition msg_of_bytes :: "u8 list \<Rightarrow> sockmsg" where
  "msg_of_bytes b = \<lparr>mtype = of_le32 b, mreq_id = of_le32 (drop 4 b), mtx_id = of_le32 (drop 8 b), mlen = of_le32 (drop 12 b)\<rparr>"

definition msg_size :: nat where "msg_size = 16"

lemma of_le32 [simp]: "of_le32 (le32 w @ xs) = w"
proof (rule bit_word_eqI)
  fix n assume n: "n < LENGTH(32)"
  consider "n < 8" | "8 \<le> n \<and> n < 16" | "16 \<le> n \<and> n < 24" | "24 \<le> n \<and> n < 32" using n by fastforce
  then show "bit (of_le32 (le32 w @ xs)) n = bit w n"
    by cases (auto simp: of_le32_def le32_def bit_simps)
qed

lemma length_le32 [simp]: "length (le32 w) = 4"
  by (simp add: le32_def)

lemma length_msg_bytes [simp]: "length (msg_bytes m) = msg_size"
  by (simp add: msg_bytes_def msg_size_def)

lemma msg_of_bytes [simp]: "msg_of_bytes (msg_bytes m @ xs) = m"
  by (simp add: msg_of_bytes_def msg_bytes_def)

lemma msg_of_bytes_only [simp]: "msg_of_bytes (msg_bytes m) = m"
  using msg_of_bytes [of m "[]"] by simp

section \<open>Copies of several bytes\<close>

definition copy_in :: "u8 list \<Rightarrow> nat \<Rightarrow> u8 list \<Rightarrow> u8 list res" where
  "copy_in buf off xs =
     (if off + length xs \<le> length buf then Inr (take off buf @ xs @ drop (off + length xs) buf) else Inl Undef)"

text \<open>\<open>memcpy_from_ring\<close> of \<^verbatim>\<open>xenbus.c\<close>: the part up to the end of the ring, then the rest from its start.\<close>

definition memcpy_from_ring :: "u8 list \<Rightarrow> nat \<Rightarrow> nat \<Rightarrow> u8 list res" where
  "memcpy_from_ring buf off n =
     (let c1 = min n (XENSTORE_RING_SIZE - off); c2 = n - c1
      in if off + c1 \<le> length buf \<and> c2 \<le> length buf then Inr (take c1 (drop off buf) @ take c2 buf) else Inl Undef)"

definition ring_puts :: "u8 list \<Rightarrow> ring \<Rightarrow> ring" where
  "ring_puts xs r = fold ring_put xs r"

lemma ring_puts_simps [simp]:
  "ring_puts [] r = r" "ring_puts (b # xs) r = ring_puts xs (ring_put b r)"
  "ring_puts (xs @ ys) r = ring_puts ys (ring_puts xs r)"
  by (simp_all add: ring_puts_def)

lemma ring_puts_fields [simp]:
  "length (rbuf (ring_puts xs r)) = length (rbuf r)" "cons (ring_puts xs r) = cons r"
  "prod (ring_puts xs r) = prod r + of_nat (length xs)"
  by (induction xs arbitrary: r) (simp_all add: ring_put_def)

lemma ring_puts_props:
  assumes "ring_ok r" and "filled r + length xs \<le> length (rbuf r)"
  shows "ring_content (ring_puts xs r) = ring_content r @ xs" and "ring_ok (ring_puts xs r)"
    and "filled (ring_puts xs r) = filled r + length xs"
  using assms
proof (induction xs arbitrary: r)
  case (Cons b xs)
  { case 1 then show ?case using Cons.IH ring_put_props [of r b] filled_put [of r b] by simp }
  { case 2 then show ?case using Cons.IH ring_put_props [of r b] filled_put [of r b] by simp }
  { case 3 then show ?case using Cons.IH ring_put_props [of r b] filled_put [of r b] by simp }
qed simp_all

text \<open>A copy that does not run past the end of the buffer is a sequence of single bytes.\<close>

lemma ring_puts_copy:
  assumes k: "length (rbuf r) = 2 ^ k" "k < 32"
    and fits: "mask_idx (length (rbuf r)) (prod r) + length xs \<le> length (rbuf r)"
  shows "copy_in (rbuf r) (mask_idx (length (rbuf r)) (prod r)) xs = Inr (rbuf (ring_puts xs r))"
  using assms
proof (induction xs arbitrary: r)
  case (Cons b xs)
  define n where "n = length (rbuf r)"
  define off where "off = mask_idx n (prod r)"
  have off: "off = unat (prod r) mod n" using Cons.prems(1,2) mask_idx_mod by (simp add: off_def n_def)
  have lt: "off < n" using Cons.prems(3) by (simp add: off_def n_def)
  let ?r = "ring_put b r"
  have l: "length (rbuf ?r) = n" by (simp add: ring_put_def n_def)
  show ?case
  proof (cases "xs = []")
    case True
    then show ?thesis using lt by (simp add: copy_in_def ring_put_def n_def off_def upd_conv_take_nth_drop)
  next
    case False
    have "off + 1 < n" using Cons.prems(3) False by (cases xs) (auto simp: off_def n_def)
    then have o1: "mask_idx n (prod ?r) = off + 1"
      using unat_add_mod [of k "prod r" 1] mask_idx_mod [of k "prod r + 1"] Cons.prems(1,2) off
      by (simp add: ring_put_def n_def) (metis Suc_eq_plus1 mod_Suc mod_less not_less_iff_gr_or_eq)
    have "copy_in (rbuf ?r) (off + 1) xs = Inr (rbuf (ring_puts xs ?r))"
      using Cons.IH [of ?r] Cons.prems o1 by (simp add: l n_def off_def)
    moreover have "take (off + 1) (rbuf ?r) = take off (rbuf r) @ [b]"
      using lt by (simp add: ring_put_def n_def off_def take_Suc_conv_app_nth)
    moreover have "drop (off + 1 + length xs) (rbuf ?r) = drop (off + 1 + length xs) (rbuf r)"
      by (simp add: ring_put_def off_def n_def)
    ultimately show ?thesis using Cons.prems(3) l by (simp add: copy_in_def off_def n_def)
  qed
qed (simp add: copy_in_def)

lemma memcpy_from_ring_content:
  assumes ok: "ring_ok r" and sz: "length (rbuf r) = XENSTORE_RING_SIZE" and n: "n \<le> filled r"
  shows "memcpy_from_ring (rbuf r) (mask_idx XENSTORE_RING_SIZE (cons r)) n = Inr (take n (ring_content r))"
proof -
  define off where "off = mask_idx XENSTORE_RING_SIZE (cons r)"
  have off: "off = unat (cons r) mod 1024" using mask_idx_mod [of 10] by (simp add: off_def XENSTORE_RING_SIZE_def)
  then have lt: "off < 1024" by simp
  have n1: "n \<le> 1024" using n ok sz by (simp add: ring_ok_def XENSTORE_RING_SIZE_def)
  have c: "ring_content r ! i = rbuf r ! ((off + i) mod 1024)" if "i < n" for i
    using that n sz by (simp add: ring_content_def off XENSTORE_RING_SIZE_def mod_add_left_eq)
  let ?c1 = "min n (1024 - off)"
  have "take ?c1 (drop off (rbuf r)) @ take (n - ?c1) (rbuf r) = take n (ring_content r)" (is "?l = ?r")
  proof (rule nth_equalityI)
    show "length ?l = length ?r" using lt n n1 sz by (simp add: XENSTORE_RING_SIZE_def)
    fix i assume "i < length ?l"
    then have i: "i < n" using n1 lt sz by (auto simp: XENSTORE_RING_SIZE_def)
    show "?l ! i = ?r ! i"
    proof (cases "i < ?c1")
      case True
      then show ?thesis using i n sz c [OF i] lt by (simp add: nth_append XENSTORE_RING_SIZE_def)
    next
      case False
      then have g: "1024 - off \<le> i" using i by (simp add: min_def split: if_splits)
      then have "(off + i) mod 1024 = (off + i - 1024) mod 1024" using lt by (simp add: le_mod_geq)
      then have "(off + i) mod 1024 = i - (1024 - off)" using lt i n1 g by simp
      moreover have "?c1 = 1024 - off" using g i by simp
      ultimately show ?thesis using i n sz c [OF i] lt g by (simp add: nth_append XENSTORE_RING_SIZE_def min_def)
    qed
  qed
  moreover have "off + ?c1 \<le> 1024" "n - ?c1 \<le> 1024" using lt n1 by linarith+
  ultimately show ?thesis using sz unfolding off_def [symmetric] memcpy_from_ring_def Let_def
    by (simp add: XENSTORE_RING_SIZE_def)
qed

end
