(* ===== verification/Xenbus.thy ===== *)
theory Xenbus
  imports Xs_Wire Wait_Queues Printf Events
begin

text \<open>
  The Xenbus driver: \<^verbatim>\<open>xenbus/xenbus.c\<close>.  Requests go into one ring of 1024 bytes, replies and
  watch events come out of another; a thread of the kernel takes the messages apart and wakes the
  threads that wait for them.

  A function that waits is cut at its calls of \<^verbatim>\<open>schedule()\<close> as in \<^theory_text>\<open>Wait_Queues\<close>; \<open>w\<close> is
  the wait queue entry on the stack of the caller.  The locks are not part of the state: each piece
  between two such cuts runs with them held.
  Memory from \<open>xmalloc_align\<close> is a map from addresses to objects.  An address is used once;
  \<open>alloc_ok\<close> says which allocations succeed, so every pattern of failures is covered.
  Whatever \<open>xfree\<close> is given that is not allocated is recorded in \<open>bad_frees\<close>.  The strings
  that callers pass are values, the strings the driver allocates are objects.
\<close>

section \<open>State\<close>

datatype obj = Bytes "u8 list" | Ptrs "nat list"

record req_slot =
  in_use :: bool
  reply :: nat

record xenbus_watch =
  token :: "u8 list"
  path :: "u8 list"
  path_prod_idx :: int
  path_cons_idx :: int
  paths :: "nat list"
  watcher :: nat

record xenbus =
  xreq :: ring
  xrsp :: ring
  suspending :: bool
  thread_prod :: u32
  req_info :: "req_slot list"
  nr_live_reqs :: int
  probe :: nat
  watches :: "(nat \<times> xenbus_watch) list"
  objs :: "nat \<rightharpoonup> obj"
  next_ptr :: nat
  alloc_ok :: "nat \<Rightarrow> bool"
  bad_frees :: "nat list"
  store_notified :: nat

definition NR_REQS :: nat where "NR_REQS = 32"
definition MAX_PATHS :: int where "MAX_PATHS = 10"

text \<open>The wait queues and completions of the driver, as numbers of the scheduler model.\<close>

definition xb_waitq :: nat where "xb_waitq = 0"
definition req_wq :: nat where "req_wq = 1"
definition suspend_comp :: nat where "suspend_comp = 2"
definition resume_comp :: nat where "resume_comp = 3"
definition reply_waitq :: "nat \<Rightarrow> nat" where "reply_waitq i = 4 + i"

section \<open>Memory\<close>

definition xalloc :: "obj \<Rightarrow> xenbus \<Rightarrow> nat \<times> xenbus" where
  "xalloc ob x =
     (if alloc_ok x (next_ptr x)
      then (next_ptr x, x\<lparr>objs := (objs x)(next_ptr x \<mapsto> ob), next_ptr := next_ptr x + 1\<rparr>)
      else (0, x\<lparr>next_ptr := next_ptr x + 1\<rparr>))"

text \<open>Most callers write to the block without a test for null.\<close>

definition xalloc_used :: "obj \<Rightarrow> xenbus \<Rightarrow> (nat \<times> xenbus) res" where
  "xalloc_used ob x = (case xalloc ob x of (p, x1) \<Rightarrow> if p = 0 then Inl Undef else Inr (p, x1))"

definition xfree_obj :: "nat \<Rightarrow> xenbus \<Rightarrow> xenbus" where
  "xfree_obj p x =
     (if p = 0 then x
      else if objs x p = None then x\<lparr>bad_frees := p # bad_frees x\<rparr>
      else x\<lparr>objs := (objs x)(p := None)\<rparr>)"

definition get_bytes :: "nat \<Rightarrow> xenbus \<Rightarrow> u8 list res" where
  "get_bytes p x = (case objs x p of Some (Bytes b) \<Rightarrow> Inr b | _ \<Rightarrow> Inl Undef)"

definition cstring :: "u8 list \<Rightarrow> nat \<Rightarrow> u8 list res" where
  "cstring b i = rbind (strlen b i) (\<lambda>n. Inr (take n (drop i b)))"

definition strdup :: "u8 list \<Rightarrow> xenbus \<Rightarrow> nat \<times> xenbus" where
  "strdup t x = xalloc (Bytes (t @ [0])) x"

section \<open>Watches\<close>

text \<open>The watch list, first element first, with the address of each watch.\<close>

definition find_watch :: "u8 list \<Rightarrow> xenbus \<Rightarrow> (nat \<times> xenbus_watch) option" where
  "find_watch t x = find (\<lambda>(p, w). token w = t) (watches x)"

definition upd_watch :: "nat \<Rightarrow> (xenbus_watch \<Rightarrow> xenbus_watch) \<Rightarrow> xenbus \<Rightarrow> xenbus" where
  "upd_watch p f x = x\<lparr>watches := map (\<lambda>(q, w). if q = p then (q, f w) else (q, w)) (watches x)\<rparr>"

definition drop_watch :: "nat \<Rightarrow> xenbus \<Rightarrow> xenbus res" where
  "drop_watch p x =
     (if p \<in> fst ` set (watches x) then Inr (x\<lparr>watches := filter (\<lambda>(q, w). q \<noteq> p) (watches x)\<rparr>) else Inl Undef)"

section \<open>The thread that receives\<close>

text \<open>The reception of a watch event whose path and token have been read from the payload.\<close>

definition post_event :: "nat \<Rightarrow> nat \<Rightarrow> xenbus_watch \<Rightarrow> u8 list \<Rightarrow> xenbus \<Rightarrow> sched \<Rightarrow> (xenbus \<times> sched) res" where
  "post_event me p w t x s =
     bug_on (path_prod_idx w - path_cons_idx w > MAX_PATHS)
       (case strdup t x of (q, x1) \<Rightarrow>
          let x2 = upd_watch p (\<lambda>w. w\<lparr>path_prod_idx := path_prod_idx w + 1,
                     paths := (paths w)[nat (path_prod_idx w mod MAX_PATHS) := q]\<rparr>) x1
          in if watcher w \<noteq> 0 then rbind (wake me (watcher w) s) (\<lambda>s1. Inr (x2, s1)) else Inr (x2, s))"

definition consume :: "nat \<Rightarrow> xenbus \<Rightarrow> xenbus" where
  "consume n x = x\<lparr>xrsp := ring_skip n (xrsp x)\<rparr>"

definition take_message :: "nat \<Rightarrow> xenbus \<Rightarrow> u8 list res" where
  "take_message n x = memcpy_from_ring (rbuf (xrsp x)) (mask_idx XENSTORE_RING_SIZE (cons (xrsp x))) n"

definition watch_event :: "nat \<Rightarrow> sockmsg \<Rightarrow> xenbus \<Rightarrow> sched \<Rightarrow> (xenbus \<times> sched) res" where
  "watch_event me m x s =
     (let n = msg_size + unat (mlen m) in
      rbind (take_message n x) (\<lambda>b.
      rbind (xalloc_used (Bytes b) x) (\<lambda>(p, x1).
      rbind (cstring b msg_size) (\<lambda>pth.
      rbind (cstring b (msg_size + length pth + 1)) (\<lambda>tok.
      rbind (case find_watch tok x1 of
               None \<Rightarrow> Inr (x1, s)
             | Some (q, w) \<Rightarrow> post_event me q w pth x1 s) (\<lambda>(x2, s2).
        Inr (xfree_obj p (consume n x2), s2)))))))"

definition reply_message :: "nat \<Rightarrow> sockmsg \<Rightarrow> xenbus \<Rightarrow> sched \<Rightarrow> (xenbus \<times> sched) res" where
  "reply_message me m x s =
     (let n = msg_size + unat (mlen m); i = unat (mreq_id m) in
      rbind (aget (req_info x) i) (\<lambda>slot.
      bug_on (\<not> in_use slot)
        (rbind (take_message n x) (\<lambda>b.
         rbind (xalloc_used (Bytes b) x) (\<lambda>(p, x1).
         rbind (wake_up me (reply_waitq i) s) (\<lambda>s1.
           Inr (consume n (x1\<lparr>req_info := (req_info x1)[i := slot\<lparr>reply := p\<rparr>]\<rparr>), s1)))))))"

text \<open>
  The loop over the messages that have arrived.  \<^verbatim>\<open>rsp_prod\<close> is read again in each round; bytes that
  arrive during the loop are those that are there from its start.
\<close>

definition message_step :: "nat \<Rightarrow> xenbus \<Rightarrow> sched \<Rightarrow> (xenbus \<times> sched) option res" where
  "message_step me x s =
     (if filled (xrsp x) < msg_size then Inr None
      else rbind (take_message msg_size x) (\<lambda>h.
        let m = msg_of_bytes h in
        if filled (xrsp x) < msg_size + unat (mlen m) then Inr None
        else rbind (if mtype m = XS_WATCH_EVENT then watch_event me m x s else reply_message me m x s) (\<lambda>r.
          Inr (Some r))))"

lemma consume_filled: "msg_size + k \<le> filled (xrsp x) \<Longrightarrow> filled (xrsp (consume (msg_size + k) x)) < filled (xrsp x)"
  by (simp add: consume_def filled_skip msg_size_def)

lemma xrsp_keeps [simp]:
  "xrsp (xfree_obj p x) = xrsp x" "xrsp (upd_watch q f x) = xrsp x"
  by (simp_all add: xfree_obj_def upd_watch_def)

lemma xalloc_xrsp: "xalloc ob x = (p, x1) \<Longrightarrow> xrsp x1 = xrsp x"
  by (auto simp: xalloc_def split: if_splits)

lemma post_event_xrsp: "post_event me p w t x s = Inr (x1, s1) \<Longrightarrow> xrsp x1 = xrsp x"
  by (auto simp: post_event_def strdup_def res_simps Let_def dest!: xalloc_xrsp split: if_splits prod.splits)

lemma consume_xrsp: "xrsp (consume n x) = ring_skip n (xrsp x)"
  by (simp add: consume_def)

lemma xalloc_used_xrsp: "xalloc_used ob x = Inr (p, x1) \<Longrightarrow> xrsp x1 = xrsp x"
  by (auto simp: xalloc_used_def dest: xalloc_xrsp split: if_splits prod.splits)

lemma watch_event_xrsp:
  "watch_event me m x s = Inr (x1, s1) \<Longrightarrow> xrsp x1 = ring_skip (msg_size + unat (mlen m)) (xrsp x)"
  by (auto simp: watch_event_def res_simps Let_def consume_xrsp
      dest!: xalloc_used_xrsp post_event_xrsp split: option.splits)

lemma reply_message_xrsp:
  "reply_message me m x s = Inr (x1, s1) \<Longrightarrow> xrsp x1 = ring_skip (msg_size + unat (mlen m)) (xrsp x)"
  by (auto simp: reply_message_def res_simps Let_def consume_xrsp dest!: xalloc_used_xrsp)

lemma message_step_shrinks:
  assumes "message_step me x s = Inr (Some (x1, s1))"
  shows "filled (xrsp x1) < filled (xrsp x)"
proof -
  obtain n where n: "msg_size + n \<le> filled (xrsp x)" "xrsp x1 = ring_skip (msg_size + n) (xrsp x)"
    using assms
    by (auto simp: message_step_def res_simps Let_def not_less dest!: watch_event_xrsp reply_message_xrsp split: if_splits)
  then show ?thesis by (simp add: filled_skip msg_size_def)
qed

function xenbus_thread_loop :: "nat \<Rightarrow> xenbus \<Rightarrow> sched \<Rightarrow> (xenbus \<times> sched) res" where
  "xenbus_thread_loop me x s =
     (let x0 = x\<lparr>thread_prod := prod (xrsp x)\<rparr> in
      case message_step me x0 s of
        Inl e \<Rightarrow> Inl e
      | Inr None \<Rightarrow> Inr (x0, s)
      | Inr (Some (x1, s1)) \<Rightarrow> xenbus_thread_loop me x1 s1)"
  by pat_completeness auto
termination
  by (relation "measure (\<lambda>(me, x, s). filled (xrsp x))") (auto dest!: message_step_shrinks)

declare xenbus_thread_loop.simps [simp del]

text \<open>
  One round of \<open>xenbus_thread_func\<close>: the wait, the handshake with a suspend, the loop.  \<open>False\<close>
  means that the thread goes to \<^verbatim>\<open>schedule()\<close>.
\<close>

definition thread_may_run :: "xenbus \<Rightarrow> bool" where
  "thread_may_run x = (thread_prod x \<noteq> prod (xrsp x) \<or> suspending x)"

definition xenbus_thread_wait :: "nat \<Rightarrow> nat \<Rightarrow> xenbus \<Rightarrow> sched \<Rightarrow> (bool \<times> sched) res" where
  "xenbus_thread_wait me w x s = wait_event me xb_waitq w (thread_may_run x) (thread_may_run x) s"

definition xenbus_thread_woken :: "nat \<Rightarrow> nat \<Rightarrow> xenbus \<Rightarrow> sched \<Rightarrow> (bool \<times> sched) res" where
  "xenbus_thread_woken me w x s =
     (if suspending x
      then rbind (complete_all me suspend_comp s) (\<lambda>s1. wait_for_completion me resume_comp w s1)
      else Inr (True, s))"

definition xenbus_thread_run :: "nat \<Rightarrow> bool \<Rightarrow> xenbus \<Rightarrow> sched \<Rightarrow> (xenbus \<times> sched) res" where
  "xenbus_thread_run me was_suspended x s = bug_on (was_suspended \<and> suspending x) (xenbus_thread_loop me x s)"

definition xenbus_evtchn_handler :: "nat \<Rightarrow> sched \<Rightarrow> sched res" where
  "xenbus_evtchn_handler me s = wake_up me xb_waitq s"

section \<open>Request numbers\<close>

definition release_xenbus_id :: "nat \<Rightarrow> nat \<Rightarrow> xenbus \<Rightarrow> sched \<Rightarrow> (xenbus \<times> sched) res" where
  "release_xenbus_id me i x s =
     rbind (aget (req_info x) i) (\<lambda>slot.
     bug_on (\<not> in_use slot)
       (let n = nr_live_reqs x - 1;
            x1 = x\<lparr>nr_live_reqs := n, req_info := (req_info x)[i := slot\<lparr>in_use := False\<rparr>]\<rparr>
        in if n = int NR_REQS - 1 \<or> n = 0 then rbind (wake_up me req_wq s) (\<lambda>s1. Inr (x1, s1)) else Inr (x1, s)))"

text \<open>The search visits at most all slots before it is back at its start, where it stops.\<close>

fun probe_loop :: "nat \<Rightarrow> req_slot list \<Rightarrow> nat \<Rightarrow> nat \<Rightarrow> nat res" where
  "probe_loop 0 rs start i = Inl Undef"
| "probe_loop (Suc n) rs start i =
     rbind (aget rs i) (\<lambda>slot.
       if \<not> in_use slot then Inr i
       else let j = (i + 1) mod NR_REQS in bug_on (j = start) (probe_loop n rs start j))"

text \<open>\<open>None\<close>: all numbers are in use, and the caller waits on \<open>req_wq\<close> with the entry \<open>w\<close>.\<close>

definition id_free :: "xenbus \<Rightarrow> bool" where
  "id_free x = (nr_live_reqs x < int NR_REQS)"

definition take_id :: "xenbus \<Rightarrow> sched \<Rightarrow> (nat \<times> xenbus \<times> sched) res" where
  "take_id x s =
     rbind (probe_loop NR_REQS (req_info x) (probe x) (probe x)) (\<lambda>i.
       Inr (i, x\<lparr>nr_live_reqs := nr_live_reqs x + 1, probe := (i + 1) mod NR_REQS,
                req_info := (req_info x)[i := (req_info x ! i)\<lparr>in_use := True\<rparr>]\<rparr>,
            init_waitqueue_head (reply_waitq i) s))"

definition allocate_xenbus_id :: "nat \<Rightarrow> nat \<Rightarrow> xenbus \<Rightarrow> sched \<Rightarrow> (nat option \<times> xenbus \<times> sched) res" where
  "allocate_xenbus_id me w x s =
     (if id_free x then rbind (take_id x s) (\<lambda>(i, x1, s1). Inr (Some i, x1, s1))
      else rbind (wait_event me req_wq w False False s) (\<lambda>(_, s1). Inr (None, x, s1)))"

text \<open>Resumed: the wait goes on until its condition holds, then the test is made again.\<close>

definition allocate_xenbus_id_resumed :: "nat \<Rightarrow> nat \<Rightarrow> xenbus \<Rightarrow> sched \<Rightarrow> (nat option \<times> xenbus \<times> sched) res" where
  "allocate_xenbus_id_resumed me w x s =
     rbind (wait_event_resumed me req_wq w (id_free x \<and> \<not> suspending x) s) (\<lambda>(done, s1).
       if done then allocate_xenbus_id me w x s1 else Inr (None, x, s1))"

section \<open>Sending\<close>

lemma mask_idx_xs: "mask_idx XENSTORE_RING_SIZE p = unat p mod 1024"
  using mask_idx_mod [of 10 p] by (simp add: XENSTORE_RING_SIZE_def)

text \<open>
  A write request is the list of the bytes that its pointer and length describe; \<open>rs\<close> is what is
  left of the header and the requests, its first element being the rest of \<^verbatim>\<open>cur_req\<close>.
\<close>

function write_chunks ::
    "u8 list \<Rightarrow> u32 \<Rightarrow> u8 list list \<Rightarrow> nat \<Rightarrow> int \<Rightarrow> int \<Rightarrow> (u8 list \<times> u32 \<times> nat \<times> int) res" where
  "write_chunks buf p rs req_off done_len len =
     (if done_len < len then
        (case rs of
           [] \<Rightarrow> Inl Undef
         | cur # rest \<Rightarrow>
             let off = mask_idx XENSTORE_RING_SIZE p;
                 chunk = min (length cur) (XENSTORE_RING_SIZE - off)
             in case copy_in buf off (take chunk cur) of
                  Inl e \<Rightarrow> Inl e
                | Inr buf1 \<Rightarrow>
                    if chunk = length cur
                    then write_chunks buf1 (p + of_nat chunk) rest 0 (done_len + int chunk) len
                    else write_chunks buf1 (p + of_nat chunk) (drop chunk cur # rest) (req_off + chunk) (done_len + int chunk) len)
      else Inr (buf, p, req_off, done_len))"
  by pat_completeness auto
termination
  by (relation "measure (\<lambda>(buf, p, rs, req_off, done_len, len). sum_list (map (\<lambda>r. Suc (length r)) rs))")
     (use mask_idx_xs in \<open>auto simp: XENSTORE_RING_SIZE_def min_def split: if_splits\<close>)

declare write_chunks.simps [simp del]

definition request_len :: "u8 list list \<Rightarrow> u32" where
  "request_len req = of_nat (length (concat req))"

definition request_header :: "u32 \<Rightarrow> nat \<Rightarrow> u64 \<Rightarrow> u8 list list \<Rightarrow> sockmsg" where
  "request_header ty i tx req =
     \<lparr>mtype = ty, mreq_id = of_nat i, mtx_id = ucast tx, mlen = request_len req\<rparr>"

text \<open>\<^verbatim>\<open>len\<close> is an \<^verbatim>\<open>int\<close>; the comparisons with the indices are unsigned.\<close>

definition has_room :: "u32 \<Rightarrow> ring \<Rightarrow> bool" where
  "has_room n r = (prod r + n - cons r \<le> of_nat XENSTORE_RING_SIZE)"

definition xb_write_locked :: "u32 \<Rightarrow> nat \<Rightarrow> u64 \<Rightarrow> u8 list list \<Rightarrow> xenbus \<Rightarrow> xenbus res" where
  "xb_write_locked ty i tx req x =
     (let m = request_header ty i tx req; n = mlen m + of_nat msg_size; r = xreq x in
      rbind (write_chunks (rbuf r) (prod r) (msg_bytes m # req) 0 0 (sint n)) (\<lambda>(buf, p, req_off, done_len).
      bug_on (req_off \<noteq> 0)
        (bug_on (done_len \<noteq> sint n)
          (bug_on (p > cons r + of_nat XENSTORE_RING_SIZE)
            (Inr (x\<lparr>xreq := r\<lparr>rbuf := buf, prod := prod r + n\<rparr>, store_notified := store_notified x + 1\<rparr>))))))"

text \<open>\<open>False\<close>: there is no room, and the caller waits on \<open>xb_waitq\<close>.\<close>

definition xb_write :: "nat \<Rightarrow> nat \<Rightarrow> u32 \<Rightarrow> nat \<Rightarrow> u64 \<Rightarrow> u8 list list \<Rightarrow> xenbus \<Rightarrow> sched \<Rightarrow> (bool \<times> xenbus \<times> sched) res" where
  "xb_write me w ty i tx req x s =
     (let n = request_len req + of_nat msg_size in
      bug_on (sint n > int XENSTORE_RING_SIZE)
        (if has_room n (xreq x) then rbind (xb_write_locked ty i tx req x) (\<lambda>x1. Inr (True, x1, s))
         else rbind (wait_event me xb_waitq w False False s) (\<lambda>(_, s1). Inr (False, x, s1))))"

text \<open>Resumed: the wait ends when there is room, and the message is written without another test.\<close>

definition xb_write_resumed ::
    "nat \<Rightarrow> nat \<Rightarrow> u32 \<Rightarrow> nat \<Rightarrow> u64 \<Rightarrow> u8 list list \<Rightarrow> xenbus \<Rightarrow> sched \<Rightarrow> (bool \<times> sched) res" where
  "xb_write_resumed me w ty i tx req x s =
     wait_event_resumed me xb_waitq w (has_room (request_len req + of_nat msg_size) (xreq x)) s"

text \<open>
  \<open>xenbus_msg_reply\<close>: first it needs a request number, then room in the ring, then it waits for the
  reply.  The three ways to stop at a call of \<^verbatim>\<open>schedule()\<close>:
\<close>

datatype stage = Needs_id | Needs_room nat | Awaits nat

definition send_request ::
    "nat \<Rightarrow> nat \<Rightarrow> nat \<Rightarrow> u32 \<Rightarrow> nat \<Rightarrow> u64 \<Rightarrow> u8 list list \<Rightarrow> xenbus \<Rightarrow> sched \<Rightarrow> (stage \<times> xenbus \<times> sched) res" where
  "send_request me w wr ty i tx req x s =
     rbind (preempt_disable me s) (\<lambda>s1.
     rbind (add_waiter me (reply_waitq i) w (define_wait me w s1)) (\<lambda>s2.
     rbind (xb_write me wr ty i tx req x s2) (\<lambda>(sent, x3, s3).
       if sent then rbind (preempt_enable_no_resched me s3) (\<lambda>s4. Inr (Awaits i, x3, s4))
       else Inr (Needs_room i, x3, s3))))"

definition xenbus_msg_reply ::
    "nat \<Rightarrow> nat \<Rightarrow> nat \<Rightarrow> u32 \<Rightarrow> u64 \<Rightarrow> u8 list list \<Rightarrow> xenbus \<Rightarrow> sched \<Rightarrow> (stage \<times> xenbus \<times> sched) res" where
  "xenbus_msg_reply me w wr ty tx req x s =
     rbind (allocate_xenbus_id me wr x s) (\<lambda>(i, x1, s1).
       case i of None \<Rightarrow> Inr (Needs_id, x1, s1) | Some i \<Rightarrow> send_request me w wr ty i tx req x1 s1)"

definition xenbus_msg_reply_id ::
    "nat \<Rightarrow> nat \<Rightarrow> nat \<Rightarrow> u32 \<Rightarrow> u64 \<Rightarrow> u8 list list \<Rightarrow> xenbus \<Rightarrow> sched \<Rightarrow> (stage \<times> xenbus \<times> sched) res" where
  "xenbus_msg_reply_id me w wr ty tx req x s =
     rbind (allocate_xenbus_id_resumed me wr x s) (\<lambda>(i, x1, s1).
       case i of None \<Rightarrow> Inr (Needs_id, x1, s1) | Some i \<Rightarrow> send_request me w wr ty i tx req x1 s1)"

definition xenbus_msg_reply_room ::
    "nat \<Rightarrow> nat \<Rightarrow> u32 \<Rightarrow> nat \<Rightarrow> u64 \<Rightarrow> u8 list list \<Rightarrow> xenbus \<Rightarrow> sched \<Rightarrow> (stage \<times> xenbus \<times> sched) res" where
  "xenbus_msg_reply_room me wr ty i tx req x s =
     rbind (xb_write_resumed me wr ty i tx req x s) (\<lambda>(done, s1).
       if done then
         rbind (xb_write_locked ty i tx req x) (\<lambda>x1.
         rbind (preempt_enable_no_resched me s1) (\<lambda>s2. Inr (Awaits i, x1, s2)))
       else Inr (Needs_room i, x, s1))"

text \<open>After the last \<^verbatim>\<open>schedule()\<close>: the address of the reply.\<close>

definition xenbus_msg_reply_resumed :: "nat \<Rightarrow> nat \<Rightarrow> xenbus \<Rightarrow> sched \<Rightarrow> (nat \<times> xenbus \<times> sched) res" where
  "xenbus_msg_reply_resumed me i x s =
     rbind (aget (req_info x) i) (\<lambda>slot.
     rbind (get_bytes (reply slot) x) (\<lambda>b.
     bug_on (mreq_id (msg_of_bytes b) \<noteq> of_nat i)
       (rbind (release_xenbus_id me i x s) (\<lambda>(x1, s1). Inr (reply slot, x1, s1)))))"

section \<open>Replies\<close>

definition payload :: "u8 list \<Rightarrow> u8 list" where
  "payload b = take (unat (mlen (msg_of_bytes b))) (drop msg_size b)"

text \<open>A copy of the payload with a zero byte behind it.  The size passed on is 32 bits wide.\<close>

definition payload_copy :: "u8 list \<Rightarrow> xenbus \<Rightarrow> (nat \<times> xenbus) res" where
  "payload_copy b x =
     (let n = mlen (msg_of_bytes b) in
      if n + 1 = 0 \<or> length (payload b) < unat n then Inl Undef else xalloc_used (Bytes (payload b @ [0])) x)"

definition no_reply_text :: "u8 list" where "no_reply_text = map of_char ''no reply''"

definition errmsg :: "nat \<Rightarrow> xenbus \<Rightarrow> (nat \<times> xenbus) res" where
  "errmsg rep x =
     (if rep = 0 then Inr (strdup no_reply_text x)
      else rbind (get_bytes rep x) (\<lambda>b.
        if mtype (msg_of_bytes b) \<noteq> XS_ERROR then Inr (0, x)
        else rbind (payload_copy b x) (\<lambda>(p, x1). Inr (p, xfree_obj rep x1))))"

text \<open>
  Each function of the interface sends its request and then treats the reply.  The part after the
  reply gives the message (null when all went well) and what the function stores for its caller.
\<close>

text \<open>\<open>xenbus_read\<close> and \<open>xenbus_get_perms\<close>\<close>

definition value_reply :: "nat \<Rightarrow> xenbus \<Rightarrow> (nat \<times> nat \<times> xenbus) res" where
  "value_reply rep x =
     rbind (errmsg rep x) (\<lambda>(msg, x1).
       if msg \<noteq> 0 then Inr (msg, 0, x1)
       else rbind (get_bytes rep x1) (\<lambda>b.
            rbind (payload_copy b x1) (\<lambda>(p, x2). Inr (0, p, xfree_obj rep x2))))"

text \<open>\<open>xenbus_write\<close>, \<open>xenbus_rm\<close> and \<open>xenbus_set_perms\<close>\<close>

definition plain_reply :: "nat \<Rightarrow> xenbus \<Rightarrow> (nat \<times> xenbus) res" where
  "plain_reply rep x =
     rbind (errmsg rep x) (\<lambda>(msg, x1). Inr (if msg \<noteq> 0 then (msg, x1) else (0, xfree_obj rep x1)))"

section \<open>The interface\<close>

definition zstring :: "u8 list \<Rightarrow> u8 list" where
  "zstring t = t @ [0]"

definition lit :: "string \<Rightarrow> u8 list" where
  "lit t = map of_char t"

definition read_request :: "u8 list \<Rightarrow> u8 list list" where
  "read_request p = [zstring p]"

definition write_request :: "u8 list \<Rightarrow> u8 list \<Rightarrow> u8 list list" where
  "write_request p v = [zstring p, zstring v]"

definition xenbus_read_start ::
    "nat \<Rightarrow> nat \<Rightarrow> nat \<Rightarrow> u64 \<Rightarrow> u8 list \<Rightarrow> xenbus \<Rightarrow> sched \<Rightarrow> (stage \<times> xenbus \<times> sched) res" where
  "xenbus_read_start me w wr tx p x s = xenbus_msg_reply me w wr XS_READ tx (read_request p) x s"

definition xenbus_read_finish :: "nat \<Rightarrow> nat \<Rightarrow> xenbus \<Rightarrow> sched \<Rightarrow> (nat \<times> nat \<times> xenbus \<times> sched) res" where
  "xenbus_read_finish me i x s =
     rbind (xenbus_msg_reply_resumed me i x s) (\<lambda>(rep, x1, s1).
     rbind (value_reply rep x1) (\<lambda>(msg, v, x2). Inr (msg, v, x2, s1)))"

definition xenbus_get_perms_start ::
    "nat \<Rightarrow> nat \<Rightarrow> nat \<Rightarrow> u64 \<Rightarrow> u8 list \<Rightarrow> xenbus \<Rightarrow> sched \<Rightarrow> (stage \<times> xenbus \<times> sched) res" where
  "xenbus_get_perms_start me w wr tx p x s = xenbus_msg_reply me w wr XS_GET_PERMS tx (read_request p) x s"

definition xenbus_get_perms_finish :: "nat \<Rightarrow> nat \<Rightarrow> xenbus \<Rightarrow> sched \<Rightarrow> (nat \<times> nat \<times> xenbus \<times> sched) res" where
  "xenbus_get_perms_finish me i x s =
     rbind (xenbus_msg_reply_resumed me i x s) (\<lambda>(rep, x1, s1).
     rbind (value_reply rep x1) (\<lambda>(msg, v, x2). Inr (msg, v, x2, s1)))"

definition xenbus_write_start ::
    "nat \<Rightarrow> nat \<Rightarrow> nat \<Rightarrow> u64 \<Rightarrow> u8 list \<Rightarrow> u8 list \<Rightarrow> xenbus \<Rightarrow> sched \<Rightarrow> (stage \<times> xenbus \<times> sched) res" where
  "xenbus_write_start me w wr tx p v x s = xenbus_msg_reply me w wr XS_WRITE tx (write_request p v) x s"

definition xenbus_rm_start ::
    "nat \<Rightarrow> nat \<Rightarrow> nat \<Rightarrow> u64 \<Rightarrow> u8 list \<Rightarrow> xenbus \<Rightarrow> sched \<Rightarrow> (stage \<times> xenbus \<times> sched) res" where
  "xenbus_rm_start me w wr tx p x s = xenbus_msg_reply me w wr XS_RM tx (read_request p) x s"

text \<open>The part after the reply is the same for \<open>xenbus_write\<close>, \<open>xenbus_rm\<close> and \<open>xenbus_set_perms\<close>.\<close>

definition plain_finish :: "nat \<Rightarrow> nat \<Rightarrow> xenbus \<Rightarrow> sched \<Rightarrow> (nat \<times> xenbus \<times> sched) res" where
  "plain_finish me i x s =
     rbind (xenbus_msg_reply_resumed me i x s) (\<lambda>(rep, x1, s1).
     rbind (plain_reply rep x1) (\<lambda>(msg, x2). Inr (msg, x2, s1)))"

text \<open>\<^verbatim>\<open>snprintf(value, PERM_MAX_SIZE, "%c%hu", perm, dom)\<close>\<close>

definition perms_value :: "u16 \<Rightarrow> u8 \<Rightarrow> u8 list res" where
  "perms_value domid perm =
     rbind (snprintf (replicate 32 0) 0 32 (zstring (lit ''%c%hu'')) 0 [scast perm, ucast domid]) (\<lambda>(m, _).
     cstring m 0)"

definition xenbus_set_perms_start ::
    "nat \<Rightarrow> nat \<Rightarrow> nat \<Rightarrow> u64 \<Rightarrow> u8 list \<Rightarrow> u16 \<Rightarrow> u8 \<Rightarrow> xenbus \<Rightarrow> sched \<Rightarrow> (stage \<times> xenbus \<times> sched) res" where
  "xenbus_set_perms_start me w wr tx p domid perm x s =
     rbind (perms_value domid perm) (\<lambda>v. xenbus_msg_reply me w wr XS_SET_PERMS tx (write_request p v) x s)"

text \<open>
  \<open>xenbus_printf\<close>: the formatted value goes into 256 bytes on the stack, whatever its length.  \<open>am\<close> is the
  memory that the arguments point into; the buffers lie behind it.
\<close>

definition BUFFER_SIZE :: nat where "BUFFER_SIZE = 256"

definition full_path :: "u8 list \<Rightarrow> u8 list \<Rightarrow> u8 list res" where
  "full_path nd p =
     bug_on (length nd + length p + 1 \<ge> BUFFER_SIZE)
       (let m = zstring nd @ zstring p; b = length m
        in rbind (sprintf (m @ replicate BUFFER_SIZE 0) b (zstring (lit ''%s/%s'')) 0 [0, of_nat (length nd + 1)]) (\<lambda>(m1, _).
           cstring m1 b))"

definition xenbus_printf_start ::
    "nat \<Rightarrow> nat \<Rightarrow> nat \<Rightarrow> u64 \<Rightarrow> u8 list \<Rightarrow> u8 list \<Rightarrow> memory \<Rightarrow> u8 list \<Rightarrow> u64 list \<Rightarrow> xenbus \<Rightarrow> sched \<Rightarrow>
     (stage \<times> xenbus \<times> sched) res" where
  "xenbus_printf_start me w wr tx nd p am fmt args x s =
     rbind (full_path nd p) (\<lambda>fp.
     rbind (vsprintf (am @ replicate BUFFER_SIZE 0) (length am) (zstring fmt) 0 args) (\<lambda>(m, _).
     rbind (cstring m (length am)) (\<lambda>v. xenbus_write_start me w wr tx fp v x s)))"

text \<open>\<open>xenbus_ls\<close>: the names of the payload, each in an object of its own, and the array of their addresses.\<close>

definition xenbus_ls_start ::
    "nat \<Rightarrow> nat \<Rightarrow> nat \<Rightarrow> u64 \<Rightarrow> u8 list \<Rightarrow> xenbus \<Rightarrow> sched \<Rightarrow> (stage \<times> xenbus \<times> sched) res" where
  "xenbus_ls_start me w wr tx p x s = xenbus_msg_reply me w wr XS_DIRECTORY tx (read_request p) x s"

definition nr_elems :: "u8 list \<Rightarrow> nat" where
  "nr_elems b = length (filter (\<lambda>c. c = 0) (payload b))"

fun ls_loop :: "nat \<Rightarrow> u8 list \<Rightarrow> nat \<Rightarrow> nat list \<Rightarrow> xenbus \<Rightarrow> (nat list \<times> xenbus) res" where
  "ls_loop 0 b i ps x = Inr (ps, x)"
| "ls_loop (Suc n) b i ps x =
     rbind (cstring b (msg_size + i)) (\<lambda>t.
     rbind (xalloc_used (Bytes (zstring t)) x) (\<lambda>(p, x1). ls_loop n b (i + length t + 1) (ps @ [p]) x1))"

definition ls_reply :: "nat \<Rightarrow> xenbus \<Rightarrow> (nat \<times> nat \<times> xenbus) res" where
  "ls_reply rep x =
     rbind (errmsg rep x) (\<lambda>(msg, x1).
       if msg \<noteq> 0 then Inr (msg, 0, x1)
       else
         rbind (get_bytes rep x1) (\<lambda>b.
         rbind (xalloc_used (Ptrs []) x1) (\<lambda>(res, x2).
         rbind (ls_loop (nr_elems b) b 0 [] x2) (\<lambda>(ps, x3).
           Inr (0, res, xfree_obj rep (x3\<lparr>objs := (objs x3)(res \<mapsto> Ptrs (ps @ [0]))\<rparr>))))))"

definition xenbus_ls_finish :: "nat \<Rightarrow> nat \<Rightarrow> xenbus \<Rightarrow> sched \<Rightarrow> (nat \<times> nat \<times> xenbus \<times> sched) res" where
  "xenbus_ls_finish me i x s =
     rbind (xenbus_msg_reply_resumed me i x s) (\<lambda>(rep, x1, s1).
     rbind (ls_reply rep x1) (\<lambda>(msg, v, x2). Inr (msg, v, x2, s1)))"

section \<open>Watching\<close>

text \<open>\<open>xenbus_watch_path\<close>: the watch is put in front of the list before the request is sent.\<close>

definition new_watch :: "u8 list \<Rightarrow> u8 list \<Rightarrow> xenbus_watch" where
  "new_watch p t = \<lparr>token = t, path = p, path_prod_idx = 0, path_cons_idx = 0, paths = replicate 10 0, watcher = 0\<rparr>"

definition add_watch :: "u8 list \<Rightarrow> u8 list \<Rightarrow> xenbus \<Rightarrow> xenbus res" where
  "add_watch p t x =
     bug_on (find_watch t x \<noteq> None)
       (case xalloc (Bytes []) x of (q, x1) \<Rightarrow>
          if q = 0 then Inl Undef else Inr (x1\<lparr>watches := (q, new_watch p t) # watches x1\<rparr>))"

definition xenbus_watch_path_start ::
    "nat \<Rightarrow> nat \<Rightarrow> nat \<Rightarrow> u64 \<Rightarrow> u8 list \<Rightarrow> u8 list \<Rightarrow> xenbus \<Rightarrow> sched \<Rightarrow> (stage \<times> xenbus \<times> sched) res" where
  "xenbus_watch_path_start me w wr tx p t x s =
     rbind (add_watch p t x) (\<lambda>x1. xenbus_msg_reply me w wr XS_WATCH tx (write_request p t) x1 s)"

definition watch_reply :: "nat \<Rightarrow> u8 list \<Rightarrow> xenbus \<Rightarrow> (nat \<times> xenbus) res" where
  "watch_reply rep t x =
     rbind (errmsg rep x) (\<lambda>(msg, x1).
       if msg \<noteq> 0 then
         let x2 = xfree_obj rep x1 in
         case find_watch t x2 of
           None \<Rightarrow> Inl Bug
         | Some (q, _) \<Rightarrow> rbind (drop_watch q x2) (\<lambda>x3. Inr (msg, xfree_obj q x3))
       else Inr (msg, x1))"

definition xenbus_watch_path_finish :: "nat \<Rightarrow> nat \<Rightarrow> u8 list \<Rightarrow> xenbus \<Rightarrow> sched \<Rightarrow> (nat \<times> xenbus \<times> sched) res" where
  "xenbus_watch_path_finish me i t x s =
     rbind (xenbus_msg_reply_resumed me i x s) (\<lambda>(rep, x1, s1).
     rbind (watch_reply rep t x1) (\<lambda>(msg, x2). Inr (msg, x2, s1)))"

text \<open>\<open>xenbus_rm_watch\<close>: \<open>None\<close> when there is no such watch; otherwise the watch and the request for it.\<close>

definition xenbus_rm_watch_start ::
    "nat \<Rightarrow> nat \<Rightarrow> nat \<Rightarrow> u8 list \<Rightarrow> xenbus \<Rightarrow> sched \<Rightarrow> ((nat \<times> stage) option \<times> xenbus \<times> sched) res" where
  "xenbus_rm_watch_start me w wr t x s =
     (case find_watch t x of
        None \<Rightarrow> Inr (None, x, s)
      | Some (q, wt) \<Rightarrow>
          rbind (xenbus_msg_reply me w wr XS_UNWATCH 0 (write_request (path wt) (token wt)) x s) (\<lambda>(st, x1, s1).
            Inr (Some (q, st), x1, s1)))"

definition xenbus_rm_watch_finish :: "nat \<Rightarrow> nat \<Rightarrow> nat \<Rightarrow> xenbus \<Rightarrow> sched \<Rightarrow> (xenbus \<times> sched) res" where
  "xenbus_rm_watch_finish me i q x s =
     rbind (xenbus_msg_reply_resumed me i x s) (\<lambda>(rep, x1, s1).
     rbind (drop_watch q x1) (\<lambda>x2. Inr (xfree_obj q x2, s1)))"

text \<open>
  \<open>xenbus_read_watch\<close>: the address of the next path, or \<open>None\<close> when the thread has blocked; resumed, it
  uses the watch it found at its start.
\<close>

definition read_watch_again :: "nat \<Rightarrow> nat \<Rightarrow> xenbus \<Rightarrow> sched \<Rightarrow> (nat option \<times> xenbus \<times> sched) res" where
  "read_watch_again me q x s =
     (case map_of (watches x) q of
        None \<Rightarrow> Inl Undef
      | Some w \<Rightarrow>
          if path_cons_idx w < path_prod_idx w
          then Inr (Some (paths w ! nat (path_cons_idx w mod MAX_PATHS)),
                    upd_watch q (\<lambda>w. w\<lparr>path_cons_idx := path_cons_idx w + 1, watcher := 0\<rparr>) x, s)
          else rbind (block (current_thread s me) s) (\<lambda>s1.
                 Inr (None, upd_watch q (\<lambda>w. w\<lparr>watcher := current_thread s me\<rparr>) x, s1)))"

definition xenbus_read_watch :: "nat \<Rightarrow> u8 list \<Rightarrow> xenbus \<Rightarrow> sched \<Rightarrow> (nat option \<times> xenbus \<times> sched) res" where
  "xenbus_read_watch me t x s =
     (case find_watch t x of None \<Rightarrow> Inl Undef | Some (q, _) \<Rightarrow> read_watch_again me q x s)"

text \<open>
  \<open>xenbus_wait_for_value\<close> between its waits: a changed path leads to a read or to the next change, and
  a value read ends the loop or not.
\<close>

definition changed_path :: "nat \<Rightarrow> u8 list \<Rightarrow> xenbus \<Rightarrow> (bool \<times> xenbus) res" where
  "changed_path q p x =
     rbind (get_bytes q x) (\<lambda>b. rbind (cstring b 0) (\<lambda>c. Inr (c = p, xfree_obj q x)))"

definition value_read :: "nat \<Rightarrow> nat \<Rightarrow> u8 list \<Rightarrow> xenbus \<Rightarrow> (nat option \<times> xenbus) res" where
  "value_read msg v val x =
     (if msg \<noteq> 0 then Inr (Some msg, x)
      else rbind (get_bytes v x) (\<lambda>b. rbind (cstring b 0) (\<lambda>c.
             Inr (if c = val then Some 0 else None, xfree_obj v x))))"

section \<open>Transactions and numbers\<close>

text \<open>\<^verbatim>\<open>sscanf((char *)(rep + 1), "%u", xbt)\<close>: four of the eight bytes of the transaction are stored.\<close>

definition transaction_reply :: "nat \<Rightarrow> u8 list \<Rightarrow> xenbus \<Rightarrow> (nat \<times> u8 list \<times> xenbus) res" where
  "transaction_reply rep xbt x =
     rbind (errmsg rep x) (\<lambda>(err, x1).
       if err \<noteq> 0 then Inr (err, xbt, x1)
       else rbind (get_bytes rep x1) (\<lambda>b.
            rbind (sscanf (xbt @ drop msg_size b) (length xbt) (zstring (lit ''%u'')) 0 [0]) (\<lambda>(m, _).
              Inr (0, take (length xbt) m, xfree_obj rep x1))))"

definition xenbus_transaction_start ::
    "nat \<Rightarrow> nat \<Rightarrow> nat \<Rightarrow> xenbus \<Rightarrow> sched \<Rightarrow> (stage \<times> xenbus \<times> sched) res" where
  "xenbus_transaction_start me w wr x s = xenbus_msg_reply me w wr XS_TRANSACTION_START 0 [zstring []] x s"

definition xenbus_transaction_end ::
    "nat \<Rightarrow> nat \<Rightarrow> nat \<Rightarrow> u64 \<Rightarrow> bool \<Rightarrow> xenbus \<Rightarrow> sched \<Rightarrow> (stage \<times> xenbus \<times> sched) res" where
  "xenbus_transaction_end me w wr tx ab x s =
     xenbus_msg_reply me w wr XS_TRANSACTION_END tx [zstring (lit (if ab then ''F'' else ''T''))] x s"

text \<open>The result: the message and whether to retry.\<close>

definition transaction_end_reply :: "nat \<Rightarrow> xenbus \<Rightarrow> (nat \<times> bool \<times> xenbus) res" where
  "transaction_end_reply rep x =
     rbind (errmsg rep x) (\<lambda>(err, x1).
       if err \<noteq> 0 then
         rbind (get_bytes err x1) (\<lambda>b. rbind (cstring b 0) (\<lambda>c.
           if c = lit ''EAGAIN'' then Inr (0, True, xfree_obj err x1) else Inr (err, False, x1)))
       else Inr (0, False, xfree_obj rep x1))"

text \<open>\<open>xenbus_read_integer\<close> after its read; \<open>t0\<close> is what the uninitialised \<^verbatim>\<open>t\<close> holds.\<close>

definition scan_int :: "u8 list \<Rightarrow> u8 list \<Rightarrow> u8 list res" where
  "scan_int b dst =
     rbind (sscanf (b @ dst) 0 (zstring (lit ''%d'')) 0 [of_nat (length b)]) (\<lambda>(m, _). Inr (drop (length b) m))"

definition read_integer_reply :: "nat \<Rightarrow> nat \<Rightarrow> u32 \<Rightarrow> xenbus \<Rightarrow> (int \<times> xenbus) res" where
  "read_integer_reply msg v t0 x =
     (if msg \<noteq> 0 then Inr (- 1, xfree_obj msg x)
      else rbind (get_bytes v x) (\<lambda>b. rbind (scan_int b (le32 t0)) (\<lambda>d.
             Inr (sint (of_le32 d), xfree_obj v x))))"

text \<open>\<open>xenbus_get_self_id\<close> after its read: \<^verbatim>\<open>%d\<close> stores four bytes into a \<^verbatim>\<open>domid_t\<close> of two.\<close>

definition self_id_reply :: "nat \<Rightarrow> nat \<Rightarrow> u8 \<times> u8 \<Rightarrow> xenbus \<Rightarrow> (u8 list \<times> xenbus) res" where
  "self_id_reply msg v ret x =
     bug_on (msg \<noteq> 0)
       (rbind (get_bytes v x) (\<lambda>b. rbind (scan_int b [fst ret, snd ret]) (\<lambda>d. Inr (d, x))))"

section \<open>Start\<close>

text \<open>
  \<open>map_failed\<close> is the answer of the hypercall that maps the page; \<open>t\<close>, \<open>stk\<close>, \<open>fp\<close> are what the
  allocators give for the thread; \<open>h\<close> is the number of \<open>xenbus_evtchn_handler\<close> among the handlers.
\<close>

definition map_xenstore_page :: "bool \<Rightarrow> 'a \<Rightarrow> 'a res" where
  "map_xenstore_page map_failed r = (if map_failed then Inl Crash else Inr r)"

definition init_xenbus ::
    "nat \<Rightarrow> bool \<Rightarrow> ring \<times> ring \<Rightarrow> nat \<Rightarrow> nat \<Rightarrow> nat \<Rightarrow> nat \<Rightarrow> nat \<Rightarrow> xenbus \<Rightarrow> sched \<Rightarrow> events \<Rightarrow>
     (xenbus \<times> sched \<times> events) res" where
  "init_xenbus me map_failed page port h t stk fp x s e =
     rbind (map_xenstore_page map_failed page) (\<lambda>(rq, rs).
     rbind (create_thread me UKERNEL_FLAG t stk fp s) (\<lambda>(_, s1).
     rbind (bind_evtchn me port ANY_CPU h 0 e) (\<lambda>(_, e1).
       Inr (x\<lparr>suspending := False, xreq := rq, xrsp := rs\<rparr>, s1, e1))))"

end
