(* ===== verification/Xenbus_Props.thy ===== *)
theory Xenbus_Props
  imports Xenbus
begin

text \<open>
  What the Xenbus driver of \<^theory_text>\<open>Xenbus\<close> does: the bytes a request puts on the ring and the wrap of the
  index at which it stops the domain, the request numbers, the delivery of replies to the threads that
  wait for them, the queue of a watch, the contents of directories, and the life of the replies.
\<close>

section \<open>Sending\<close>

definition xs_ring :: "ring \<Rightarrow> bool" where
  "xs_ring r = (ring_ok r \<and> length (rbuf r) = XENSTORE_RING_SIZE)"

lemma xs_ringD: "xs_ring r \<Longrightarrow> ring_ok r" "xs_ring r \<Longrightarrow> length (rbuf r) = 1024"
  by (simp_all add: xs_ring_def XENSTORE_RING_SIZE_def)

lemma write_chunks_puts:
  assumes "length (rbuf r) = 1024" and "done_len + int (length (concat rs)) = len"
    and "concat rs = [] \<Longrightarrow> req_off = 0"
  shows "write_chunks (rbuf r) (prod r) rs req_off done_len len =
     Inr (rbuf (ring_puts (concat rs) r), prod r + of_nat (length (concat rs)), 0, len)"
  using assms
proof (induction "rbuf r" "prod r" rs req_off done_len len arbitrary: r rule: write_chunks.induct)
  case (1 rs req_off done_len len)
  show ?case
  proof (cases "done_len < len")
    case False
    then have l: "length (concat rs) = 0" "len = done_len" using "1.prems"(2) by linarith+
    from l(1) have c: "concat rs = []" by (simp only: length_0_conv)
    have "req_off = 0" by (rule "1.prems"(3) [OF c])
    then show ?thesis using l(2) by (simp only: c write_chunks.simps [of _ _ rs]) simp
  next
    case True
    then obtain cur rest where rs: "rs = cur # rest" using "1.prems"(2) by (cases rs) auto
    define off where "off = mask_idx XENSTORE_RING_SIZE (prod r)"
    define chunk where "chunk = min (length cur) (XENSTORE_RING_SIZE - off)"
    let ?r = "ring_puts (take chunk cur) r"
    have o: "off < 1024" using mask_idx_xs by (simp add: off_def)
    have lc: "length (take chunk cur) = chunk" by (simp add: chunk_def)
    have "chunk \<le> 1024 - off" by (simp add: chunk_def XENSTORE_RING_SIZE_def)
    then have fit: "mask_idx (length (rbuf r)) (prod r) + length (take chunk cur) \<le> length (rbuf r)"
      using o "1.prems"(1) by (simp add: off_def XENSTORE_RING_SIZE_def)
    have c: "copy_in (rbuf r) off (take chunk cur) = Inr (rbuf ?r)"
      using ring_puts_copy [of r 10, OF _ _ fit] "1.prems"(1) by (simp add: off_def XENSTORE_RING_SIZE_def)
    have p: "prod r + of_nat chunk = prod ?r" by (simp only: ring_puts_fields lc)
    show ?thesis
    proof (cases "chunk = length cur")
      case whole: True
      have "write_chunks (rbuf ?r) (prod ?r) rest 0 (done_len + int chunk) len =
          Inr (rbuf (ring_puts (concat rest) ?r), prod ?r + of_nat (length (concat rest)), 0, len)"
        using "1.hyps"(1) [OF True rs off_def chunk_def c whole p] "1.prems"
        by (simp add: rs whole)
      then show ?thesis using True c p whole
        by (subst write_chunks.simps) (simp add: rs off_def [symmetric] chunk_def [symmetric] Let_def)
    next
      case part: False
      then have lt: "chunk < length cur" by (simp add: chunk_def)
      have cc: "concat rs = take chunk cur @ concat (drop chunk cur # rest)" by (simp add: rs)
      have "write_chunks (rbuf ?r) (prod ?r) (drop chunk cur # rest) (req_off + chunk) (done_len + int chunk) len =
          Inr (rbuf (ring_puts (concat (drop chunk cur # rest)) ?r), prod ?r + of_nat (length (concat (drop chunk cur # rest))), 0, len)"
        using "1.hyps"(2) [OF True rs off_def chunk_def c part p] "1.prems" lt
        by (simp add: rs)
      moreover have "prod ?r + of_nat (length (concat (drop chunk cur # rest))) = prod r + of_nat (length (concat rs))"
        unfolding cc by (simp add: lc)
      moreover have "ring_puts (drop chunk cur) (ring_puts (take chunk cur) r) = ring_puts cur r"
        using ring_puts_simps(3) [of "take chunk cur" "drop chunk cur" r] by simp
      ultimately show ?thesis using True c p part
        by (subst write_chunks.simps) (simp add: rs off_def [symmetric] chunk_def [symmetric] Let_def)
    qed
  qed
qed

definition wire_request :: "u32 \<Rightarrow> nat \<Rightarrow> u64 \<Rightarrow> u8 list list \<Rightarrow> u8 list" where
  "wire_request ty i tx req = msg_bytes (request_header ty i tx req) @ concat req"

lemma length_wire_request: "length (wire_request ty i tx req) = msg_size + length (concat req)"
  by (simp add: wire_request_def)

lemma unat_small: "n < 2 ^ 32 \<Longrightarrow> unat (of_nat n :: u32) = n"
  by (simp add: unsigned_of_nat take_bit_nat_eq_self)

lemma sint_of_small: "n < 2 ^ 31 \<Longrightarrow> sint (of_nat n :: u32) = int n"
  by (simp add: signed_of_nat signed_take_bit_int_eq_self)

text \<open>What the ring is after a message of \<open>n\<close> bytes, if the check behind the loop lets it pass.\<close>

lemma xb_write_locked_eq:
  assumes ok: "xs_ring (xreq x)" and fits: "filled (xreq x) + length (wire_request ty i tx req) \<le> XENSTORE_RING_SIZE"
  defines "r \<equiv> ring_puts (wire_request ty i tx req) (xreq x)"
  shows "xb_write_locked ty i tx req x =
     bug_on (prod r > cons r + of_nat XENSTORE_RING_SIZE)
       (Inr (x\<lparr>xreq := r, store_notified := store_notified x + 1\<rparr>))"
    and "request_len req + of_nat msg_size = of_nat (length (wire_request ty i tx req))"
    and "sint (request_len req + of_nat msg_size) = int (length (wire_request ty i tx req))"
proof -
  define m where "m = request_header ty i tx req"
  define n where "n = length (wire_request ty i tx req)"
  have n: "n = length (concat (msg_bytes m # req))" by (simp add: n_def length_wire_request)
  have w: "wire_request ty i tx req = concat (msg_bytes m # req)" by (simp add: wire_request_def m_def)
  have n1: "n \<le> 1024" using fits by (simp add: n_def XENSTORE_RING_SIZE_def)
  show a: "request_len req + of_nat msg_size = of_nat (length (wire_request ty i tx req))"
    by (simp add: request_len_def length_wire_request)
  show b: "sint (request_len req + of_nat msg_size) = int (length (wire_request ty i tx req))"
    unfolding a by (rule sint_of_small) (use n1 n_def in simp)
  have l: "mlen m + of_nat msg_size = of_nat n" using a by (simp add: m_def request_header_def n_def)
  have sl: "sint (of_nat n :: u32) = int n" by (rule sint_of_small) (use n1 in simp)
  have wc: "write_chunks (rbuf (xreq x)) (prod (xreq x)) (msg_bytes m # req) 0 0 (int n) =
      Inr (rbuf r, prod r, 0, int n)"
    using write_chunks_puts [of "xreq x" 0 "msg_bytes m # req" "int n" 0] xs_ringD(2) [OF ok] n w
    by (simp add: r_def)
  have rr: "(xreq x)\<lparr>rbuf := rbuf r, prod := prod (xreq x) + of_nat n\<rparr> = r"
    by (rule ring.equality) (simp_all add: r_def n_def)
  show "xb_write_locked ty i tx req x =
     bug_on (prod r > cons r + of_nat XENSTORE_RING_SIZE)
       (Inr (x\<lparr>xreq := r, store_notified := store_notified x + 1\<rparr>))"
    using wc rr by (simp add: xb_write_locked_def Let_def m_def [symmetric] l sl r_def)
qed

text \<open>
  The check compares two indices that wrap around at \<open>2 ^ 32\<close>.  It fires when the end of the ring
  has wrapped and the new index has not.
\<close>

definition index_wraps :: "ring \<Rightarrow> nat \<Rightarrow> bool" where
  "index_wraps r n = (unat (cons r) + filled r + n < 2 ^ 32 \<and> 2 ^ 32 \<le> unat (cons r) + XENSTORE_RING_SIZE)"

lemma index_check:
  assumes "filled r + n \<le> XENSTORE_RING_SIZE"
  shows "(prod r + of_nat n > cons r + of_nat XENSTORE_RING_SIZE) = index_wraps r n"
proof -
  have p: "prod r = cons r + of_nat (filled r)" by (simp add: filled_def)
  have s: "unat (cons r + of_nat k) = (unat (cons r) + k) mod 2 ^ 32" for k
    using unat_add_mod [of 32 "cons r" k] unat_less_pow [of "cons r + of_nat k"] by simp
  have "prod r + of_nat n = cons r + of_nat (filled r + n)" using p by simp
  then have "(prod r + of_nat n > cons r + of_nat XENSTORE_RING_SIZE) =
      ((unat (cons r) + XENSTORE_RING_SIZE) mod 2 ^ 32 < (unat (cons r) + (filled r + n)) mod 2 ^ 32)"
    by (simp only: word_less_nat_alt s)
  moreover have "(a + k) mod 2 ^ 32 = (if a + k < 2 ^ 32 then a + k else a + k - 2 ^ 32)"
    if "a < 2 ^ 32" "k \<le> 1024" for a k :: nat
    using that by (simp add: mod_if)
  ultimately show ?thesis
    using assms unat_less_pow [of "cons r"] by (auto simp: index_wraps_def XENSTORE_RING_SIZE_def)
qed

lemma xb_write_ok:
  assumes "xs_ring (xreq x)" and "filled (xreq x) + length (wire_request ty i tx req) \<le> XENSTORE_RING_SIZE"
    and "\<not> index_wraps (xreq x) (length (wire_request ty i tx req))"
  shows "\<exists>r. xb_write me w ty i tx req x s = Inr (True, x\<lparr>xreq := r, store_notified := store_notified x + 1\<rparr>, s) \<and>
     xs_ring r \<and> cons r = cons (xreq x) \<and>
     ring_content r = ring_content (xreq x) @ msg_bytes (request_header ty i tx req) @ concat req"
proof -
  let ?n = "length (wire_request ty i tx req)" and ?r = "ring_puts (wire_request ty i tx req) (xreq x)"
  note E = xb_write_locked_eq [OF assms(1,2)]
  have "filled (xreq x) + ?n \<le> length (rbuf (xreq x))"
    using assms(2) xs_ringD(2) [OF assms(1)] by (simp add: XENSTORE_RING_SIZE_def)
  note P = ring_puts_props [OF xs_ringD(1) [OF assms(1)] this]
  have "prod (xreq x) + of_nat ?n - cons (xreq x) = of_nat (filled (xreq x) + ?n)" by (simp add: filled_def)
  then have "has_room (of_nat ?n) (xreq x)"
    using assms(2) by (simp add: has_room_def word_le_nat_alt unsigned_of_nat XENSTORE_RING_SIZE_def take_bit_nat_eq_self
        del: of_nat_add)
  moreover have "\<not> prod ?r > cons ?r + of_nat XENSTORE_RING_SIZE"
    using index_check [OF assms(2)] assms(3) by simp
  ultimately have "xb_write me w ty i tx req x s = Inr (True, x\<lparr>xreq := ?r, store_notified := store_notified x + 1\<rparr>, s)"
    unfolding xb_write_def E(1,2) Let_def using E(3) assms(2) by (simp add: E(2) del: ring_puts_fields)
  moreover have "xs_ring ?r" using P(2) assms(1) by (simp add: xs_ring_def)
  ultimately show ?thesis using P(1) by (auto simp: wire_request_def)
qed

text \<open>
  When the ring has room and its indices do not straddle \<open>2 ^ 32\<close>, \<open>xb_write\<close> appends exactly
  the header, which carries the request number, the transaction and the length, and the bytes of the
  requests, however the message is cut at the end of the buffer; it notifies the daemon and changes
  nothing else.
\<close>

theorem xb_write_appends:
  assumes "xs_ring (xreq x)" and "filled (xreq x) + length (wire_request ty i tx req) \<le> XENSTORE_RING_SIZE"
    and "\<not> index_wraps (xreq x) (length (wire_request ty i tx req))"
  shows "\<exists>r. xb_write me w ty i tx req x s = Inr (True, x\<lparr>xreq := r, store_notified := store_notified x + 1\<rparr>, s) \<and>
     xs_ring r \<and> cons r = cons (xreq x) \<and>
     ring_content r = ring_content (xreq x) @ msg_bytes (request_header ty i tx req) @ concat req"
  using xb_write_ok [OF assms] .

text \<open>A driver with empty rings whose indices stand at \<open>i\<close>, all slots free and memory enough.\<close>

definition idle_ring :: "u32 \<Rightarrow> ring" where
  "idle_ring i = \<lparr>rbuf = replicate 1024 0, prod = i, cons = i\<rparr>"

definition demo_xenbus :: "u32 \<Rightarrow> xenbus" where
  "demo_xenbus i = \<lparr>xreq = idle_ring i, xrsp = idle_ring 0, suspending = False, thread_prod = 0,
     req_info = replicate 32 \<lparr>in_use = False, reply = 0\<rparr>, nr_live_reqs = 0, probe = 0, watches = [],
     objs = Map.empty, next_ptr = 1, alloc_ok = (\<lambda>_. True), bad_frees = [], store_notified = 0\<rparr>"

lemma idle_ring_simps [simp]:
  "length (rbuf (idle_ring i)) = 1024" "filled (idle_ring i) = 0" "ring_content (idle_ring i) = []"
  "cons (idle_ring i) = i" "prod (idle_ring i) = i" "xs_ring (idle_ring i)"
proof -
  show "length (rbuf (idle_ring i)) = 1024" "filled (idle_ring i) = 0" "ring_content (idle_ring i) = []"
    "cons (idle_ring i) = i" "prod (idle_ring i) = i"
    by (simp_all add: idle_ring_def filled_def ring_content_def)
  have "\<exists>k < 32. length (rbuf (idle_ring i)) = 2 ^ k" by (intro exI [of _ 10]) (simp add: idle_ring_def)
  moreover have "filled (idle_ring i) = 0" "length (rbuf (idle_ring i)) = 1024" by (simp_all add: idle_ring_def filled_def)
  ultimately show "xs_ring (idle_ring i)" by (auto simp: xs_ring_def ring_ok_def XENSTORE_RING_SIZE_def)
qed

lemma demo_xenbus_simps [simp]:
  "xreq (demo_xenbus i) = idle_ring i" "xrsp (demo_xenbus i) = idle_ring 0" "objs (demo_xenbus i) = Map.empty"
  "req_info (demo_xenbus i) = replicate 32 \<lparr>in_use = False, reply = 0\<rparr>" "nr_live_reqs (demo_xenbus i) = 0"
  "probe (demo_xenbus i) = 0" "watches (demo_xenbus i) = []" "next_ptr (demo_xenbus i) = 1"
  "alloc_ok (demo_xenbus i) n" "bad_frees (demo_xenbus i) = []" "\<not> suspending (demo_xenbus i)"
  by (simp_all add: demo_xenbus_def)

theorem xb_write_appends_witness:
  "\<exists>r. xb_write 0 0 XS_READ 3 0 (read_request (lit ''domid'')) (demo_xenbus 1020) demo_sched =
       Inr (True, (demo_xenbus 1020)\<lparr>xreq := r, store_notified := store_notified (demo_xenbus 1020) + 1\<rparr>, demo_sched) \<and>
     xs_ring r \<and> cons r = cons (xreq (demo_xenbus 1020)) \<and>
     ring_content r = ring_content (xreq (demo_xenbus 1020)) @
       msg_bytes (request_header XS_READ 3 0 (read_request (lit ''domid''))) @ concat (read_request (lit ''domid''))"
  by (rule xb_write_appends)
     (simp_all add: length_wire_request msg_size_def XENSTORE_RING_SIZE_def read_request_def zstring_def lit_def index_wraps_def)

text \<open>
  Once the consumer's index is within a ring of \<open>2 ^ 32\<close>, a message that fits stops the domain
  with a \<^verbatim>\<open>BUG_ON\<close> although there is room: the end of the ring has wrapped, the new index has not.
\<close>

theorem xb_write_index_wrap:
  assumes "xs_ring (xreq x)" and "filled (xreq x) + length (wire_request ty i tx req) \<le> XENSTORE_RING_SIZE"
    and "2 ^ 32 \<le> unat (cons (xreq x)) + XENSTORE_RING_SIZE"
    and "unat (cons (xreq x)) + filled (xreq x) + length (wire_request ty i tx req) < 2 ^ 32"
  shows "xb_write me w ty i tx req x s = Inl Bug"
proof -
  let ?n = "length (wire_request ty i tx req)" and ?r = "ring_puts (wire_request ty i tx req) (xreq x)"
  note E = xb_write_locked_eq [OF assms(1,2)]
  have "prod (xreq x) + of_nat ?n - cons (xreq x) = of_nat (filled (xreq x) + ?n)" by (simp add: filled_def)
  then have "has_room (of_nat ?n) (xreq x)"
    using assms(2) by (simp add: has_room_def word_le_nat_alt unsigned_of_nat XENSTORE_RING_SIZE_def take_bit_nat_eq_self
        del: of_nat_add)
  moreover have "prod ?r > cons ?r + of_nat XENSTORE_RING_SIZE"
    using index_check [OF assms(2)] assms(3,4) by (simp add: index_wraps_def)
  ultimately show ?thesis
    unfolding xb_write_def E(1,2) Let_def using E(3) assms(2) by (simp add: E(2) del: ring_puts_fields)
qed

theorem xb_write_index_wrap_witness:
  "xb_write 0 0 XS_READ 3 0 (read_request (lit ''domid'')) (demo_xenbus (- 1024)) demo_sched = Inl Bug"
  by (rule xb_write_index_wrap)
     (simp_all add: length_wire_request msg_size_def XENSTORE_RING_SIZE_def read_request_def zstring_def lit_def)

section \<open>Request numbers\<close>

definition ids_ok :: "xenbus \<Rightarrow> bool" where
  "ids_ok x = (length (req_info x) = NR_REQS \<and> probe x < NR_REQS \<and>
     nr_live_reqs x = int (card {i. i < NR_REQS \<and> in_use (req_info x ! i)}))"

lemma probe_loop_finds:
  assumes l: "length rs = NR_REQS" and start: "start < NR_REQS"
  shows "n + k = NR_REQS \<Longrightarrow> k \<le> j \<Longrightarrow> j < NR_REQS \<Longrightarrow> \<not> in_use (rs ! ((start + j) mod NR_REQS)) \<Longrightarrow>
     \<exists>i. probe_loop n rs start ((start + k) mod NR_REQS) = Inr i \<and> i < NR_REQS \<and> \<not> in_use (rs ! i)"
proof (induction n arbitrary: k)
  case (Suc n)
  let ?i = "(start + k) mod NR_REQS"
  have i: "?i < NR_REQS" by (simp add: NR_REQS_def)
  show ?case
  proof (cases "in_use (rs ! ?i)")
    case True
    then have k: "Suc k \<le> j" using Suc.prems(2,4) by (cases "k = j") auto
    have "(?i + 1) mod NR_REQS = (start + Suc k) mod NR_REQS" by (simp add: mod_Suc_eq)
    moreover have "(start + Suc k) mod NR_REQS \<noteq> start"
    proof
      assume e: "(start + Suc k) mod NR_REQS = start"
      have "Suc k < NR_REQS" using k Suc.prems(3) by simp
      then show False using e start by (cases "start + Suc k < NR_REQS") (simp_all add: le_mod_geq)
    qed
    moreover obtain i' where "probe_loop n rs start ((start + Suc k) mod NR_REQS) = Inr i'" "i' < NR_REQS" "\<not> in_use (rs ! i')"
      using Suc.IH [of "Suc k"] Suc.prems k by auto
    ultimately show ?thesis using True i l by (simp add: Let_def)
  next
    case False
    then show ?thesis using i l by simp
  qed
qed simp

lemma take_id_ok:
  assumes "ids_ok x" and "id_free x"
  shows "\<exists>i x'. take_id x s = Inr (i, x', init_waitqueue_head (reply_waitq i) s) \<and> i < NR_REQS \<and>
     \<not> in_use (req_info x ! i) \<and> in_use (req_info x' ! i) \<and>
     req_info x' = (req_info x)[i := req_info x' ! i] \<and> ids_ok x'"
proof -
  let ?U = "{i. i < NR_REQS \<and> in_use (req_info x ! i)}"
  have l: "length (req_info x) = NR_REQS" "probe x < NR_REQS" "nr_live_reqs x = int (card ?U)"
    using assms(1) by (simp_all add: ids_ok_def)
  have "card ?U < NR_REQS" using assms(2) l(3) by (simp add: id_free_def)
  then have "?U \<noteq> {..<NR_REQS}" by (metis card_lessThan less_irrefl)
  then obtain f where f: "f < NR_REQS" "\<not> in_use (req_info x ! f)" by blast
  define j where "j = (f + NR_REQS - probe x) mod NR_REQS"
  have j: "j < NR_REQS" "(probe x + j) mod NR_REQS = f"
    using f(1) l(2) by (simp_all add: j_def NR_REQS_def mod_add_right_eq)
  obtain i where i: "probe_loop NR_REQS (req_info x) (probe x) (probe x) = Inr i" "i < NR_REQS" "\<not> in_use (req_info x ! i)"
    using probe_loop_finds [OF l(1,2), of NR_REQS 0 j] j f(2) l(2) by auto
  define x' where "x' = x\<lparr>nr_live_reqs := nr_live_reqs x + 1, probe := (i + 1) mod NR_REQS,
                req_info := (req_info x)[i := (req_info x ! i)\<lparr>in_use := True\<rparr>]\<rparr>"
  have t: "take_id x s = Inr (i, x', init_waitqueue_head (reply_waitq i) s)" using i(1) by (simp add: take_id_def x'_def)
  have u: "{j. j < NR_REQS \<and> in_use (req_info x' ! j)} = insert i ?U"
    using i(2) l(1) by (auto simp: x'_def nth_list_update)
  have "ids_ok x'" using l i u by (simp add: ids_ok_def) (simp add: x'_def NR_REQS_def)
  then show ?thesis using t i l(1) by (auto simp: x'_def)
qed

text \<open>
  While fewer than 32 requests are live, a request number is found without a fault; it was not in
  use, it is in use afterwards, all other slots are as before, and the count of live requests stays
  right.
\<close>

theorem take_id_fresh:
  assumes "ids_ok x" and "id_free x"
  shows "\<exists>i x'. take_id x s = Inr (i, x', init_waitqueue_head (reply_waitq i) s) \<and> i < NR_REQS \<and>
     \<not> in_use (req_info x ! i) \<and> in_use (req_info x' ! i) \<and>
     req_info x' = (req_info x)[i := req_info x' ! i] \<and> ids_ok x'"
  using take_id_ok [OF assms] .

theorem take_id_fresh_witness:
  "\<exists>i x'. take_id (demo_xenbus 0) demo_sched = Inr (i, x', init_waitqueue_head (reply_waitq i) demo_sched) \<and> i < NR_REQS \<and>
     \<not> in_use (req_info (demo_xenbus 0) ! i) \<and> in_use (req_info x' ! i) \<and>
     req_info x' = (req_info (demo_xenbus 0))[i := req_info x' ! i] \<and> ids_ok x'"
  by (rule take_id_fresh) (simp_all add: ids_ok_def id_free_def NR_REQS_def)

lemma release_keeps_ids:
  assumes "ids_ok x" and "release_xenbus_id me i x s = Inr (x', s')"
  shows "ids_ok x'" and "in_use (req_info x ! i)" and "\<not> in_use (req_info x' ! i)"
proof -
  let ?U = "{j. j < NR_REQS \<and> in_use (req_info x ! j)}"
  have l: "length (req_info x) = NR_REQS" "probe x < NR_REQS" "nr_live_reqs x = int (card ?U)"
    using assms(1) by (simp_all add: ids_ok_def)
  have i: "i < NR_REQS" "in_use (req_info x ! i)"
    and x': "x' = x\<lparr>nr_live_reqs := nr_live_reqs x - 1, req_info := (req_info x)[i := (req_info x ! i)\<lparr>in_use := False\<rparr>]\<rparr>"
    using assms(2) l(1) by (auto simp: release_xenbus_id_def res_simps aget_eq_Inr Let_def split: if_splits)
  show "in_use (req_info x ! i)" by (rule i(2))
  show "\<not> in_use (req_info x' ! i)" using i l(1) by (simp add: x')
  have u: "{j. j < NR_REQS \<and> in_use (req_info x' ! j)} = ?U - {i}"
    using i l(1) by (auto simp: x' nth_list_update)
  have "card ?U = Suc (card (?U - {i}))" using i by (intro card.remove) auto
  then show "ids_ok x'" using l u by (simp add: ids_ok_def) (simp add: x')
qed

section \<open>The queue of a watch\<close>

definition pending :: "xenbus_watch \<Rightarrow> nat list" where
  "pending w = map (\<lambda>i. paths w ! nat (i mod MAX_PATHS)) [path_cons_idx w..path_prod_idx w - 1]"

definition watch_ok :: "xenbus_watch \<Rightarrow> bool" where
  "watch_ok w = (length (paths w) = 10 \<and> 0 \<le> path_cons_idx w \<and> path_cons_idx w \<le> path_prod_idx w)"

definition posted :: "nat \<Rightarrow> xenbus_watch \<Rightarrow> xenbus_watch" where
  "posted q w = w\<lparr>path_prod_idx := path_prod_idx w + 1, paths := (paths w)[nat (path_prod_idx w mod MAX_PATHS) := q]\<rparr>"

lemma length_pending: "length (pending w) = nat (path_prod_idx w - path_cons_idx w)"
  by (simp add: pending_def)

lemma same_slot:
  assumes "(i :: int) mod 10 = p mod 10" and "p - 10 \<le> i" and "i < p"
  shows "i = p - 10"
proof -
  have "10 dvd p - i" using assms(1) by (metis mod_eq_dvd_iff)
  moreover have "0 < p - i" "p - i \<le> 10" using assms(2,3) by simp_all
  ultimately show ?thesis by (auto dest: zdvd_imp_le)
qed

lemma pending_posted:
  assumes ok: "watch_ok w" and n: "length (pending w) \<le> 10"
  shows "pending (posted q w) = (if length (pending w) = 10 then q # tl (pending w) @ [q] else pending w @ [q])"
    and "watch_ok (posted q w)"
proof -
  let ?c = "path_cons_idx w" and ?p = "path_prod_idx w"
  let ?f = "\<lambda>i. paths w ! nat (i mod 10)" and ?g = "\<lambda>i. (paths w)[nat (?p mod 10) := q] ! nat (i mod 10)"
  have b: "0 \<le> ?c" "?c \<le> ?p" "?p - 10 \<le> ?c" "length (paths w) = 10"
    using ok n by (auto simp: watch_ok_def length_pending)
  have last: "?g ?p = q" using b(4) by (simp add: nat_less_iff)
  have other: "?g i = ?f i" if "?p - 10 < i" "i < ?p" for i
  proof -
    have "i mod 10 \<noteq> ?p mod 10" using that same_slot [of i ?p] by auto
    then have "nat (?p mod 10) \<noteq> nat (i mod 10)" by (simp add: eq_nat_nat_iff)
    then show ?thesis by (rule nth_list_update_neq)
  qed
  have e: "pending (posted q w) = map ?g [?c..?p]" by (simp add: pending_def posted_def MAX_PATHS_def)
  have u: "[?c..?p] = [?c..?p - 1] @ [?p]" using b(2) by (rule upto_rec2)
  show "pending (posted q w) = (if length (pending w) = 10 then q # tl (pending w) @ [q] else pending w @ [q])"
  proof (cases "length (pending w) = 10")
    case True
    then have cp: "?c = ?p - 10" using b by (simp add: length_pending)
    have h: "?g ?c = q" using b(4) cp by (simp add: nat_less_iff)
    have "[?c..?p - 1] = ?c # [?c + 1..?p - 1]" using cp by (simp add: upto_rec1)
    then have "map ?g [?c..?p] = q # map ?g [?c + 1..?p - 1] @ [q]" "tl (pending w) = map ?f [?c + 1..?p - 1]"
      using u last h by (simp_all add: pending_def MAX_PATHS_def)
    moreover have "map ?g [?c + 1..?p - 1] = map ?f [?c + 1..?p - 1]"
      by (rule map_cong [OF refl]) (use other cp in auto)
    ultimately show ?thesis using e True by simp
  next
    case False
    then have cp: "?p - 10 < ?c" using b by (simp add: length_pending)
    have "map ?g [?c..?p - 1] = map ?f [?c..?p - 1]" by (rule map_cong [OF refl]) (use other cp in auto)
    then show ?thesis using e u last False by (simp add: pending_def MAX_PATHS_def)
  qed
  show "watch_ok (posted q w)" using ok by (simp add: watch_ok_def posted_def)
qed

lemma map_of_upd_watch:
  "map_of (watches (upd_watch p f x)) p = map_option f (map_of (watches x) p)"
proof -
  have "map_of (map (\<lambda>(q, w). if q = p then (q, f w) else (q, w)) ws) p = map_option f (map_of ws p)" for ws
    by (induction ws) auto
  then show ?thesis by (simp add: upd_watch_def)
qed

lemma post_event_result:
  assumes w: "map_of (watches x) p = Some w" "watch_ok w" "length (pending w) \<le> 10"
    and a: "alloc_ok x (next_ptr x)"
    and i: "sched_inv s v" "watcher w \<noteq> 0 \<Longrightarrow> wakeable s v (watcher w)"
  shows "\<exists>x' s' v'. post_event me p w t x s = Inr (x', s') \<and> map_of (watches x') p = Some (posted (next_ptr x) w) \<and>
     objs x' = (objs x)(next_ptr x \<mapsto> Bytes (zstring t)) \<and> sched_inv s' v' \<and>
     (watcher w \<noteq> 0 \<and> \<not> is_hibernating s (watcher w) \<and> \<not> is_suspended s (watcher w) \<longrightarrow> watcher w \<in> set (v_ready v'))"
proof -
  let ?x1 = "x\<lparr>objs := (objs x)(next_ptr x \<mapsto> Bytes (zstring t)), next_ptr := next_ptr x + 1\<rparr>"
  let ?x2 = "upd_watch p (posted (next_ptr x)) ?x1"
  have nb: "\<not> path_prod_idx w - path_cons_idx w > MAX_PATHS" using w(3) by (simp add: length_pending MAX_PATHS_def)
  have m: "map_of (watches ?x2) p = Some (posted (next_ptr x) w)" using w(1) by (simp add: map_of_upd_watch)
  have ob: "objs ?x2 = (objs x)(next_ptr x \<mapsto> Bytes (zstring t))" by (simp add: upd_watch_def)
  have u: "(\<lambda>w. w\<lparr>path_prod_idx := path_prod_idx w + 1, paths := (paths w)[nat (path_prod_idx w mod MAX_PATHS) := q]\<rparr>) = posted q" for q
    by (simp add: posted_def fun_eq_iff)
  have sd: "strdup t x = (next_ptr x, ?x1)" using a by (simp add: strdup_def xalloc_def zstring_def)
  show ?thesis
  proof (cases "watcher w = 0")
    case True
    then have "post_event me p w t x s = Inr (?x2, s)" using nb by (simp add: post_event_def sd u Let_def)
    then show ?thesis using m ob i(1) True by blast
  next
    case False
    obtain s1 where s1: "wake me (watcher w) s = Inr s1" "sched_inv s1 (a_wake s (watcher w) v)"
      using wake_inv [OF i(1) i(2) [OF False]] by blast
    then have "post_event me p w t x s = Inr (?x2, s1)" using nb False by (simp add: post_event_def sd u Let_def)
    moreover have "\<not> is_hibernating s (watcher w) \<Longrightarrow> \<not> is_suspended s (watcher w) \<Longrightarrow>
        watcher w \<in> set (v_ready (a_wake s (watcher w) v))" by (simp add: a_wake_def)
    ultimately show ?thesis using m ob s1(2) by blast
  qed
qed

text \<open>
  A watch keeps its events in order while at most ten are unread: an event is appended behind the
  unread ones, its path is copied, the thread that waits for the watch becomes ready; and reading takes
  the oldest event and leaves the others.
\<close>

theorem watch_events_in_order:
  assumes "map_of (watches x) p = Some w" and "watch_ok w" and "length (pending w) < 10"
    and "alloc_ok x (next_ptr x)" and "sched_inv s v" and "watcher w \<noteq> 0 \<Longrightarrow> wakeable s v (watcher w)"
  shows "\<exists>x' s' v' w'. post_event me p w t x s = Inr (x', s') \<and> map_of (watches x') p = Some w' \<and> watch_ok w' \<and>
     pending w' = pending w @ [next_ptr x] \<and> objs x' = (objs x)(next_ptr x \<mapsto> Bytes (zstring t)) \<and> sched_inv s' v' \<and>
     (watcher w \<noteq> 0 \<and> \<not> is_hibernating s (watcher w) \<and> \<not> is_suspended s (watcher w) \<longrightarrow> watcher w \<in> set (v_ready v')) \<and>
     (\<exists>x'' w''. read_watch_again me p x' s' = Inr (Some (hd (pending w')), x'', s') \<and>
        map_of (watches x'') p = Some w'' \<and> pending w'' = tl (pending w'))"
proof -
  let ?w = "posted (next_ptr x) w"
  have n: "length (pending w) \<le> 10" using assms(3) by simp
  obtain x' s' v' where P: "post_event me p w t x s = Inr (x', s')" "map_of (watches x') p = Some ?w"
    "objs x' = (objs x)(next_ptr x \<mapsto> Bytes (zstring t))" "sched_inv s' v'"
    "watcher w \<noteq> 0 \<and> \<not> is_hibernating s (watcher w) \<and> \<not> is_suspended s (watcher w) \<longrightarrow> watcher w \<in> set (v_ready v')"
    using post_event_result [OF assms(1,2) n assms(4-6), of me t] by blast
  note Q = pending_posted [OF assms(2) n, of "next_ptr x"]
  let ?f = "\<lambda>w. w\<lparr>path_cons_idx := path_cons_idx w + 1, watcher := 0\<rparr>"
  have lt: "path_cons_idx ?w < path_prod_idx ?w" using assms(2) by (simp add: posted_def watch_ok_def)
  then have up: "[path_cons_idx ?w..path_prod_idx ?w - 1] = path_cons_idx ?w # [path_cons_idx ?w + 1..path_prod_idx ?w - 1]"
    by (simp add: upto_rec1)
  have "read_watch_again me p x' s' = Inr (Some (hd (pending ?w)), upd_watch p ?f x', s')"
    using P(2) lt up by (simp add: read_watch_again_def pending_def)
  moreover have "map_of (watches (upd_watch p ?f x')) p = Some (?f ?w)" using P(2) by (simp add: map_of_upd_watch)
  moreover have "pending (?f ?w) = tl (pending ?w)" using up by (simp add: pending_def)
  ultimately show ?thesis using P Q assms(3) by auto
qed

definition demo_watch :: xenbus_watch where
  "demo_watch = \<lparr>token = [116], path = [112], path_prod_idx = 12, path_cons_idx = 10, paths = [41, 42, 0, 0, 0, 0, 0, 0, 0, 0], watcher = 6\<rparr>"

definition watching :: "xenbus_watch \<Rightarrow> xenbus" where
  "watching w = (demo_xenbus 0)\<lparr>watches := [(7, w)], next_ptr := 50\<rparr>"

lemma demo_wakeable: "wakeable demo_sched demo_view 6"
  using demo_waits [of 6] by (simp add: wakeable_def demo_view_def)

theorem watch_events_in_order_witness:
  "\<exists>x' s' w'. post_event 0 7 demo_watch [97] (watching demo_watch) demo_sched = Inr (x', s') \<and>
     map_of (watches x') 7 = Some w' \<and> pending w' = [41, 42, 50] \<and>
     (\<exists>x''. read_watch_again 0 7 x' s' = Inr (Some 41, x'', s'))"
proof -
  have p: "pending demo_watch = [41, 42]" by code_simp
  show ?thesis
    using watch_events_in_order [of "watching demo_watch" 7 demo_watch demo_sched demo_view 0 "[97]"] demo_wakeable demo_inv p
    by (auto simp: watching_def watch_ok_def demo_watch_def demo_xenbus_def)
qed

text \<open>
  The check that a watch has room is off by one: with ten events unread another one is accepted and
  overwrites the slot of the oldest, whose path is never read.
\<close>

theorem eleventh_event_overwrites:
  assumes "map_of (watches x) p = Some w" and "watch_ok w" and "length (pending w) = 10"
    and "alloc_ok x (next_ptr x)" and "sched_inv s v" and "watcher w \<noteq> 0 \<Longrightarrow> wakeable s v (watcher w)"
  shows "\<exists>x' s' w'. post_event me p w t x s = Inr (x', s') \<and> map_of (watches x') p = Some w' \<and>
     pending w' = next_ptr x # tl (pending w) @ [next_ptr x]"
proof -
  have n: "length (pending w) \<le> 10" using assms(3) by simp
  show ?thesis
    using post_event_result [OF assms(1,2) n assms(4-6), of me t] pending_posted [OF assms(2) n, of "next_ptr x"] assms(3)
    by auto
qed

theorem eleventh_event_overwrites_witness:
  "\<exists>x' s' w'. post_event 0 7 (demo_watch\<lparr>path_cons_idx := 2\<rparr>) [97] (watching (demo_watch\<lparr>path_cons_idx := 2\<rparr>)) demo_sched =
       Inr (x', s') \<and> map_of (watches x') 7 = Some w' \<and> pending w' = 50 # tl (pending (demo_watch\<lparr>path_cons_idx := 2\<rparr>)) @ [50]"
proof -
  have p: "length (pending (demo_watch\<lparr>path_cons_idx := 2\<rparr>)) = 10" by (simp add: length_pending demo_watch_def)
  have w: "watch_ok (demo_watch\<lparr>path_cons_idx := 2\<rparr>)" by (simp add: watch_ok_def demo_watch_def)
  show ?thesis
    using eleventh_event_overwrites [of "watching (demo_watch\<lparr>path_cons_idx := 2\<rparr>)" 7 "demo_watch\<lparr>path_cons_idx := 2\<rparr>" demo_sched demo_view 0 "[97]",
        OF _ w p _ demo_inv] demo_wakeable
    by (auto simp: watching_def demo_watch_def demo_xenbus_def)
qed

section \<open>Strings\<close>

lemma c_str_append: "0 \<notin> set t \<Longrightarrow> c_str (xs @ t @ 0 # ys) (length xs) t"
proof (induction t arbitrary: xs)
  case (Cons c t)
  then show ?case using Cons.IH [of "xs @ [c]"] by (auto simp: nth_append)
qed simp

lemma cstring_append: "0 \<notin> set t \<Longrightarrow> cstring (xs @ t @ 0 # ys) (length xs) = Inr t"
  by (simp add: cstring_def strlen_spec [OF c_str_append])

section \<open>Replies\<close>

text \<open>A message with its payload.\<close>

definition wire :: "sockmsg \<Rightarrow> u8 list \<Rightarrow> u8 list" where
  "wire m b = msg_bytes m @ b"

definition wire_ok :: "sockmsg \<Rightarrow> u8 list \<Rightarrow> bool" where
  "wire_ok m b = (unat (mlen m) = length b \<and> mlen m + 1 \<noteq> 0)"

lemma wire_simps [simp]:
  "length (wire m b) = msg_size + length b" "msg_of_bytes (wire m b) = m" "drop msg_size (wire m b) = b"
  by (simp_all add: wire_def)

lemma payload_wire: "wire_ok m b \<Longrightarrow> payload (wire m b) = b"
  by (simp add: payload_def wire_ok_def)

lemma xalloc_used_ok:
  "alloc_ok x (next_ptr x) \<Longrightarrow> next_ptr x \<noteq> 0 \<Longrightarrow>
     xalloc_used ob x = Inr (next_ptr x, x\<lparr>objs := (objs x)(next_ptr x \<mapsto> ob), next_ptr := next_ptr x + 1\<rparr>)"
  by (simp add: xalloc_used_def xalloc_def)

lemma payload_copy_wire:
  assumes "wire_ok m b" and "alloc_ok x (next_ptr x)" and "next_ptr x \<noteq> 0"
  shows "payload_copy (wire m b) x =
     Inr (next_ptr x, x\<lparr>objs := (objs x)(next_ptr x \<mapsto> Bytes (zstring b)), next_ptr := next_ptr x + 1\<rparr>)"
  using assms payload_wire [OF assms(1)] by (auto simp: payload_copy_def xalloc_used_ok zstring_def wire_ok_def)

lemma errmsg_good:
  "objs x rep = Some (Bytes (wire m b)) \<Longrightarrow> rep \<noteq> 0 \<Longrightarrow> mtype m \<noteq> XS_ERROR \<Longrightarrow> errmsg rep x = Inr (0, x)"
  by (simp add: errmsg_def get_bytes_def)

lemma errmsg_error:
  assumes "objs x rep = Some (Bytes (wire m b))" and "rep \<noteq> 0" and "mtype m = XS_ERROR"
    and "wire_ok m b" and "alloc_ok x (next_ptr x)" and "next_ptr x \<noteq> 0" and "rep \<noteq> next_ptr x"
  shows "errmsg rep x = Inr (next_ptr x,
     x\<lparr>objs := (objs x)(next_ptr x \<mapsto> Bytes (zstring b), rep := None), next_ptr := next_ptr x + 1\<rparr>)"
  using assms by (simp add: errmsg_def get_bytes_def payload_copy_wire xfree_obj_def)

text \<open>
  \<open>xenbus_read\<close> gives the payload of a good reply as a new zero-terminated string and no message, and
  the text of an error reply as the message and no value; either way it frees the reply exactly once and
  leaves all other objects alone.
\<close>

theorem value_reply_result:
  assumes "objs x rep = Some (Bytes (wire m b))" and "rep \<noteq> 0" and "rep < next_ptr x" and "wire_ok m b"
    and "alloc_ok x (next_ptr x)"
  shows "value_reply rep x = Inr (if mtype m = XS_ERROR then next_ptr x else 0, if mtype m = XS_ERROR then 0 else next_ptr x,
     x\<lparr>objs := (objs x)(next_ptr x \<mapsto> Bytes (zstring b), rep := None), next_ptr := next_ptr x + 1\<rparr>)"
proof -
  have n: "next_ptr x \<noteq> 0" "rep \<noteq> next_ptr x" using assms(3) by simp_all
  show ?thesis
  proof (cases "mtype m = XS_ERROR")
    case True
    then show ?thesis using errmsg_error [OF assms(1,2) True assms(4,5) n] n by (simp add: value_reply_def)
  next
    case False
    then show ?thesis
      using errmsg_good [OF assms(1,2) False] assms n
      by (simp add: value_reply_def get_bytes_def payload_copy_wire xfree_obj_def)
  qed
qed

definition answered :: "u32 \<Rightarrow> u8 list \<Rightarrow> xenbus" where
  "answered ty b = (demo_xenbus 0)\<lparr>objs := [5 \<mapsto> Bytes (wire \<lparr>mtype = ty, mreq_id = 0, mtx_id = 0, mlen = of_nat (length b)\<rparr> b)],
     next_ptr := 6\<rparr>"

theorem value_reply_result_witness:
  "value_reply 5 (answered XS_READ [49]) =
     Inr (0, 6, (answered XS_READ [49])\<lparr>objs := [6 \<mapsto> Bytes [49, 0]], next_ptr := 7\<rparr>)"
proof -
  have e: "(objs (answered XS_READ [49]))(6 \<mapsto> Bytes [49, 0], 5 := None) = [6 \<mapsto> Bytes [49, 0]]"
    by (auto simp: answered_def)
  show ?thesis
    using value_reply_result [of "answered XS_READ [49]" 5 "\<lparr>mtype = XS_READ, mreq_id = 0, mtx_id = 0, mlen = 1\<rparr>" "[49]"] e
    by (simp add: answered_def wire_ok_def zstring_def xs_types)
qed

text \<open>
  When the daemon refuses a watch, \<open>xenbus_watch_path\<close> takes the watch off the list again and
  returns the text of the error, but it frees the reply a second time.
\<close>

theorem refused_watch_double_free:
  assumes "objs x rep = Some (Bytes (wire m b))" and "rep \<noteq> 0" and "rep < next_ptr x" and "wire_ok m b"
    and "alloc_ok x (next_ptr x)" and "mtype m = XS_ERROR"
    and "watches x = (q, new_watch p t) # ws" and "q \<notin> fst ` set ws"
  shows "\<exists>x'. watch_reply rep t x = Inr (next_ptr x, x') \<and> watches x' = ws \<and>
     objs x' (next_ptr x) = (if q = next_ptr x then None else Some (Bytes (zstring b))) \<and> rep \<in> set (bad_frees x')"
proof -
  have n: "next_ptr x \<noteq> 0" "rep \<noteq> next_ptr x" using assms(3) by simp_all
  have f: "filter (\<lambda>(q', w). q' \<noteq> q) ws = ws" using assms(8) by (intro filter_True) force
  show ?thesis
    using errmsg_error [OF assms(1,2,6,4,5) n] assms n f
    by (auto simp: watch_reply_def Let_def find_watch_def xfree_obj_def drop_watch_def new_watch_def)
qed

theorem refused_watch_double_free_witness:
  "\<exists>x'. watch_reply 5 [116] ((answered XS_ERROR [69])\<lparr>watches := [(3, new_watch [112] [116])]\<rparr>) = Inr (6, x') \<and>
     watches x' = [] \<and> objs x' 6 = Some (Bytes [69, 0]) \<and> 5 \<in> set (bad_frees x')"
  using refused_watch_double_free
      [of "(answered XS_ERROR [69])\<lparr>watches := [(3, new_watch [112] [116])]\<rparr>" 5
          "\<lparr>mtype = XS_ERROR, mreq_id = 0, mtx_id = 0, mlen = 1\<rparr>" "[69]" 3 "[112]" "[116]" "[]"]
  by (simp add: answered_def wire_ok_def zstring_def xs_types)

section \<open>Directories\<close>

lemma nr_elems_names:
  assumes "\<And>t. t \<in> set names \<Longrightarrow> 0 \<notin> set t" and "wire_ok m (concat (map zstring names))"
  shows "nr_elems (wire m (concat (map zstring names))) = length names"
proof -
  have "length (filter (\<lambda>c. c = 0) (concat (map zstring names))) = length names"
    using assms(1)
  proof (induction names)
    case (Cons t names)
    then have "filter (\<lambda>c. c = 0) t = []" by (auto simp: filter_empty_conv)
    then show ?case using Cons by (simp add: zstring_def)
  qed simp
  then show ?thesis using payload_wire [OF assms(2)] by (simp add: nr_elems_def)
qed

lemma ls_loop_names:
  assumes "\<And>t. t \<in> set names \<Longrightarrow> 0 \<notin> set t" and "alloc_ok x = (\<lambda>_. True)" and "next_ptr x \<noteq> 0"
    and "b = hdr @ pre @ concat (map zstring names)" and "length hdr = msg_size"
  shows "\<exists>x'. ls_loop (length names) b (length pre) ps x = Inr (ps @ [next_ptr x..<next_ptr x + length names], x') \<and>
     next_ptr x' = next_ptr x + length names \<and> alloc_ok x' = alloc_ok x \<and> bad_frees x' = bad_frees x \<and>
     (\<forall>k < length names. objs x' (next_ptr x + k) = Some (Bytes (zstring (names ! k)))) \<and>
     (\<forall>p < next_ptr x. objs x' p = objs x p)"
  using assms
proof (induction names arbitrary: pre ps x)
  case (Cons t names)
  let ?x = "x\<lparr>objs := (objs x)(next_ptr x \<mapsto> Bytes (zstring t)), next_ptr := next_ptr x + 1\<rparr>"
  have b: "b = (hdr @ pre) @ t @ 0 # concat (map zstring names)" using Cons.prems(4) by (simp add: zstring_def [of t])
  have c: "cstring b (msg_size + length pre) = Inr t"
    using cstring_append [of t "hdr @ pre"] Cons.prems(1,5) unfolding b by simp
  have b': "b = hdr @ (pre @ zstring t) @ concat (map zstring names)" using Cons.prems(4) by simp
  have l: "length (pre @ zstring t) = length pre + length t + 1" by (simp add: zstring_def)
  obtain x' where x': "ls_loop (length names) b (length pre + length t + 1) (ps @ [next_ptr x]) ?x =
      Inr ((ps @ [next_ptr x]) @ [next_ptr ?x..<next_ptr ?x + length names], x')"
    "next_ptr x' = next_ptr ?x + length names" "alloc_ok x' = alloc_ok ?x" "bad_frees x' = bad_frees ?x"
    "\<forall>k < length names. objs x' (next_ptr ?x + k) = Some (Bytes (zstring (names ! k)))"
    "\<forall>p < next_ptr ?x. objs x' p = objs ?x p"
  proof -
    have p: "\<And>u. u \<in> set names \<Longrightarrow> 0 \<notin> set u" "alloc_ok ?x = (\<lambda>_. True)" "next_ptr ?x \<noteq> 0" using Cons.prems(1,2) by simp_all
    show thesis
      using Cons.IH [of ?x "pre @ zstring t" "ps @ [next_ptr x]", OF p b' Cons.prems(5)] that unfolding l by blast
  qed
  have "objs x' (next_ptr x + k) = Some (Bytes (zstring ((t # names) ! k)))" if "k < length (t # names)" for k
    using x'(5,6) that by (cases k) auto
  moreover have "next_ptr x # [Suc (next_ptr x)..<Suc (next_ptr x) + length names] = [next_ptr x..<next_ptr x + length (t # names)]"
    by (simp add: upt_conv_Cons del: upt_Suc)
  ultimately show ?case using x' c Cons.prems(2,3) by (simp add: xalloc_used_ok)
qed simp

text \<open>
  \<open>xenbus_ls\<close> gives the names of a directory: the array has the addresses of copies of the
  names, in order, with a null at its end, and the reply is freed.
\<close>

theorem ls_reply_names:
  assumes "objs x rep = Some (Bytes (wire m (concat (map zstring names))))" and "rep \<noteq> 0" and "rep < next_ptr x"
    and "wire_ok m (concat (map zstring names))" and "mtype m \<noteq> XS_ERROR" and "\<And>t. t \<in> set names \<Longrightarrow> 0 \<notin> set t"
    and "\<And>k. alloc_ok x k"
  shows "\<exists>x' ps. ls_reply rep x = Inr (0, next_ptr x, x') \<and> objs x' (next_ptr x) = Some (Ptrs (ps @ [0])) \<and>
     map (objs x') ps = map (\<lambda>t. Some (Bytes (zstring t))) names \<and> objs x' rep = None \<and> bad_frees x' = bad_frees x"
proof -
  have a: "alloc_ok x = (\<lambda>_. True)" using assms(7) by (simp add: fun_eq_iff)
  let ?b = "wire m (concat (map zstring names))" and ?res = "next_ptr x"
  let ?x1 = "x\<lparr>objs := (objs x)(?res \<mapsto> Ptrs []), next_ptr := ?res + 1\<rparr>"
  obtain x2 where x2: "ls_loop (length names) ?b 0 [] ?x1 = Inr ([?res + 1..<?res + 1 + length names], x2)"
    "next_ptr x2 = ?res + 1 + length names" "bad_frees x2 = bad_frees x"
    "\<forall>k < length names. objs x2 (?res + 1 + k) = Some (Bytes (zstring (names ! k)))"
    "\<forall>p < ?res + 1. objs x2 p = objs ?x1 p"
    using ls_loop_names [of names ?x1 ?b "msg_bytes m" "[]" "[]"] assms(6) a by (auto simp: wire_def)
  define ps where "ps = [?res + 1..<?res + 1 + length names]"
  have ps: "length ps = length names" "\<And>k. k < length names \<Longrightarrow> ps ! k = ?res + 1 + k" by (simp_all add: ps_def del: upt_Suc)
  let ?x3 = "x2\<lparr>objs := (objs x2)(?res \<mapsto> Ptrs (ps @ [0]))\<rparr>"
  have "objs x2 rep = Some (Bytes ?b)" using x2(5) assms(1,3) by simp
  then have f: "xfree_obj rep ?x3 = ?x3\<lparr>objs := (objs ?x3)(rep := None)\<rparr>" using assms(2,3) by (simp add: xfree_obj_def)
  have "ls_reply rep x = Inr (0, ?res, xfree_obj rep ?x3)"
    using errmsg_good [OF assms(1,2,5)] nr_elems_names [OF assms(6,4)] x2(1) [folded ps_def] assms(1,3) a
    by (simp add: ls_reply_def get_bytes_def xalloc_used_ok)
  moreover have "map (objs (xfree_obj rep ?x3)) ps = map (\<lambda>t. Some (Bytes (zstring t))) names"
    unfolding f using x2(4) assms(3) by (intro nth_equalityI) (auto simp: ps)
  moreover have "objs (xfree_obj rep ?x3) ?res = Some (Ptrs (ps @ [0]))" "objs (xfree_obj rep ?x3) rep = None"
    "bad_frees (xfree_obj rep ?x3) = bad_frees x"
    using assms(3) x2(3) unfolding f by simp_all
  ultimately show ?thesis by blast
qed

theorem ls_reply_names_witness:
  "\<exists>x' ps. ls_reply 5 (answered XS_DIRECTORY [97, 0, 98, 99, 0]) = Inr (0, 6, x') \<and> objs x' 6 = Some (Ptrs (ps @ [0])) \<and>
     map (objs x') ps = [Some (Bytes [97, 0]), Some (Bytes [98, 99, 0])] \<and> objs x' 5 = None"
proof -
  have n: "\<And>t. t \<in> set [[97 :: u8], [98, 99]] \<Longrightarrow> 0 \<notin> set t" by auto
  let ?x = "answered XS_DIRECTORY [97, 0, 98, 99, 0]"
    and ?m = "\<lparr>mtype = XS_DIRECTORY, mreq_id = 0, mtx_id = 0, mlen = 5\<rparr>"
  have c: "concat (map zstring [[97], [98, 99]]) = [97, 0, 98, 99, 0]" by (simp add: zstring_def)
  have o: "objs ?x 5 = Some (Bytes (wire ?m (concat (map zstring [[97], [98, 99]]))))"
    unfolding c by (simp add: answered_def)
  have w: "wire_ok ?m (concat (map zstring [[97], [98, 99]]))" unfolding c by (simp add: wire_ok_def)
  have a: "\<And>k. alloc_ok ?x k" and p: "next_ptr ?x = 6" by (simp_all add: answered_def)
  have z: "zstring [97] = [97, 0]" "zstring [98, 99] = [98, 99, 0]" by (simp_all add: zstring_def)
  obtain x' ps where "ls_reply 5 ?x = Inr (0, next_ptr ?x, x')" "objs x' (next_ptr ?x) = Some (Ptrs (ps @ [0]))"
    "map (objs x') ps = map (\<lambda>t. Some (Bytes (zstring t))) [[97], [98, 99]]" "objs x' 5 = None"
    using ls_reply_names [OF o _ _ w _ n a] p by (auto simp: xs_types simp del: map_eq_Cons_conv)
  then show ?thesis unfolding p by (auto simp: z simp del: map_eq_Cons_conv)
qed

section \<open>Delivery\<close>

definition waiting :: "sched \<Rightarrow> view \<Rightarrow> nat \<Rightarrow> nat list \<Rightarrow> bool" where
  "waiting s v i ws = (v_wait v (reply_waitq i) = Some ws \<and> length ws < max_nodes s \<and>
     (\<forall>w \<in> set ws. wakeable s v (waiter_of s w)))"

text \<open>A reply that belongs to a request in use, with the entries that wait for it.\<close>

definition deliverable :: "xenbus \<Rightarrow> sched \<Rightarrow> view \<Rightarrow> sockmsg \<times> u8 list \<Rightarrow> bool" where
  "deliverable x s v mb = (case mb of (m, b) \<Rightarrow>
     wire_ok m b \<and> mtype m \<noteq> XS_WATCH_EVENT \<and> unat (mreq_id m) < NR_REQS \<and>
     in_use (req_info x ! unat (mreq_id m)) \<and> (\<exists>ws. waiting s v (unat (mreq_id m)) ws))"

definition got_reply :: "xenbus \<Rightarrow> nat \<Rightarrow> sockmsg \<Rightarrow> u8 list \<Rightarrow> bool" where
  "got_reply x i m b = (reply (req_info x ! i) \<noteq> 0 \<and> in_use (req_info x ! i) \<and>
     objs x (reply (req_info x ! i)) = Some (Bytes (wire m b)))"

definition stored :: "sockmsg \<Rightarrow> u8 list \<Rightarrow> xenbus \<Rightarrow> xenbus" where
  "stored m b x = x\<lparr>xrsp := ring_skip (msg_size + length b) (xrsp x),
     objs := (objs x)(next_ptr x \<mapsto> Bytes (wire m b)), next_ptr := next_ptr x + 1,
     req_info := (req_info x)[unat (mreq_id m) := (req_info x ! unat (mreq_id m))\<lparr>reply := next_ptr x\<rparr>]\<rparr>"

lemma take_message_content:
  "xs_ring (xrsp x) \<Longrightarrow> n \<le> length (ring_content (xrsp x)) \<Longrightarrow> take_message n x = Inr (take n (ring_content (xrsp x)))"
  unfolding take_message_def by (intro memcpy_from_ring_content) (auto simp: xs_ring_def)

lemma xs_ring_skip: "xs_ring r \<Longrightarrow> n \<le> filled r \<Longrightarrow> xs_ring (ring_skip n r)"
  by (simp add: xs_ring_def ring_skip_props)

lemma message_step_reply:
  assumes r: "xs_ring (xrsp x)" "ring_content (xrsp x) = wire m b @ rest"
    and d: "deliverable x s v (m, b)" and l: "length (req_info x) = NR_REQS"
    and a: "alloc_ok x (next_ptr x)" "next_ptr x \<noteq> 0"
    and i: "sched_inv s v" and w: "waiting s v (unat (mreq_id m)) ws"
  obtains s' where "message_step me x s = Inr (Some (stored m b x, s'))"
    and "sched_inv s' (a_wake_list s (map (waiter_of s) ws) v)" and "quiet s s'"
    and "\<And>u g. RUNNABLE_FLAG AND g = 0 \<Longrightarrow> has_flag s' u g = has_flag s u g"
proof -
  have D: "wire_ok m b" "mtype m \<noteq> XS_WATCH_EVENT" "unat (mreq_id m) < NR_REQS" "in_use (req_info x ! unat (mreq_id m))"
    using d by (simp_all add: deliverable_def)
  have n: "filled (xrsp x) = msg_size + length b + length rest"
    using arg_cong [OF r(2), of length] by simp
  have ml: "unat (mlen m) = length b" using D(1) by (simp add: wire_ok_def)
  have h: "take_message msg_size x = Inr (msg_bytes m)"
    using take_message_content [OF r(1), of msg_size] n unfolding length_content r(2) by (simp add: wire_def)
  have t: "take_message (msg_size + length b) x = Inr (wire m b)"
    using take_message_content [OF r(1), of "msg_size + length b"] n unfolding length_content r(2) by simp
  have W: "v_wait v (reply_waitq (unat (mreq_id m))) = Some ws" "length ws < max_nodes s"
    "\<And>u. u \<in> set ws \<Longrightarrow> wakeable s v (waiter_of s u)" using w by (simp_all add: waiting_def)
  obtain s' where s': "wake_up me (reply_waitq (unat (mreq_id m))) s = Inr s'"
    "sched_inv s' (a_wake_list s (map (waiter_of s) ws) v)" "quiet s s'"
    "\<And>u g. RUNNABLE_FLAG AND g = 0 \<Longrightarrow> has_flag s' u g = has_flag s u g"
    using wake_up_inv [OF i W, of me] by blast
  have "reply_message me m x s = Inr (stored m b x, s')"
    using D l t s'(1) a by (simp add: reply_message_def ml Let_def xalloc_used_ok consume_def stored_def)
  then have "message_step me x s = Inr (Some (stored m b x, s'))"
    using n h D(2) by (simp add: message_step_def ml Let_def)
  then show thesis using that s'(2-4) by blast
qed

lemma waiting_quiet:
  assumes "quiet s s'"
  shows "waiting s' (a_wake_list s0 ts v) i ws = waiting s v i ws"
  using quiet_simps(2,11) [OF assms] by (simp add: waiting_def wakeable_def)

lemma a_wake_list_ready_grows: "set (v_ready v) \<subseteq> set (v_ready (a_wake_list s ts v))"
proof (induction ts arbitrary: v)
  case (Cons t ts)
  have "set (v_ready v) \<subseteq> set (v_ready (a_wake s t v))" by (auto simp: a_wake_def)
  then show ?case using Cons.IH [of "a_wake s t v"] by auto
qed simp

lemma a_wake_list_wakes:
  assumes "t \<in> set ts" and "\<not> is_hibernating s t" and "\<not> is_suspended s t"
  shows "t \<in> set (v_ready (a_wake_list s ts v))"
  using assms(1)
proof (induction ts arbitrary: v)
  case (Cons u ts)
  show ?case
  proof (cases "t = u")
    case True
    then have "t \<in> set (v_ready (a_wake s u v))" using assms(2,3) by (simp add: a_wake_def)
    then show ?thesis using a_wake_list_ready_grows [of "a_wake s u v" s ts] by auto
  next
    case False
    then show ?thesis using Cons by simp
  qed
qed simp

lemma thread_loop_delivers:
  assumes "xs_ring (xrsp x)" and "ring_content (xrsp x) = concat (map (\<lambda>(m, b). wire m b) ms)"
    and "distinct (map (\<lambda>(m, b). unat (mreq_id m)) ms)" and "\<And>mb. mb \<in> set ms \<Longrightarrow> deliverable x s v mb"
    and "length (req_info x) = NR_REQS" and "\<And>k. alloc_ok x k" and "next_ptr x \<noteq> 0" and "sched_inv s v"
  shows "\<exists>x' s' v'. xenbus_thread_loop me x s = Inr (x', s') \<and> ring_content (xrsp x') = [] \<and> sched_inv s' v' \<and> quiet s s' \<and>
     (\<forall>m b. (m, b) \<in> set ms \<longrightarrow> got_reply x' (unat (mreq_id m)) m b) \<and>
     (\<forall>j. j \<notin> (\<lambda>(m, b). unat (mreq_id m)) ` set ms \<longrightarrow> req_info x' ! j = req_info x ! j) \<and>
     (\<forall>p < next_ptr x. objs x' p = objs x p) \<and> set (v_ready v) \<subseteq> set (v_ready v') \<and>
     (\<forall>m b ws w. (m, b) \<in> set ms \<longrightarrow> waiting s v (unat (mreq_id m)) ws \<longrightarrow> w \<in> set ws \<longrightarrow>
        \<not> is_hibernating s (waiter_of s w) \<longrightarrow> \<not> is_suspended s (waiter_of s w) \<longrightarrow> waiter_of s w \<in> set (v_ready v'))"
  using assms
proof (induction ms arbitrary: x s v)
  case Nil
  let ?x = "x\<lparr>thread_prod := prod (xrsp x)\<rparr>"
  have "filled (xrsp x) = 0" using arg_cong [OF Nil.prems(2), of length] by simp
  then have "message_step me ?x s = Inr None" by (simp add: message_step_def msg_size_def)
  then have "xenbus_thread_loop me x s = Inr (?x, s)" by (subst xenbus_thread_loop.simps) simp
  then show ?case using Nil.prems(2,8) by (intro exI [of _ ?x] exI [of _ s] exI [of _ v]) simp
next
  case (Cons mb ms)
  obtain m b where mb: "mb = (m, b)" by (cases mb)
  define i where "i = unat (mreq_id m)"
  let ?x0 = "x\<lparr>thread_prod := prod (xrsp x)\<rparr>" and ?x1 = "stored m b (x\<lparr>thread_prod := prod (xrsp x)\<rparr>)"
  let ?rest = "concat (map (\<lambda>(m, b). wire m b) ms)"
  have d: "deliverable x s v (m, b)" using Cons.prems(4) [of mb] mb by simp
  obtain ws where ws: "waiting s v i ws" using d by (auto simp: deliverable_def i_def)
  have D: "i < NR_REQS" "in_use (req_info x ! i)" using d by (simp_all add: deliverable_def i_def)
  have c: "ring_content (xrsp x) = wire m b @ ?rest" using Cons.prems(2) mb by simp
  have d0: "deliverable ?x0 s v (m, b)" using d by (simp add: deliverable_def)
  let ?v1 = "a_wake_list s (map (waiter_of s) ws) v"
  obtain s1 where s1: "message_step me ?x0 s = Inr (Some (?x1, s1))" "sched_inv s1 ?v1" "quiet s s1"
    "\<And>u g. RUNNABLE_FLAG AND g = 0 \<Longrightarrow> has_flag s1 u g = has_flag s u g"
    using message_step_reply [of ?x0 m b ?rest s v ws me] Cons.prems(1,5-8) c d0 ws i_def by auto
  have n: "filled (xrsp x) = msg_size + length b + length ?rest" using arg_cong [OF c, of length] by simp
  have r1: "xs_ring (xrsp ?x1)" using xs_ring_skip [OF Cons.prems(1)] n by (simp add: stored_def)
  have c1: "ring_content (xrsp ?x1) = ?rest"
    using ring_skip_props(1) [of "xrsp x" "msg_size + length b"] xs_ringD(1) [OF Cons.prems(1)] n c by (simp add: stored_def)
  have other: "unat (mreq_id m') \<noteq> i" if "(m', b') \<in> set ms" for m' b'
    using Cons.prems(3) that mb by (force simp: i_def)
  have d1: "deliverable ?x1 s1 ?v1 mb'" if "mb' \<in> set ms" for mb'
  proof -
    obtain m' b' where mb': "mb' = (m', b')" by (cases mb')
    have "deliverable x s v (m', b')" using Cons.prems(4) [of mb'] that mb' by simp
    moreover have "req_info ?x1 ! unat (mreq_id m') = req_info x ! unat (mreq_id m')"
      using other [of m' b'] that mb' by (simp add: stored_def i_def)
    ultimately show ?thesis using mb' by (simp add: deliverable_def waiting_quiet [OF s1(3)])
  qed
  have p1: "distinct (map (\<lambda>(m, b). unat (mreq_id m)) ms)" using Cons.prems(3) by simp
  have q1: "length (req_info ?x1) = NR_REQS" "\<And>k. alloc_ok ?x1 k" "next_ptr ?x1 \<noteq> 0"
    using Cons.prems(5,6) by (simp_all add: stored_def)
  obtain x' s' v' where R: "xenbus_thread_loop me ?x1 s1 = Inr (x', s')" "ring_content (xrsp x') = []" "sched_inv s' v'" "quiet s1 s'"
    "\<And>m b. (m, b) \<in> set ms \<Longrightarrow> got_reply x' (unat (mreq_id m)) m b"
    "\<And>j. j \<notin> (\<lambda>(m, b). unat (mreq_id m)) ` set ms \<Longrightarrow> req_info x' ! j = req_info ?x1 ! j"
    "\<And>p. p < next_ptr ?x1 \<Longrightarrow> objs x' p = objs ?x1 p" "set (v_ready ?v1) \<subseteq> set (v_ready v')"
    "\<And>m b ws w. (m, b) \<in> set ms \<Longrightarrow> waiting s1 ?v1 (unat (mreq_id m)) ws \<Longrightarrow> w \<in> set ws \<Longrightarrow>
        \<not> is_hibernating s1 (waiter_of s1 w) \<Longrightarrow> \<not> is_suspended s1 (waiter_of s1 w) \<Longrightarrow> waiter_of s1 w \<in> set (v_ready v')"
    using Cons.IH [OF r1 c1 p1 d1 q1 s1(2)] by blast
  have fl: "is_hibernating s1 u = is_hibernating s u" "is_suspended s1 u = is_suspended s u" for u
    using s1(4) [of HIBERNATION_FLAG u] s1(4) [of SUSPENDED_FLAG u] by (simp_all add: thread_flag_defs)
  have wo: "waiter_of s1 = waiter_of s" using quiet_simps(11) [OF s1(3)] .
  have ni: "i \<notin> (\<lambda>(m, b). unat (mreq_id m)) ` set ms" using other by auto
  have slot: "req_info x' ! i = (req_info x ! i)\<lparr>reply := next_ptr x\<rparr>"
    using R(6) [OF ni] D(1) Cons.prems(5) by (simp add: stored_def i_def)
  have "objs x' (next_ptr x) = Some (Bytes (wire m b))" using R(7) [of "next_ptr x"] by (simp add: stored_def)
  then have g: "got_reply x' i m b" using slot D(2) Cons.prems(7) by (simp add: got_reply_def)
  have "xenbus_thread_loop me x s = Inr (x', s')" using s1(1) R(1) by (subst xenbus_thread_loop.simps) simp
  moreover have "quiet s s'" using s1(3) R(4) by (rule quiet_trans)
  moreover have "got_reply x' (unat (mreq_id m')) m' b'" if "(m', b') \<in> set (mb # ms)" for m' b'
    using that g R(5) mb by (auto simp: i_def)
  moreover have "req_info x' ! j = req_info x ! j" if "j \<notin> (\<lambda>(m, b). unat (mreq_id m)) ` set (mb # ms)" for j
    using R(6) [of j] that mb by (auto simp: stored_def)
  moreover have "objs x' p = objs x p" if "p < next_ptr x" for p using R(7) [of p] that by (simp add: stored_def)
  moreover have "set (v_ready v) \<subseteq> set (v_ready v')" using a_wake_list_ready_grows R(8) by blast
  moreover have "waiter_of s w \<in> set (v_ready v')"
    if a: "(m', b') \<in> set (mb # ms)" "waiting s v (unat (mreq_id m')) ws'" "w \<in> set ws'"
      "\<not> is_hibernating s (waiter_of s w)" "\<not> is_suspended s (waiter_of s w)" for m' b' ws' w
  proof (cases "(m', b') \<in> set ms")
    case True
    then show ?thesis using R(9) [OF True, of ws' w] a fl wo waiting_quiet [OF s1(3)] by simp
  next
    case False
    then have "ws' = ws" using a(1,2) ws mb by (simp add: i_def waiting_def)
    then have "waiter_of s w \<in> set (v_ready ?v1)" using a_wake_list_wakes a(3-5) by auto
    then show ?thesis using R(8) by blast
  qed
  ultimately show ?case using R(2,3) by blast
qed

text \<open>
  C9: when the responses on the ring are answers to requests in use, in whatever order, the thread takes
  all of them off the ring without a fault, stores each for the request whose number it carries, leaves
  the other requests alone, and makes every waiting thread ready.
\<close>

theorem thread_delivers_replies:
  assumes "xs_ring (xrsp x)" and "ring_content (xrsp x) = concat (map (\<lambda>(m, b). wire m b) ms)"
    and "distinct (map (\<lambda>(m, b). unat (mreq_id m)) ms)" and "\<And>mb. mb \<in> set ms \<Longrightarrow> deliverable x s v mb"
    and "length (req_info x) = NR_REQS" and "\<And>k. alloc_ok x k" and "next_ptr x \<noteq> 0" and "sched_inv s v"
  shows "\<exists>x' s' v'. xenbus_thread_loop me x s = Inr (x', s') \<and> ring_content (xrsp x') = [] \<and> sched_inv s' v' \<and>
     (\<forall>m b. (m, b) \<in> set ms \<longrightarrow> got_reply x' (unat (mreq_id m)) m b) \<and>
     (\<forall>j. j \<notin> (\<lambda>(m, b). unat (mreq_id m)) ` set ms \<longrightarrow> req_info x' ! j = req_info x ! j) \<and>
     (\<forall>m b ws w. (m, b) \<in> set ms \<longrightarrow> waiting s v (unat (mreq_id m)) ws \<longrightarrow> w \<in> set ws \<longrightarrow>
        \<not> is_hibernating s (waiter_of s w) \<longrightarrow> \<not> is_suspended s (waiter_of s w) \<longrightarrow> waiter_of s w \<in> set (v_ready v'))"
  using thread_loop_delivers [OF assms, of me] by blast

text \<open>A driver whose request 0 is in use and whose response ring holds the bytes \<open>b\<close>.\<close>

definition responding :: "u8 list \<Rightarrow> xenbus" where
  "responding b = (demo_xenbus 0)\<lparr>xrsp := ring_puts b (idle_ring 0),
     req_info := \<lparr>in_use = True, reply = 0\<rparr> # replicate 31 \<lparr>in_use = False, reply = 0\<rparr>\<rparr>"

lemma responding_ring:
  assumes "length b \<le> 1024"
  shows "xs_ring (xrsp (responding b))" and "ring_content (xrsp (responding b)) = b"
proof -
  have "ring_ok (idle_ring 0)" using idle_ring_simps(6) [of 0] by (rule xs_ringD(1))
  then show "xs_ring (xrsp (responding b))" "ring_content (xrsp (responding b)) = b"
    using ring_puts_props [of "idle_ring 0" b] assms by (simp_all add: responding_def xs_ring_def XENSTORE_RING_SIZE_def)
qed

definition demo_answer :: sockmsg where
  "demo_answer = \<lparr>mtype = XS_READ, mreq_id = 0, mtx_id = 0, mlen = 1\<rparr>"

theorem thread_delivers_replies_witness:
  "\<exists>x' s' v'. xenbus_thread_loop 0 (responding (wire demo_answer [49])) (demo_waiting (reply_waitq 0)) = Inr (x', s') \<and>
     ring_content (xrsp x') = [] \<and> sched_inv s' v' \<and> got_reply x' 0 demo_answer [49] \<and> 6 \<in> set (v_ready v')"
proof -
  let ?s = "demo_waiting (reply_waitq 0)" and ?v = "demo_view\<lparr>v_wait := [reply_waitq 0 \<mapsto> [3]]\<rparr>"
    and ?x = "responding (wire demo_answer [49])"
  have len: "length (wire demo_answer [49]) \<le> 1024" by (simp add: msg_size_def)
  have w: "waiting ?s ?v 0 [3]"
    by (auto simp: waiting_def wakeable_def waits_join_def demo_view_def demo_waiting_def demo_sched_def split: if_splits)
  have d: "deliverable ?x ?s ?v mb" if "mb \<in> set [(demo_answer, [49])]" for mb
    using that w by (auto simp: deliverable_def demo_answer_def wire_ok_def xs_types NR_REQS_def responding_def)
  have c: "ring_content (xrsp ?x) = concat (map (\<lambda>(m, b). wire m b) [(demo_answer, [49])])"
    using responding_ring(2) [OF len] by simp
  have p: "distinct (map (\<lambda>(m, b). unat (mreq_id m)) [(demo_answer, [49 :: u8])])" "length (req_info ?x) = NR_REQS"
    "\<And>k. alloc_ok ?x k" "next_ptr ?x \<noteq> 0"
    by (simp_all add: responding_def NR_REQS_def)
  obtain x' s' v' where R: "xenbus_thread_loop 0 ?x ?s = Inr (x', s')" "ring_content (xrsp x') = []" "sched_inv s' v'"
    "\<And>m b. (m, b) \<in> set [(demo_answer, [49 :: u8])] \<Longrightarrow> got_reply x' (unat (mreq_id m)) m b"
    "\<And>m b ws w. (m, b) \<in> set [(demo_answer, [49 :: u8])] \<Longrightarrow> waiting ?s ?v (unat (mreq_id m)) ws \<Longrightarrow> w \<in> set ws \<Longrightarrow>
        \<not> is_hibernating ?s (waiter_of ?s w) \<Longrightarrow> \<not> is_suspended ?s (waiter_of ?s w) \<Longrightarrow> waiter_of ?s w \<in> set (v_ready v')"
    using thread_delivers_replies [OF responding_ring(1) [OF len] c p(1) d p(2-4) demo_waiting_inv, of 0] by blast
  have i: "unat (mreq_id demo_answer) = 0" by (simp add: demo_answer_def)
  have "\<not> is_hibernating ?s 6" "\<not> is_suspended ?s 6"
    by (simp_all add: has_flag_def demo_waiting_def demo_sched_def blank_thread_def thread_flag_defs)
  moreover have "waiter_of ?s 3 = 6" by (simp add: demo_waiting_def)
  ultimately show ?thesis using R(1-3) R(4) [of demo_answer "[49]"] R(5) [of demo_answer "[49]" "[3]" 3] w i by auto
qed

text \<open>
  A response longer than the ring (the protocol allows payloads of 4096 bytes) is never taken off:
  however many bytes the daemon adds, the thread leaves the ring and the requests as they are, so
  the caller waits forever and everything behind the message is lost.
\<close>

theorem long_reply_never_delivered:
  assumes "xs_ring (xrsp x)" and "ring_content (xrsp x) = msg_bytes m @ rest"
    and "XENSTORE_RING_SIZE < msg_size + unat (mlen m)"
    and "filled (xrsp x) + length extra \<le> XENSTORE_RING_SIZE"
  shows "xenbus_thread_loop me (x\<lparr>xrsp := ring_puts extra (xrsp x)\<rparr>) s =
     Inr (x\<lparr>xrsp := ring_puts extra (xrsp x), thread_prod := prod (xrsp x) + of_nat (length extra)\<rparr>, s)"
proof -
  let ?r = "ring_puts extra (xrsp x)"
  let ?x = "x\<lparr>xrsp := ?r, thread_prod := prod ?r\<rparr>"
  have "filled (xrsp x) + length extra \<le> length (rbuf (xrsp x))"
    using assms(1,4) by (simp add: xs_ring_def)
  note P = ring_puts_props [OF xs_ringD(1) [OF assms(1)] this]
  have r: "xs_ring ?r" using P(2) assms(1) by (simp add: xs_ring_def)
  have c: "ring_content ?r = msg_bytes m @ rest @ extra" using P(1) assms(2) by simp
  have n: "filled ?r = msg_size + length rest + length extra" using arg_cong [OF c, of length] by simp
  have "take_message msg_size ?x = Inr (msg_bytes m)"
    using take_message_content [of ?x msg_size] r c n by simp
  moreover have "filled ?r < msg_size + unat (mlen m)" using P(3) assms(3,4) by simp
  ultimately have "message_step me ?x s = Inr None" using n by (simp add: message_step_def Let_def)
  then show ?thesis by (subst xenbus_thread_loop.simps) simp
qed

theorem long_reply_never_delivered_witness:
  "xenbus_thread_loop 0 ((responding (msg_bytes (demo_answer\<lparr>mlen := 2000\<rparr>)))\<lparr>xrsp :=
       ring_puts (replicate 1000 65) (xrsp (responding (msg_bytes (demo_answer\<lparr>mlen := 2000\<rparr>))))\<rparr>) demo_sched =
     Inr ((responding (msg_bytes (demo_answer\<lparr>mlen := 2000\<rparr>)))\<lparr>xrsp :=
       ring_puts (replicate 1000 65) (xrsp (responding (msg_bytes (demo_answer\<lparr>mlen := 2000\<rparr>)))),
       thread_prod := prod (xrsp (responding (msg_bytes (demo_answer\<lparr>mlen := 2000\<rparr>)))) + of_nat (length (replicate 1000 (65 :: u8)))\<rparr>,
       demo_sched)"
proof -
  let ?x = "responding (msg_bytes (demo_answer\<lparr>mlen := 2000\<rparr>))"
  have len: "length (msg_bytes (demo_answer\<lparr>mlen := 2000\<rparr>)) \<le> 1024" by (simp add: msg_size_def)
  have "filled (xrsp ?x) = 16" using arg_cong [OF responding_ring(2) [OF len], of length] by (simp add: msg_size_def)
  then show ?thesis
    by (intro long_reply_never_delivered [where m = "demo_answer\<lparr>mlen := 2000\<rparr>" and rest = "[]"])
       (use responding_ring [OF len] in \<open>simp_all add: XENSTORE_RING_SIZE_def msg_size_def\<close>)
qed

end
