(* ===== verification/Xenbus_Call.thy ===== *)
theory Xenbus_Call
  imports Xenbus_Props
begin

text \<open>
  A whole call of the Xenbus: the caller's request, the daemon's answer, the delivery by the receiving
  thread and what the caller returns, composed from the pieces of \<^theory_text>\<open>Xenbus\<close>.
\<close>

section \<open>Sending a request\<close>

lemma sched_inv_preempt:
  assumes i: "sched_inv s v" and n: "0 \<le> n" and c: "cpu_state s me = CPU_UP" "current_thread s me = t"
  shows "sched_inv (upd_thread s t (\<lambda>th. th\<lparr>preempt_count := n\<rparr>)) v"
proof -
  let ?s = "upd_thread s t (\<lambda>th. th\<lparr>preempt_count := n\<rparr>)"
  note D = sched_invD [OF i]
  have th: "threads ?s u = (if u = t then (threads s t)\<lparr>preempt_count := n\<rparr> else threads s u)" for u
    by (simp add: upd_thread_def)
  have "lists_ok ?s v" using D(1) by (simp add: lists_ok_def)
  moreover have "flags_ok ?s v" using D(2) by (simp add: flags_ok_def has_flag_def th)
  moreover have "sleep_ok ?s v" using D(3) by (simp add: sleep_ok_def)
  moreover have "cpus_ok ?s v" using D(4) n c unfolding cpus_ok_def by (auto simp: th)
  ultimately show ?thesis by (simp add: sched_inv_def)
qed

text \<open>The caller runs on a processor that is up and waits for nothing.\<close>

definition calls :: "sched \<Rightarrow> view \<Rightarrow> nat \<Rightarrow> bool" where
  "calls s v me = (cpu_state s me = CPU_UP \<and> current_thread s me \<in> set (v_ready v) \<and> \<not> is_joining s (current_thread s me))"

lemma has_flag_preempt: "has_flag (upd_thread s t (\<lambda>th. th\<lparr>preempt_count := f th\<rparr>)) u g = has_flag s u g"
  by (simp add: has_flag_def upd_thread_def)

lemma define_wait_simps [simp]:
  "current_thread (define_wait me w s) = current_thread s" "threads (define_wait me w s) = threads s"
  "waiter_of (define_wait me w s) = (waiter_of s)(w := current_thread s me)" "max_nodes (define_wait me w s) = max_nodes s"
  "cpu_state (define_wait me w s) = cpu_state s"
  by (simp_all add: define_wait_def)

lemma upd_preempt_simps [simp]:
  "cpu_state (upd_thread s t f) = cpu_state s" "max_nodes (upd_thread s t f) = max_nodes s"
  "waiter_of (upd_thread s t f) = waiter_of s" "current_thread (upd_thread s t f) = current_thread s"
  by (simp_all add: upd_thread_def)

lemma send_request_waits:
  assumes i: "sched_inv s v" and c: "calls s v me" and f: "free_node (vq v) (WaitL w)"
    and q: "v_wait v (reply_waitq k) = Some []" and n: "1 < max_nodes s"
    and r: "xs_ring (xreq x)" "filled (xreq x) + length (wire_request ty k tx req) \<le> XENSTORE_RING_SIZE"
      "\<not> index_wraps (xreq x) (length (wire_request ty k tx req))"
  shows "\<exists>r s' v'. send_request me w wr ty k tx req x s =
       Inr (Awaits k, x\<lparr>xreq := r, store_notified := store_notified x + 1\<rparr>, s') \<and>
     xs_ring r \<and> ring_content r = ring_content (xreq x) @ wire_request ty k tx req \<and>
     sched_inv s' v' \<and> waiting s' v' k [w] \<and> waiter_of s' w = current_thread s me \<and>
     (\<forall>j. j \<noteq> reply_waitq k \<longrightarrow> v_wait v' j = v_wait v j) \<and> max_nodes s' = max_nodes s \<and>
     \<not> is_hibernating s' (current_thread s me) \<and> \<not> is_suspended s' (current_thread s me)"
proof -
  let ?t = "current_thread s me"
  note D = sched_invD [OF i]
  have C: "cpu_state s me = CPU_UP" "?t \<in> set (v_ready v)" "\<not> is_joining s ?t" using c by (simp_all add: calls_def)
  have td: "?t \<in> dom (v_join v)" using D(6,9) C(2) by blast
  define p where "p = preempt_count (threads s ?t)"
  have p: "0 \<le> p" using D(4) td by (auto simp: cpus_ok_def p_def)
  have rn: "is_runnable s ?t" using D(7) [OF td] C(2) by simp
  have hs: "\<not> is_hibernating s ?t" "\<not> is_suspended s ?t" using D(2) td rn by (auto simp: flags_ok_def)
  let ?s1 = "upd_thread s ?t (\<lambda>th. th\<lparr>preempt_count := p + 1\<rparr>)"
  have u1: "upd_thread s ?t (\<lambda>th. th\<lparr>preempt_count := preempt_count th + 1\<rparr>) = ?s1"
    by (simp add: upd_thread_def p_def)
  have pd: "preempt_disable me s = Inr ?s1"
    using p unfolding preempt_disable_def add_preempt_count_def u1 by (simp add: Let_def upd_thread_def)
  have i1: "sched_inv ?s1 v" using sched_inv_preempt [OF i _ C(1) refl, of "p + 1"] p by simp
  let ?s2 = "define_wait me w ?s1"
  have i2: "sched_inv ?s2 v" by (rule define_wait_inv [OF i1 f])
  have j2: "\<not> is_joining ?s2 (current_thread ?s2 me)" using C(3) by (simp add: has_flag_def upd_thread_def)
  have t2: "current_thread ?s2 me \<in> set (v_ready v)" using C(2) by simp
  obtain s3 where s3: "add_waiter me (reply_waitq k) w ?s2 = Inr s3"
    "sched_inv s3 (a_unready (current_thread ?s2 me) (a_wait (reply_waitq k) w v))" "quiet ?s2 s3"
    "\<And>u g. RUNNABLE_FLAG AND g = 0 \<Longrightarrow> has_flag s3 u g = has_flag ?s2 u g"
    using add_waiter_inv [OF i2 f q t2 j2] by blast
  let ?v = "a_unready ?t (a_wait (reply_waitq k) w v)"
  note Q = quiet_simps [OF s3(3)]
  have p3: "preempt_count (threads s3 ?t) = p + 1" using Q(15) [of ?t] by (simp add: upd_thread_def)
  have ct: "current_thread s3 me = ?t" using Q(7) by simp
  let ?s4 = "upd_thread s3 ?t (\<lambda>th. th\<lparr>preempt_count := p\<rparr>)"
  have u4: "upd_thread s3 ?t (\<lambda>th. th\<lparr>preempt_count := preempt_count th + - 1\<rparr>) = ?s4"
    by (simp add: upd_thread_def p3)
  have pe: "preempt_enable_no_resched me s3 = Inr ?s4"
    using p unfolding preempt_enable_no_resched_def add_preempt_count_def ct u4 by (simp add: Let_def upd_thread_def)
  have i3: "sched_inv s3 ?v" using s3(2) by simp
  have i4: "sched_inv ?s4 ?v" by (rule sched_inv_preempt [OF i3 p, of me]) (use Q C(1) ct in simp_all)
  obtain r where W: "xb_write me wr ty k tx req x s3 = Inr (True, x\<lparr>xreq := r, store_notified := store_notified x + 1\<rparr>, s3)"
    "xs_ring r" "ring_content r = ring_content (xreq x) @ wire_request ty k tx req"
    using xb_write_ok [OF r, of me wr s3] by (auto simp: wire_request_def)
  have "send_request me w wr ty k tx req x s = Inr (Awaits k, x\<lparr>xreq := r, store_notified := store_notified x + 1\<rparr>, ?s4)"
    using pd s3(1) W(1) pe by (simp add: send_request_def)
  moreover have "waiter_of ?s4 w = ?t" using Q(11) by simp
  moreover have "waiting ?s4 ?v k [w]"
  proof -
    have "?t \<in> set (v_all v)" "?t \<notin> set (v_dead v)" "\<not> waits_join v ?t"
      using D(9) C(2) queues_disjoint(5,6) [OF D(5)] by blast+
    moreover have "v_wait ?v (reply_waitq k) = Some [w]" using q by (simp add: a_wait_def)
    ultimately show ?thesis using Q n by (simp add: waiting_def wakeable_def)
  qed
  moreover have "v_wait ?v j = v_wait v j" if "j \<noteq> reply_waitq k" for j using that by (simp add: a_wait_def)
  moreover have "\<not> is_hibernating ?s4 ?t" "\<not> is_suspended ?s4 ?t"
  proof -
    have "has_flag ?s4 ?t g = has_flag s ?t g" if "RUNNABLE_FLAG AND g = 0" for g
      using s3(4) [OF that, of ?t] by (simp add: has_flag_def upd_thread_def)
    then show "\<not> is_hibernating ?s4 ?t" "\<not> is_suspended ?s4 ?t" using hs by (simp_all add: thread_flag_defs)
  qed
  moreover have "max_nodes ?s4 = max_nodes s" using Q(2) by simp
  ultimately show ?thesis using W(2,3) i4 by blast
qed

section \<open>The whole call\<close>

lemma init_queue_empty:
  assumes i: "sched_inv s v" and q: "v_wait v c = Some []"
  shows "init_waitqueue_head c s = s"
proof -
  have "ring (lists s) (WaitHead c) []" using store_ring [OF sched_invD(5) [OF i], of "WaitHead c"] q by simp
  then have "unlinked (lists s) (WaitHead c)" by (simp add: ring_def unlinked_def)
  then have "init_list_head (lists s) (WaitHead c) = lists s"
    by (simp add: unlinked_def init_list_head_def Let_def set_next_def set_prev_def fun_upd_idem)
  then show ?thesis by (simp add: init_waitqueue_head_def)
qed

text \<open>The driver between two calls: no response is on the ring, memory is enough, no thread waits for it.\<close>

definition driver_idle :: "xenbus \<Rightarrow> sched \<Rightarrow> view \<Rightarrow> bool" where
  "driver_idle x s v = (ids_ok x \<and> id_free x \<and> xs_ring (xreq x) \<and> xs_ring (xrsp x) \<and> ring_content (xrsp x) = [] \<and>
     (\<forall>k. alloc_ok x k) \<and> next_ptr x \<noteq> 0 \<and> v_wait v req_wq = Some [] \<and>
     (\<forall>i. v_wait v (reply_waitq i) = Some []) \<and> 1 < max_nodes s)"

definition room_for :: "xenbus \<Rightarrow> u8 list list \<Rightarrow> bool" where
  "room_for x req = (filled (xreq x) + msg_size + length (concat req) \<le> XENSTORE_RING_SIZE \<and>
     \<not> index_wraps (xreq x) (msg_size + length (concat req)))"

text \<open>The daemon answers: it puts a message on the response ring.\<close>

definition daemon_answers :: "sockmsg \<Rightarrow> u8 list \<Rightarrow> xenbus \<Rightarrow> xenbus" where
  "daemon_answers m b x = x\<lparr>xrsp := ring_puts (wire m b) (xrsp x)\<rparr>"

lemma read_finish_value:
  assumes ids: "ids_ok x" and g: "got_reply x k m b" and m: "wire_ok m b" "mreq_id m = of_nat k" "mtype m \<noteq> XS_ERROR"
    and k: "k < NR_REQS" and a: "alloc_ok x (next_ptr x)" and p: "reply (req_info x ! k) < next_ptr x"
    and i: "sched_inv s v" "v_wait v req_wq = Some []" "0 < max_nodes s"
  shows "\<exists>x' s' q. xenbus_read_finish me k x s = Inr (0, q, x', s') \<and> objs x' q = Some (Bytes (zstring b)) \<and>
     objs x' (reply (req_info x ! k)) = None \<and> bad_frees x' = bad_frees x \<and> ids_ok x' \<and> \<not> in_use (req_info x' ! k)"
proof -
  let ?rep = "reply (req_info x ! k)"
  have l: "length (req_info x) = NR_REQS" using ids by (simp add: ids_ok_def)
  have G: "?rep \<noteq> 0" "in_use (req_info x ! k)" "objs x ?rep = Some (Bytes (wire m b))"
    using g by (simp_all add: got_reply_def)
  have ws: "\<And>w. w \<in> set [] \<Longrightarrow> wakeable s v (waiter_of s w)" by simp
  have n: "length ([] :: nat list) < max_nodes s" using i(3) by simp
  obtain s0 where s0: "wake_up me req_wq s = Inr s0" using wake_up_inv [OF i(1,2) n ws, of me] by blast
  obtain x1 s1 where R: "release_xenbus_id me k x s = Inr (x1, s1)"
    "x1 = x\<lparr>nr_live_reqs := nr_live_reqs x - 1, req_info := (req_info x)[k := (req_info x ! k)\<lparr>in_use := False\<rparr>]\<rparr>"
    using G(2) k l s0 that
    by (cases "nr_live_reqs x - 1 = int NR_REQS - 1 \<or> nr_live_reqs x - 1 = 0") (auto simp: release_xenbus_id_def Let_def)
  have mr: "xenbus_msg_reply_resumed me k x s = Inr (?rep, x1, s1)"
    using G k l m(2) R(1) by (simp add: xenbus_msg_reply_resumed_def get_bytes_def)
  have o1: "objs x1 ?rep = Some (Bytes (wire m b))" "?rep < next_ptr x1" "alloc_ok x1 (next_ptr x1)"
    using G(3) p a by (simp_all add: R(2))
  let ?x2 = "x1\<lparr>objs := (objs x1)(next_ptr x1 \<mapsto> Bytes (zstring b), ?rep := None), next_ptr := next_ptr x1 + 1\<rparr>"
  have "value_reply ?rep x1 = Inr (0, next_ptr x1, ?x2)"
    using value_reply_result [OF o1(1) G(1) o1(2) m(1) o1(3)] m(3) by simp
  then have "xenbus_read_finish me k x s = Inr (0, next_ptr x1, ?x2, s1)" using mr by (simp add: xenbus_read_finish_def)
  moreover have "ids_ok x1" "\<not> in_use (req_info x1 ! k)" using release_keeps_ids [OF ids R(1)] by simp_all
  moreover have "objs ?x2 (next_ptr x1) = Some (Bytes (zstring b))" using o1(2) by simp
  moreover have "ids_ok ?x2 = ids_ok x1" by (simp add: ids_ok_def)
  moreover have "bad_frees ?x2 = bad_frees x" "objs ?x2 ?rep = None" "req_info ?x2 = req_info x1" by (simp_all add: R(2))
  ultimately show ?thesis by metis
qed

text \<open>One answer on an empty ring.\<close>

lemma thread_loop_one:
  assumes r: "xs_ring (xrsp x)" "ring_content (xrsp x) = wire m b" and d: "deliverable x s v (m, b)"
    and l: "length (req_info x) = NR_REQS" and a: "alloc_ok x (next_ptr x)" "next_ptr x \<noteq> 0"
    and i: "sched_inv s v" and w: "waiting s v (unat (mreq_id m)) ws"
  obtains s' where "xenbus_thread_loop me x s = Inr (stored m b (x\<lparr>thread_prod := prod (xrsp x)\<rparr>), s')"
    and "sched_inv s' (a_wake_list s (map (waiter_of s) ws) v)" and "quiet s s'"
proof -
  let ?x0 = "x\<lparr>thread_prod := prod (xrsp x)\<rparr>"
  let ?x1 = "stored m b ?x0"
  have d0: "deliverable ?x0 s v (m, b)" using d by (simp add: deliverable_def)
  obtain s1 where s1: "message_step me ?x0 s = Inr (Some (?x1, s1))"
    "sched_inv s1 (a_wake_list s (map (waiter_of s) ws) v)" "quiet s s1"
  proof -
    have c: "xs_ring (xrsp ?x0)" "ring_content (xrsp ?x0) = wire m b @ []" "length (req_info ?x0) = NR_REQS"
      "alloc_ok ?x0 (next_ptr ?x0)" "next_ptr ?x0 \<noteq> 0" using r l a by simp_all
    show thesis using message_step_reply [OF c(1,2) d0 c(3-5) i w, of me] that by blast
  qed
  have n: "filled (xrsp x) = msg_size + length b" using arg_cong [OF r(2), of length] by simp
  have "filled (xrsp ?x1) = 0" using n by (simp add: stored_def filled_skip)
  moreover have "?x1\<lparr>thread_prod := prod (xrsp ?x1)\<rparr> = ?x1" by (simp add: stored_def ring_skip_def)
  ultimately have "xenbus_thread_loop me ?x1 s1 = Inr (?x1, s1)"
    by (subst xenbus_thread_loop.simps) (simp add: message_step_def msg_size_def)
  then have "xenbus_thread_loop me x s = Inr (?x1, s1)" using s1(1) by (subst xenbus_thread_loop.simps) simp
  then show thesis using that s1(2,3) by blast
qed


section \<open>A state in which a call succeeds\<close>

definition with_queues :: "view \<Rightarrow> view" where
  "with_queues v = v\<lparr>v_wait := (\<lambda>_. Some [])\<rparr>"

lemma with_queues_inv:
  assumes i: "sched_inv s v" and e: "v_wait v = Map.empty"
  shows "sched_inv s (with_queues v)"
proof -
  note D = sched_invD [OF i]
  let ?v = "with_queues v"
  have w: "waits_join ?v t = waits_join v t" for t by (simp add: waits_join_def with_queues_def)
  have old: "vq v p = Some xs \<or> (\<exists>c. p = WaitHead c \<and> xs = [])" if "vq ?v p = Some xs" for p xs
    using that by (cases p) (auto simp: with_queues_def)
  have new: "vq ?v p = Some xs" if "vq v p = Some xs" for p xs
    using that e by (cases p) (auto simp: with_queues_def)
  have fr: "free_node (vq v) (WaitHead c)" for c
    unfolding free_node_def
  proof (intro allI impI)
    fix head xs assume "vq v head = Some xs"
    then show "WaitHead c \<notin> set (head # xs)" using e by (cases head) auto
  qed
  have u: "unlinked (lists s) (WaitHead c)" for c by (rule store_unlinked [OF D(5) fr])
  have rg: "ring (lists s) p xs" if "vq ?v p = Some xs" for p xs
    using old [OF that] store_ring [OF D(5)] ring_singleton [OF u] by auto
  have dj: "set (p # xs) \<inter> set (q # ys) = {}" if "vq ?v p = Some xs" "vq ?v q = Some ys" "p \<noteq> q" for p q xs ys
  proof -
    note o = old [OF that(1)] old [OF that(2)]
    consider "vq v p = Some xs" "vq v q = Some ys" | c where "p = WaitHead c" "xs = []" | c where "q = WaitHead c" "ys = []"
      using o by blast
    then show ?thesis
    proof cases
      case 1
      then show ?thesis using D(5) that(3) unfolding store_def rings_def by blast
    next
      case 2
      then have "p \<notin> set ys" using that(2) by (cases q) (auto simp: with_queues_def)
      then show ?thesis using 2 that(3) by auto
    next
      case 3
      then have "q \<notin> set xs" using that(1) by (cases p) (auto simp: with_queues_def)
      then show ?thesis using 3 that(3) by auto
    qed
  qed
  have "rings (lists s) (vq ?v)" unfolding rings_def using rg dj by blast
  moreover have "unlinked (lists s) p" if "free_node (vq ?v) p" for p
  proof -
    have "free_node (vq v) p" using that new unfolding free_node_def by blast
    then show ?thesis by (rule store_unlinked [OF D(5)])
  qed
  ultimately have "store (lists s) (vq ?v)" by (simp add: store_def)
  then have "lists_ok s ?v" using D(1) by (simp add: lists_ok_def w) (simp add: with_queues_def)
  moreover have "flags_ok s ?v" using D(2) by (simp add: flags_ok_def w) (simp add: with_queues_def)
  moreover have "sleep_ok s ?v" using D(3) by (simp add: sleep_ok_def w) (simp add: with_queues_def)
  moreover have "cpus_ok s ?v" using D(4) by (simp add: cpus_ok_def with_queues_def)
  ultimately show ?thesis by (simp add: sched_inv_def)
qed


end
