(* ===== verification/Xenstore.thy ===== *)
theory Xenstore
  imports Xs_Wire Printf
begin

text \<open>
  The polling Xenstore client \<^verbatim>\<open>xenstore.c\<close>: requests and responses go byte by byte through the same two
  rings that the Xenbus driver uses, and every wait is a busy loop on an index.

  The daemon moves only while the client polls: \<open>ds\<close> gives the number of bytes that it takes from the
  request ring, or puts on the response ring, before each poll.  \<open>taken\<close> collects what it has taken,
  \<open>outgoing\<close> is what it still wants to send.  A result \<open>None\<close> means that \<open>ds\<close> ran out before
  the call returned.
\<close>

section \<open>State\<close>

record xstore =
  xs_addr :: u64
  xs_evt :: u32
  req_ring :: ring
  rsp_ring :: ring
  outgoing :: "u8 list"
  taken :: "u8 list"
  next_req :: u32
  xs_notified :: nat

definition xenstore_init :: "(u64 \<Rightarrow> u64) \<Rightarrow> u64 \<Rightarrow> u64 \<Rightarrow> u32 \<Rightarrow> xstore \<Rightarrow> xstore" where
  "xenstore_init m2p code mfn port x = x\<lparr>xs_addr := push_bit 12 (m2p mfn) + code, xs_evt := port\<rparr>"

definition daemon_takes :: "nat \<Rightarrow> xstore \<Rightarrow> xstore" where
  "daemon_takes d x =
     (let n = min d (filled (req_ring x))
      in x\<lparr>req_ring := ring_skip n (req_ring x), taken := taken x @ take n (ring_content (req_ring x))\<rparr>)"

definition daemon_puts :: "nat \<Rightarrow> xstore \<Rightarrow> xstore" where
  "daemon_puts d x =
     (let n = min d (min (length (outgoing x)) (length (rbuf (rsp_ring x)) - filled (rsp_ring x)))
      in x\<lparr>rsp_ring := ring_puts (take n (outgoing x)) (rsp_ring x), outgoing := drop n (outgoing x)\<rparr>)"

section \<open>Writing and reading\<close>

text \<open>
  \<open>i\<close> is the local index, which is published at the end.  It is an \<^verbatim>\<open>int\<close> that starts with the bits of
  the shared index, so counting past \<open>2 ^ 31 - 1\<close> is undefined.
\<close>

definition int_succ :: "u32 \<Rightarrow> u32 res" where
  "int_succ i = (if i = 0x7FFFFFFF then Inl Undef else Inr (i + 1))"

fun wait_room :: "u32 \<Rightarrow> xstore \<Rightarrow> nat list \<Rightarrow> (xstore \<times> nat list) option" where
  "wait_room i x [] = None"
| "wait_room i x (d # ds) =
     (let x1 = daemon_takes d x
      in if i - cons (req_ring x1) \<ge> of_nat XENSTORE_RING_SIZE then wait_room i x1 ds else Some (x1, ds))"

definition store_byte :: "u32 \<Rightarrow> u8 \<Rightarrow> xstore \<Rightarrow> xstore" where
  "store_byte i b x = x\<lparr>req_ring := (req_ring x)\<lparr>rbuf := (rbuf (req_ring x))[mask_idx XENSTORE_RING_SIZE i := b]\<rparr>\<rparr>"

fun write_loop :: "u8 list \<Rightarrow> u32 \<Rightarrow> xstore \<Rightarrow> nat list \<Rightarrow> (u32 \<times> xstore \<times> nat list) res option" where
  "write_loop [] i x ds = Some (Inr (i, x, ds))"
| "write_loop (b # bs) i x ds =
     (case wait_room i x ds of
        None \<Rightarrow> None
      | Some (x1, ds1) \<Rightarrow>
          (case int_succ i of
             Inl e \<Rightarrow> Some (Inl e)
           | Inr j \<Rightarrow> write_loop bs j (store_byte i b x1) ds1))"

definition xenstore_write_request :: "u8 list \<Rightarrow> xstore \<Rightarrow> nat list \<Rightarrow> (int \<times> xstore \<times> nat list) res option" where
  "xenstore_write_request bs x ds =
     (if length bs > XENSTORE_RING_SIZE then Some (Inr (- 1, x, ds))
      else dbind (write_loop bs (prod (req_ring x)) x ds) (\<lambda>(i, x1, ds1).
           Some (Inr (0, x1\<lparr>req_ring := (req_ring x1)\<lparr>prod := i\<rparr>\<rparr>, ds1))))"

fun wait_data :: "u32 \<Rightarrow> xstore \<Rightarrow> nat list \<Rightarrow> (xstore \<times> nat list) option" where
  "wait_data i x [] = None"
| "wait_data i x (d # ds) =
     (let x1 = daemon_puts d x in if prod (rsp_ring x1) - i = 0 then wait_data i x1 ds else Some (x1, ds))"

fun read_loop :: "nat \<Rightarrow> u32 \<Rightarrow> xstore \<Rightarrow> nat list \<Rightarrow> (u8 list \<times> u32 \<times> xstore \<times> nat list) res option" where
  "read_loop 0 i x ds = Some (Inr ([], i, x, ds))"
| "read_loop (Suc n) i x ds =
     (case wait_data i x ds of
        None \<Rightarrow> None
      | Some (x1, ds1) \<Rightarrow>
          (case int_succ i of
             Inl e \<Rightarrow> Some (Inl e)
           | Inr j \<Rightarrow> dbind (read_loop n j x1 ds1) (\<lambda>(bs, k, x2, ds2).
               Some (Inr (rbuf (rsp_ring x1) ! mask_idx XENSTORE_RING_SIZE i # bs, k, x2, ds2)))))"

text \<open>The bytes read; a length that is not positive as an \<^verbatim>\<open>int\<close> reads nothing.\<close>

definition xenstore_read_response :: "u32 \<Rightarrow> xstore \<Rightarrow> nat list \<Rightarrow> (u8 list \<times> xstore \<times> nat list) res option" where
  "xenstore_read_response n x ds =
     dbind (read_loop (nat (sint n)) (cons (rsp_ring x)) x ds) (\<lambda>(bs, i, x1, ds1).
       Some (Inr (bs, x1\<lparr>rsp_ring := (rsp_ring x1)\<lparr>cons := i\<rparr>\<rparr>, ds1)))"

text \<open>\<^verbatim>\<open>IGNORE(n)\<close> reads into a buffer of \<^verbatim>\<open>XENSTORE_RING_SIZE\<close> bytes.\<close>

definition ignore_response :: "u32 \<Rightarrow> xstore \<Rightarrow> nat list \<Rightarrow> (xstore \<times> nat list) res option" where
  "ignore_response n x ds =
     dbind (xenstore_read_response n x ds) (\<lambda>(bs, x1, ds1).
       Some (if length bs > XENSTORE_RING_SIZE then Inl Undef else Inr (x1, ds1)))"

definition notify :: "xstore \<Rightarrow> xstore" where
  "notify x = x\<lparr>xs_notified := xs_notified x + 1\<rparr>"

section \<open>Requests\<close>

definition request_msg :: "u32 \<Rightarrow> u32 \<Rightarrow> xstore \<Rightarrow> sockmsg" where
  "request_msg ty n x = \<lparr>mtype = ty, mreq_id = next_req x, mtx_id = 0, mlen = n\<rparr>"

text \<open>The results of \<open>xenstore_write_request\<close> are ignored.  \<^verbatim>\<open>req_id++\<close> comes with the comparison.\<close>

definition xenstore_write :: "u8 list \<Rightarrow> u8 list \<Rightarrow> xstore \<Rightarrow> nat list \<Rightarrow> (int \<times> xstore \<times> nat list) res option" where
  "xenstore_write key val x ds =
     dbind (xenstore_write_request (msg_bytes (request_msg XS_WRITE (of_nat (2 + length key + length val)) x)) x ds) (\<lambda>(_, x1, ds1).
     dbind (xenstore_write_request (key @ [0]) x1 ds1) (\<lambda>(_, x2, ds2).
     dbind (xenstore_write_request (val @ [0]) x2 ds2) (\<lambda>(_, x3, ds3).
     dbind (xenstore_read_response (of_nat msg_size) (notify x3) ds3) (\<lambda>(h, x4, ds4).
     dbind (ignore_response (mlen (msg_of_bytes h)) x4 ds4) (\<lambda>(x5, ds5).
       Some (Inr (if mreq_id (msg_of_bytes h) \<noteq> next_req x5 then - 1 else 0, x5\<lparr>next_req := next_req x5 + 1\<rparr>, ds5)))))))"

text \<open>
  \<open>xenstore_read\<close> and \<open>xenstore_ls\<close> differ in the type of the request and in what they return for a value
  that fits.  The second component is what has been stored at \<^verbatim>\<open>value\<close>.
\<close>

definition query ::
    "u32 \<Rightarrow> u8 list \<Rightarrow> u32 \<Rightarrow> xstore \<Rightarrow> nat list \<Rightarrow> (sockmsg \<times> int option \<times> u8 list \<times> xstore \<times> nat list) res option" where
  "query ty key room x ds =
     dbind (xenstore_write_request (msg_bytes (request_msg ty (of_nat (1 + length key)) x)) x ds) (\<lambda>(_, x1, ds1).
     dbind (xenstore_write_request (key @ [0]) x1 ds1) (\<lambda>(_, x2, ds2).
     dbind (xenstore_read_response (of_nat msg_size) (notify x2) ds2) (\<lambda>(h, x3, ds3).
       let m = msg_of_bytes h; x4 = x3\<lparr>next_req := next_req x3 + 1\<rparr> in
       if mreq_id m \<noteq> next_req x3
       then dbind (ignore_response (mlen m) x4 ds3) (\<lambda>(x5, ds5). Some (Inr (m, Some (- 1), [], x5, ds5)))
       else if room \<ge> mlen m
       then dbind (xenstore_read_response (mlen m) x4 ds3) (\<lambda>(v, x5, ds5). Some (Inr (m, None, v, x5, ds5)))
       else dbind (xenstore_read_response room x4 ds3) (\<lambda>(v, x5, ds5).
            dbind (ignore_response (mlen m - room) x5 ds5) (\<lambda>(x6, ds6). Some (Inr (m, Some (- 2), v, x6, ds6)))))))"

definition xenstore_read :: "u8 list \<Rightarrow> u32 \<Rightarrow> xstore \<Rightarrow> nat list \<Rightarrow> (int \<times> u8 list \<times> xstore \<times> nat list) res option" where
  "xenstore_read key room x ds =
     dbind (query XS_READ key room x ds) (\<lambda>(m, res, v, x1, ds1).
       Some (Inr (case res of None \<Rightarrow> 0 | Some e \<Rightarrow> e, v, x1, ds1)))"

definition xenstore_ls :: "u8 list \<Rightarrow> u32 \<Rightarrow> xstore \<Rightarrow> nat list \<Rightarrow> (int \<times> u8 list \<times> xstore \<times> nat list) res option" where
  "xenstore_ls key room x ds =
     dbind (query XS_DIRECTORY key room x ds) (\<lambda>(m, res, v, x1, ds1).
       Some (Inr (case res of None \<Rightarrow> sint (mlen m) | Some e \<Rightarrow> e, v, x1, ds1)))"

text \<open>The buffer of five bytes on the stack holds \<open>b0\<close> at the start, and \<^verbatim>\<open>i\<close> the bytes \<open>i0\<close>.\<close>

definition domid_key :: "u8 list" where "domid_key = map of_char ''domid''"

definition xenstore_read_domain_id :: "u8 list \<Rightarrow> u32 \<Rightarrow> xstore \<Rightarrow> nat list \<Rightarrow> (int \<times> xstore \<times> nat list) res option" where
  "xenstore_read_domain_id b0 i0 x ds =
     dbind (xenstore_read domid_key 4 x ds) (\<lambda>(_, v, x1, ds1).
       let b = v @ drop (length v) (take 4 b0) @ [0] in
       dbind (Some (sscanf (b @ le32 i0) 0 (map of_char ''%d'' @ [0]) 0 [of_nat (length b)])) (\<lambda>(m, _).
         Some (Inr (sint (of_le32 (drop (length b) m)), x1, ds1))))"

section \<open>What a call sends\<close>

text \<open>The request ring with the bytes the client has written but not yet published.\<close>

definition ahead :: "u32 \<Rightarrow> xstore \<Rightarrow> ring" where
  "ahead i x = (req_ring x)\<lparr>prod := i\<rparr>"

definition sending :: "u32 \<Rightarrow> nat \<Rightarrow> xstore \<Rightarrow> bool" where
  "sending i k x = (i = prod (req_ring x) + of_nat k \<and> length (rbuf (req_ring x)) = XENSTORE_RING_SIZE \<and>
     filled (req_ring x) + k \<le> XENSTORE_RING_SIZE)"

definition same_side :: "xstore \<Rightarrow> xstore \<Rightarrow> bool" where
  "same_side x x' = (rsp_ring x' = rsp_ring x \<and> outgoing x' = outgoing x \<and> next_req x' = next_req x \<and> xs_notified x' = xs_notified x)"

lemma filled_ahead: "sending i k x \<Longrightarrow> filled (ahead i x) = filled (req_ring x) + k"
proof -
  assume s: "sending i k x"
  have "prod (req_ring x) = cons (req_ring x) + of_nat (filled (req_ring x))" by (simp add: filled_def)
  then have "i - cons (req_ring x) = of_nat (filled (req_ring x) + k)" using s by (simp add: sending_def)
  moreover have "unat (of_nat (filled (req_ring x) + k) :: u32) = filled (req_ring x) + k"
    using s by (simp add: sending_def XENSTORE_RING_SIZE_def unsigned_of_nat take_bit_nat_eq_self del: of_nat_add)
  ultimately have "unat (i - cons (req_ring x)) = filled (req_ring x) + k" by (simp only:)
  then show ?thesis by (simp add: filled_def ahead_def)
qed

lemma ahead_ok: "sending i k x \<Longrightarrow> ring_ok (ahead i x)"
  using filled_ahead [of i k x] by (auto simp: ring_ok_def ahead_def sending_def XENSTORE_RING_SIZE_def intro!: exI [of _ 10])

lemma sending_ok: "sending i k x \<Longrightarrow> ring_ok (req_ring x)"
  by (auto simp: ring_ok_def sending_def XENSTORE_RING_SIZE_def intro!: exI [of _ 10])

lemma content_prefix:
  assumes "sending i k x"
  shows "ring_content (req_ring x) = take (filled (req_ring x)) (ring_content (ahead i x))"
  using filled_ahead [OF assms] by (simp add: ring_content_def ahead_def take_map)

lemma daemon_takes_props:
  assumes s: "sending i k x"
  shows "sending i k (daemon_takes d x)" and "same_side x (daemon_takes d x)"
    and "taken (daemon_takes d x) @ ring_content (ahead i (daemon_takes d x)) = taken x @ ring_content (ahead i x)"
    and "filled (req_ring (daemon_takes d x)) = filled (req_ring x) - d"
proof -
  let ?n = "min d (filled (req_ring x))"
  have f: "filled (req_ring (daemon_takes d x)) = filled (req_ring x) - ?n"
    by (simp add: daemon_takes_def Let_def filled_skip)
  show "filled (req_ring (daemon_takes d x)) = filled (req_ring x) - d" using f by simp
  have "filled (req_ring (daemon_takes d x)) + k \<le> XENSTORE_RING_SIZE" using f s unfolding sending_def by linarith
  moreover have "prod (req_ring (daemon_takes d x)) = prod (req_ring x)" "rbuf (req_ring (daemon_takes d x)) = rbuf (req_ring x)"
    by (simp_all add: daemon_takes_def Let_def ring_skip_def)
  ultimately show "sending i k (daemon_takes d x)" using s by (simp add: sending_def)
  show "same_side x (daemon_takes d x)" by (simp add: same_side_def daemon_takes_def Let_def)
  have n: "?n \<le> filled (ahead i x)" using filled_ahead [OF s] by simp
  have "ahead i (daemon_takes d x) = ring_skip ?n (ahead i x)"
    by (simp add: ahead_def daemon_takes_def Let_def ring_skip_def)
  then have "ring_content (ahead i (daemon_takes d x)) = drop ?n (ring_content (ahead i x))"
    using ring_skip_props(1) [OF ahead_ok [OF s] n] by simp
  moreover have "taken (daemon_takes d x) = taken x @ take ?n (ring_content (ahead i x))"
    using content_prefix [OF s] by (simp add: daemon_takes_def Let_def min_def)
  ultimately show "taken (daemon_takes d x) @ ring_content (ahead i (daemon_takes d x)) = taken x @ ring_content (ahead i x)"
    by simp
qed

lemma int_succ_ok: "sint i + 1 < 2 ^ 31 \<Longrightarrow> int_succ i = Inr (i + 1) \<and> sint (i + 1) \<le> sint i + 1"
proof -
  assume a: "sint i + 1 < 2 ^ 31"
  have "i \<noteq> 0x7FFFFFFF" using a by auto
  moreover have "sint (i + 1) = signed_take_bit 31 (sint i + 1)" using sint_word_ariths(1) [of i 1] by simp
  moreover have "signed_take_bit 31 (sint i + 1) = sint i + 1"
    using a sint_greater_eq [of i] by (intro signed_take_bit_int_eq_self) simp_all
  ultimately show ?thesis by (simp add: int_succ_def)
qed

lemma same_side_trans: "same_side a b \<Longrightarrow> same_side b c \<Longrightarrow> same_side a c"
  by (simp add: same_side_def)

lemma write_loop_sends:
  assumes "sending i k x" and "k + length bs \<le> XENSTORE_RING_SIZE" and "sint i + int (length bs) < 2 ^ 31"
    and "length bs \<le> length ds" and "\<And>d. d \<in> set ds \<Longrightarrow> 1 \<le> d"
  shows "\<exists>j x'. write_loop bs i x ds = Some (Inr (j, x', drop (length bs) ds)) \<and> sending j (k + length bs) x' \<and>
     same_side x x' \<and> taken x' @ ring_content (ahead j x') = taken x @ ring_content (ahead i x) @ bs \<and>
     sint j \<le> sint i + int (length bs)"
  using assms
proof (induction bs arbitrary: i k x ds)
  case Nil
  then show ?case by (simp add: same_side_def)
next
  case (Cons b bs)
  obtain d ds1 where ds: "ds = d # ds1" using Cons.prems(4) by (cases ds) auto
  have d: "1 \<le> d" using Cons.prems(5) ds by simp
  let ?x1 = "daemon_takes d x" and ?x2 = "store_byte i b (daemon_takes d x)"
  note T = daemon_takes_props [OF Cons.prems(1), of d]
  have lt: "filled (req_ring ?x1) + k < XENSTORE_RING_SIZE"
  proof -
    have "filled (req_ring x) + k \<le> XENSTORE_RING_SIZE" "k < XENSTORE_RING_SIZE"
      using Cons.prems(1,2) by (simp_all add: sending_def)
    then show ?thesis using T(4) d by arith
  qed
  have fa: "filled (ahead i ?x1) < XENSTORE_RING_SIZE" using filled_ahead [OF T(1)] lt by simp
  then have "\<not> i - cons (req_ring ?x1) \<ge> of_nat XENSTORE_RING_SIZE"
    by (simp add: filled_def ahead_def word_le_nat_alt XENSTORE_RING_SIZE_def)
  then have w: "wait_room i x ds = Some (?x1, ds1)" by (simp add: ds Let_def)
  have sc: "int_succ i = Inr (i + 1)" "sint (i + 1) \<le> sint i + 1"
    using int_succ_ok [of i] Cons.prems(3) by auto
  have l: "length (rbuf (ahead i ?x1)) = XENSTORE_RING_SIZE" using T(1) by (simp add: ahead_def sending_def)
  have put: "ahead (i + 1) ?x2 = ring_put b (ahead i ?x1)"
    using l by (simp add: ahead_def store_byte_def ring_put_def)
  have s2: "sending (i + 1) (Suc k) ?x2"
    using T(1) lt by (simp add: sending_def store_byte_def filled_def algebra_simps)
  have "ring_content (ahead (i + 1) ?x2) = ring_content (ahead i ?x1) @ [b]"
    unfolding put by (rule ring_put_props(1) [OF ahead_ok [OF T(1)]]) (use fa l in simp)
  moreover have "taken ?x2 = taken ?x1" "same_side ?x1 ?x2" by (simp_all add: store_byte_def same_side_def)
  moreover obtain j x' where "write_loop bs (i + 1) ?x2 ds1 = Some (Inr (j, x', drop (length bs) ds1))"
    "sending j (Suc k + length bs) x'" "same_side ?x2 x'"
    "taken x' @ ring_content (ahead j x') = taken ?x2 @ ring_content (ahead (i + 1) ?x2) @ bs"
    "sint j \<le> sint (i + 1) + int (length bs)"
    using Cons.IH [OF s2, of ds1] Cons.prems(2-5) ds sc(2) by auto
  ultimately show ?case using w sc T(2,3) by (auto simp: ds intro: same_side_trans)
qed

text \<open>Everything the daemon has been given: what it took and what it may take.\<close>

definition sent :: "xstore \<Rightarrow> u8 list" where
  "sent x = taken x @ ring_content (req_ring x)"

definition polls :: "nat \<Rightarrow> nat list \<Rightarrow> bool" where
  "polls n ds = (n \<le> length ds \<and> (\<forall>d \<in> set ds. 1 \<le> d))"

lemma pollsD: "polls n ds \<Longrightarrow> n \<le> length ds" "polls n ds \<Longrightarrow> d \<in> set ds \<Longrightarrow> 1 \<le> d"
  by (simp_all add: polls_def)

lemma polls_drop: "polls (m + n) ds \<Longrightarrow> polls n (drop m ds)"
  by (auto simp: polls_def dest: in_set_dropD)

definition req_ok :: "xstore \<Rightarrow> bool" where
  "req_ok x = (ring_ok (req_ring x) \<and> length (rbuf (req_ring x)) = XENSTORE_RING_SIZE)"

lemma write_request_sends:
  assumes "req_ok x" and "length bs \<le> XENSTORE_RING_SIZE" and "sint (prod (req_ring x)) + int (length bs) < 2 ^ 31"
    and "polls (length bs) ds"
  shows "\<exists>x'. xenstore_write_request bs x ds = Some (Inr (0, x', drop (length bs) ds)) \<and> req_ok x' \<and> same_side x x' \<and>
     sent x' = sent x @ bs \<and> sint (prod (req_ring x')) \<le> sint (prod (req_ring x)) + int (length bs)"
proof -
  let ?i = "prod (req_ring x)"
  have s: "sending ?i 0 x" using assms(1) by (auto simp: sending_def req_ok_def ring_ok_def)
  have fit: "0 + length bs \<le> XENSTORE_RING_SIZE" using assms(2) by simp
  obtain j x1 where W: "write_loop bs ?i x ds = Some (Inr (j, x1, drop (length bs) ds))" "sending j (0 + length bs) x1"
    "same_side x x1" "taken x1 @ ring_content (ahead j x1) = taken x @ ring_content (ahead ?i x) @ bs"
    "sint j \<le> sint ?i + int (length bs)"
    using write_loop_sends [OF s fit assms(3) pollsD(1) [OF assms(4)] pollsD(2) [OF assms(4)]] by blast
  let ?x' = "x1\<lparr>req_ring := (req_ring x1)\<lparr>prod := j\<rparr>\<rparr>"
  have a: "req_ring ?x' = ahead j x1" "ahead ?i x = req_ring x" by (simp_all add: ahead_def)
  have "xenstore_write_request bs x ds = Some (Inr (0, ?x', drop (length bs) ds))"
    using assms(2) W(1) by (simp add: xenstore_write_request_def)
  moreover have "req_ok ?x'" using ahead_ok [OF W(2)] W(2) unfolding req_ok_def a(1) by (simp add: ahead_def sending_def)
  moreover have "same_side x ?x'" using W(3) by (simp add: same_side_def)
  moreover have "sent ?x' = sent x @ bs" using W(4) a(2) by (simp add: sent_def ahead_def)
  ultimately show ?thesis using W(5) by auto
qed

section \<open>What a call receives\<close>

text \<open>Everything the daemon has for the client: what is on the ring and what it still has to send.\<close>

definition arriving :: "xstore \<Rightarrow> u8 list" where
  "arriving x = ring_content (rsp_ring x) @ outgoing x"

definition rsp_ok :: "xstore \<Rightarrow> bool" where
  "rsp_ok x = (ring_ok (rsp_ring x) \<and> length (rbuf (rsp_ring x)) = XENSTORE_RING_SIZE)"

definition other_side :: "xstore \<Rightarrow> xstore \<Rightarrow> bool" where
  "other_side x x' = (req_ring x' = req_ring x \<and> taken x' = taken x \<and> next_req x' = next_req x \<and> xs_notified x' = xs_notified x)"

lemma other_side_trans: "other_side a b \<Longrightarrow> other_side b c \<Longrightarrow> other_side a c"
  by (simp add: other_side_def)

lemma daemon_puts_props:
  assumes ok: "rsp_ok x"
  shows "rsp_ok (daemon_puts d x)" and "arriving (daemon_puts d x) = arriving x" and "other_side x (daemon_puts d x)"
    and "cons (rsp_ring (daemon_puts d x)) = cons (rsp_ring x)"
    and "filled (rsp_ring (daemon_puts d x)) =
       filled (rsp_ring x) + min d (min (length (outgoing x)) (XENSTORE_RING_SIZE - filled (rsp_ring x)))"
proof -
  let ?r = "rsp_ring x" and ?n = "min d (min (length (outgoing x)) (length (rbuf (rsp_ring x)) - filled (rsp_ring x)))"
  have r: "ring_ok ?r" "length (rbuf ?r) = XENSTORE_RING_SIZE" using ok by (simp_all add: rsp_ok_def)
  have "filled ?r \<le> length (rbuf ?r)" using r(1) by (simp add: ring_ok_def)
  then have fit: "filled ?r + length (take ?n (outgoing x)) \<le> length (rbuf ?r)" by simp
  note P = ring_puts_props [OF r(1) fit]
  have x': "rsp_ring (daemon_puts d x) = ring_puts (take ?n (outgoing x)) ?r" "outgoing (daemon_puts d x) = drop ?n (outgoing x)"
    by (simp_all add: daemon_puts_def Let_def)
  show "rsp_ok (daemon_puts d x)" unfolding rsp_ok_def x' using P(2) r(2) by simp
  show "arriving (daemon_puts d x) = arriving x" unfolding arriving_def x' P(1) by simp
  show "other_side x (daemon_puts d x)" by (simp add: other_side_def daemon_puts_def Let_def)
  show "cons (rsp_ring (daemon_puts d x)) = cons (rsp_ring x)" unfolding x' by simp
  have "filled (rsp_ring (daemon_puts d x)) = filled ?r + length (take ?n (outgoing x))" unfolding x' by (rule P(3))
  moreover have "length (take ?n (outgoing x)) = min d (min (length (outgoing x)) (XENSTORE_RING_SIZE - filled ?r))"
    using r(2) by simp
  ultimately show "filled (rsp_ring (daemon_puts d x)) =
      filled ?r + min d (min (length (outgoing x)) (XENSTORE_RING_SIZE - filled ?r))" by (simp only:)
qed

lemma nothing_new:
  assumes "i = cons r + of_nat k" and "k \<le> filled r"
  shows "(prod r - i = 0) = (filled r = k)"
proof -
  have "prod r - i = of_nat (filled r - k)"
    using assms by (simp add: filled_def of_nat_diff algebra_simps)
  moreover have "unat (of_nat (filled r - k) :: u32) = filled r - k"
    using unat_less_pow [of "prod r - cons r"] by (simp add: filled_def unsigned_of_nat take_bit_nat_eq_self)
  ultimately have "unat (prod r - i) = filled r - k" by (simp only:)
  then have "(prod r - i = 0) = (filled r - k = 0)" by (metis unat_eq_zero)
  then show ?thesis using assms(2) by simp
qed

lemma read_loop_receives:
  assumes "rsp_ok x" and "i = cons (rsp_ring x) + of_nat k" and "k \<le> filled (rsp_ring x)"
    and "k + n \<le> XENSTORE_RING_SIZE" and "k + n \<le> length (arriving x)" and "sint i + int n < 2 ^ 31"
    and "n \<le> length ds" and "\<And>d. d \<in> set ds \<Longrightarrow> 1 \<le> d"
  shows "\<exists>x'. read_loop n i x ds = Some (Inr (take n (drop k (arriving x)), i + of_nat n, x', drop n ds)) \<and>
     rsp_ok x' \<and> other_side x x' \<and> arriving x' = arriving x \<and> cons (rsp_ring x') = cons (rsp_ring x) \<and>
     k + n \<le> filled (rsp_ring x')"
  using assms
proof (induction n arbitrary: i k x ds)
  case 0
  then show ?case by (simp add: other_side_def)
next
  case (Suc n)
  obtain d ds1 where ds: "ds = d # ds1" using Suc.prems(7) by (cases ds) auto
  have d: "1 \<le> d" using Suc.prems(8) ds by simp
  let ?x1 = "daemon_puts d x"
  note T = daemon_puts_props [OF Suc.prems(1), of d]
  have la: "length (arriving x) = filled (rsp_ring x) + length (outgoing x)" by (simp add: arriving_def)
  have lt: "k < filled (rsp_ring ?x1)"
  proof (cases "k < filled (rsp_ring x)")
    case True
    then show ?thesis using T(5) by simp
  next
    case False
    then have "k = filled (rsp_ring x)" using Suc.prems(3) by simp
    then obtain c where c: "min d (min (length (outgoing x)) (XENSTORE_RING_SIZE - filled (rsp_ring x))) = Suc c"
      using d Suc.prems(4,5) la by (cases "min d (min (length (outgoing x)) (XENSTORE_RING_SIZE - filled (rsp_ring x)))")
        (auto simp: min_def split: if_splits)
    show ?thesis using T(5) \<open>k = filled (rsp_ring x)\<close> unfolding c by simp
  qed
  have i1: "i = cons (rsp_ring ?x1) + of_nat k" using Suc.prems(2) T(4) by simp
  have "\<not> prod (rsp_ring ?x1) - i = 0" using nothing_new [OF i1] lt by simp
  then have w: "wait_data i x ds = Some (?x1, ds1)" by (simp add: ds Let_def)
  have sc: "int_succ i = Inr (i + 1)" "sint (i + 1) \<le> sint i + 1"
    using int_succ_ok [of i] Suc.prems(6) by auto
  have r1: "ring_ok (rsp_ring ?x1)" "length (rbuf (rsp_ring ?x1)) = XENSTORE_RING_SIZE" using T(1) by (simp_all add: rsp_ok_def)
  have b: "rbuf (rsp_ring ?x1) ! mask_idx XENSTORE_RING_SIZE i = arriving x ! k"
    using ring_nth [OF r1(1) lt] lt unfolding r1(2) i1 T(2) [symmetric] by (simp add: arriving_def nth_append)
  have i2: "i + 1 = cons (rsp_ring ?x1) + of_nat (Suc k)" using i1 by simp
  obtain x' where R: "read_loop n (i + 1) ?x1 ds1 = Some (Inr (take n (drop (Suc k) (arriving ?x1)), i + 1 + of_nat n, x', drop n ds1))"
    "rsp_ok x'" "other_side ?x1 x'" "arriving x' = arriving ?x1" "cons (rsp_ring x') = cons (rsp_ring ?x1)"
    "Suc k + n \<le> filled (rsp_ring x')"
    using Suc.IH [OF T(1) i2, of ds1] Suc.prems(4-8) ds lt sc(2) T(2) by auto
  have "k < length (arriving x)" using Suc.prems(5) by simp
  then have "take (Suc n) (drop k (arriving x)) = arriving x ! k # take n (drop (Suc k) (arriving x))"
    by (simp add: Cons_nth_drop_Suc [symmetric])
  then have "read_loop (Suc n) i x ds = Some (Inr (take (Suc n) (drop k (arriving x)), i + of_nat (Suc n), x', drop (Suc n) ds))"
    using w sc(1) R(1) b T(2) by (simp add: ds)
  then show ?case using R(2,4-6) T(2,4) other_side_trans [OF T(3) R(3)] by auto
qed

lemma read_response_receives:
  assumes "rsp_ok x" and "n \<le> XENSTORE_RING_SIZE" and "n \<le> length (arriving x)"
    and "sint (cons (rsp_ring x)) + int n < 2 ^ 31" and "polls n ds"
  shows "\<exists>x'. xenstore_read_response (of_nat n) x ds = Some (Inr (take n (arriving x), x', drop n ds)) \<and> rsp_ok x' \<and>
     other_side x x' \<and> arriving x' = drop n (arriving x) \<and> sint (cons (rsp_ring x')) \<le> sint (cons (rsp_ring x)) + int n"
proof -
  have sn: "nat (sint (of_nat n :: u32)) = n"
    using assms(2) by (simp add: signed_of_nat XENSTORE_RING_SIZE_def signed_take_bit_int_eq_self)
  have pre: "0 + n \<le> XENSTORE_RING_SIZE" "0 + n \<le> length (arriving x)" "cons (rsp_ring x) = cons (rsp_ring x) + of_nat 0"
    using assms(2,3) by simp_all
  obtain x1 where R: "read_loop n (cons (rsp_ring x)) x ds =
      Some (Inr (take n (drop 0 (arriving x)), cons (rsp_ring x) + of_nat n, x1, drop n ds))"
    "rsp_ok x1" "other_side x x1" "arriving x1 = arriving x" "cons (rsp_ring x1) = cons (rsp_ring x)" "0 + n \<le> filled (rsp_ring x1)"
    using read_loop_receives [OF assms(1) pre(3) _ pre(1,2) assms(4) pollsD(1) [OF assms(5)] pollsD(2) [OF assms(5)]] by auto
  let ?x' = "x1\<lparr>rsp_ring := (rsp_ring x1)\<lparr>cons := cons (rsp_ring x) + of_nat n\<rparr>\<rparr>"
  have sk: "rsp_ring ?x' = ring_skip n (rsp_ring x1)" using R(5) by (simp add: ring_skip_def)
  have n1: "n \<le> filled (rsp_ring x1)" using R(6) by simp
  have r1: "ring_ok (rsp_ring x1)" "length (rbuf (rsp_ring x1)) = XENSTORE_RING_SIZE" using R(2) by (simp_all add: rsp_ok_def)
  note P = ring_skip_props [OF r1(1) n1]
  have "xenstore_read_response (of_nat n) x ds = Some (Inr (take n (arriving x), ?x', drop n ds))"
    using R(1) by (simp add: xenstore_read_response_def sn)
  moreover have "rsp_ok ?x'" unfolding rsp_ok_def sk using P(2,3) r1(2) by simp
  moreover have "other_side x ?x'" using R(3) by (simp add: other_side_def)
  moreover have "arriving ?x' = drop n (arriving x)"
  proof -
    have "outgoing ?x' = outgoing x1" by simp
    then show ?thesis using P(1) R(4) n1 unfolding arriving_def sk by (metis append_assoc drop_append length_content diff_is_0_eq drop0)
  qed
  moreover have "sint (cons (rsp_ring x) + of_nat n) \<le> sint (cons (rsp_ring x)) + int n"
    using assms(2,4)
  proof (induction n)
    case (Suc n)
    then have "sint (cons (rsp_ring x) + of_nat n) \<le> sint (cons (rsp_ring x)) + int n" by simp
    moreover have "sint (cons (rsp_ring x) + of_nat n + 1) \<le> sint (cons (rsp_ring x) + of_nat n) + 1"
      using int_succ_ok [of "cons (rsp_ring x) + of_nat n"] calculation Suc.prems(2) by simp
    ultimately show ?case by (simp add: algebra_simps)
  qed simp
  ultimately show ?thesis by auto
qed

section \<open>A whole read\<close>

lemma same_side_rsp: "same_side x x' \<Longrightarrow> rsp_ok x' = rsp_ok x \<and> arriving x' = arriving x"
  by (simp add: same_side_def rsp_ok_def arriving_def)

lemma other_side_req: "other_side x x' \<Longrightarrow> req_ok x' = req_ok x \<and> sent x' = sent x"
  by (simp add: other_side_def req_ok_def sent_def)

lemma notify_simps [simp]:
  "rsp_ring (notify x) = rsp_ring x" "req_ring (notify x) = req_ring x" "outgoing (notify x) = outgoing x"
  "taken (notify x) = taken x" "next_req (notify x) = next_req x"
  by (simp_all add: notify_def)

lemma polls_part: "polls n ds \<Longrightarrow> m \<le> n \<Longrightarrow> polls m ds"
  by (simp add: polls_def)


section \<open>Answers longer than the ring\<close>

lemma wait_data_waits:
  "wait_data i x ds = Some (x1, ds1) \<Longrightarrow> rsp_ok x \<Longrightarrow> i = cons (rsp_ring x) + of_nat k \<Longrightarrow> k \<le> filled (rsp_ring x) \<Longrightarrow>
     rsp_ok x1 \<and> cons (rsp_ring x1) = cons (rsp_ring x) \<and> k < filled (rsp_ring x1)"
proof (induction ds arbitrary: x)
  case (Cons d ds)
  note T = daemon_puts_props [OF Cons.prems(2), of d]
  have k: "k \<le> filled (rsp_ring (daemon_puts d x))" using Cons.prems(4) T(5) by simp
  have i: "i = cons (rsp_ring (daemon_puts d x)) + of_nat k" using Cons.prems(3) T(4) by simp
  show ?case
  proof (cases "prod (rsp_ring (daemon_puts d x)) - i = 0")
    case True
    then show ?thesis using Cons.IH [OF _ T(1) i k] Cons.prems(1) T(4) by (simp add: Let_def)
  next
    case False
    then have "k \<noteq> filled (rsp_ring (daemon_puts d x))" using nothing_new [OF i k] by simp
    moreover have "x1 = daemon_puts d x" using Cons.prems(1) False by (simp add: Let_def)
    ultimately show ?thesis using T(1,4) k by simp
  qed
qed simp

lemma read_loop_stuck:
  assumes "rsp_ok x" and "i = cons (rsp_ring x) + of_nat k" and "k \<le> filled (rsp_ring x)"
    and "XENSTORE_RING_SIZE < k + n" and "sint i + int (XENSTORE_RING_SIZE - k) < 2 ^ 31"
  shows "read_loop n i x ds = None"
  using assms
proof (induction n arbitrary: i k x ds)
  case 0
  then show ?case by (simp add: rsp_ok_def ring_ok_def)
next
  case (Suc n)
  show ?case
  proof (cases "wait_data i x ds")
    case (Some r)
    obtain x1 ds1 where r: "r = (x1, ds1)" by (cases r)
    have W: "rsp_ok x1" "cons (rsp_ring x1) = cons (rsp_ring x)" "k < filled (rsp_ring x1)"
      using wait_data_waits [of i x ds x1 ds1 k] Some r Suc.prems(1-3) by auto
    have "filled (rsp_ring x1) \<le> XENSTORE_RING_SIZE" using W(1) by (auto simp: rsp_ok_def ring_ok_def)
    then have lt: "k < XENSTORE_RING_SIZE" using W(3) by simp
    have sc: "int_succ i = Inr (i + 1)" "sint (i + 1) \<le> sint i + 1"
      using int_succ_ok [of i] Suc.prems(5) lt by auto
    have i2: "i + 1 = cons (rsp_ring x1) + of_nat (Suc k)" using Suc.prems(2) W(2) by simp
    have "sint (i + 1) + int (XENSTORE_RING_SIZE - Suc k) < 2 ^ 31" using sc(2) Suc.prems(5) lt by simp
    then have "read_loop n (i + 1) x1 ds1 = None"
      using Suc.IH [OF W(1) i2] Suc.prems(4) W(3) by simp
    then show ?thesis using Some r sc(1) by simp
  qed simp
qed

text \<open>
  \<open>xenstore_read_response\<close> publishes its index only at its end, so a read of more bytes than the
  ring has never returns, whatever the daemon does.
\<close>

theorem long_read_never_returns:
  assumes "rsp_ok x" and "XENSTORE_RING_SIZE < n" and "n < 2 ^ 31"
    and "sint (cons (rsp_ring x)) + int XENSTORE_RING_SIZE < 2 ^ 31"
  shows "xenstore_read_response (of_nat n) x ds = None"
proof -
  have n: "nat (sint (of_nat n :: u32)) = n"
    using assms(3) by (simp add: signed_of_nat signed_take_bit_int_eq_self)
  show ?thesis
    using read_loop_stuck [OF assms(1), of "cons (rsp_ring x)" 0 n ds] assms(2,4) by (simp add: xenstore_read_response_def n)
qed

text \<open>A client with empty rings at index \<open>i\<close> whose daemon has the bytes \<open>b\<close> to send.\<close>

definition demo_xstore :: "u32 \<Rightarrow> u8 list \<Rightarrow> xstore" where
  "demo_xstore i b = \<lparr>xs_addr = 0, xs_evt = 1, req_ring = \<lparr>rbuf = replicate 1024 0, prod = i, cons = i\<rparr>,
     rsp_ring = \<lparr>rbuf = replicate 1024 0, prod = i, cons = i\<rparr>, outgoing = b, taken = [], next_req = 0, xs_notified = 0\<rparr>"

lemma demo_xstore_ok: "req_ok (demo_xstore i b)" "rsp_ok (demo_xstore i b)" "arriving (demo_xstore i b) = b"
  by (auto simp: demo_xstore_def req_ok_def rsp_ok_def ring_ok_def arriving_def ring_content_def filled_def
      XENSTORE_RING_SIZE_def intro!: exI [of _ 10])


theorem long_read_never_returns_witness:
  "xenstore_read_response (of_nat 2000) (demo_xstore 0 (replicate 2000 65)) (replicate 5000 1) = None"
  by (rule long_read_never_returns [OF demo_xstore_ok(2)]) (simp_all add: XENSTORE_RING_SIZE_def demo_xstore_def)

end
