(* ===== verification/Tls.thy ===== *)
theory Tls
  imports Sched_Props
begin

text \<open>
  Thread-local storage: the binary search tree of \<^verbatim>\<open>lib/pte/platform/tls-implement.c\<close> and the
  operations of \<^verbatim>\<open>lib/pte/platform/tls.c\<close> that keep one tree per pthread and one for the
  whole of the POSIX thread environment.

  Nodes are reached from their tree only, so a tree is a value; the pointer to a pointer that
  \<^verbatim>\<open>tls_search\<close> returns is the path from the root to the pointer meant.  \<^verbatim>\<open>tls_init\<close> never
  writes \<^verbatim>\<open>root\<close>, so a root is an option and \<open>None\<close> is the indeterminate pointer that
  \<^verbatim>\<open>malloc\<close> left there.  A null \<^verbatim>\<open>tls_pointer\<close> is \<open>None\<close>.  Whether \<^verbatim>\<open>malloc\<close> succeeds is an
  argument.  The operations of \<^verbatim>\<open>tls.c\<close> run under the lock of the tree, so each is one step;
  the lock is a mutex of the theory \<^verbatim>\<open>Sync\<close> and is not part of the state here.
\<close>

section \<open>The tree\<close>

datatype tls_tree = Null | Node u32 u64 tls_tree tls_tree

record tls =
  root :: "tls_tree option"
  tls_lock :: nat

datatype branch = To_left | To_right

definition tls_init :: "bool \<Rightarrow> nat \<Rightarrow> tls option" where
  "tls_init ok mutex = (if \<not> ok then None else Some \<lparr>root = None, tls_lock = mutex\<rparr>)"

definition tls_node_init :: "bool \<Rightarrow> u32 \<Rightarrow> u64 \<Rightarrow> tls_tree" where
  "tls_node_init ok key v = (if \<not> ok then Null else Node key v Null Null)"

definition tls_comp :: "u32 \<Rightarrow> u32 \<Rightarrow> int" where
  "tls_comp a b = sint (a - b)"

fun tls_search :: "tls_tree \<Rightarrow> u32 \<Rightarrow> branch list" where
  "tls_search Null k = []"
| "tls_search (Node key v l r) k =
     (let comp_result = tls_comp k key
      in if comp_result < 0 then To_left # tls_search l k
         else if comp_result > 0 then To_right # tls_search r k
         else [])"

text \<open>Reading and writing the pointer at the end of a path.\<close>

fun pointer_at :: "tls_tree \<Rightarrow> branch list \<Rightarrow> tls_tree" where
  "pointer_at t [] = t"
| "pointer_at (Node k v l r) (To_left # p) = pointer_at l p"
| "pointer_at (Node k v l r) (To_right # p) = pointer_at r p"
| "pointer_at Null (d # p) = Null"

fun write_at :: "tls_tree \<Rightarrow> branch list \<Rightarrow> tls_tree \<Rightarrow> tls_tree" where
  "write_at t [] n = n"
| "write_at (Node k v l r) (To_left # p) n = Node k v (write_at l p n) r"
| "write_at (Node k v l r) (To_right # p) n = Node k v l (write_at r p n)"
| "write_at Null (d # p) n = Null"

definition tls_put :: "bool \<Rightarrow> tls option \<Rightarrow> u32 \<Rightarrow> u64 \<Rightarrow> (int \<times> tls option) res" where
  "tls_put ok m key v =
     (let new_node = tls_node_init ok key v
      in case m of
        None \<Rightarrow> Inr (0, m)
      | Some t \<Rightarrow>
          if new_node = Null then Inr (0, m)
          else (case root t of
              None \<Rightarrow> Inl Undef
            | Some tr \<Rightarrow> Inr (1, Some (t\<lparr>root := Some (write_at tr (tls_search tr key) new_node)\<rparr>))))"

definition tls_alloc :: "bool \<Rightarrow> tls option \<Rightarrow> u32 \<Rightarrow> u64 \<Rightarrow> int \<times> tls option" where
  "tls_alloc ok m key v =
     (let new_node = tls_node_init ok key v
      in case m of
        None \<Rightarrow> (0, m)
      | Some t \<Rightarrow> if new_node = Null then (0, m) else (1, Some (t\<lparr>root := Some new_node\<rparr>)))"

definition tls_get :: "tls option \<Rightarrow> u32 \<Rightarrow> u64 res" where
  "tls_get m key =
     (case m of
        None \<Rightarrow> Inr 0
      | Some t \<Rightarrow> (case root t of
          None \<Rightarrow> Inl Undef
        | Some tr \<Rightarrow> (case pointer_at tr (tls_search tr key) of Null \<Rightarrow> Inr 0 | Node k v l r \<Rightarrow> Inr v)))"

definition tls_has_key :: "tls option \<Rightarrow> u32 \<Rightarrow> int res" where
  "tls_has_key m key =
     (case m of
        None \<Rightarrow> Inr 0
      | Some t \<Rightarrow> (case root t of
          None \<Rightarrow> Inl Undef
        | Some tr \<Rightarrow> (case pointer_at tr (tls_search tr key) of Null \<Rightarrow> Inr 0 | Node k v l r \<Rightarrow> Inr 1)))"

definition tls_set :: "tls option \<Rightarrow> u32 \<Rightarrow> u64 \<Rightarrow> (int \<times> tls option) res" where
  "tls_set m key v =
     (case m of
        None \<Rightarrow> Inr (0, m)
      | Some t \<Rightarrow> (case root t of
          None \<Rightarrow> Inl Undef
        | Some tr \<Rightarrow> (let p = tls_search tr key
            in case pointer_at tr p of
                 Null \<Rightarrow> Inr (0, m)
               | Node k w l r \<Rightarrow> Inr (1, Some (t\<lparr>root := Some (write_at tr p (Node k v l r))\<rparr>)))))"

fun tls_count :: "tls_tree \<Rightarrow> u32" where
  "tls_count Null = 0"
| "tls_count (Node k v l r) =
     1 + (if l \<noteq> Null then tls_count l else 0) + (if r \<noteq> Null then tls_count r else 0)"

section \<open>The tree as a map\<close>

text \<open>\<^verbatim>\<open>tls_comp\<close> orders keys by the sign of their wrapped difference, which is the order of
  the numbers only while the keys are less than \<open>2 ^ 31\<close> apart.\<close>

definition small_key :: "u32 \<Rightarrow> bool" where
  "small_key k = (uint k < 2 ^ 31)"

fun keys :: "tls_tree \<Rightarrow> u32 set" where
  "keys Null = {}"
| "keys (Node k v l r) = insert k (keys l \<union> keys r)"

fun nodes :: "tls_tree \<Rightarrow> nat" where
  "nodes Null = 0"
| "nodes (Node k v l r) = Suc (nodes l + nodes r)"

fun search_tree :: "tls_tree \<Rightarrow> bool" where
  "search_tree Null = True"
| "search_tree (Node k v l r) =
     (small_key k \<and> (\<forall>x\<in>keys l. x < k) \<and> (\<forall>x\<in>keys r. k < x) \<and> search_tree l \<and> search_tree r)"

definition lookup :: "tls_tree \<Rightarrow> u32 \<Rightarrow> u64 option" where
  "lookup t k = (case pointer_at t (tls_search t k) of Null \<Rightarrow> None | Node k' v l r \<Rightarrow> Some v)"

definition insert_key :: "u32 \<Rightarrow> u64 \<Rightarrow> tls_tree \<Rightarrow> tls_tree" where
  "insert_key k v t = write_at t (tls_search t k) (Node k v Null Null)"

definition assign :: "u32 \<Rightarrow> u64 \<Rightarrow> tls_tree \<Rightarrow> tls_tree" where
  "assign k v t = (case pointer_at t (tls_search t k) of Null \<Rightarrow> t
     | Node k' w l r \<Rightarrow> write_at t (tls_search t k) (Node k' v l r))"

lemma tls_comp_small:
  assumes "small_key a" "small_key b"
  shows "tls_comp a b = uint a - uint b"
proof -
  have b: "uint a < 2147483648" "uint b < 2147483648" "0 \<le> uint a" "0 \<le> uint b"
    using assms by (simp_all add: small_key_def)
  have "tls_comp a b = (uint a - uint b + 2147483648) mod 4294967296 - 2147483648"
    by (simp add: tls_comp_def sint_uint uint_word_ariths signed_take_bit_eq_take_bit_shift
        take_bit_eq_mod mod_simps)
  also have "(uint a - uint b + 2147483648) mod 4294967296 = uint a - uint b + 2147483648"
    by (rule mod_pos_pos_trivial) (use b in linarith)+
  finally show ?thesis by simp
qed

lemma tls_comp_order [simp]:
  assumes "small_key a" "small_key b"
  shows "tls_comp a b < 0 \<longleftrightarrow> a < b" "0 < tls_comp a b \<longleftrightarrow> b < a"
  using tls_comp_small [OF assms] by (simp_all add: word_less_def)

text \<open>The loop of \<^verbatim>\<open>tls_search\<close> seen one node at a time.\<close>

lemma lookup_simps [simp]:
  "lookup Null k = None"
  "lookup (Node key v l r) k =
     (if tls_comp k key < 0 then lookup l k else if 0 < tls_comp k key then lookup r k else Some v)"
  by (simp_all add: lookup_def Let_def)

lemma insert_key_simps [simp]:
  "insert_key k w Null = Node k w Null Null"
  "insert_key k w (Node key v l r) =
     (if tls_comp k key < 0 then Node key v (insert_key k w l) r
      else if 0 < tls_comp k key then Node key v l (insert_key k w r)
      else Node k w Null Null)"
  by (simp_all add: insert_key_def Let_def)

lemma assign_simps [simp]:
  "assign k w Null = Null"
  "assign k w (Node key v l r) =
     (if tls_comp k key < 0 then Node key v (assign k w l) r
      else if 0 < tls_comp k key then Node key v l (assign k w r)
      else Node key w l r)"
  by (auto simp: assign_def Let_def split: tls_tree.split)

lemma keys_small: "search_tree t \<Longrightarrow> x \<in> keys t \<Longrightarrow> small_key x"
  by (induction t) auto

lemma lookup_None_iff: "search_tree t \<Longrightarrow> small_key k \<Longrightarrow> lookup t k = None \<longleftrightarrow> k \<notin> keys t"
  by (induction t) (auto dest: less_asym)

lemma keys_insert_key:
  "search_tree t \<Longrightarrow> small_key k \<Longrightarrow> k \<notin> keys t \<Longrightarrow> keys (insert_key k w t) = insert k (keys t)"
  by (induction t) auto

lemma search_tree_insert_key:
  "search_tree t \<Longrightarrow> small_key k \<Longrightarrow> k \<notin> keys t \<Longrightarrow> search_tree (insert_key k w t)"
  by (induction t) (auto simp: keys_insert_key)

lemma lookup_insert_key:
  "search_tree t \<Longrightarrow> small_key k \<Longrightarrow> small_key x \<Longrightarrow> k \<notin> keys t
   \<Longrightarrow> lookup (insert_key k w t) x = (if x = k then Some w else lookup t x)"
  by (induction t) (auto simp: not_less)

lemma nodes_insert_key:
  "search_tree t \<Longrightarrow> small_key k \<Longrightarrow> k \<notin> keys t \<Longrightarrow> nodes (insert_key k w t) = Suc (nodes t)"
  by (induction t) auto

lemma keys_assign [simp]: "keys (assign k w t) = keys t"
  by (induction t) auto

lemma nodes_assign [simp]: "nodes (assign k w t) = nodes t"
  by (induction t) auto

lemma search_tree_assign [simp]: "search_tree (assign k w t) = search_tree t"
  by (induction t) auto

lemma lookup_assign:
  "search_tree t \<Longrightarrow> small_key k \<Longrightarrow> small_key x
   \<Longrightarrow> lookup (assign k w t) x = (if x = k \<and> k \<in> keys t then Some w else lookup t x)"
  by (induction t) (auto dest: less_asym)

lemma tls_count_nodes: "tls_count t = of_nat (nodes t)"
proof (induction t)
  case (Node k v l r)
  have "(if x \<noteq> Null then tls_count x else 0) = tls_count x" for x by simp
  then show ?case using Node by (simp add: algebra_simps)
qed simp

lemma finite_keys [simp]: "finite (keys t)"
  by (induction t) auto

lemma nodes_card: "search_tree t \<Longrightarrow> nodes t = card (keys t)"
proof (induction t)
  case (Node k v l r)
  have "keys l \<inter> keys r = {}" using Node.prems by fastforce
  moreover have "k \<notin> keys l \<union> keys r" using Node.prems by auto
  ultimately show ?case using Node by (simp add: card_Un_disjoint)
qed simp

section \<open>A store of values by key\<close>

text \<open>
  What the operations of \<^verbatim>\<open>tls.c\<close> need of a tree: installing an absent key and assigning a
  present one change the value of that key only.  From these two laws follows the idiom of
  \<^verbatim>\<open>pte_osTlsSetValue\<close> in a pthread, which assigns and installs the key when that fails.
\<close>

locale key_store =
  fixes good :: "'m \<Rightarrow> bool"
    and legal :: "'k \<Rightarrow> bool"
    and get :: "'m \<Rightarrow> 'k \<Rightarrow> 'v option"
    and install :: "'k \<Rightarrow> 'v \<Rightarrow> 'm \<Rightarrow> 'm"
    and update :: "'k \<Rightarrow> 'v \<Rightarrow> 'm \<Rightarrow> 'm"
  assumes good_install: "good m \<Longrightarrow> legal k \<Longrightarrow> get m k = None \<Longrightarrow> good (install k v m)"
    and get_install: "good m \<Longrightarrow> legal k \<Longrightarrow> legal x \<Longrightarrow> get m k = None
      \<Longrightarrow> get (install k v m) x = (if x = k then Some v else get m x)"
    and good_update: "good m \<Longrightarrow> good (update k v m)"
    and get_update: "good m \<Longrightarrow> legal k \<Longrightarrow> legal x \<Longrightarrow> get m k \<noteq> None
      \<Longrightarrow> get (update k v m) x = (if x = k then Some v else get m x)"
begin

lemma good_assign_or_install:
  "good m \<Longrightarrow> legal k \<Longrightarrow> good (if get m k \<noteq> None then update k v m else install k v m)"
  by (simp add: good_install good_update)

lemma get_assign_or_install:
  "good m \<Longrightarrow> legal k \<Longrightarrow> legal x
   \<Longrightarrow> get (if get m k \<noteq> None then update k v m else install k v m) x
       = (if x = k then Some v else get m x)"
  by (cases "get m k") (simp_all add: get_install get_update)

end

interpretation tree: key_store search_tree small_key lookup insert_key assign
proof unfold_locales
  fix m :: tls_tree and k x v
  show "search_tree m \<Longrightarrow> small_key k \<Longrightarrow> lookup m k = None \<Longrightarrow> search_tree (insert_key k v m)"
    by (simp add: lookup_None_iff search_tree_insert_key)
  show "search_tree m \<Longrightarrow> small_key k \<Longrightarrow> small_key x \<Longrightarrow> lookup m k = None
    \<Longrightarrow> lookup (insert_key k v m) x = (if x = k then Some v else lookup m x)"
    by (simp add: lookup_None_iff lookup_insert_key)
  show "search_tree m \<Longrightarrow> search_tree (assign k v m)" by simp
  show "search_tree m \<Longrightarrow> small_key k \<Longrightarrow> small_key x \<Longrightarrow> lookup m k \<noteq> None
    \<Longrightarrow> lookup (assign k v m) x = (if x = k then Some v else lookup m x)"
    by (simp add: lookup_None_iff lookup_assign)
qed

section \<open>The operations as operations of the map\<close>

lemma tls_put_tree [simp]:
  "tls_put True (Some \<lparr>root = Some t, tls_lock = n\<rparr>) k v
   = Inr (1, Some \<lparr>root = Some (insert_key k v t), tls_lock = n\<rparr>)"
  by (simp add: tls_put_def tls_node_init_def insert_key_def)

lemma tls_set_tree [simp]:
  "tls_set (Some \<lparr>root = Some t, tls_lock = n\<rparr>) k v
   = (if lookup t k = None then Inr (0, Some \<lparr>root = Some t, tls_lock = n\<rparr>)
      else Inr (1, Some \<lparr>root = Some (assign k v t), tls_lock = n\<rparr>))"
  by (simp add: tls_set_def lookup_def assign_def Let_def split: tls_tree.split)

lemma tls_get_tree [simp]:
  "tls_get (Some \<lparr>root = Some t, tls_lock = n\<rparr>) k
   = Inr (case lookup t k of None \<Rightarrow> 0 | Some v \<Rightarrow> v)"
  by (simp add: tls_get_def lookup_def split: tls_tree.split)

lemma tls_has_key_tree [simp]:
  "tls_has_key (Some \<lparr>root = Some t, tls_lock = n\<rparr>) k = Inr (if lookup t k = None then 0 else 1)"
  by (simp add: tls_has_key_def lookup_def split: tls_tree.split)

section \<open>Keys of the POSIX thread environment\<close>

datatype pte_osResult =
    PTE_OS_OK | PTE_OS_NO_RESOURCES | PTE_OS_GENERAL_FAILURE | PTE_OS_TIMEOUT
  | PTE_OS_INTERRUPTED | PTE_OS_INVALID_PARAM

text \<open>\<open>thread_tls\<close> is the field \<^verbatim>\<open>tls\<close> of each \<^verbatim>\<open>struct thread\<close>.\<close>

record pte_os =
  pte_tls :: "tls option"
  thread_tls :: "nat \<Rightarrow> tls option"

definition pte_osTlsInit :: "bool \<Rightarrow> nat \<Rightarrow> pte_os \<Rightarrow> pte_osResult \<times> pte_os" where
  "pte_osTlsInit ok mutex z =
     (let z1 = z\<lparr>pte_tls := tls_init ok mutex\<rparr>
      in if pte_tls z1 = None then (PTE_OS_NO_RESOURCES, z1) else (PTE_OS_OK, z1))"

text \<open>The number that \<^verbatim>\<open>pte_osTlsAlloc\<close> gives out.  Locking through a null pointer and reading the
  indeterminate root are faults.\<close>

definition next_key :: "tls option \<Rightarrow> u32 res" where
  "next_key m =
     (case m of
        None \<Rightarrow> Inl Undef
      | Some t \<Rightarrow> (case root t of None \<Rightarrow> Inl Undef | Some tr \<Rightarrow> Inr (tls_count tr + 1)))"

definition need_tls :: "tls option \<Rightarrow> 'a res \<Rightarrow> 'a res" where
  "need_tls m k = (if m = None then Inl Undef else k)"

definition pte_osTlsAlloc ::
  "bool \<Rightarrow> bool \<Rightarrow> nat \<Rightarrow> sched \<Rightarrow> pte_os \<Rightarrow> (pte_osResult \<times> u32 \<times> pte_os) res" where
  "pte_osTlsAlloc ok ok_pte me s z =
     (let t = current_thread s me
      in if is_pthread s t then
           rbind (next_key (thread_tls z t)) (\<lambda>pKey.
           rbind (tls_put ok (thread_tls z t) pKey 0) (\<lambda>(r, m).
             let z1 = z\<lparr>thread_tls := (thread_tls z)(t := m)\<rparr>
             in if r = 1 then
                  need_tls (pte_tls z1)
                    (rbind (tls_put ok_pte (pte_tls z1) pKey 0) (\<lambda>(_, p).
                       Inr (PTE_OS_OK, pKey, z1\<lparr>pte_tls := p\<rparr>)))
                else Inr (PTE_OS_NO_RESOURCES, pKey, z1)))
         else
           rbind (next_key (pte_tls z)) (\<lambda>pKey.
           rbind (tls_put ok (pte_tls z) pKey 0) (\<lambda>(r, p).
             let z1 = z\<lparr>pte_tls := p\<rparr>
             in if r = 1 then Inr (PTE_OS_OK, pKey, z1) else Inr (PTE_OS_NO_RESOURCES, pKey, z1))))"

definition set_pte_value :: "u32 \<Rightarrow> u64 \<Rightarrow> pte_os \<Rightarrow> (pte_osResult \<times> pte_os) res" where
  "set_pte_value key v z =
     need_tls (pte_tls z)
       (rbind (tls_set (pte_tls z) key v) (\<lambda>(r, p).
          Inr (if r = 1 then PTE_OS_OK else PTE_OS_NO_RESOURCES, z\<lparr>pte_tls := p\<rparr>)))"

definition pte_osTlsSetValue ::
  "bool \<Rightarrow> nat \<Rightarrow> sched \<Rightarrow> u32 \<Rightarrow> u64 \<Rightarrow> pte_os \<Rightarrow> (pte_osResult \<times> pte_os) res" where
  "pte_osTlsSetValue ok me s key v z =
     (let t = current_thread s me
      in if is_pthread s t then
           need_tls (thread_tls z t)
             (rbind (tls_set (thread_tls z t) key v) (\<lambda>(r, m).
                if r = 1 then Inr (PTE_OS_OK, z\<lparr>thread_tls := (thread_tls z)(t := m)\<rparr>)
                else
                  rbind (tls_put ok m key v) (\<lambda>(_, m').
                    set_pte_value key v (z\<lparr>thread_tls := (thread_tls z)(t := m')\<rparr>))))
         else set_pte_value key v z)"

definition pte_osTlsGetValue ::
  "bool \<Rightarrow> nat \<Rightarrow> sched \<Rightarrow> u32 \<Rightarrow> pte_os \<Rightarrow> (u64 \<times> pte_os) res" where
  "pte_osTlsGetValue ok me s index z =
     (let t = current_thread s me
      in if is_pthread s t then
           rbind (tls_has_key (thread_tls z t) index) (\<lambda>has.
             if has = 1 then rbind (tls_get (thread_tls z t) index) (\<lambda>entry. Inr (entry, z))
             else rbind (tls_put ok (thread_tls z t) index 0) (\<lambda>(_, m).
               Inr (0, z\<lparr>thread_tls := (thread_tls z)(t := m)\<rparr>)))
         else
           rbind (tls_has_key (pte_tls z) index) (\<lambda>has.
             if has = 1 then rbind (tls_get (pte_tls z) index) (\<lambda>entry. Inr (entry, z))
             else Inr (0, z)))"

definition pte_osTlsFree :: "u32 \<Rightarrow> pte_os \<Rightarrow> pte_osResult \<times> pte_os" where
  "pte_osTlsFree index z = (PTE_OS_OK, z)"

section \<open>Claims\<close>

lemma card_from_one: "card {1..w} = unat w" for w :: u32
proof -
  have "{1..w} = of_nat ` {1..unat w}"
  proof (intro equalityI subsetI)
    fix x assume x: "x \<in> {1..w}"
    then have "unat x \<in> {1..unat w}" by (auto simp: word_le_nat_alt)
    moreover have "x = of_nat (unat x)" by simp
    ultimately show "x \<in> of_nat ` {1..unat w}" by (rule rev_image_eqI)
  next
    fix x :: u32 assume "x \<in> of_nat ` {1..unat w}"
    then obtain i where i: "x = of_nat i" "1 \<le> i" "i \<le> unat w" by auto
    then have "unat x = i" using unat_less_pow [of w] by (simp add: unat_of_nat)
    then show "x \<in> {1..w}" using i by (simp add: word_le_nat_alt)
  qed
  moreover have "inj_on (of_nat :: nat \<Rightarrow> u32) {1..unat w}"
  proof (rule inj_onI)
    fix x y assume xy: "x \<in> {1..unat w}" "y \<in> {1..unat w}" "(of_nat x :: u32) = of_nat y"
    have "unat (of_nat i :: u32) = i" if "i \<in> {1..unat w}" for i
      using that unat_less_pow [of w] by (simp add: unat_of_nat)
    then show "x = y" using xy by metis
  qed
  ultimately show ?thesis by (simp add: card_image)
qed

lemma next_key_from_one:
  assumes "search_tree t" "keys t = {1..w}"
  shows "next_key (Some \<lparr>root = Some t, tls_lock = l\<rparr>) = Inr (w + 1)"
  using assms by (simp add: next_key_def tls_count_nodes nodes_card card_from_one)

lemma next_key_absent:
  assumes w: "uint w + 1 < 2 ^ 31"
  shows "small_key (w + 1)" "w + 1 \<notin> {1..w}" "insert (w + 1) {1..w} = {1..w + 1}"
proof -
  have u: "uint (w + 1) = uint w + 1"
    using w by (simp add: uint_word_ariths)
  show "small_key (w + 1)" using w by (simp add: small_key_def u)
  show "w + 1 \<notin> {1..w}" by (simp add: word_le_def u)
  show "insert (w + 1) {1..w} = {1..w + 1}"
    by (auto simp: word_le_def u word_uint_eq_iff)
qed

lemma process_key_lemma:
  assumes p: "\<not> is_pthread s (current_thread s me)"
    and z: "pte_tls z = Some \<lparr>root = Some t, tls_lock = l\<rparr>"
    and t: "search_tree t" "keys t = {1..w}" "uint w + 1 < 2 ^ 31"
  shows "\<exists>t'. pte_osTlsAlloc True ok me s z
      = Inr (PTE_OS_OK, w + 1, z\<lparr>pte_tls := Some \<lparr>root = Some t', tls_lock = l\<rparr>\<rparr>)
    \<and> w + 1 \<notin> keys t \<and> search_tree t' \<and> keys t' = {1..w + 1} \<and> lookup t' (w + 1) = Some 0
    \<and> (\<forall>k\<in>keys t. lookup t' k = lookup t k)"
proof (intro exI conjI)
  let ?t = "insert_key (w + 1) 0 t"
  note new = next_key_absent [OF t(3)]
  show "pte_osTlsAlloc True ok me s z
      = Inr (PTE_OS_OK, w + 1, z\<lparr>pte_tls := Some \<lparr>root = Some ?t, tls_lock = l\<rparr>\<rparr>)"
    using p z by (simp add: pte_osTlsAlloc_def Let_def next_key_from_one [OF t(1,2)])
  show a: "w + 1 \<notin> keys t" using new t by simp
  show "search_tree ?t" using search_tree_insert_key [OF t(1) new(1) a] .
  show "keys ?t = {1..w + 1}" using keys_insert_key [OF t(1) new(1) a, of 0] new(3) t(2) by simp
  show "lookup ?t (w + 1) = Some 0" using lookup_insert_key [OF t(1) new(1) new(1) a] by simp
  show "\<forall>k\<in>keys t. lookup ?t k = lookup t k"
    using lookup_insert_key [OF t(1) new(1) _ a] keys_small [OF t(1)] a by auto
qed

text \<open>The value that a call of \<^verbatim>\<open>pte_osTlsGetValue\<close> returns.\<close>

definition tls_value :: "nat \<Rightarrow> sched \<Rightarrow> u32 \<Rightarrow> pte_os \<Rightarrow> u64 res" where
  "tls_value me s k z = rbind (pte_osTlsGetValue True me s k z) (\<lambda>(entry, _). Inr entry)"

lemma tls_value_pthread:
  assumes "is_pthread s (current_thread s me)"
    "thread_tls z (current_thread s me) = Some \<lparr>root = Some t, tls_lock = l\<rparr>"
  shows "tls_value me s k z = Inr (case lookup t k of None \<Rightarrow> 0 | Some v \<Rightarrow> v)"
  using assms by (simp add: tls_value_def pte_osTlsGetValue_def Let_def split: option.split)

lemma tls_value_process:
  assumes "\<not> is_pthread s (current_thread s me)"
    "pte_tls z = Some \<lparr>root = Some t, tls_lock = l\<rparr>"
  shows "tls_value me s k z = Inr (case lookup t k of None \<Rightarrow> 0 | Some v \<Rightarrow> v)"
  using assms by (simp add: tls_value_def pte_osTlsGetValue_def Let_def split: option.split)

lemma pthread_value_lemma:
  assumes p: "is_pthread s (current_thread s me)"
    and z: "thread_tls z (current_thread s me) = Some \<lparr>root = Some t, tls_lock = l\<rparr>"
      "pte_tls z = Some \<lparr>root = Some g, tls_lock = gl\<rparr>"
    and t: "search_tree t" and k: "small_key k" and x: "small_key x"
  shows "\<exists>r z1. pte_osTlsSetValue True me s k v z = Inr (r, z1)
    \<and> tls_value me s x z1 = (if x = k then Inr v else tls_value me s x z)
    \<and> (\<forall>u. u = current_thread s me \<or> thread_tls z1 u = thread_tls z u)
    \<and> (r = PTE_OS_OK \<longleftrightarrow> lookup t k \<noteq> None \<or> lookup g k \<noteq> None)
    \<and> pte_tls z1 = Some \<lparr>root = Some (if lookup t k \<noteq> None then g else assign k v g), tls_lock = gl\<rparr>"
proof -
  define me' where "me' = current_thread s me"
  define t' where "t' = (if lookup t k \<noteq> None then assign k v t else insert_key k v t)"
  define g' where "g' = (if lookup t k \<noteq> None then g else assign k v g)"
  define z1 where "z1 = z\<lparr>thread_tls := (thread_tls z)(me' := Some \<lparr>root = Some t', tls_lock = l\<rparr>),
    pte_tls := Some \<lparr>root = Some g', tls_lock = gl\<rparr>\<rparr>"
  define r where "r = (if lookup t k \<noteq> None \<or> lookup g k \<noteq> None then PTE_OS_OK else PTE_OS_NO_RESOURCES)"
  have same: "assign a b c = c" if "lookup c a = None" for a b c
    using that by (simp add: assign_def lookup_def split: tls_tree.splits)
  have set: "pte_osTlsSetValue True me s k v z = Inr (r, z1)"
    using p z by (cases "lookup t k"; cases "lookup g k")
      (simp_all add: pte_osTlsSetValue_def set_pte_value_def need_tls_def Let_def r_def z1_def t'_def
        g'_def me'_def same)
  have look: "lookup t' x = (if x = k then Some v else lookup t x)"
    unfolding t'_def by (rule tree.get_assign_or_install [OF t k x])
  have new: "tls_value me s x z1 = Inr (case lookup t' x of None \<Rightarrow> 0 | Some e \<Rightarrow> e)"
    by (rule tls_value_pthread [OF p, where l = l]) (simp add: z1_def me'_def)
  have old: "tls_value me s x z = Inr (case lookup t x of None \<Rightarrow> 0 | Some e \<Rightarrow> e)"
    by (rule tls_value_pthread [OF p z(1)])
  show ?thesis
  proof (intro exI conjI)
    show "pte_osTlsSetValue True me s k v z = Inr (r, z1)" by (rule set)
    show "tls_value me s x z1 = (if x = k then Inr v else tls_value me s x z)"
      by (simp add: new old look)
  qed (simp_all add: z1_def g'_def r_def me'_def)
qed

text \<open>\<^verbatim>\<open>tls_put\<close> of a key that the tree has replaces the node and what hangs below it.\<close>

lemma keys_disjoint:
  "\<forall>x\<in>keys l. x < k \<Longrightarrow> \<forall>x\<in>keys r. k < x \<Longrightarrow> keys l \<inter> keys r = {}" for k :: u32
  by fastforce

lemma keys_load: "search_tree t \<Longrightarrow> small_key k \<Longrightarrow> pointer_at t (tls_search t k) = Node q w l r
  \<Longrightarrow> q = k \<and> insert k (keys l \<union> keys r) \<subseteq> keys t \<and> k \<notin> keys l \<union> keys r"
proof (induction t)
  case (Node key v a b)
  then show ?case by (cases "k < key"; cases "key < k") (auto simp: Let_def)
qed simp

lemma keys_put_present:
  "search_tree t \<Longrightarrow> small_key k \<Longrightarrow> pointer_at t (tls_search t k) = Node q w l r
   \<Longrightarrow> keys (insert_key k v t) = keys t - (keys l \<union> keys r) \<and> search_tree (insert_key k v t)"
proof (induction t)
  case (Node key u a b)
  consider "k < key" | "key < k" | "k = key" by fastforce
  then show ?case
  proof cases
    case 1
    then have "pointer_at a (tls_search a k) = Node q w l r" using Node.prems by (simp add: Let_def)
    then show ?thesis using 1 Node keys_load [of a k q w l r] keys_disjoint [of a key b]
      by (simp add: Let_def) blast
  next
    case 2
    then have ge: "\<not> k < key" by simp
    have "pointer_at b (tls_search b k) = Node q w l r" using 2 ge Node.prems by (simp add: Let_def)
    with ge show ?thesis using 2 Node keys_load [of b k q w l r] keys_disjoint [of a key b]
      by (simp add: Let_def) blast
  next
    case 3
    then show ?thesis using Node.prems by (auto simp: Let_def)
  qed
qed simp

lemma pthread_key_lemma:
  assumes p: "is_pthread s (current_thread s me)"
    and z: "thread_tls z (current_thread s me) = Some \<lparr>root = Some t, tls_lock = ol\<rparr>"
      "pte_tls z = Some \<lparr>root = Some g, tls_lock = gl\<rparr>"
    and t: "search_tree t" "keys t = {1..n}" "uint n + 1 < 2 ^ 31"
    and g: "search_tree g" "pointer_at g (tls_search g (n + 1)) = Node q w l r"
  shows "\<exists>z1 g'. pte_osTlsAlloc True True me s z = Inr (PTE_OS_OK, n + 1, z1)
    \<and> n + 1 \<in> keys g
    \<and> pte_tls z1 = Some \<lparr>root = Some g', tls_lock = gl\<rparr> \<and> keys g' = keys g - (keys l \<union> keys r)
    \<and> search_tree g' \<and> keys l \<union> keys r \<subseteq> keys g"
proof -
  note k = next_key_absent(1) [OF t(3)]
  define g' where "g' = insert_key (n + 1) 0 g"
  define z1 where "z1 = z\<lparr>thread_tls := (thread_tls z)(current_thread s me :=
     Some \<lparr>root = Some (insert_key (n + 1) 0 t), tls_lock = ol\<rparr>),
     pte_tls := Some \<lparr>root = Some g', tls_lock = gl\<rparr>\<rparr>"
  have "pte_osTlsAlloc True True me s z = Inr (PTE_OS_OK, n + 1, z1)"
    using p z by (simp add: pte_osTlsAlloc_def Let_def next_key_from_one [OF t(1,2)] need_tls_def
        z1_def g'_def)
  moreover have "keys g' = keys g - (keys l \<union> keys r) \<and> search_tree g'"
    unfolding g'_def by (rule keys_put_present [OF g(1) k g(2)])
  moreover have "n + 1 \<in> keys g \<and> keys l \<union> keys r \<subseteq> keys g"
    using keys_load [OF g(1) k g(2)] by auto
  ultimately show ?thesis by (auto simp: z1_def)
qed

definition demo_tree :: tls_tree where
  "demo_tree = Node 1 10 Null (Node 2 20 Null (Node 3 30 Null Null))"

definition demo_pte :: pte_os where
  "demo_pte = \<lparr>pte_tls = Some \<lparr>root = Some demo_tree, tls_lock = 7\<rparr>,
     thread_tls = (\<lambda>_. None)(1 := Some \<lparr>root = Some (Node 1 0 Null Null), tls_lock = 8\<rparr>)\<rparr>"

definition demo_pthread :: sched where
  "demo_pthread = demo_sched\<lparr>threads := (threads demo_sched)
     (1 := blank_thread\<lparr>flags := RUNNING_FLAG OR PTHREAD_FLAG\<rparr>)\<rparr>"

lemma demo_tree_ok: "search_tree demo_tree" "keys demo_tree = {1..3}"
proof -
  show "search_tree demo_tree" by (simp add: demo_tree_def small_key_def)
  have "{1..3 :: u32} = {1, 2, 3}"
    by (auto simp: word_le_nat_alt word_unat_eq_iff)
  then show "keys demo_tree = {1..3}" by (simp add: demo_tree_def)
qed

lemma demo_threads:
  "\<not> is_pthread demo_sched (current_thread demo_sched 0)"
  "is_pthread demo_pthread (current_thread demo_pthread 0)" "current_thread demo_pthread 0 = 1"
  by (simp_all add: demo_pthread_def demo_sched_def has_flag_def thread_flag_defs)



text \<open>
  C19: The thread-local values of a pthread behave as a map: whatever the thread stores under a key
  it reads back, every other key keeps the value read before, and no other thread's values change.
  Only when the thread did not know the key is the store passed on to the tree of the whole
  environment, where it overwrites the value that all ordinary threads see, and it is reported as
  failed when that tree does not have the key either.
\<close>
theorem pthread_values_are_a_map:
  assumes p: "is_pthread s (current_thread s me)"
    and z: "thread_tls z (current_thread s me) = Some \<lparr>root = Some t, tls_lock = l\<rparr>"
      "pte_tls z = Some \<lparr>root = Some g, tls_lock = gl\<rparr>"
    and t: "search_tree t" and k: "small_key k" and x: "small_key x"
  shows "\<exists>r z1. pte_osTlsSetValue True me s k v z = Inr (r, z1)
    \<and> tls_value me s x z1 = (if x = k then Inr v else tls_value me s x z)
    \<and> (\<forall>u. u = current_thread s me \<or> thread_tls z1 u = thread_tls z u)
    \<and> (r = PTE_OS_OK \<longleftrightarrow> lookup t k \<noteq> None \<or> lookup g k \<noteq> None)
    \<and> pte_tls z1 = Some \<lparr>root = Some (if lookup t k \<noteq> None then g else assign k v g), tls_lock = gl\<rparr>"
  using pthread_value_lemma [OF assms] .

theorem pthread_values_are_a_map_witness:
  "\<exists>r z1. pte_osTlsSetValue True 0 demo_pthread 2 99 demo_pte = Inr (r, z1)
    \<and> tls_value 0 demo_pthread 2 z1 = Inr 99 \<and> r = PTE_OS_OK
    \<and> pte_tls z1 = Some \<lparr>root = Some (Node 1 10 Null (Node 2 99 Null (Node 3 30 Null Null))), tls_lock = 7\<rparr>"
  using pthread_values_are_a_map [OF demo_threads(2), of demo_pte "Node 1 0 Null Null" 8 demo_tree 7 2 2 99]
  by (simp add: demo_pte_def demo_threads(3) small_key_def demo_tree_def tls_comp_def) blast

text \<open>
  A pthread numbers its new key by its own tree.  When the environment already has that
  number, \<^verbatim>\<open>pte_osTlsAlloc\<close> reports success with a number that another owner holds, and its store
  into the tree of the environment drops every key that hung below it there.
\<close>
theorem pthread_key_collides:
  assumes p: "is_pthread s (current_thread s me)"
    and z: "thread_tls z (current_thread s me) = Some \<lparr>root = Some t, tls_lock = ol\<rparr>"
      "pte_tls z = Some \<lparr>root = Some g, tls_lock = gl\<rparr>"
    and t: "search_tree t" "keys t = {1..n}" "uint n + 1 < 2 ^ 31"
    and g: "search_tree g" "pointer_at g (tls_search g (n + 1)) = Node q w l r"
  shows "\<exists>z1 g'. pte_osTlsAlloc True True me s z = Inr (PTE_OS_OK, n + 1, z1)
    \<and> n + 1 \<in> keys g
    \<and> pte_tls z1 = Some \<lparr>root = Some g', tls_lock = gl\<rparr> \<and> keys g' = keys g - (keys l \<union> keys r)
    \<and> search_tree g' \<and> keys l \<union> keys r \<subseteq> keys g"
  using pthread_key_lemma [OF assms] .

theorem pthread_key_collides_witness:
  "\<exists>z1 g'. pte_osTlsAlloc True True 0 demo_pthread demo_pte = Inr (PTE_OS_OK, 2, z1)
    \<and> pte_tls z1 = Some \<lparr>root = Some g', tls_lock = 7\<rparr> \<and> 3 \<in> keys demo_tree \<and> 3 \<notin> keys g'"
proof -
  have t: "search_tree (Node 1 0 Null Null)" "keys (Node 1 0 Null Null) = {1..1}"
    by (simp_all add: small_key_def)
  have g: "pointer_at demo_tree (tls_search demo_tree (1 + 1)) = Node 2 20 Null (Node 3 30 Null Null)"
    by (simp add: demo_tree_def tls_comp_def Let_def)
  show ?thesis
    using pthread_key_collides [OF demo_threads(2) _ _ t _ demo_tree_ok(1) g, of demo_pte 8 7]
    by (auto simp: demo_pte_def demo_threads(3))
qed

text \<open>\<^verbatim>\<open>tls_init\<close> leaves the root as \<^verbatim>\<open>malloc\<close> gave it, so the first allocation of a key reads
  an indeterminate pointer.  A pthread escapes this by \<^verbatim>\<open>tls_alloc\<close>.\<close>

lemma first_alloc_undefined:
  assumes "pte_osTlsInit True mutex z = (PTE_OS_OK, z1)" "\<not> is_pthread s (current_thread s me)"
  shows "pte_osTlsAlloc ok ok2 me s z1 = Inl Undef"
  using assms by (auto simp: pte_osTlsInit_def tls_init_def pte_osTlsAlloc_def next_key_def Let_def)

text \<open>With keys further apart \<^verbatim>\<open>tls_comp\<close> is not an order: it has a cycle.\<close>

lemma tls_comp_cycle:
  "tls_comp 0 0x60000000 < 0" "tls_comp 0x60000000 0xc0000000 < 0" "tls_comp 0xc0000000 0 < 0"
  by (simp_all add: tls_comp_def)

section \<open>Well-formed storage\<close>

text \<open>The environment and every pthread have a tree, and it is a search tree.\<close>

definition tls_ok :: "tls option \<Rightarrow> bool" where
  "tls_ok m = (\<exists>t l. m = Some \<lparr>root = Some t, tls_lock = l\<rparr> \<and> search_tree t)"

definition pte_ok :: "sched \<Rightarrow> pte_os \<Rightarrow> bool" where
  "pte_ok s z = (tls_ok (pte_tls z) \<and> (\<forall>u. is_pthread s u \<longrightarrow> tls_ok (thread_tls z u)))"

lemma search_tree_put:
  assumes "search_tree t" "small_key k"
  shows "search_tree (insert_key k v t)"
proof (cases "lookup t k")
  case None
  then show ?thesis using assms by (simp add: lookup_None_iff search_tree_insert_key)
next
  case (Some w)
  then obtain q u l r where "pointer_at t (tls_search t k) = Node q u l r"
    by (auto simp: lookup_def split: tls_tree.splits)
  then show ?thesis using keys_put_present [OF assms] by blast
qed

lemma tls_put_ok:
  assumes "tls_ok m" "small_key k"
  shows "\<exists>r m'. tls_put ok m k v = Inr (r, m') \<and> tls_ok m'"
proof (cases ok)
  case True
  then show ?thesis using assms by (fastforce simp: tls_ok_def search_tree_put)
next
  case False
  then show ?thesis using assms by (auto simp: tls_ok_def tls_put_def tls_node_init_def)
qed

lemma tls_set_ok:
  assumes "tls_ok m"
  shows "\<exists>r m'. tls_set m k v = Inr (r, m') \<and> tls_ok m'"
  using assms by (fastforce simp: tls_ok_def)

lemma tls_get_ok:
  assumes "tls_ok m"
  shows "\<exists>h e. tls_has_key m k = Inr h \<and> tls_get m k = Inr e"
  using assms by (auto simp: tls_ok_def)

lemma need_tls_ok [simp]: "tls_ok m \<Longrightarrow> need_tls m k = k"
  by (auto simp: tls_ok_def need_tls_def)

lemma pte_ok_update:
  assumes "pte_ok s z" "tls_ok m"
  shows "pte_ok s (z\<lparr>pte_tls := m\<rparr>)" "pte_ok s (z\<lparr>thread_tls := (thread_tls z)(u := m)\<rparr>)"
  using assms by (simp_all add: pte_ok_def)

lemma set_pte_value_ok:
  assumes "pte_ok s z"
  shows "\<exists>r z'. set_pte_value k v z = Inr (r, z') \<and> pte_ok s z'"
proof -
  have p: "tls_ok (pte_tls z)" using assms by (simp add: pte_ok_def)
  obtain r m where m: "tls_set (pte_tls z) k v = Inr (r, m)" "tls_ok m" using tls_set_ok [OF p] by blast
  then show ?thesis using p pte_ok_update(1) [OF assms m(2)] by (simp add: set_pte_value_def)
qed

lemma alloc_keeps_trees:
  assumes z: "pte_ok s z"
    and n: "next_key (if is_pthread s (current_thread s me) then thread_tls z (current_thread s me)
      else pte_tls z) = Inr key" "small_key key"
  shows "\<exists>r z'. pte_osTlsAlloc ok ok2 me s z = Inr (r, key, z') \<and> pte_ok s z'"
proof (cases "is_pthread s (current_thread s me)")
  case True
  let ?t = "current_thread s me"
  have o: "tls_ok (thread_tls z ?t)" using z True by (simp add: pte_ok_def)
  obtain r m where m: "tls_put ok (thread_tls z ?t) key 0 = Inr (r, m)" "tls_ok m"
    using tls_put_ok [OF o n(2)] by blast
  have z1: "pte_ok s (z\<lparr>thread_tls := (thread_tls z)(?t := m)\<rparr>)" by (rule pte_ok_update(2) [OF z m(2)])
  have p: "tls_ok (pte_tls z)" using z by (simp add: pte_ok_def)
  obtain r2 p' where p': "tls_put ok2 (pte_tls z) key 0 = Inr (r2, p')" "tls_ok p'"
    using tls_put_ok [OF p n(2)] by blast
  show ?thesis using True n(1) m p p' z1 pte_ok_update(1) [OF z1 p'(2)]
    by (simp add: pte_osTlsAlloc_def Let_def)
next
  case False
  have p: "tls_ok (pte_tls z)" using z by (simp add: pte_ok_def)
  obtain r m where m: "tls_put ok (pte_tls z) key 0 = Inr (r, m)" "tls_ok m"
    using tls_put_ok [OF p n(2)] by blast
  show ?thesis using False n(1) m pte_ok_update(1) [OF z m(2)]
    by (simp add: pte_osTlsAlloc_def Let_def)
qed

lemma set_keeps_trees:
  assumes z: "pte_ok s z" and k: "small_key k"
  shows "\<exists>r z'. pte_osTlsSetValue ok me s k v z = Inr (r, z') \<and> pte_ok s z'"
proof (cases "is_pthread s (current_thread s me)")
  case True
  let ?t = "current_thread s me"
  have o: "tls_ok (thread_tls z ?t)" using z True by (simp add: pte_ok_def)
  obtain r m where m: "tls_set (thread_tls z ?t) k v = Inr (r, m)" "tls_ok m" using tls_set_ok [OF o] by blast
  obtain r' m' where m': "tls_put ok m k v = Inr (r', m')" "tls_ok m'" using tls_put_ok [OF m(2) k] by blast
  obtain r2 z2 where z2: "set_pte_value k v (z\<lparr>thread_tls := (thread_tls z)(?t := m')\<rparr>) = Inr (r2, z2)"
    "pte_ok s z2" using set_pte_value_ok [OF pte_ok_update(2) [OF z m'(2)]] by blast
  show ?thesis using True o m m' z2 pte_ok_update(2) [OF z m(2)]
    by (simp add: pte_osTlsSetValue_def Let_def)
next
  case False
  then show ?thesis using set_pte_value_ok [OF z] by (simp add: pte_osTlsSetValue_def Let_def)
qed

lemma get_keeps_trees:
  assumes z: "pte_ok s z" and k: "small_key k"
  shows "\<exists>e z'. pte_osTlsGetValue ok me s k z = Inr (e, z') \<and> pte_ok s z'"
proof (cases "is_pthread s (current_thread s me)")
  case True
  let ?t = "current_thread s me"
  have o: "tls_ok (thread_tls z ?t)" using z True by (simp add: pte_ok_def)
  obtain h e where h: "tls_has_key (thread_tls z ?t) k = Inr h" "tls_get (thread_tls z ?t) k = Inr e"
    using tls_get_ok [OF o] by blast
  obtain r m where m: "tls_put ok (thread_tls z ?t) k 0 = Inr (r, m)" "tls_ok m"
    using tls_put_ok [OF o k] by blast
  show ?thesis using True h m z pte_ok_update(2) [OF z m(2)] by (simp add: pte_osTlsGetValue_def Let_def)
next
  case False
  have p: "tls_ok (pte_tls z)" using z by (simp add: pte_ok_def)
  obtain h e where "tls_has_key (pte_tls z) k = Inr h" "tls_get (pte_tls z) k = Inr e"
    using tls_get_ok [OF p] by blast
  then show ?thesis using False z by (simp add: pte_osTlsGetValue_def Let_def)
qed

text \<open>
  C21: The storage stays well formed: from a state in which the environment and every pthread have a
  search tree, each operation on a key below \<open>2 ^ 31\<close> returns without a fault, whether or not its
  allocations succeed, to such a state.
\<close>
theorem tls_stays_well_formed:
  assumes z: "pte_ok s z" and k: "small_key k"
    and n: "next_key (if is_pthread s (current_thread s me) then thread_tls z (current_thread s me)
      else pte_tls z) = Inr key" "small_key key"
  shows "\<exists>r1 z1 r2 z2 e z3. pte_osTlsAlloc ok ok2 me s z = Inr (r1, key, z1) \<and> pte_ok s z1
    \<and> pte_osTlsSetValue ok me s k v z = Inr (r2, z2) \<and> pte_ok s z2
    \<and> pte_osTlsGetValue ok me s k z = Inr (e, z3) \<and> pte_ok s z3"
  using alloc_keeps_trees [OF z n] set_keeps_trees [OF z k] get_keeps_trees [OF z k] by blast

theorem tls_stays_well_formed_witness:
  "\<exists>z1. pte_osTlsAlloc True False 0 demo_sched demo_pte = Inr (PTE_OS_OK, 4, z1) \<and> pte_ok demo_sched z1"
proof -
  have np: "\<not> is_pthread demo_sched u" for u
    by (simp add: demo_sched_def has_flag_def thread_flag_defs blank_thread_def)
  have z: "pte_ok demo_sched demo_pte"
    using demo_tree_ok(1) np by (simp add: pte_ok_def tls_ok_def demo_pte_def)
  have n: "next_key (pte_tls demo_pte) = Inr 4"
    using next_key_from_one [OF demo_tree_ok] by (simp add: demo_pte_def)
  have "pte_osTlsAlloc True False 0 demo_sched demo_pte
      = Inr (PTE_OS_OK, 4, demo_pte\<lparr>pte_tls := Some \<lparr>root = Some (insert_key 4 0 demo_tree), tls_lock = 7\<rparr>\<rparr>)"
    using np n by (simp add: pte_osTlsAlloc_def Let_def) (simp add: demo_pte_def)
  then show ?thesis
    using tls_stays_well_formed [OF z, of 1 0 4 True False] np n by (auto simp: small_key_def)
qed

end
