(* ===== verification/Pte.thy ===== *)
theory Pte
  imports Sync Tls
begin

text \<open>
  The adapter between the POSIX threads library and the kernel,
  \<^verbatim>\<open>lib/pte/platform/pte.c\<close>: mutexes and semaphores (theory \<^verbatim>\<open>Sync\<close>), threads (theory
  \<^verbatim>\<open>Sched\<close>), thread-local storage (theory \<^verbatim>\<open>Tls\<close>).  \<^verbatim>\<open>pte_thread_t\<close> belongs to the library;
  the record below has the fields of it that the adapter uses, and a null \<^verbatim>\<open>struct thread\<close>
  pointer is 0.

  The polling loops read the clock and try the semaphore in each round.  Between two rounds the
  rest of the system runs, so a round is given by the time it reads and the semaphore and scheduler
  it finds; the loop has the value \<open>None\<close> when the rounds given are not enough for it to return.
\<close>

section \<open>Data\<close>

definition CANCELLED_FLAG :: u32 where "CANCELLED_FLAG = 0x00000100"

abbreviation is_cancelled :: "sched \<Rightarrow> nat \<Rightarrow> bool" where
  "is_cancelled s t \<equiv> has_flag s t CANCELLED_FLAG"

datatype PThreadState =
    PThreadStateInitial | PThreadStateRunning | PThreadStateSuspended | PThreadStateCancelPending
  | PThreadStateCanceling | PThreadStateException | PThreadStateLast

record pte_thread =
  threadId :: u16
  p_state :: PThreadState
  os_thread_pntr :: nat
  priority :: int

definition PTE_MIN_PRIORITY :: int where "PTE_MIN_PRIORITY = 0"
definition PTE_MAX_PRIORITY :: int where "PTE_MAX_PRIORITY = 10"

section \<open>Start-up, mutexes\<close>

definition pte_osInit :: "bool \<Rightarrow> nat \<Rightarrow> pte_os \<Rightarrow> pte_osResult \<times> pte_os" where
  "pte_osInit ok mutex z = pte_osTlsInit ok mutex z"

definition pte_osMutexCreate :: "nat \<Rightarrow> nat \<Rightarrow> (pte_osResult \<times> mutex) res" where
  "pte_osMutexCreate m_addr l_addr = rbind (mutex_create m_addr l_addr) (\<lambda>m. Inr (PTE_OS_OK, m))"

definition pte_osMutexDelete :: "nat \<Rightarrow> mutex \<Rightarrow> pte_osResult \<times> nat list" where
  "pte_osMutexDelete handle m = (PTE_OS_OK, mutex_delete handle m)"

definition pte_osMutexLock ::
  "nat \<Rightarrow> nat \<Rightarrow> mutex \<Rightarrow> sched \<Rightarrow> (pte_osResult \<times> mutex \<times> sched) res option" where
  "pte_osMutexLock n t m s = dbind (mutex_lock n t m s) (\<lambda>(m1, s1). Some (Inr (PTE_OS_OK, m1, s1)))"

definition pte_osMutexTimedLock ::
  "nat \<Rightarrow> nat \<Rightarrow> u32 \<Rightarrow> spinlock \<Rightarrow> int \<Rightarrow> (int \<times> spinlock) list \<Rightarrow> mutex \<Rightarrow> sched
   \<Rightarrow> (pte_osResult \<times> mutex \<times> sched) res option" where
  "pte_osMutexTimedLock n t timeoutMsecs found now rounds m s =
     (if timeoutMsecs = 0
      then dbind (mutex_try_lock n t found m s) (\<lambda>(got, m1, s1).
             Some (Inr (if \<not> got then PTE_OS_TIMEOUT else PTE_OS_OK, m1, s1)))
      else dbind (mutex_timed_lock n t timeoutMsecs now rounds m s) (\<lambda>(got, m1, s1).
             Some (Inr (if \<not> got then PTE_OS_TIMEOUT else PTE_OS_OK, m1, s1))))"

definition pte_osMutexUnlock :: "nat \<Rightarrow> mutex \<Rightarrow> sched \<Rightarrow> (pte_osResult \<times> mutex \<times> sched) res" where
  "pte_osMutexUnlock t m s = rbind (mutex_unlock t m s) (\<lambda>(m1, s1). Inr (PTE_OS_OK, m1, s1))"

section \<open>Semaphores\<close>

definition pte_osSemaphoreCreate ::
  "nat \<Rightarrow> nat \<Rightarrow> nat \<Rightarrow> int \<Rightarrow> (pte_osResult \<times> semaphore) res" where
  "pte_osSemaphoreCreate addr m_addr l_addr initialValue =
     rbind (semaphore_create addr m_addr l_addr initialValue) (\<lambda>sem.
       Inr (if addr = 0 then PTE_OS_NO_RESOURCES else PTE_OS_OK, sem))"

definition pte_osSemaphoreDelete :: "nat \<Rightarrow> semaphore \<Rightarrow> pte_osResult \<times> nat list" where
  "pte_osSemaphoreDelete handle sem = (PTE_OS_OK, semaphore_delete handle sem)"

text \<open>\<^verbatim>\<open>NOW()\<close> is the first argument pair's time; the timeout is in nanoseconds.\<close>

fun pend_rounds ::
  "nat \<Rightarrow> nat \<Rightarrow> int \<Rightarrow> int \<Rightarrow> (int \<times> semaphore \<times> sched) list
   \<Rightarrow> (pte_osResult \<times> semaphore \<times> sched) res option" where
  "pend_rounds n me past limit [] = None"
| "pend_rounds n me past limit ((current_time, sem, s) # rest) =
     (let timespent = current_time - past in
      dbind (semaphore_try_pend n me sem s) (\<lambda>(got, sem1, s1).
        if got then Some (Inr (PTE_OS_OK, sem1, s1))
        else if timespent \<ge> limit then Some (Inr (PTE_OS_TIMEOUT, sem1, s1))
        else pend_rounds n me past limit rest))"

text \<open>A null timeout waits in \<open>semaphore_pend\<close>; the flag says whether the caller then sleeps in
  \<^verbatim>\<open>schedule\<close>, from which it returns \<^verbatim>\<open>PTE_OS_OK\<close>.  \<open>addr\<close> is where the node for the caller is
  allocated.\<close>

definition pte_osSemaphorePend ::
  "nat \<Rightarrow> nat \<Rightarrow> nat \<Rightarrow> u32 option \<Rightarrow> int \<Rightarrow> (int \<times> semaphore \<times> sched) list \<Rightarrow> semaphore \<Rightarrow> sched
   \<Rightarrow> (bool \<times> pte_osResult \<times> semaphore \<times> sched) res option" where
  "pte_osSemaphorePend n me addr pTimeout now rounds sem s =
     (case pTimeout of
        None \<Rightarrow> dbind (semaphore_pend n me addr sem s) (\<lambda>(sleeps, sem1, s1).
                  Some (Inr (sleeps, PTE_OS_OK, sem1, s1)))
      | Some ms \<Rightarrow> dbind (pend_rounds n me now (uint ms * 1000000) rounds) (\<lambda>(r, sem1, s1).
                  Some (Inr (False, r, sem1, s1))))"

fun post_rounds ::
  "nat \<Rightarrow> nat \<Rightarrow> nat \<Rightarrow> semaphore \<Rightarrow> sched \<Rightarrow> (semaphore \<times> sched) res option" where
  "post_rounds n me 0 sem s = Some (Inr (sem, s))"
| "post_rounds n me (Suc i) sem s =
     dbind (semaphore_post n me sem s) (\<lambda>(sem1, s1). post_rounds n me i sem1 s1)"

definition pte_osSemaphorePost ::
  "nat \<Rightarrow> nat \<Rightarrow> int \<Rightarrow> semaphore \<Rightarrow> sched \<Rightarrow> (pte_osResult \<times> semaphore \<times> sched) res option" where
  "pte_osSemaphorePost n me count sem s =
     dbind (post_rounds n me (nat count) sem s) (\<lambda>(sem1, s1). Some (Inr (PTE_OS_OK, sem1, s1)))"

fun cancellable_rounds ::
  "nat \<Rightarrow> nat \<Rightarrow> nat \<Rightarrow> int \<Rightarrow> int \<Rightarrow> (int \<times> semaphore \<times> sched) list
   \<Rightarrow> (pte_osResult \<times> semaphore \<times> sched) res option" where
  "cancellable_rounds n me t past limit [] = None"
| "cancellable_rounds n me t past limit ((current_time, sem, s) # rest) =
     (let timespent = current_time - past in
      dbind (semaphore_try_pend n me sem s) (\<lambda>(got, sem1, s1).
        if got then Some (Inr (PTE_OS_OK, sem1, s1))
        else if t \<noteq> 0 \<and> is_cancelled s1 t then Some (Inr (PTE_OS_INTERRUPTED, sem1, s1))
        else if limit = 0 \<or> timespent \<ge> limit then Some (Inr (PTE_OS_TIMEOUT, sem1, s1))
        else cancellable_rounds n me t past limit rest))"

definition pte_osSemaphoreCancellablePend ::
  "nat \<Rightarrow> nat \<Rightarrow> nat \<Rightarrow> u32 option \<Rightarrow> int \<Rightarrow> (int \<times> semaphore \<times> sched) list \<Rightarrow> semaphore \<Rightarrow> sched
   \<Rightarrow> (bool \<times> pte_osResult \<times> semaphore \<times> sched) res option" where
  "pte_osSemaphoreCancellablePend n me addr pTimeout now rounds sem s =
     (case pTimeout of
        None \<Rightarrow> dbind (semaphore_pend n me addr sem s) (\<lambda>(sleeps, sem1, s1).
                  Some (Inr (sleeps, PTE_OS_OK, sem1, s1)))
      | Some ms \<Rightarrow>
          dbind (cancellable_rounds n me (current_thread s me) now (uint ms * 1000000) rounds)
            (\<lambda>(r, sem1, s1). Some (Inr (False, r, sem1, s1))))"

section \<open>Threads\<close>

text \<open>\<^verbatim>\<open>pte_osThreadCancel\<close> first wakes a joining thread and marks it only then; the two parts
  are separate because the woken thread may run between them on another processor.\<close>

definition cancel_wake :: "nat \<Rightarrow> pte_thread \<Rightarrow> sched \<Rightarrow> sched res" where
  "cancel_wake me p s =
     (let t = os_thread_pntr p
      in if t \<noteq> 0 \<and> is_joining s t then sched_wake_joiner me t s else Inr s)"

definition cancel_mark :: "pte_thread \<Rightarrow> sched \<Rightarrow> sched" where
  "cancel_mark p s =
     (let t = os_thread_pntr p in if t \<noteq> 0 then set_flag CANCELLED_FLAG t s else s)"

definition pte_osThreadCancel :: "nat \<Rightarrow> pte_thread \<Rightarrow> sched \<Rightarrow> (pte_osResult \<times> sched) res" where
  "pte_osThreadCancel me p s = rbind (cancel_wake me p s) (\<lambda>s1. Inr (PTE_OS_OK, cancel_mark p s1))"

definition pte_osThreadCheckCancel :: "pte_thread \<Rightarrow> sched \<Rightarrow> pte_osResult" where
  "pte_osThreadCheckCancel p s =
     (let t = os_thread_pntr p
      in if t \<noteq> 0 \<and> p_state p \<noteq> PThreadStateLast then
           (if is_pthread s t then (if is_cancelled s t then PTE_OS_INTERRUPTED else PTE_OS_OK)
            else PTE_OS_OK)
         else PTE_OS_OK)"

text \<open>The allocations: the thread, its stack and floating point page (\<open>t\<close>, \<open>stk\<close>, \<open>fp\<close>), the
  storage and its first node, the mutex of the storage.  The stack size is computed and not used.\<close>

definition pte_osThreadCreate ::
  "nat \<Rightarrow> nat \<Rightarrow> nat \<Rightarrow> nat \<Rightarrow> bool \<Rightarrow> bool \<Rightarrow> nat \<Rightarrow> int \<Rightarrow> pte_thread \<Rightarrow> sched \<Rightarrow> pte_os
   \<Rightarrow> (pte_osResult \<times> pte_thread \<times> sched \<times> pte_os) res" where
  "pte_osThreadCreate me t stk fp ok_tls ok_node mutex initialPriority p s z =
     rbind (create_thread me PTHREAD_FLAG t stk fp s) (\<lambda>(pthread, s1).
       if pthread = 0 then Inr (PTE_OS_NO_RESOURCES, p, s1, z)
       else
         let p1 = p\<lparr>os_thread_pntr := pthread, priority := initialPriority\<rparr>
         in case tls_alloc ok_node (tls_init ok_tls mutex) 1 0 of (r, m) \<Rightarrow>
              let z1 = z\<lparr>thread_tls := (thread_tls z)(pthread := m)\<rparr>
              in if r = 0 then Inr (PTE_OS_NO_RESOURCES, p1, s1, z1)
                 else Inr (PTE_OS_OK, p1\<lparr>threadId := ident (threads s1 pthread)\<rparr>, s1, z1))"

definition pte_osThreadDelete :: "pte_thread \<Rightarrow> pte_osResult" where
  "pte_osThreadDelete p = PTE_OS_OK"

definition pte_osThreadExit :: "nat \<Rightarrow> sched \<Rightarrow> sched res" where
  "pte_osThreadExit me s = exit_current_thread me s"

definition pte_osThreadExitAndDelete :: "nat \<Rightarrow> pte_thread \<Rightarrow> sched \<Rightarrow> (pte_osResult \<times> sched) res" where
  "pte_osThreadExitAndDelete me p s =
     (let thread = os_thread_pntr p; _ = pte_osThreadDelete p
      in if thread \<noteq> 0 then rbind (exit_thread me thread s) (\<lambda>s1. Inr (PTE_OS_OK, s1))
         else Inr (PTE_OS_OK, s))"

definition pte_osThreadGetDefaultPriority :: int where
  "pte_osThreadGetDefaultPriority = (PTE_MIN_PRIORITY + PTE_MAX_PRIORITY) div 2"

definition pte_osThreadGetMaxPriority :: int where
  "pte_osThreadGetMaxPriority = PTE_MAX_PRIORITY"

definition pte_osThreadGetMinPriority :: int where
  "pte_osThreadGetMinPriority = PTE_MIN_PRIORITY"

definition pte_osThreadGetHandle :: "nat \<Rightarrow> sched \<Rightarrow> u16" where
  "pte_osThreadGetHandle me s = ident (threads s (current_thread s me))"

definition pte_osThreadGetPriority :: "pte_thread \<Rightarrow> int \<Rightarrow> sched \<Rightarrow> int" where
  "pte_osThreadGetPriority p pteThreadPriority s =
     (let thread = os_thread_pntr p
      in if thread \<noteq> 0 \<and> p_state p \<noteq> PThreadStateLast
         then (if is_pthread s thread then priority p else pteThreadPriority)
         else - 1)"

definition pte_osThreadSetPriority ::
  "pte_thread \<Rightarrow> int \<Rightarrow> int \<Rightarrow> sched \<Rightarrow> pte_osResult \<times> pte_thread \<times> int" where
  "pte_osThreadSetPriority p newPriority pteThreadPriority s =
     (let thread = os_thread_pntr p
      in if thread \<noteq> 0 \<and> p_state p \<noteq> PThreadStateLast
         then (if is_pthread s thread then (PTE_OS_OK, p\<lparr>priority := newPriority\<rparr>, pteThreadPriority)
               else (PTE_OS_OK, p, newPriority))
         else (PTE_OS_OK, p, pteThreadPriority))"

definition pte_osThreadSleep :: "nat \<Rightarrow> int \<Rightarrow> nat \<Rightarrow> u32 \<Rightarrow> sched \<Rightarrow> sched res" where
  "pte_osThreadSleep me now q msecs s = sleep me now q msecs s"

definition pte_osThreadStart ::
  "nat \<Rightarrow> int \<Rightarrow> u64 \<Rightarrow> pte_thread \<Rightarrow> sched \<Rightarrow> (pte_osResult \<times> sched) res" where
  "pte_osThreadStart me now rt p s =
     (let thread_to_start = os_thread_pntr p
      in if thread_to_start \<noteq> 0
         then rbind (start_thread me thread_to_start s) (\<lambda>s1.
              rbind (schedule me now rt s1) (\<lambda>s2. Inr (PTE_OS_OK, s2)))
         else Inr (PTE_OS_GENERAL_FAILURE, s))"

text \<open>
  \<^verbatim>\<open>pte_osThreadWaitForEnd\<close> up to the call of \<^verbatim>\<open>schedule\<close> in \<open>join_thread\<close>, where its value is
  \<open>None\<close>, and from there on.  The result is an integer, since the function also returns the
  \<open>- 1\<close> of \<open>join_thread\<close>, which is no \<^verbatim>\<open>pte_osResult\<close>.
\<close>

fun os_code :: "pte_osResult \<Rightarrow> int" where
  "os_code PTE_OS_OK = 0"
| "os_code PTE_OS_NO_RESOURCES = 1"
| "os_code PTE_OS_GENERAL_FAILURE = 2"
| "os_code PTE_OS_TIMEOUT = 3"
| "os_code PTE_OS_INTERRUPTED = 4"
| "os_code PTE_OS_INVALID_PARAM = 5"

definition pte_osThreadWaitForEnd :: "nat \<Rightarrow> pte_thread \<Rightarrow> sched \<Rightarrow> (int option \<times> sched) res" where
  "pte_osThreadWaitForEnd me p s =
     (let current = current_thread s me; target = os_thread_pntr p
      in if target = 0 then Inr (Some (os_code PTE_OS_OK), s)
         else if is_dying s target then Inr (Some (os_code PTE_OS_OK), s)
         else if p_state p = PThreadStateLast then Inr (Some (os_code PTE_OS_OK), s)
         else if current \<noteq> 0 \<and> is_cancelled s current then Inr (Some (os_code PTE_OS_INTERRUPTED), s)
         else rbind (join_thread me target s) (\<lambda>(sleeps, s1).
                Inr (if sleeps then None else Some (- 1), s1)))"

definition pte_osThreadWaitForEnd_resumed ::
  "nat \<Rightarrow> pte_thread \<Rightarrow> nat \<Rightarrow> sched \<Rightarrow> (int \<times> sched) res" where
  "pte_osThreadWaitForEnd_resumed me p target s =
     (let current = current_thread s me; s1 = join_thread_resumed current s
      in if is_dying s1 target then Inr (os_code PTE_OS_OK, s1)
         else if p_state p = PThreadStateLast then Inr (os_code PTE_OS_OK, s1)
         else if current \<noteq> 0 \<and> is_cancelled s1 current then Inr (os_code PTE_OS_INTERRUPTED, s1)
         else Inl Bug)"

section \<open>Waiting for a semaphore with a timeout\<close>

text \<open>A round that the loop can complete: nobody holds the lock of the semaphore.\<close>

definition round_ok :: "nat \<Rightarrow> int \<times> semaphore \<times> sched \<Rightarrow> bool" where
  "round_ok me = (\<lambda>(now, sem, s). free_lock (m_lock (sem_mutex sem))
     \<and> 0 \<le> preempt_count (threads s (current_thread s me))
     \<and> 0 \<le> lock_count (threads s (current_thread s me)))"

lemma try_pend_free:
  assumes "round_ok me (now, sem, s)"
  obtains sem' where "semaphore_try_pend (Suc n) me sem s = Some (Inr (0 < sem_value sem, sem', s))"
    and "sem_value sem' = sem_value sem - (if 0 < sem_value sem then 1 else 0)"
proof -
  define t where "t = current_thread s me"
  note r = assms [unfolded round_ok_def prod.case, folded t_def]
  have o: "owner (m_lock ((sem_mutex sem)\<lparr>m_lock := owned_by t (m_lock (sem_mutex sem))\<rparr>)) = t"
    by (simp add: owned_by_def)
  obtain m where u: "mutex_unlock t ((sem_mutex sem)\<lparr>m_lock := owned_by t (m_lock (sem_mutex sem))\<rparr>)
      (locked_thread t s) = Inr (m, s)"
    using mutex_unlock_owned [OF _ _ o] r by blast
  show thesis
    by (rule that [of "sem\<lparr>sem_mutex := m, sem_value := sem_value sem - (if 0 < sem_value sem then 1 else 0)\<rparr>"])
       (use r u in \<open>auto simp: semaphore_try_pend_def Let_def mutex_lock_free t_def [symmetric]\<close>)
qed

text \<open>What stops the loop in a round.\<close>

definition stops :: "nat \<Rightarrow> int \<Rightarrow> int \<Rightarrow> int \<times> semaphore \<times> sched \<Rightarrow> bool" where
  "stops t past limit = (\<lambda>(now, sem, s).
     0 < sem_value sem \<or> is_cancelled s t \<or> limit \<le> now - past)"

definition outcome :: "nat \<Rightarrow> semaphore \<Rightarrow> sched \<Rightarrow> pte_osResult" where
  "outcome t sem s =
     (if 0 < sem_value sem then PTE_OS_OK else if is_cancelled s t then PTE_OS_INTERRUPTED
      else PTE_OS_TIMEOUT)"

lemma cancellable_rounds_outcome:
  assumes "\<forall>r\<in>set rounds. round_ok me r" and "t \<noteq> 0" and "0 \<le> limit"
    and "\<forall>r\<in>set rounds. past \<le> fst r"
  shows "case find (stops t past limit) rounds of
       None \<Rightarrow> cancellable_rounds (Suc n) me t past limit rounds = None
     | Some (now, sem, s) \<Rightarrow> \<exists>sem'.
         cancellable_rounds (Suc n) me t past limit rounds = Some (Inr (outcome t sem s, sem', s))
         \<and> sem_value sem' = sem_value sem - (if 0 < sem_value sem then 1 else 0)"
  using assms
proof (induction rounds)
  case (Cons r rest)
  obtain now sem s where r: "r = (now, sem, s)" by (cases r)
  have ok: "round_ok me (now, sem, s)" and ge: "past \<le> now" using Cons.prems r by auto
  obtain sem' where p: "semaphore_try_pend (Suc n) me sem s = Some (Inr (0 < sem_value sem, sem', s))"
    "sem_value sem' = sem_value sem - (if 0 < sem_value sem then 1 else 0)"
    by (rule try_pend_free [OF ok])
  show ?case
  proof (cases "stops t past limit r")
    case True
    then show ?thesis using p Cons.prems(2,3) ge
      by (auto simp: r stops_def outcome_def)
  next
    case False
    then have f: "\<not> 0 < sem_value sem" "\<not> is_cancelled s t" "\<not> limit \<le> now - past" "limit \<noteq> 0"
      using ge by (auto simp: r stops_def)
    have e: "cancellable_rounds (Suc n) me t past limit (r # rest)
        = cancellable_rounds (Suc n) me t past limit rest"
      using p f by (simp add: r)
    have "\<forall>r\<in>set rest. round_ok me r" "\<forall>r\<in>set rest. past \<le> fst r"
      using Cons.prems by simp_all
    from Cons.IH [OF this(1) Cons.prems(2,3) this(2)] show ?thesis unfolding e using False by simp
  qed
qed simp

lemma cancellable_pend_lemma:
  assumes "\<forall>r\<in>set rounds. round_ok me r" and "current_thread s0 me \<noteq> 0"
    and "\<forall>r\<in>set rounds. past \<le> fst r"
  shows "case find (stops (current_thread s0 me) past (uint ms * 1000000)) rounds of
       None \<Rightarrow> pte_osSemaphoreCancellablePend (Suc n) me addr (Some ms) past rounds sem0 s0 = None
     | Some (now, sem, s) \<Rightarrow> \<exists>sem'.
         pte_osSemaphoreCancellablePend (Suc n) me addr (Some ms) past rounds sem0 s0
           = Some (Inr (False, outcome (current_thread s0 me) sem s, sem', s))
         \<and> sem_value sem' = sem_value sem - (if 0 < sem_value sem then 1 else 0)"
proof -
  have "(0::int) \<le> uint ms * 1000000" by simp
  from cancellable_rounds_outcome [OF assms(1,2) this assms(3), of n]
  show ?thesis
    by (auto simp: pte_osSemaphoreCancellablePend_def split: option.splits)
qed

section \<open>Cancelling a thread that joins another\<close>

lemma sched_inv_cancelled [simp]: "sched_inv (set_flag CANCELLED_FLAG t s) v = sched_inv s v"
proof -
  let ?s = "set_flag CANCELLED_FLAG t s"
  have f: "has_flag ?s u RUNNABLE_FLAG = is_runnable s u" "has_flag ?s u DYING_FLAG = is_dying s u"
    "has_flag ?s u HIBERNATION_FLAG = is_hibernating s u" "has_flag ?s u SUSPENDED_FLAG = is_suspended s u"
    "has_flag ?s u JOINING_FLAG = is_joining s u" for u
    by (simp_all add: has_flag_set CANCELLED_FLAG_def thread_flag_defs)
  have l: "lists_ok ?s v = lists_ok s v" by (simp add: lists_ok_def)
  have g: "flags_ok ?s v = flags_ok s v" by (simp only: flags_ok_def f)
  have q: "sleep_ok ?s v = sleep_ok s v" by (simp add: sleep_ok_def)
  have "cpus_ok ?s v = cpus_ok s v"
    by (rule iffI; erule cpus_ok_cong) (simp_all add: same_cpus_def)
  with l g q show ?thesis by (simp add: sched_inv_def)
qed

lemma first_joiner:
  assumes i: "sched_inv s v" and j: "v_join v j = Some (t # xs)"
  shows "is_joining s t" "wakeable (s\<lparr>lists := list_del_init (lists s) (ReadyL t)\<rparr>) (a_unjoin j xs v) t"
    "t \<notin> set (v_ready v)"
proof -
  note D = sched_invD [OF i]
  have w: "waits_join v t" using j unfolding waits_join_def by fastforce
  have a: "t \<in> set (v_all v)" using D(1) w by (simp add: lists_ok_def)
  show "is_joining s t" using D(2,6) w a by (auto simp: flags_ok_def)
  have d: "t \<notin> set (v_dead v)" using queues_disjoint(7) [OF D(5)] w by blast
  have "\<not> waits_join (a_unjoin j xs v) t" using waits_join_unjoin [OF D(5) j] by blast
  then show "wakeable (s\<lparr>lists := list_del_init (lists s) (ReadyL t)\<rparr>) (a_unjoin j xs v) t"
    using a d by (simp add: wakeable_def)
  show "t \<notin> set (v_ready v)" using queues_disjoint(6) [OF D(5)] w by blast
qed

text \<open>The first joiner is taken off the list of joiners and made ready.\<close>

lemma cancel_wake_joiner:
  assumes i: "sched_inv s v" and j: "v_join v j = Some (t # xs)" and p: "os_thread_pntr p = t" "t \<noteq> 0"
    and f: "\<not> is_hibernating s t" "\<not> is_suspended s t"
  obtains s1 where "cancel_wake me p s = Inr s1" "sched_inv s1 (a_ready t (a_unjoin j xs v))"
    "\<And>u g. RUNNABLE_FLAG AND g = 0 \<Longrightarrow> has_flag s1 u g = has_flag s u g"
proof -
  note J = first_joiner [OF i j]
  let ?s = "s\<lparr>lists := list_del_init (lists s) (ReadyL t)\<rparr>"
  obtain s1 where s1: "wake me t ?s = Inr s1" "sched_inv s1 (a_wake ?s t (a_unjoin j xs v))"
    "\<And>u g. RUNNABLE_FLAG AND g = 0 \<Longrightarrow> has_flag s1 u g = has_flag ?s u g"
    using wake_inv [OF unjoin_inv [OF i j] J(2), of me] by blast
  have "a_wake ?s t (a_unjoin j xs v) = a_ready t (a_unjoin j xs v)"
    using f J(3) by (simp add: a_wake_def)
  moreover have "cancel_wake me p s = Inr s1"
    using s1(1) p J(1) by (simp add: cancel_wake_def sched_wake_joiner_def)
  ultimately show thesis using s1(2,3) by (intro that [of s1]) simp_all
qed

lemma cancel_joiner_lemma:
  assumes i: "sched_inv s v" and j: "v_join v j = Some (t # xs)" and p: "os_thread_pntr p = t" "t \<noteq> 0"
    and f: "\<not> is_hibernating s t" "\<not> is_suspended s t"
    and q: "\<not> is_dying s j" "p_state q \<noteq> PThreadStateLast"
  shows "\<exists>s' s''. pte_osThreadCancel me p s = Inr (PTE_OS_OK, s')
    \<and> sched_inv s' (v\<lparr>v_join := (v_join v)(j \<mapsto> xs), v_ready := v_ready v @ [t]\<rparr>)
    \<and> pte_osThreadWaitForEnd_resumed c q j (s'\<lparr>current_thread := (current_thread s')(c := t)\<rparr>)
        = Inr (os_code PTE_OS_INTERRUPTED, s'')"
proof -
  obtain s1 where s1: "cancel_wake me p s = Inr s1" "sched_inv s1 (a_ready t (a_unjoin j xs v))"
    "\<And>u g. RUNNABLE_FLAG AND g = 0 \<Longrightarrow> has_flag s1 u g = has_flag s u g"
    using cancel_wake_joiner [OF i j p f, where me = me] by blast
  let ?s' = "set_flag CANCELLED_FLAG t s1"
  have "pte_osThreadCancel me p s = Inr (PTE_OS_OK, ?s')"
    using s1(1) p by (simp add: pte_osThreadCancel_def cancel_mark_def)
  moreover have "sched_inv ?s' (v\<lparr>v_join := (v_join v)(j \<mapsto> xs), v_ready := v_ready v @ [t]\<rparr>)"
    using s1(2) by (simp add: a_ready_def a_unjoin_def)
  moreover have "\<not> is_dying s1 j" using s1(3) [of DYING_FLAG j] q(1) by (simp add: thread_flag_defs)
  then have "\<exists>s''. pte_osThreadWaitForEnd_resumed c q j (?s'\<lparr>current_thread := (current_thread ?s')(c := t)\<rparr>)
        = Inr (os_code PTE_OS_INTERRUPTED, s'')"
    using p(2) q(2) by (auto simp: pte_osThreadWaitForEnd_resumed_def join_thread_resumed_def Let_def
        flag_simps CANCELLED_FLAG_def)
  ultimately show ?thesis by blast
qed

lemma cancel_race_lemma:
  assumes i: "sched_inv s v" and j: "v_join v j = Some (t # xs)" and p: "os_thread_pntr p = t" "t \<noteq> 0"
    and f: "\<not> is_hibernating s t" "\<not> is_suspended s t" "\<not> is_cancelled s t"
    and q: "\<not> is_dying s j" "p_state q \<noteq> PThreadStateLast"
  shows "\<exists>s1. cancel_wake me p s = Inr s1 \<and> is_runnable s1 t
    \<and> pte_osThreadWaitForEnd_resumed c q j (s1\<lparr>current_thread := (current_thread s1)(c := t)\<rparr>) = Inl Bug"
proof -
  obtain s1 where s1: "cancel_wake me p s = Inr s1" "sched_inv s1 (a_ready t (a_unjoin j xs v))"
    "\<And>u g. RUNNABLE_FLAG AND g = 0 \<Longrightarrow> has_flag s1 u g = has_flag s u g"
    using cancel_wake_joiner [OF i j p f(1,2), where me = me] by blast
  note E = sched_invD [OF s1(2)]
  have "t \<in> set (v_ready (a_ready t (a_unjoin j xs v)))" by simp
  then have "is_runnable s1 t" using E(6,7,9) by blast
  moreover have "\<not> is_dying s1 j" using s1(3) [of DYING_FLAG j] q(1) by (simp add: thread_flag_defs)
  moreover have "\<not> is_cancelled s1 t" using s1(3) [of CANCELLED_FLAG t] f(3)
    by (simp add: CANCELLED_FLAG_def thread_flag_defs)
  ultimately show ?thesis using s1(1) q(2)
    by (auto simp: pte_osThreadWaitForEnd_resumed_def join_thread_resumed_def Let_def
        flag_simps CANCELLED_FLAG_def)
qed

text \<open>A joiner whose target has ended is ready, and still marked as joining until it runs.\<close>

lemma cancel_woken_lemma:
  assumes i: "sched_inv s v" and t: "t \<in> set (v_ready v)" "is_joining s t"
    and p: "os_thread_pntr p = t" "t \<noteq> 0"
  shows "\<exists>s1 s2. pte_osThreadCancel me p s = Inr (PTE_OS_OK, s1) \<and> is_runnable s1 t
    \<and> unlinked (lists s1) (ReadyL t)
    \<and> store (lists s1) (vq (v\<lparr>v_ready := remove1 t (v_ready v)\<rparr>))
    \<and> wake c t s1 = Inr s2 \<and> lists s2 = lists s1"
proof -
  note D = sched_invD [OF i]
  have td: "t \<in> dom (v_join v)" using D(6,9) t(1) by blast
  have r: "is_runnable s t" using D(7) [OF td] t(1) by simp
  have nd: "t \<notin> set (v_dead v)" "\<not> waits_join v t"
    using queues_disjoint(5,6) [OF D(5)] t(1) by blast+
  have d: "\<not> is_dying s t" using D(8) [OF td] nd(1) by simp
  let ?h = "list_del_init (lists s) (ReadyL t)"
  let ?v = "v\<lparr>v_ready := remove1 t (v_ready v)\<rparr>"
  define s1 where "s1 = set_flag CANCELLED_FLAG t (upd_thread (s\<lparr>lists := ?h\<rparr>) t (\<lambda>th. th\<lparr>regs := 0\<rparr>))"
  have w: "wake c t x = Inr (upd_thread x t (\<lambda>th. th\<lparr>regs := 0\<rparr>))"
    if "is_runnable x t" "\<not> is_dying x t" for x and c :: nat
    using that by (simp add: wake_def Let_def)
  have f: "is_runnable s1 t" "\<not> is_dying s1 t"
    using r d by (simp_all add: s1_def has_flag_set CANCELLED_FLAG_def thread_flag_defs)
  have "pte_osThreadCancel me p s = Inr (PTE_OS_OK, s1)"
    using p t(2) w [of "s\<lparr>lists := ?h\<rparr>" me] r d
    by (simp add: pte_osThreadCancel_def cancel_wake_def cancel_mark_def sched_wake_joiner_def s1_def)
  moreover have st: "store (lists s1) (vq ?v)" using store_ready_del [OF D(5) t(1)] by (simp add: s1_def)
  moreover have "unlinked (lists s1) (ReadyL t)"
    by (rule store_unlinked [OF st])
      (use nd set_remove1_queue [OF D(5)] in \<open>simp add: free_ready\<close>)
  moreover have "wake c t s1 = Inr (upd_thread s1 t (\<lambda>th. th\<lparr>regs := 0\<rparr>))" by (rule w [OF f])
  ultimately show ?thesis using f(1) by auto
qed

section \<open>Claims\<close>

definition demo_rounds :: "(int \<times> semaphore \<times> sched) list" where
  "demo_rounds = [(100, demo_sem, demo_running), (2000100, demo_sem, demo_running)]"

lemma demo_rounds_ok: "r \<in> set demo_rounds \<Longrightarrow> round_ok 0 r"
proof -
  have c: "caller demo_running demo_view (current_thread demo_running 0)" by (rule demo_caller)
  note k = callerD [OF demo_running_inv c]
  have "free_lock (m_lock (sem_mutex demo_sem))" using demo_sem_ok by (simp add: sem_ok_def)
  then show "r \<in> set demo_rounds \<Longrightarrow> round_ok 0 r" using k by (auto simp: demo_rounds_def round_ok_def)
qed

text \<open>
  C22: \<^verbatim>\<open>pte_osSemaphoreCancellablePend\<close> with a timeout returns in the first round in which it finds
  a permit, its caller cancelled, or the time up, and in no earlier one: \<^verbatim>\<open>PTE_OS_OK\<close> with one
  permit less when there was a permit, whatever else holds, otherwise \<^verbatim>\<open>PTE_OS_INTERRUPTED\<close> when
  the caller is cancelled, otherwise \<^verbatim>\<open>PTE_OS_TIMEOUT\<close>.  It never calls \<^verbatim>\<open>schedule\<close>.
\<close>
theorem cancellable_pend_outcome:
  assumes "\<forall>r\<in>set rounds. round_ok me r" and "current_thread s0 me \<noteq> 0"
    and "\<forall>r\<in>set rounds. past \<le> fst r"
  shows "case find (stops (current_thread s0 me) past (uint ms * 1000000)) rounds of
       None \<Rightarrow> pte_osSemaphoreCancellablePend (Suc n) me addr (Some ms) past rounds sem0 s0 = None
     | Some (now, sem, s) \<Rightarrow> \<exists>sem'.
         pte_osSemaphoreCancellablePend (Suc n) me addr (Some ms) past rounds sem0 s0
           = Some (Inr (False, outcome (current_thread s0 me) sem s, sem', s))
         \<and> sem_value sem' = sem_value sem - (if 0 < sem_value sem then 1 else 0)"
  using cancellable_pend_lemma [OF assms] .

theorem cancellable_pend_outcome_witness:
  "\<exists>sem'. pte_osSemaphoreCancellablePend 1 0 0 (Some 2) 100 demo_rounds demo_sem demo_running
     = Some (Inr (False, PTE_OS_TIMEOUT, sem', demo_running))"
proof -
  have t: "current_thread demo_running 0 = 5" by (simp add: demo_running_def)
  have nc: "\<not> is_cancelled demo_running 5"
    by (simp add: demo_running_def demo_sched_def has_flag_def blank_thread_def CANCELLED_FLAG_def
        thread_flag_defs)
  have v: "sem_value demo_sem = 0" by (simp add: demo_sem_def)
  have f: "find (stops 5 100 2000000) demo_rounds = Some (2000100, demo_sem, demo_running)"
    using nc by (simp add: demo_rounds_def stops_def v)
  have p: "\<forall>r\<in>set demo_rounds. 100 \<le> fst r" by (simp add: demo_rounds_def)
  have o: "outcome 5 demo_sem demo_running = PTE_OS_TIMEOUT" using nc by (simp add: outcome_def v)
  show ?thesis
    using cancellable_pend_outcome [where rounds = demo_rounds and me = 0 and ?s0.0 = demo_running
        and past = 100 and ms = 2 and n = 0 and addr = 0 and ?sem0.0 = demo_sem] demo_rounds_ok t p
    by (auto simp: f o)
qed

text \<open>\<open>join_thread\<close> changes no other flags than these three.\<close>

lemma block_flags:
  assumes "block t s = Inr s'" "RUNNABLE_FLAG AND g = 0" "RUNNING_FLAG AND g = 0"
  shows "has_flag s' u g = has_flag s u g"
  using assms by (auto simp: block_def Let_def has_flag_set has_flag_clear and_not_disjoint res_simps split: if_splits)

lemma join_thread_flags:
  assumes "join_thread me j s = Inr (b, s')" "RUNNABLE_FLAG AND g = 0" "RUNNING_FLAG AND g = 0"
    "JOINING_FLAG AND g = 0"
  shows "has_flag s' u g = has_flag s u g"
proof -
  have "has_flag s1 u g = has_flag s u g"
    if "block t (upd_thread s t (\<lambda>th. th\<lparr>regs := 0\<rparr>)) = Inr s1" for s1 t
    using block_flags [OF that assms(2,3)] by simp
  then show ?thesis using assms
    by (auto simp: join_thread_def Let_def has_flag_set set_lists_def res_simps split: if_splits)
qed

text \<open>Thread 5 of the example waits for thread 6.\<close>

definition joiner_thread :: pte_thread where
  "joiner_thread = \<lparr>threadId = 64, p_state = PThreadStateCancelPending, os_thread_pntr = 5, priority = 0\<rparr>"

definition target_thread :: pte_thread where
  "target_thread = \<lparr>threadId = 65, p_state = PThreadStateRunning, os_thread_pntr = 6, priority = 0\<rparr>"

lemma demo_joining:
  obtains s where "sched_inv s (a_join 5 6 demo_view)" "\<not> is_hibernating s 5" "\<not> is_suspended s 5"
    "\<not> is_cancelled s 5" "\<not> is_dying s 6"
proof -
  have t: "5 = current_thread demo_running 0" "5 \<in> set (v_ready demo_view)" "\<not> is_joining demo_running 5"
    "no_timer demo_running demo_view 5" "6 \<in> set (v_all demo_view)"
    by (auto simp: demo_running_def demo_sched_def demo_view_def has_flag_def blank_thread_def thread_flag_defs no_timer_def)
  obtain s where s: "sched_inv s (a_join 5 6 demo_view)" "join_thread 0 6 demo_running = Inr (True, s)"
    by (rule join_thread_inv [OF demo_running_inv t])
  note f = join_thread_flags [OF s(2)]
  show thesis
    by (rule that [OF s(1)])
      (simp_all add: f thread_flag_defs CANCELLED_FLAG_def,
        simp_all add: demo_running_def demo_sched_def has_flag_def blank_thread_def thread_flag_defs)
qed

lemma demo_join_list: "v_join (a_join 5 6 demo_view) 6 = Some [5]"
  by (simp add: a_join_def demo_view_def)



text \<open>
  \<^verbatim>\<open>pte_osThreadCancel\<close> wakes the joiner before it marks it as cancelled.  If the joiner runs
  between the two, its \<^verbatim>\<open>pte_osThreadWaitForEnd\<close> finds its target alive and itself not cancelled,
  and stops the domain in \<^verbatim>\<open>BUG()\<close>.
\<close>
theorem cancel_race_stops_domain:
  assumes i: "sched_inv s v" and j: "v_join v j = Some (t # xs)" and p: "os_thread_pntr p = t" "t \<noteq> 0"
    and f: "\<not> is_hibernating s t" "\<not> is_suspended s t" "\<not> is_cancelled s t"
    and q: "\<not> is_dying s j" "p_state q \<noteq> PThreadStateLast"
  shows "\<exists>s1. cancel_wake me p s = Inr s1 \<and> is_runnable s1 t
    \<and> pte_osThreadWaitForEnd_resumed c q j (s1\<lparr>current_thread := (current_thread s1)(c := t)\<rparr>) = Inl Bug"
  using cancel_race_lemma [OF assms] .

theorem cancel_race_stops_domain_witness:
  "\<exists>s s1. cancel_wake 0 joiner_thread s = Inr s1 \<and> is_runnable s1 5
    \<and> pte_osThreadWaitForEnd_resumed 0 target_thread 6 (s1\<lparr>current_thread := (current_thread s1)(0 := 5)\<rparr>)
        = Inl Bug"
proof -
  obtain s where s: "sched_inv s (a_join 5 6 demo_view)" "\<not> is_hibernating s 5" "\<not> is_suspended s 5"
    "\<not> is_cancelled s 5" "\<not> is_dying s 6" by (rule demo_joining)
  have p: "os_thread_pntr joiner_thread = 5" "(5 :: nat) \<noteq> 0" "p_state target_thread \<noteq> PThreadStateLast"
    by (simp_all add: joiner_thread_def target_thread_def)
  show ?thesis
    using cancel_race_stops_domain [OF s(1) demo_join_list p(1,2) s(2,3,4,5) p(3), of 0 0] by blast
qed

text \<open>
  A thread whose target has ended is ready but still marked as joining until it runs.  If it is
  cancelled then, \<^verbatim>\<open>sched_wake_joiner\<close> takes it off the ready queue instead of off a list of
  joiners: it is runnable and on no queue, and waking it again does not put it back.
\<close>
theorem cancel_loses_woken_joiner:
  assumes i: "sched_inv s v" and t: "t \<in> set (v_ready v)" "is_joining s t"
    and p: "os_thread_pntr p = t" "t \<noteq> 0"
  shows "\<exists>s1 s2. pte_osThreadCancel me p s = Inr (PTE_OS_OK, s1) \<and> is_runnable s1 t
    \<and> unlinked (lists s1) (ReadyL t)
    \<and> store (lists s1) (vq (v\<lparr>v_ready := remove1 t (v_ready v)\<rparr>))
    \<and> wake c t s1 = Inr s2 \<and> lists s2 = lists s1"
  using cancel_woken_lemma [OF assms] .

theorem cancel_loses_woken_joiner_witness:
  "\<exists>s s1. sched_wake_joiners 0 6 s = Inr s1 \<and> is_runnable s1 5 \<and>
     (\<exists>s2. pte_osThreadCancel 0 joiner_thread s1 = Inr (PTE_OS_OK, s2) \<and> is_runnable s2 5 \<and>
       unlinked (lists s2) (ReadyL 5))"
proof -
  obtain s where s: "sched_inv s (a_join 5 6 demo_view)" "\<not> is_hibernating s 5" "\<not> is_suspended s 5"
    "\<not> is_cancelled s 5" "\<not> is_dying s 6" by (rule demo_joining)
  let ?v = "a_wake_joiners s 6 [5] (a_join 5 6 demo_view)"
  obtain s1 where s1: "sched_wake_joiners 0 6 s = Inr s1" "sched_inv s1 ?v"
    "\<And>u g. RUNNABLE_FLAG AND g = 0 \<Longrightarrow> has_flag s1 u g = has_flag s u g"
    using sched_wake_joiners_inv [OF s(1) demo_join_list, of 0] by blast
  have "is_joining s 5" by (rule first_joiner(1) [OF s(1) demo_join_list])
  then have j: "is_joining s1 5" using s1(3) [of JOINING_FLAG 5] by (simp add: thread_flag_defs)
  have r: "5 \<in> set (v_ready ?v)" using s(2,3) by (simp add: a_wake_def)
  note D = sched_invD [OF s1(2)]
  have "is_runnable s1 5" using D(6,7,9) r by blast
  moreover have "os_thread_pntr joiner_thread = 5" "(5 :: nat) \<noteq> 0" by (simp_all add: joiner_thread_def)
  ultimately show ?thesis
    using cancel_loses_woken_joiner [OF s1(2) r j, of joiner_thread 0] s1(1) by blast
qed

end
