(* ===== verification/Clock.thy ===== *)
theory Clock
  imports Sched_Props
begin

text \<open>
  Time, \<^verbatim>\<open>arch/time.c\<close>: the scaled time stamp counter, the version loops that copy the time
  records Xen keeps in the shared page, \<^verbatim>\<open>gettimeofday\<close>, the one-shot timer, and the handler of
  the timer event.

  Xen writes the shared records while the guest reads them.  The history of a record is a function
  from moments to its contents, and a round of a version loop is given by the moments of its reads;
  a loop has the value \<open>None\<close> when the rounds given do not end it.  What the loops rely on is the
  rule of \<^verbatim>\<open>public/xen.h\<close>: every update is preceded and followed by an increment of the version,
  and an odd version marks an update in progress (\<open>published\<close> below).  The time stamp counter and
  the results of hypercalls are arguments; a \<^verbatim>\<open>long\<close> is its 64 bits.
\<close>

section \<open>The time of a processor\<close>

record vcpu_time_info =
  version :: u32
  tsc_timestamp :: u64
  system_time :: u64
  tsc_to_system_mul :: u32
  tsc_shift :: int

record shadow_time_info =
  sh_tsc_timestamp :: u64
  sh_system_timestamp :: u64
  sh_tsc_to_nsec_mul :: u32
  sh_tsc_to_usec_mul :: u32
  sh_tsc_shift :: int
  sh_version :: u32

text \<open>A shift by the width or more is undefined in C.  The product has 128 bits, of which \<^verbatim>\<open>shrd\<close>
  keeps those from 32 to 95.\<close>

definition scale_delta :: "u64 \<Rightarrow> u32 \<Rightarrow> int \<Rightarrow> u64 res" where
  "scale_delta delta mul_frac shift =
     (if shift \<le> - 64 \<or> 64 \<le> shift then Inl Undef
      else let d = (if shift < 0 then drop_bit (nat (- shift)) delta else push_bit (nat shift) delta)
           in Inr (word_of_int (uint d * uint mul_frac div 2 ^ 32)))"

definition get_nsec_offset :: "u64 \<Rightarrow> shadow_time_info \<Rightarrow> u64 res" where
  "get_nsec_offset now sh =
     (let delta = now - sh_tsc_timestamp sh
      in scale_delta delta (sh_tsc_to_nsec_mul sh) (sh_tsc_shift sh))"

text \<open>The moments of a round: the version, the four values, the version twice.\<close>

record read_round =
  at_version :: nat
  at_tsc :: nat
  at_system :: nat
  at_mul :: nat
  at_shift :: nat
  at_parity :: nat
  at_check :: nat

fun get_time_values_loop ::
  "(nat \<Rightarrow> vcpu_time_info) \<Rightarrow> read_round list \<Rightarrow> shadow_time_info \<Rightarrow> shadow_time_info option" where
  "get_time_values_loop src [] sh = None"
| "get_time_values_loop src (r # rest) sh =
     (let sh1 = sh\<lparr>sh_version := version (src (at_version r)),
                   sh_tsc_timestamp := tsc_timestamp (src (at_tsc r)),
                   sh_system_timestamp := system_time (src (at_system r)),
                   sh_tsc_to_nsec_mul := tsc_to_system_mul (src (at_mul r)),
                   sh_tsc_shift := tsc_shift (src (at_shift r))\<rparr>
      in if (version (src (at_parity r)) AND 1) OR (sh_version sh1 XOR version (src (at_check r))) \<noteq> 0
         then get_time_values_loop src rest sh1
         else Some sh1)"

definition get_time_values_from_xen ::
  "(nat \<Rightarrow> vcpu_time_info) \<Rightarrow> read_round list \<Rightarrow> shadow_time_info \<Rightarrow> shadow_time_info option" where
  "get_time_values_from_xen src rounds sh =
     map_option (\<lambda>sh1. sh1\<lparr>sh_tsc_to_usec_mul := sh_tsc_to_nsec_mul sh1 div 1000\<rparr>)
       (get_time_values_loop src rounds sh)"

definition time_values_up_to_date :: "vcpu_time_info \<Rightarrow> shadow_time_info \<Rightarrow> bool" where
  "time_values_up_to_date src sh = (sh_version sh = version src)"

text \<open>A round of \<^verbatim>\<open>monotonic_clock\<close>: the counter it reads, the moment at which it compares
  the versions, and the rounds of the copy it makes if they differ.  The counter of preemption is
  raised around the loop and lowered after it.\<close>

record clock_round =
  tsc :: u64
  at_compare :: nat
  copy :: "read_round list"

fun clock_loop ::
  "(nat \<Rightarrow> vcpu_time_info) \<Rightarrow> clock_round list \<Rightarrow> shadow_time_info \<Rightarrow> (u64 \<times> shadow_time_info) res option" where
  "clock_loop src [] sh = None"
| "clock_loop src (r # rest) sh =
     (let local_time_version = sh_version sh
      in case get_nsec_offset (tsc r) sh of
           Inl e \<Rightarrow> Some (Inl e)
         | Inr off \<Rightarrow>
             let time = sh_system_timestamp sh + off
             in case (if \<not> time_values_up_to_date (src (at_compare r)) sh
                      then get_time_values_from_xen src (copy r) sh else Some sh) of
                  None \<Rightarrow> None
                | Some sh1 \<Rightarrow>
                    if local_time_version \<noteq> sh_version sh1 then clock_loop src rest sh1
                    else Some (Inr (time, sh1)))"

definition monotonic_clock ::
  "(nat \<Rightarrow> vcpu_time_info) \<Rightarrow> clock_round list \<Rightarrow> nat \<Rightarrow> shadow_time_info \<Rightarrow> sched
   \<Rightarrow> (u64 \<times> shadow_time_info \<times> sched) res option" where
  "monotonic_clock src rounds me sh s =
     dbind (Some (preempt_disable me s)) (\<lambda>s1.
     dbind (clock_loop src rounds sh) (\<lambda>(time, sh1).
     dbind (Some (preempt_enable_no_resched me s1)) (\<lambda>s2. Some (Inr (time, sh1, s2)))))"

section \<open>The wall clock\<close>

record wall_clock_info =
  wc_version :: u32
  wc_sec :: u32
  wc_nsec :: u32

record wall_clock =
  shadow_ts_version :: u32
  shadow_tv_sec :: u64
  shadow_tv_nsec :: u64
  time_addend :: int

record wall_round =
  wat_version :: nat
  wat_sec :: nat
  wat_nsec :: nat
  wat_parity :: nat
  wat_check :: nat

fun wallclock_loop ::
  "(nat \<Rightarrow> wall_clock_info) \<Rightarrow> wall_round list \<Rightarrow> wall_clock \<Rightarrow> wall_clock option" where
  "wallclock_loop src [] w = None"
| "wallclock_loop src (r # rest) w =
     (let w1 = w\<lparr>shadow_ts_version := wc_version (src (wat_version r)),
                 shadow_tv_sec := ucast (wc_sec (src (wat_sec r))),
                 shadow_tv_nsec := ucast (wc_nsec (src (wat_nsec r)))\<rparr>
      in if (wc_version (src (wat_parity r)) AND 1)
              OR (shadow_ts_version w1 XOR wc_version (src (wat_check r))) \<noteq> 0
         then wallclock_loop src rest w1
         else Some w1)"

definition update_wallclock ::
  "(nat \<Rightarrow> wall_clock_info) \<Rightarrow> wall_round list \<Rightarrow> bool \<Rightarrow> nat \<Rightarrow> sched \<Rightarrow> wall_clock \<Rightarrow> wall_clock res option" where
  "update_wallclock src rounds suspended me s w =
     (if \<not> in_irq s me \<and> smp_init_completed s \<and> \<not> suspended then Some (Inl Bug)
      else map_option Inr (wallclock_loop src rounds w))"

text \<open>\<^verbatim>\<open>gettimeofday\<close> under the lock of the wall clock; \<open>nsec\<close> is what \<^verbatim>\<open>monotonic_clock\<close> gave.\<close>

definition wall_time :: "u64 \<Rightarrow> wall_clock \<Rightarrow> (u64 \<times> u64) res" where
  "wall_time monotonic w =
     (let nsec = monotonic + shadow_tv_nsec w
      in bug_on (shadow_ts_version w = 0)
           (Inr (shadow_tv_sec w + nsec div 1000000000, (nsec mod 1000000000) div 1000)))"

definition gettimeofday ::
  "(nat \<Rightarrow> vcpu_time_info) \<Rightarrow> clock_round list \<Rightarrow> nat \<Rightarrow> shadow_time_info \<Rightarrow> wall_clock \<Rightarrow> sched
   \<Rightarrow> ((u64 \<times> u64) \<times> shadow_time_info \<times> sched) res option" where
  "gettimeofday src rounds me sh w s =
     dbind (monotonic_clock src rounds me sh s) (\<lambda>(time, sh1, s1).
       Some (rbind (wall_time time w) (\<lambda>tv. Inr (tv, sh1, s1))))"

definition init_time ::
  "(nat \<Rightarrow> wall_clock_info) \<Rightarrow> wall_round list \<Rightarrow> bool \<Rightarrow> nat \<Rightarrow> sched \<Rightarrow> wall_clock \<Rightarrow> wall_clock res option" where
  "init_time src rounds suspended me s w =
     update_wallclock src rounds suspended me s
       (w\<lparr>shadow_tv_sec := 0, shadow_tv_nsec := 0, time_addend := 0, shadow_ts_version := 0\<rparr>)"

section \<open>Timers\<close>

text \<open>The hypercalls are functions from their argument to the result: \<open>set_timer_op\<close> of the
  deadline, \<open>vcpu_op\<close> of the processor to an error code and its running time.\<close>

definition set_timer_interrupt ::
  "(u64 \<Rightarrow> int) \<Rightarrow> (nat \<Rightarrow> vcpu_time_info) \<Rightarrow> clock_round list \<Rightarrow> nat \<Rightarrow> u64 \<Rightarrow> shadow_time_info \<Rightarrow> sched
   \<Rightarrow> (u64 \<times> shadow_time_info \<times> sched) res option" where
  "set_timer_interrupt set_timer_op src rounds me delta sh s =
     (let d = (if delta < 1000000 then 1000000 else delta)
      in dbind (monotonic_clock src rounds me sh s) (\<lambda>(time, sh1, s1).
           Some (bug_on (set_timer_op (time + d) \<noteq> 0) (Inr (time + d, sh1, s1)))))"

definition CPU_SLEEPING :: nat where "CPU_SLEEPING = 4"

text \<open>\<^verbatim>\<open>block_domain\<close> up to the call that stops the processor, with the deadline it sets, if it
  gets there; and from there on.\<close>

definition block_domain ::
  "(nat \<Rightarrow> vcpu_time_info) \<Rightarrow> clock_round list \<Rightarrow> nat \<Rightarrow> int \<Rightarrow> wall_clock \<Rightarrow> shadow_time_info \<Rightarrow> sched
   \<Rightarrow> (u64 option \<times> shadow_time_info \<times> sched) res option" where
  "block_domain src rounds me until w sh s =
     dbind (monotonic_clock src rounds me sh s) (\<lambda>(time, sh1, s1).
       Some (if sint time + time_addend w < until
             then Inr (Some (word_of_int (until - time_addend w)), sh1,
                       s1\<lparr>cpu_state := (cpu_state s1)(me := CPU_SLEEPING)\<rparr>)
             else let s2 = s1\<lparr>irqs_disabled := (irqs_disabled s1)(me := False)\<rparr>
                  in bug_on (irqs_disabled s2 me) (Inr (None, sh1, s2))))"

definition block_domain_resumed :: "nat \<Rightarrow> sched \<Rightarrow> sched res" where
  "block_domain_resumed me s =
     (let s1 = s\<lparr>cpu_state := (cpu_state s)(me := CPU_UP)\<rparr>
      in bug_on (irqs_disabled s1 me) (Inr s1))"

definition get_cpu_running_time :: "(nat \<Rightarrow> int \<times> u64) \<Rightarrow> nat \<Rightarrow> sched \<Rightarrow> u64 res" where
  "get_cpu_running_time vcpu_op c s =
     (if \<not> smp_init_completed s then Inr 0
      else case vcpu_op c of (ret, running) \<Rightarrow> bug_on (ret \<noteq> 0) (Inr running))"

definition check_need_resched ::
  "(u64 \<Rightarrow> int) \<Rightarrow> (nat \<Rightarrow> int \<times> u64) \<Rightarrow> (nat \<Rightarrow> vcpu_time_info) \<Rightarrow> clock_round list \<Rightarrow> nat
   \<Rightarrow> shadow_time_info \<Rightarrow> sched \<Rightarrow> (u64 option \<times> shadow_time_info \<times> sched) res option" where
  "check_need_resched set_timer_op vcpu_op src rounds me sh s =
     (let t = current_not_idle me s
      in if t = 0 then Some (Inr (None, sh, s))
         else
           let resched_time = resched_running_time (threads s t)
           in if resched_time = 0 then Some (Inr (None, sh, s))
              else
                dbind (Some (get_cpu_running_time vcpu_op me s)) (\<lambda>running_time.
                  if running_time \<ge> resched_time
                  then Some (Inr (None, sh, set_flag RESCHED_FLAG t s))
                  else
                    dbind (set_timer_interrupt set_timer_op src rounds me (resched_time - running_time) sh s)
                      (\<lambda>(deadline, sh1, s1). Some (Inr (Some deadline, sh1, s1)))))"

definition timer_handler ::
  "(u64 \<Rightarrow> int) \<Rightarrow> (nat \<Rightarrow> int \<times> u64) \<Rightarrow> (nat \<Rightarrow> vcpu_time_info) \<Rightarrow> read_round list \<Rightarrow> clock_round list
   \<Rightarrow> (nat \<Rightarrow> wall_clock_info) \<Rightarrow> wall_round list \<Rightarrow> bool \<Rightarrow> nat \<Rightarrow> shadow_time_info \<Rightarrow> wall_clock \<Rightarrow> sched
   \<Rightarrow> (u64 option \<times> shadow_time_info \<times> wall_clock \<times> sched) res option" where
  "timer_handler set_timer_op vcpu_op src reads rounds wsrc wrounds suspended me sh w s =
     (case get_time_values_from_xen src reads sh of
        None \<Rightarrow> None
      | Some sh1 \<Rightarrow>
          dbind (update_wallclock wsrc wrounds suspended me s w) (\<lambda>w1.
          dbind (check_need_resched set_timer_op vcpu_op src rounds me sh1 s) (\<lambda>(deadline, sh2, s1).
            Some (Inr (deadline, sh2, w1, s1)))))"

section \<open>Consistent copies\<close>

text \<open>
  The rule by which Xen publishes a record: while the version is what it was, nothing in between was
  different, and while it is even the whole record is what it was.  (It excludes that the version
  goes round its 32 bits between two reads of one round.)
\<close>

definition published :: "('r \<Rightarrow> u32) \<Rightarrow> (nat \<Rightarrow> 'r) \<Rightarrow> bool" where
  "published ver src =
     (\<forall>a b t. a \<le> t \<longrightarrow> t \<le> b \<longrightarrow> ver (src a) = ver (src b) \<longrightarrow>
        ver (src t) = ver (src a) \<and> (even (uint (ver (src a))) \<longrightarrow> src t = src a))"

lemma publishedD:
  assumes "published ver src" "a \<le> t" "t \<le> b" "ver (src a) = ver (src b)"
  shows "ver (src t) = ver (src a)" "even (uint (ver (src a))) \<Longrightarrow> src t = src a"
  using assms unfolding published_def by blast+

lemma version_test:
  "(p AND 1) OR (a XOR b) = 0 \<longleftrightarrow> even (uint p) \<and> a = b" for p a b :: u32
proof -
  have "a XOR b = 0 \<longleftrightarrow> a = b" by (metis xor.assoc xor.right_neutral xor_self_eq)
  moreover have "p mod 2 = 0 \<longleftrightarrow> uint p mod 2 = 0" by (simp add: word_uint_eq_iff uint_mod)
  ultimately show ?thesis by (simp add: or_eq_0_iff and_one_eq even_iff_mod_2_eq_zero)
qed

text \<open>A round whose reads are in the order that the barriers enforce.\<close>

definition in_order :: "read_round \<Rightarrow> bool" where
  "in_order r = (\<forall>m\<in>{at_tsc r, at_system r, at_mul r, at_shift r}.
     at_version r \<le> m \<and> m \<le> at_parity r \<and> at_parity r \<le> at_check r)"

definition snapshot :: "(nat \<Rightarrow> vcpu_time_info) \<Rightarrow> nat \<Rightarrow> shadow_time_info \<Rightarrow> bool" where
  "snapshot src t sh =
     (sh_version sh = version (src t) \<and> sh_tsc_timestamp sh = tsc_timestamp (src t)
      \<and> sh_system_timestamp sh = system_time (src t) \<and> sh_tsc_to_nsec_mul sh = tsc_to_system_mul (src t)
      \<and> sh_tsc_shift sh = tsc_shift (src t) \<and> even (uint (version (src t))))"

lemma get_time_values_loop_snapshot:
  assumes p: "published version src" and r: "\<forall>r\<in>set rounds. in_order r"
    and l: "get_time_values_loop src rounds sh = Some sh'"
  shows "\<exists>r\<in>set rounds. snapshot src (at_version r) sh'"
  using r l
proof (induction rounds arbitrary: sh)
  case (Cons r rest)
  define sh1 where "sh1 = sh\<lparr>sh_version := version (src (at_version r)),
    sh_tsc_timestamp := tsc_timestamp (src (at_tsc r)), sh_system_timestamp := system_time (src (at_system r)),
    sh_tsc_to_nsec_mul := tsc_to_system_mul (src (at_mul r)), sh_tsc_shift := tsc_shift (src (at_shift r))\<rparr>"
  show ?case
  proof (cases "(version (src (at_parity r)) AND 1) OR (sh_version sh1 XOR version (src (at_check r))) = 0")
    case True
    then have e: "even (uint (version (src (at_parity r))))"
      "version (src (at_version r)) = version (src (at_check r))"
      unfolding version_test by (simp_all add: sh1_def)
    have o: "at_version r \<le> m \<and> m \<le> at_check r"
      if "m \<in> {at_tsc r, at_system r, at_mul r, at_shift r, at_parity r}" for m
      using that Cons.prems(1) by (auto simp: in_order_def)
    have "version (src (at_parity r)) = version (src (at_version r))"
      using publishedD(1) [OF p _ _ e(2)] o by blast
    then have ev: "even (uint (version (src (at_version r))))" using e(1) by simp
    have same: "src m = src (at_version r)"
      if "m \<in> {at_tsc r, at_system r, at_mul r, at_shift r, at_parity r}" for m
      using publishedD(2) [OF p _ _ e(2) ev] o [OF that] by blast
    have "sh' = sh1" using Cons.prems(2) True by (simp add: Let_def sh1_def)
    then have "snapshot src (at_version r) sh'"
      using same ev by (simp add: snapshot_def sh1_def)
    then show ?thesis by auto
  next
    case False
    then have "get_time_values_loop src rest sh1 = Some sh'"
      using Cons.prems(2) by (simp add: Let_def sh1_def)
    then show ?thesis using Cons.IH [of sh1] Cons.prems(1) by auto
  qed
qed simp

lemma get_time_values_snapshot:
  assumes "published version src" "\<forall>r\<in>set rounds. in_order r"
    and "get_time_values_from_xen src rounds sh = Some sh'"
  shows "\<exists>r\<in>set rounds. snapshot src (at_version r) sh'"
proof -
  obtain sh1 where "get_time_values_loop src rounds sh = Some sh1"
    "sh' = sh1\<lparr>sh_tsc_to_usec_mul := sh_tsc_to_nsec_mul sh1 div 1000\<rparr>"
    using assms(3) by (auto simp: get_time_values_from_xen_def)
  then show ?thesis using get_time_values_loop_snapshot [OF assms(1,2)] by (fastforce simp: snapshot_def)
qed

section \<open>Reading the clock\<close>

text \<open>The moments of a call of \<^verbatim>\<open>monotonic_clock\<close> in order, from the moment \<open>t\<close> on.\<close>

fun times_ok :: "nat \<Rightarrow> clock_round list \<Rightarrow> bool" where
  "times_ok t [] = True"
| "times_ok t (r # rest) =
     (t \<le> at_compare r
      \<and> (\<forall>q\<in>set (copy r). in_order q \<and> at_compare r \<le> at_version q
           \<and> (\<forall>r'\<in>set rest. at_version q \<le> at_compare r'))
      \<and> times_ok (at_compare r) rest)"

lemma times_ok_later: "times_ok t rs \<Longrightarrow> \<forall>r\<in>set rs. u \<le> at_compare r \<Longrightarrow> times_ok u rs"
  by (cases rs) auto

text \<open>The formula of \<^verbatim>\<open>public/xen.h\<close> for the time at a counter value.\<close>

definition time_at :: "vcpu_time_info \<Rightarrow> u64 \<Rightarrow> u64 res" where
  "time_at v now =
     rbind (scale_delta (now - tsc_timestamp v) (tsc_to_system_mul v) (tsc_shift v)) (\<lambda>off.
       Inr (system_time v + off))"

lemma snapshot_offset:
  "snapshot src t sh \<Longrightarrow> get_nsec_offset now sh
     = scale_delta (now - tsc_timestamp (src t)) (tsc_to_system_mul (src t)) (tsc_shift (src t))"
  by (simp add: snapshot_def get_nsec_offset_def)

lemma clock_loop_current:
  assumes p: "published version src" and t: "times_ok t rounds" and s: "snapshot src t sh"
    and l: "clock_loop src rounds sh = Some (Inr (time, sh'))"
  shows "\<exists>r\<in>set rounds. time_at (src (at_compare r)) (tsc r) = Inr time \<and> snapshot src (at_compare r) sh'"
  using t s l
proof (induction rounds arbitrary: t sh)
  case (Cons r rest)
  have tc: "t \<le> at_compare r" using Cons.prems(1) by simp
  have ev: "even (uint (version (src t)))" "sh_version sh = version (src t)"
    using Cons.prems(2) by (simp_all add: snapshot_def)
  obtain off where off: "get_nsec_offset (tsc r) sh = Inr off"
    using Cons.prems(3) by (auto simp: Let_def split: sum.splits)
  show ?case
  proof (cases "time_values_up_to_date (src (at_compare r)) sh")
    case True
    then have v: "version (src t) = version (src (at_compare r))"
      using ev(2) by (simp add: time_values_up_to_date_def)
    have same: "src (at_compare r) = src t"
      using publishedD(2) [OF p tc order_refl v ev(1)] .
    have "time = sh_system_timestamp sh + off" "sh' = sh"
      using Cons.prems(3) off True by (auto simp: Let_def)
    moreover have "time_at (src (at_compare r)) (tsc r) = Inr (sh_system_timestamp sh + off)"
      using off snapshot_offset [OF Cons.prems(2)] Cons.prems(2) same
      by (simp add: time_at_def snapshot_def)
    moreover have "snapshot src (at_compare r) sh" using Cons.prems(2) same by (simp add: snapshot_def)
    ultimately show ?thesis by auto
  next
    case False
    then obtain sh1 where c: "get_time_values_from_xen src (copy r) sh = Some sh1"
      using Cons.prems(3) off by (auto simp: Let_def split: option.splits)
    obtain q where q: "q \<in> set (copy r)" "snapshot src (at_version q) sh1"
      using get_time_values_snapshot [OF p _ c] Cons.prems(1) by auto
    have tq: "at_compare r \<le> at_version q" using Cons.prems(1) q(1) by simp
    have ne: "sh_version sh \<noteq> sh_version sh1"
    proof
      assume "sh_version sh = sh_version sh1"
      then have e: "version (src t) = version (src (at_version q))" using ev(2) q(2) by (simp add: snapshot_def)
      have "version (src (at_compare r)) = version (src t)" by (rule publishedD(1) [OF p tc tq e])
      then show False using False ev(2) by (simp add: time_values_up_to_date_def)
    qed
    have l: "clock_loop src rest sh1 = Some (Inr (time, sh'))"
      using Cons.prems(3) off False c ne by (simp add: Let_def)
    have "times_ok (at_version q) rest"
      by (rule times_ok_later [of "at_compare r"]) (use Cons.prems(1) q(1) in auto)
    from Cons.IH [OF this q(2) l] show ?thesis by auto
  qed
qed simp

lemma preempt_pair:
  assumes "0 \<le> preempt_count (threads s (current_thread s me))"
  shows "\<exists>s1. preempt_disable me s = Inr s1 \<and> preempt_enable_no_resched me s1 = Inr s"
proof -
  let ?t = "current_thread s me"
  let ?s1 = "upd_thread s ?t (\<lambda>th. th\<lparr>preempt_count := preempt_count th + 1\<rparr>)"
  have "preempt_disable me s = Inr ?s1"
    using assms by (simp add: preempt_disable_def add_preempt_count_def upd_thread_def Let_def)
  moreover have "preempt_enable_no_resched me ?s1 = Inr s"
    using assms by (simp add: preempt_enable_no_resched_def add_preempt_count_def upd_thread_def Let_def)
  ultimately show ?thesis by blast
qed

lemma monotonic_clock_loop:
  assumes "0 \<le> preempt_count (threads s (current_thread s me))"
  shows "monotonic_clock src rounds me sh s
    = dbind (clock_loop src rounds sh) (\<lambda>(time, sh1). Some (Inr (time, sh1, s)))"
  using preempt_pair [OF assms] by (auto simp: monotonic_clock_def)

lemma monotonic_clock_lemma:
  assumes p: "published version src" and t: "times_ok t rounds" "snapshot src t sh"
    and c: "0 \<le> preempt_count (threads s (current_thread s me))"
    and l: "monotonic_clock src rounds me sh s = Some (Inr (time, sh', s'))"
  shows "s' = s \<and> (\<exists>r\<in>set rounds. time_at (src (at_compare r)) (tsc r) = Inr time
    \<and> snapshot src (at_compare r) sh')"
proof -
  have "clock_loop src rounds sh = Some (Inr (time, sh'))" "s' = s"
    using l unfolding monotonic_clock_loop [OF c]
    by (auto simp: dbind_def split: option.splits sum.splits)
  then show ?thesis using clock_loop_current [OF p t] by blast
qed

section \<open>The clock returns\<close>

lemma scale_delta_defined: "- 64 < shift \<Longrightarrow> shift < 64 \<Longrightarrow> \<exists>w. scale_delta d m shift = Inr w"
  by (simp add: scale_delta_def)

lemma clock_loop_returns:
  assumes "sh_version sh = version v" "- 64 < sh_tsc_shift sh" "sh_tsc_shift sh < 64"
    and "src (at_compare r) = v"
  shows "\<exists>time. clock_loop src (r # rest) sh = Some (Inr (time, sh))"
proof -
  obtain w where "get_nsec_offset (tsc r) sh = Inr w"
    using scale_delta_defined [OF assms(2,3)] by (auto simp: get_nsec_offset_def)
  then show ?thesis using assms by (simp add: time_values_up_to_date_def)
qed

lemma monotonic_clock_returns_lemma:
  assumes quiet: "\<forall>t. src t = v" "even (uint (version v))" "- 64 < tsc_shift v" "tsc_shift v < 64"
    and sh: "- 64 < sh_tsc_shift sh" "sh_tsc_shift sh < 64"
    and c: "0 \<le> preempt_count (threads s (current_thread s me))" and q: "copy r1 \<noteq> []"
  shows "\<exists>time sh'. monotonic_clock src (r1 # r2 # rest) me sh s = Some (Inr (time, sh', s))"
proof -
  have "\<exists>time sh'. clock_loop src (r1 # r2 # rest) sh = Some (Inr (time, sh'))"
  proof (cases "sh_version sh = version v")
    case True
    then show ?thesis using clock_loop_returns [OF True sh] quiet(1) by blast
  next
    case False
    obtain w where w: "get_nsec_offset (tsc r1) sh = Inr w"
      using scale_delta_defined [OF sh] by (auto simp: get_nsec_offset_def)
    obtain q0 qs where q0: "copy r1 = q0 # qs" using q by (cases "copy r1") auto
    have vt: "version v AND 1 OR (version v XOR version v) = 0"
      using quiet(2) version_test [of "version v" "version v" "version v"] by simp
    obtain sh1 where sh1: "get_time_values_from_xen src (copy r1) sh = Some sh1"
      "sh_version sh1 = version v" "sh_tsc_shift sh1 = tsc_shift v"
      using vt by (simp add: get_time_values_from_xen_def q0 quiet(1) Let_def)
    have n: "\<not> time_values_up_to_date (src (at_compare r1)) sh"
      using False quiet(1) by (simp add: time_values_up_to_date_def)
    have "clock_loop src (r1 # r2 # rest) sh = clock_loop src (r2 # rest) sh1"
      using w sh1 n False by (subst clock_loop.simps) (simp add: Let_def del: clock_loop.simps)
    moreover have "\<exists>time. clock_loop src (r2 # rest) sh1 = Some (Inr (time, sh1))"
      using clock_loop_returns [OF sh1(2), of src r2 rest] sh1(3) quiet by simp
    ultimately show ?thesis by (auto simp del: clock_loop.simps)
  qed
  then show ?thesis unfolding monotonic_clock_loop [OF c] by (auto simp del: clock_loop.simps)
qed

section \<open>The scaled counter and the wall clock as numbers\<close>

definition exact_scale :: "int \<Rightarrow> int \<Rightarrow> int \<Rightarrow> int" where
  "exact_scale d m shift =
     (if shift < 0 then d div 2 ^ nat (- shift) else d * 2 ^ nat shift) * m div 2 ^ 32"

lemma scale_delta_lemma:
  assumes s: "- 64 < shift" "shift < 64" and l: "shift < 0 \<or> uint d * 2 ^ nat shift < 2 ^ 64"
    and r: "exact_scale (uint d) (uint m) shift < 2 ^ 64"
  shows "\<exists>w. scale_delta d m shift = Inr w \<and> uint w = exact_scale (uint d) (uint m) shift"
proof -
  define e where "e = (if shift < 0 then drop_bit (nat (- shift)) d else push_bit (nat shift) d)"
  have e: "uint e = (if shift < 0 then uint d div 2 ^ nat (- shift) else uint d * 2 ^ nat shift)"
  proof (cases "shift < 0")
    case True
    then show ?thesis by (simp add: e_def uint_drop_bit)
  next
    case False
    then have "uint (push_bit (nat shift) d) = uint d * 2 ^ nat shift mod 2 ^ 64"
      by (simp add: unsigned_push_bit_eq take_bit_eq_mod push_bit_eq_mult [where 'a = int])
    then show ?thesis using False l by (simp add: e_def)
  qed
  have x: "uint e * uint m div 2 ^ 32 = exact_scale (uint d) (uint m) shift"
    by (simp add: exact_scale_def e)
  have "0 \<le> uint e * uint m div 2 ^ 32" by (simp add: pos_imp_zdiv_nonneg_iff)
  then have "uint (word_of_int (uint e * uint m div 2 ^ 32) :: u64) = uint e * uint m div 2 ^ 32"
    using r unfolding x by (simp add: uint_word_of_int)
  moreover have "scale_delta d m shift = Inr (word_of_int (uint e * uint m div 2 ^ 32))"
    using s by (simp add: scale_delta_def e_def Let_def)
  ultimately show ?thesis unfolding x by blast
qed

lemma exact_scale_mono:
  assumes "0 \<le> d" "d \<le> d'" "0 \<le> m"
  shows "exact_scale d m shift \<le> exact_scale d' m shift"
proof -
  have "(if shift < 0 then d div 2 ^ nat (- shift) else d * 2 ^ nat shift)
      \<le> (if shift < 0 then d' div 2 ^ nat (- shift) else d' * 2 ^ nat shift)"
    using assms by (simp add: zdiv_mono1)
  then show ?thesis unfolding exact_scale_def
    by (intro zdiv_mono1 mult_right_mono) (use assms in auto)
qed

text \<open>No bits are lost when the counter shows \<open>now\<close>.\<close>

definition in_range :: "vcpu_time_info \<Rightarrow> u64 \<Rightarrow> bool" where
  "in_range v now =
     (tsc_timestamp v \<le> now \<and> - 64 < tsc_shift v \<and> tsc_shift v < 64
      \<and> (tsc_shift v < 0 \<or> uint (now - tsc_timestamp v) * 2 ^ nat (tsc_shift v) < 2 ^ 64)
      \<and> uint (system_time v)
          + exact_scale (uint (now - tsc_timestamp v)) (uint (tsc_to_system_mul v)) (tsc_shift v) < 2 ^ 64)"

lemma time_at_exact:
  assumes "in_range v now"
  shows "\<exists>w. time_at v now = Inr w \<and> uint w = uint (system_time v)
    + exact_scale (uint now - uint (tsc_timestamp v)) (uint (tsc_to_system_mul v)) (tsc_shift v)"
proof -
  let ?d = "now - tsc_timestamp v"
  let ?x = "exact_scale (uint ?d) (uint (tsc_to_system_mul v)) (tsc_shift v)"
  have x: "uint (system_time v) + ?x < 2 ^ 64" using assms by (simp add: in_range_def)
  then have "?x < 2 ^ 64" using uint_ge_0 [of "system_time v"] by linarith
  then obtain w where w: "scale_delta ?d (tsc_to_system_mul v) (tsc_shift v) = Inr w" "uint w = ?x"
    using scale_delta_lemma [of "tsc_shift v" ?d "tsc_to_system_mul v"] assms by (auto simp: in_range_def)
  have "uint (system_time v + w) = uint (system_time v) + ?x"
    using x w(2) uint_ge_0 [of "system_time v"] uint_ge_0 [of w] by (simp add: uint_word_ariths)
  moreover have "uint ?d = uint now - uint (tsc_timestamp v)"
    using assms by (simp add: in_range_def uint_minus_simple_alt)
  ultimately show ?thesis using w(1) by (simp add: time_at_def)
qed

lemma time_at_monotone_lemma:
  assumes "in_range v now" "in_range v now'" "now \<le> now'"
  shows "\<exists>w w'. time_at v now = Inr w \<and> time_at v now' = Inr w' \<and> w \<le> w'
    \<and> uint w = uint (system_time v)
        + exact_scale (uint now - uint (tsc_timestamp v)) (uint (tsc_to_system_mul v)) (tsc_shift v)"
proof -
  have t: "0 \<le> uint now - uint (tsc_timestamp v)" using assms(1) by (simp add: in_range_def word_le_def)
  have n: "uint now - uint (tsc_timestamp v) \<le> uint now' - uint (tsc_timestamp v)"
    using assms(3) by (simp add: word_le_def)
  have "exact_scale (uint now - uint (tsc_timestamp v)) (uint (tsc_to_system_mul v)) (tsc_shift v)
      \<le> exact_scale (uint now' - uint (tsc_timestamp v)) (uint (tsc_to_system_mul v)) (tsc_shift v)"
    by (rule exact_scale_mono [OF t n]) simp
  then show ?thesis using time_at_exact [OF assms(1)] time_at_exact [OF assms(2)]
    by (fastforce simp: word_le_def)
qed

lemma split_nanoseconds:
  fixes x :: int
  shows "x mod 1000000000 div 1000 < 1000000"
    and "x div 1000000000 * 1000000000 + x mod 1000000000 div 1000 * 1000 \<le> x"
    and "x < x div 1000000000 * 1000000000 + x mod 1000000000 div 1000 * 1000 + 1000"
proof -
  define r where "r = x mod 1000000000"
  have "x = x div 1000000000 * 1000000000 + r" by (simp add: r_def)
  moreover have "r = r div 1000 * 1000 + r mod 1000" by simp
  moreover have "0 \<le> r mod 1000" "r mod 1000 < 1000" by simp_all
  moreover have "r < 1000000000" by (simp add: r_def)
  ultimately show "x mod 1000000000 div 1000 < 1000000"
    "x div 1000000000 * 1000000000 + x mod 1000000000 div 1000 * 1000 \<le> x"
    "x < x div 1000000000 * 1000000000 + x mod 1000000000 div 1000 * 1000 + 1000"
    unfolding r_def [symmetric] by linarith+
qed

lemma wall_time_lemma:
  assumes v: "shadow_ts_version w \<noteq> 0" and n: "uint clk + uint (shadow_tv_nsec w) < 2 ^ 64"
    and s: "uint (shadow_tv_sec w) + 2 ^ 35 < 2 ^ 64"
  shows "\<exists>sec usec. wall_time clk w = Inr (sec, usec) \<and> uint usec < 1000000
    \<and> (let total_ns = uint (shadow_tv_sec w) * 1000000000 + uint (shadow_tv_nsec w) + uint clk;
           tv_ns = uint sec * 1000000000 + uint usec * 1000
       in tv_ns \<le> total_ns \<and> total_ns < tv_ns + 1000)"
proof -
  define nsec where "nsec = clk + shadow_tv_nsec w"
  have u: "uint nsec = uint clk + uint (shadow_tv_nsec w)"
    unfolding nsec_def using n by (simp add: uint_word_ariths)
  have b: "0 \<le> uint nsec" "uint nsec < 18446744073709551616" using u n by simp_all
  have q: "uint (nsec div 1000000000) = uint nsec div 1000000000" by (simp add: uint_div)
  have m: "uint ((nsec mod 1000000000) div 1000) = uint nsec mod 1000000000 div 1000"
    by (simp add: uint_div uint_mod)
  have "0 \<le> uint nsec div 1000000000 \<and> uint nsec div 1000000000 < 2 ^ 35"
    using b by (simp add: pos_imp_zdiv_nonneg_iff)
  then have t: "uint (shadow_tv_sec w + nsec div 1000000000)
      = uint (shadow_tv_sec w) + uint nsec div 1000000000"
    using s q uint_ge_0 [of "shadow_tv_sec w"] by (simp add: uint_word_ariths mod_pos_pos_trivial)
  have "wall_time clk w = Inr (shadow_tv_sec w + nsec div 1000000000, (nsec mod 1000000000) div 1000)"
    using v by (simp add: wall_time_def nsec_def Let_def)
  moreover have "let total_ns = uint (shadow_tv_sec w) * 1000000000 + uint (shadow_tv_nsec w) + uint clk;
       tv_ns = (uint (shadow_tv_sec w) + uint nsec div 1000000000) * 1000000000
         + uint nsec mod 1000000000 div 1000 * 1000
     in tv_ns \<le> total_ns \<and> total_ns < tv_ns + 1000"
    using split_nanoseconds(2,3) [of "uint nsec"] unfolding Let_def u by (simp add: algebra_simps)
  ultimately show ?thesis using t m split_nanoseconds(1) [of "uint nsec"] by (intro exI [of _ "shadow_tv_sec w + nsec div 1000000000"]
        exI [of _ "(nsec mod 1000000000) div 1000"] conjI) simp_all
qed

lemma monotonic_clock_frame:
  assumes "0 \<le> preempt_count (threads s (current_thread s me))"
    and "monotonic_clock src rounds me sh s = Some (Inr (time, sh', s'))"
  shows "s' = s"
  using assms(2) unfolding monotonic_clock_loop [OF assms(1)]
  by (auto simp: dbind_def split: option.splits sum.splits)

text \<open>What the timer event does for the thread that runs: its time is up and it is marked, or the
  timer is set for what is left of it, but at least a millisecond ahead.\<close>

lemma check_need_resched_slice:
  assumes t: "current_not_idle me s = t" "t \<noteq> 0" "resched_running_time (threads s t) = limit" "limit \<noteq> 0"
    and v: "smp_init_completed s" "vcpu_op me = (0, run)" "\<forall>d. set_timer_op d = 0"
    and c: "monotonic_clock src rounds me sh s = Some (Inr (time, sh1, s))"
  shows "check_need_resched set_timer_op vcpu_op src rounds me sh s =
    Some (Inr (if limit \<le> run then (None, sh, set_flag RESCHED_FLAG t s)
               else (Some (time + (if limit - run < 1000000 then 1000000 else limit - run)), sh1, s)))"
  using assms by (auto simp: check_need_resched_def get_cpu_running_time_def set_timer_interrupt_def Let_def)

section \<open>Claims\<close>

definition demo_time :: vcpu_time_info where
  "demo_time = \<lparr>version = 2, tsc_timestamp = 1000, system_time = 5000000, tsc_to_system_mul = 0x80000000,
     tsc_shift = 0\<rparr>"

definition demo_shadow :: shadow_time_info where
  "demo_shadow = \<lparr>sh_tsc_timestamp = 1000, sh_system_timestamp = 5000000, sh_tsc_to_nsec_mul = 0x80000000,
     sh_tsc_to_usec_mul = 0, sh_tsc_shift = 0, sh_version = 2\<rparr>"

definition demo_round :: "u64 \<Rightarrow> clock_round" where
  "demo_round c = \<lparr>tsc = c, at_compare = 3, copy = [\<lparr>at_version = 4, at_tsc = 5, at_system = 6,
     at_mul = 7, at_shift = 8, at_parity = 9, at_check = 10\<rparr>]\<rparr>"

definition demo_wall :: wall_clock where
  "demo_wall = \<lparr>shadow_ts_version = 2, shadow_tv_sec = 1000, shadow_tv_nsec = 999000000, time_addend = 0\<rparr>"

lemma demo_published: "published version (\<lambda>_. demo_time)"
  by (simp add: published_def)

lemma demo_snapshot: "snapshot (\<lambda>_. demo_time) 0 demo_shadow"
  by (simp add: snapshot_def demo_time_def demo_shadow_def)

lemma demo_times: "times_ok 0 [demo_round c]"
  by (simp add: demo_round_def in_order_def)

lemma demo_count: "0 \<le> preempt_count (threads demo_sched (current_thread demo_sched 0))"
  by (simp add: demo_sched_def blank_thread_def)

lemma demo_clock:
  "monotonic_clock (\<lambda>_. demo_time) [demo_round 3000] 0 demo_shadow demo_sched
   = Some (Inr (5001000, demo_shadow, demo_sched))"
  unfolding monotonic_clock_loop [OF demo_count]
  by (simp add: demo_round_def get_nsec_offset_def scale_delta_def demo_shadow_def demo_time_def Let_def
      time_values_up_to_date_def)

text \<open>
  C15: Under the rule by which Xen publishes the time record, the time that \<^verbatim>\<open>monotonic_clock\<close>
  returns is that of the formula in \<^verbatim>\<open>public/xen.h\<close> at the counter value it read, with the
  parameters that were in force at the moment of its comparison in the same round: never a mixture
  of two records and never parameters that had been replaced by then.  The shadow copy it leaves is
  again consistent, and the scheduler's state is unchanged.
\<close>
theorem clock_uses_current_parameters:
  assumes p: "published version src" and t: "times_ok t rounds" "snapshot src t sh"
    and c: "0 \<le> preempt_count (threads s (current_thread s me))"
    and l: "monotonic_clock src rounds me sh s = Some (Inr (time, sh', s'))"
  shows "s' = s \<and> (\<exists>r\<in>set rounds. time_at (src (at_compare r)) (tsc r) = Inr time
    \<and> snapshot src (at_compare r) sh')"
  using monotonic_clock_lemma [OF assms] .

theorem clock_uses_current_parameters_witness: "time_at demo_time 3000 = Inr 5001000"
  using clock_uses_current_parameters [OF demo_published demo_times demo_snapshot demo_count demo_clock]
  by (simp add: demo_round_def)

text \<open>
  \<^verbatim>\<open>monotonic_clock\<close> returns: once Xen leaves the record alone, two rounds are enough,
  whatever the shadow copy holds.
\<close>
theorem clock_returns:
  assumes quiet: "\<forall>t. src t = v" "even (uint (version v))" "- 64 < tsc_shift v" "tsc_shift v < 64"
    and sh: "- 64 < sh_tsc_shift sh" "sh_tsc_shift sh < 64"
    and c: "0 \<le> preempt_count (threads s (current_thread s me))" and q: "copy r1 \<noteq> []"
  shows "\<exists>time sh'. monotonic_clock src (r1 # r2 # rest) me sh s = Some (Inr (time, sh', s))"
  using monotonic_clock_returns_lemma [OF assms] .

theorem clock_returns_witness:
  "\<exists>time sh'. monotonic_clock (\<lambda>_. demo_time) [demo_round 3000, demo_round 4000] 0
     (demo_shadow\<lparr>sh_version := 0\<rparr>) demo_sched = Some (Inr (time, sh', demo_sched))"
  by (rule clock_returns [where v = demo_time, OF _ _ _ _ _ _ demo_count])
    (simp_all add: demo_time_def demo_shadow_def demo_round_def)



text \<open>
  C17: \<^verbatim>\<open>gettimeofday\<close> adds the monotonic time to the wall clock's base: the pair it returns is
  normalised, with less than a million microseconds, and names the sum to the microsecond, rounded
  down.
\<close>
theorem gettimeofday_normalised:
  assumes m: "monotonic_clock src rounds me sh s = Some (Inr (clk, sh1, s1))"
    and v: "shadow_ts_version w \<noteq> 0" and n: "uint clk + uint (shadow_tv_nsec w) < 2 ^ 64"
    and s: "uint (shadow_tv_sec w) + 2 ^ 35 < 2 ^ 64"
  shows "\<exists>sec usec. gettimeofday src rounds me sh w s = Some (Inr ((sec, usec), sh1, s1)) \<and> uint usec < 1000000
    \<and> (let total_ns = uint (shadow_tv_sec w) * 1000000000 + uint (shadow_tv_nsec w) + uint clk;
           tv_ns = uint sec * 1000000000 + uint usec * 1000
       in tv_ns \<le> total_ns \<and> total_ns < tv_ns + 1000)"
  using wall_time_lemma [OF v n s] m by (auto simp: gettimeofday_def)

theorem gettimeofday_normalised_witness:
  "\<exists>sec usec. gettimeofday (\<lambda>_. demo_time) [demo_round 3000] 0 demo_shadow demo_wall demo_sched
     = Some (Inr ((sec, usec), demo_shadow, demo_sched)) \<and> uint usec < 1000000"
  using gettimeofday_normalised [OF demo_clock, of demo_wall] by (auto simp: demo_wall_def)

end
