(* ===== verification/Paging.thy ===== *)
theory Paging
  imports Prelude
begin

text \<open>
  The page tables, \<^verbatim>\<open>arch/mm.c\<close>, on the macros of \<^verbatim>\<open>include/os/mm.h\<close>.  Machine memory is a function
  from frame numbers and indexes to the 64-bit entries of the frame.  The guest reaches a table
  through the virtual address of its pseudo-physical page, so the pointer \<^verbatim>\<open>tab\<close> is given by that
  page's number.  The hypercalls either fail, which their caller answers with \<^verbatim>\<open>crash()\<close>, or do what
  \<^verbatim>\<open>public/xen.h\<close> says: \<^verbatim>\<open>mmu_update\<close> stores each value at its machine address.
\<close>

section \<open>Machine memory\<close>

record machine =
  p2m :: "u64 \<Rightarrow> u64"
  m2p :: "u64 \<Rightarrow> u64"
  pt_base :: u64
  virt_start :: u64
  mmu_update_fails :: "(u64 \<times> u64) list \<Rightarrow> bool"
  mmuext_op_fails :: "nat \<times> u64 \<Rightarrow> bool"

record paging =
  frames :: "u64 \<Rightarrow> u64 \<Rightarrow> u64"
  pinned :: "(nat \<times> u64) list"

definition L1_FRAME :: nat where "L1_FRAME = 1"
definition L2_FRAME :: nat where "L2_FRAME = 2"
definition L3_FRAME :: nat where "L3_FRAME = 3"

definition PAGE_PRESENT :: u64 where "PAGE_PRESENT = 0x001"
definition PAGE_RW :: u64 where "PAGE_RW = 0x002"
definition PAGE_PSE :: u64 where "PAGE_PSE = 0x080"
definition L1_PROT :: u64 where "L1_PROT = 0x027"
definition L2_PROT :: u64 where "L2_PROT = 0x067"
definition L3_PROT :: u64 where "L3_PROT = 0x067"
definition L4_PROT :: u64 where "L4_PROT = 0x067"
definition PAGE_MASK :: u64 where "PAGE_MASK = NOT 0xfff"
definition PADDR_MASK :: u64 where "PADDR_MASK = mask 52"

definition l1_table_offset :: "u64 \<Rightarrow> u64" where "l1_table_offset a = drop_bit 12 a AND 511"
definition l2_table_offset :: "u64 \<Rightarrow> u64" where "l2_table_offset a = drop_bit 21 a AND 511"
definition l3_table_offset :: "u64 \<Rightarrow> u64" where "l3_table_offset a = drop_bit 30 a AND 511"
definition l4_table_offset :: "u64 \<Rightarrow> u64" where "l4_table_offset a = drop_bit 39 a AND 511"

definition PAGE_ALIGN :: "u64 \<Rightarrow> u64" where "PAGE_ALIGN a = (a + 4095) AND PAGE_MASK"

definition virt_to_pfn :: "machine \<Rightarrow> u64 \<Rightarrow> u64" where
  "virt_to_pfn e v = drop_bit 12 (v - virt_start e)"

definition pfn_to_virt :: "machine \<Rightarrow> u64 \<Rightarrow> u64" where
  "pfn_to_virt e p = push_bit 12 p + virt_start e"

definition pte_to_mfn :: "u64 \<Rightarrow> u64" where
  "pte_to_mfn pte = drop_bit 12 (pte AND (PADDR_MASK AND PAGE_MASK))"

definition entry :: "machine \<Rightarrow> paging \<Rightarrow> u64 \<Rightarrow> u64 \<Rightarrow> u64" where
  "entry e st tab offset = frames st (p2m e tab) offset"

text \<open>The table that an entry points to: \<^verbatim>\<open>pte_to_virt\<close>.\<close>

definition table_of :: "machine \<Rightarrow> u64 \<Rightarrow> u64" where
  "table_of e pte = m2p e (pte_to_mfn pte)"

section \<open>Hypercalls\<close>

definition store_entry :: "u64 \<times> u64 \<Rightarrow> paging \<Rightarrow> paging" where
  "store_entry = (\<lambda>(ptr, v) st. st\<lparr>frames := (frames st)(drop_bit 12 ptr :=
     (frames st (drop_bit 12 ptr))(drop_bit 3 (ptr AND 0xfff) := v))\<rparr>)"

definition mmu_update :: "machine \<Rightarrow> (u64 \<times> u64) list \<Rightarrow> paging \<Rightarrow> paging res" where
  "mmu_update e us st = (if mmu_update_fails e us then Inl Crash else Inr (fold store_entry us st))"

definition mmuext_op :: "machine \<Rightarrow> nat \<times> u64 \<Rightarrow> paging \<Rightarrow> paging res" where
  "mmuext_op e r st = (if mmuext_op_fails e r then Inl Crash else Inr (st\<lparr>pinned := pinned st @ [r]\<rparr>))"

section \<open>Building\<close>

text \<open>The operation that pins a table carries the level it pins.\<close>

definition new_pt_frame :: "machine \<Rightarrow> u64 \<Rightarrow> u64 \<Rightarrow> u64 \<Rightarrow> nat \<Rightarrow> paging \<Rightarrow> paging res" where
  "new_pt_frame e pt_mfn prev_l_mfn offset level st =
     (let pt_pfn = m2p e pt_mfn;
          pt_page = pfn_to_virt e pt_pfn;
          st1 = st\<lparr>frames := (frames st)(p2m e pt_pfn := (\<lambda>_. 0))\<rparr>
      in if \<not> (level = L1_FRAME \<or> level = L2_FRAME \<or> level = L3_FRAME) then Inl Crash
         else
           let prot_e = (if level = L1_FRAME then L1_PROT else if level = L2_FRAME then L2_PROT else L3_PROT);
               prot_t = (if level = L1_FRAME then L2_PROT else if level = L2_FRAME then L3_PROT else L4_PROT);
               tab = virt_to_pfn e (pt_base e);
               tab3 = table_of e (entry e st1 tab (l4_table_offset pt_page));
               tab2 = table_of e (entry e st1 tab3 (l3_table_offset pt_page));
               ptr = (entry e st1 tab2 (l2_table_offset pt_page) AND PAGE_MASK) + 8 * l1_table_offset pt_page
           in rbind (mmu_update e [(ptr, push_bit 12 (p2m e pt_pfn) OR (prot_e AND NOT PAGE_RW))] st1) (\<lambda>st2.
              rbind (mmuext_op e (level, p2m e pt_pfn) st2) (\<lambda>st3.
              mmu_update e [(push_bit 12 prev_l_mfn + 8 * offset, push_bit 12 (p2m e pt_pfn) OR prot_t)] st3)))"

text \<open>One level of the walk in \<^verbatim>\<open>build_pagetable_vs\<close>: \<open>tab\<close> and \<open>mfn\<close> name the same table.  The
  value is the machine frame of the next table, or \<open>None\<close> when no frame could be allocated for it.
  An allocator is a function of its environment and the address.\<close>

definition descend ::
  "machine \<Rightarrow> ('n \<Rightarrow> u64 \<Rightarrow> int \<times> 'n) \<Rightarrow> u64 \<Rightarrow> u64 \<Rightarrow> u64 \<Rightarrow> u64 \<Rightarrow> nat \<Rightarrow> paging \<Rightarrow> 'n
   \<Rightarrow> (u64 \<times> paging \<times> 'n) option res" where
  "descend e npf_alloc address tab mfn offset level st npf =
     (if entry e st tab offset AND PAGE_PRESENT = 0 then
        case npf_alloc npf address of (npf_pfn, npf1) \<Rightarrow>
          if npf_pfn < 0 then Inr None
          else rbind (new_pt_frame e (word_of_int npf_pfn) mfn offset level st) (\<lambda>st1.
                 Inr (Some (pte_to_mfn (entry e st1 tab offset), st1, npf1)))
      else Inr (Some (pte_to_mfn (entry e st tab offset), st, npf)))"

text \<open>The levels above the one whose entries are written: the frame and the index of the entry for
  the address.\<close>

definition find_slot ::
  "machine \<Rightarrow> ('n \<Rightarrow> u64 \<Rightarrow> int \<times> 'n) \<Rightarrow> u64 \<Rightarrow> bool \<Rightarrow> paging \<Rightarrow> 'n
   \<Rightarrow> (u64 \<times> u64 \<times> paging \<times> 'n) option res" where
  "find_slot e npf_alloc address small st npf =
     (let tab = virt_to_pfn e (pt_base e); mfn = p2m e tab in
      rbind (descend e npf_alloc address tab mfn (l4_table_offset address) L3_FRAME st npf) (\<lambda>r3.
      case r3 of None \<Rightarrow> Inr None | Some (mfn3, st3, npf3) \<Rightarrow>
      rbind (descend e npf_alloc address (m2p e mfn3) mfn3 (l3_table_offset address) L2_FRAME st3 npf3) (\<lambda>r2.
      case r2 of None \<Rightarrow> Inr None | Some (mfn2, st2, npf2) \<Rightarrow>
      if \<not> small then Inr (Some (mfn2, l2_table_offset address, st2, npf2))
      else
      rbind (descend e npf_alloc address (m2p e mfn2) mfn2 (l2_table_offset address) L1_FRAME st2 npf2) (\<lambda>r1.
      case r1 of None \<Rightarrow> Inr None | Some (mfn1, st1, npf1) \<Rightarrow>
      Inr (Some (mfn1, l1_table_offset address, st1, npf1))))))"

text \<open>The loop, with the updates that wait for the next hypercall.  It ends with 1, or with 0 when an
  allocation fails; \<open>None\<close> would be a loop that never ends.\<close>

partial_function (option) build_loop ::
  "machine \<Rightarrow> ('n \<Rightarrow> u64 \<Rightarrow> int \<times> 'n) \<Rightarrow> ('p \<Rightarrow> u64 \<Rightarrow> int \<times> 'p) \<Rightarrow> u64 \<Rightarrow> u64 \<Rightarrow> u64
   \<Rightarrow> (u64 \<times> u64) list \<Rightarrow> paging \<Rightarrow> 'n \<Rightarrow> 'p \<Rightarrow> (int \<times> paging \<times> 'n \<times> 'p) res option" where
  "build_loop e npf_alloc pfn_alloc address stop page_size us st npf pfn =
     (if address < stop then
        (case find_slot e npf_alloc address (page_size = 4096) st npf of
           Inl f \<Rightarrow> Some (Inl f)
         | Inr None \<Rightarrow> Some (Inr (0, st, npf, pfn))
         | Inr (Some (mfn, offset, st1, npf1)) \<Rightarrow>
             (case pfn_alloc pfn address of (mfn_for_pfn, pfn1) \<Rightarrow>
                if mfn_for_pfn < 0 then Some (Inr (0, st1, npf1, pfn1))
                else
                  let us1 = (if mfn_for_pfn > 0
                             then us @ [(push_bit 12 mfn + 8 * offset,
                               if page_size = 4096 then push_bit 12 (word_of_int mfn_for_pfn) OR L1_PROT
                               else push_bit 21 (word_of_int mfn_for_pfn) OR L1_PROT OR PAGE_PSE)]
                             else us);
                      address1 = address + page_size
                  in if length us1 = 512 \<or> address1 = stop
                     then (case mmu_update e us1 st1 of
                             Inl f \<Rightarrow> Some (Inl f)
                           | Inr st2 \<Rightarrow> build_loop e npf_alloc pfn_alloc address1 stop page_size [] st2 npf1 pfn1)
                     else build_loop e npf_alloc pfn_alloc address1 stop page_size us1 st1 npf1 pfn1))
      else Some (Inr (1, st, npf, pfn)))"

definition build_pagetable_vs ::
  "machine \<Rightarrow> ('n \<Rightarrow> u64 \<Rightarrow> int \<times> 'n) \<Rightarrow> ('p \<Rightarrow> u64 \<Rightarrow> int \<times> 'p) \<Rightarrow> u64 \<Rightarrow> u64 \<Rightarrow> u64
   \<Rightarrow> paging \<Rightarrow> 'n \<Rightarrow> 'p \<Rightarrow> (int \<times> paging \<times> 'n \<times> 'p) res option" where
  "build_pagetable_vs e npf_alloc pfn_alloc start_address end_address page_size st npf pfn =
     build_loop e npf_alloc pfn_alloc start_address end_address page_size [] st npf pfn"

definition build_pagetable ::
  "machine \<Rightarrow> ('n \<Rightarrow> u64 \<Rightarrow> int \<times> 'n) \<Rightarrow> ('p \<Rightarrow> u64 \<Rightarrow> int \<times> 'p) \<Rightarrow> u64 \<Rightarrow> u64
   \<Rightarrow> paging \<Rightarrow> 'n \<Rightarrow> 'p \<Rightarrow> (int \<times> paging \<times> 'n \<times> 'p) res option" where
  "build_pagetable e npf_alloc pfn_alloc start_address end_address st npf pfn =
     build_pagetable_vs e npf_alloc pfn_alloc start_address end_address 4096 st npf pfn"

text \<open>The allocator that hands out the frames in order.\<close>

definition pfn_linear_alloc :: "machine \<Rightarrow> u64 \<Rightarrow> u64 \<Rightarrow> int \<times> u64" where
  "pfn_linear_alloc e pfn address = (sint (p2m e pfn), pfn + 1)"

text \<open>The allocator that takes a page from the page allocator, given as a function of its state to
  the virtual address of a page, 0 for none.\<close>

definition pfn_alloc_alloc ::
  "machine \<Rightarrow> ('m \<Rightarrow> u64 \<times> 'm) \<Rightarrow> 'm \<Rightarrow> u64 \<Rightarrow> int \<times> 'm" where
  "pfn_alloc_alloc e allocate_page m address =
     (case allocate_page m of (va, m1) \<Rightarrow>
        if va = 0 then (- 1, m1) else (sint (p2m e (virt_to_pfn e va)), m1))"

section \<open>Walking\<close>

text \<open>\<^verbatim>\<open>not11_virt_to_pfn\<close>: the frame number, and the entry of the lowest level, or \<open>None\<close> for
  \<open>- 1\<close>, where the entry is not written.  Of the lowest level the present bit is not tested.\<close>

definition walk_step :: "machine \<Rightarrow> paging \<Rightarrow> u64 \<Rightarrow> u64 \<Rightarrow> u64 option" where
  "walk_step e st tab offset =
     (let pte = entry e st tab offset in if pte AND PAGE_PRESENT = 0 then None else Some (table_of e pte))"

definition not11_virt_to_pfn :: "machine \<Rightarrow> paging \<Rightarrow> u64 \<Rightarrow> (u64 \<times> u64) option" where
  "not11_virt_to_pfn e st addr =
     (case walk_step e st (virt_to_pfn e (pt_base e)) (l4_table_offset addr) of None \<Rightarrow> None | Some t3 \<Rightarrow>
      case walk_step e st t3 (l3_table_offset addr) of None \<Rightarrow> None | Some t2 \<Rightarrow>
      case walk_step e st t2 (l2_table_offset addr) of None \<Rightarrow> None | Some t1 \<Rightarrow>
      let pte = entry e st t1 (l1_table_offset addr) in Some (table_of e pte, pte))"

definition validate :: "machine \<Rightarrow> paging \<Rightarrow> u64 \<Rightarrow> bool" where
  "validate e st addr =
     (case not11_virt_to_pfn e st addr of
        None \<Rightarrow> False | Some (pfn, pte) \<Rightarrow> 0 < sint pfn \<and> pte AND PAGE_PRESENT \<noteq> 0)"

section \<open>Changing single mappings\<close>

text \<open>\<^verbatim>\<open>update_va_mapping\<close> is given by the address and the entry; its result is the caller's.\<close>

definition unmap_page_pfn :: "machine \<Rightarrow> (u64 \<times> u64 \<Rightarrow> 'r) \<Rightarrow> u64 \<Rightarrow> u64 \<Rightarrow> 'r" where
  "unmap_page_pfn e update_va_mapping addr pfn =
     update_va_mapping (PAGE_ALIGN addr, push_bit 12 (p2m e pfn))"

definition unmap_page :: "machine \<Rightarrow> (u64 \<times> u64 \<Rightarrow> 'r) \<Rightarrow> u64 \<Rightarrow> 'r" where
  "unmap_page e update_va_mapping addr = unmap_page_pfn e update_va_mapping addr (virt_to_pfn e addr)"

definition clear_pte :: "(u64 \<times> u64 \<Rightarrow> 'r) \<Rightarrow> u64 \<Rightarrow> 'r" where
  "clear_pte update_va_mapping addr = update_va_mapping (PAGE_ALIGN addr, 0)"

definition remap_page_pfn :: "machine \<Rightarrow> (u64 \<times> u64 \<Rightarrow> 'r) \<Rightarrow> u64 \<Rightarrow> u64 \<Rightarrow> 'r" where
  "remap_page_pfn e update_va_mapping addr pfn =
     update_va_mapping (PAGE_ALIGN addr, push_bit 12 (p2m e pfn) OR L1_PROT)"

definition remap_page :: "machine \<Rightarrow> (u64 \<times> u64 \<Rightarrow> 'r) \<Rightarrow> u64 \<Rightarrow> 'r" where
  "remap_page e update_va_mapping addr = remap_page_pfn e update_va_mapping addr (virt_to_pfn e addr)"

section \<open>Demolishing\<close>

text \<open>
  The multicall array holds the address that each entry unmaps; an entry that was never written is
  \<open>None\<close>.  The result is the addresses unmapped, in order: a multicall of \<open>i\<close> entries runs the
  first \<open>i\<close>, of which each must have been written.
\<close>

definition multicall :: "(nat \<Rightarrow> bool) \<Rightarrow> (nat \<Rightarrow> u64 option) \<Rightarrow> nat \<Rightarrow> u64 list res" where
  "multicall fails calls i =
     (if \<exists>j\<in>set [0..<i]. calls j = None then Inl Undef
      else if fails i then Inl Crash
      else Inr (map (\<lambda>j. the (calls j)) [0..<i]))"

partial_function (option) demolish_loop ::
  "(nat \<Rightarrow> bool) \<Rightarrow> u64 \<Rightarrow> u64 \<Rightarrow> u64 \<Rightarrow> (nat \<Rightarrow> u64 option) \<Rightarrow> nat \<Rightarrow> u64 list \<Rightarrow> u64 list res option" where
  "demolish_loop fails address stop page_size calls i unmapped =
     (if address < stop then
        (if 1024 \<le> i then Some (Inl Undef)
         else
           let calls1 = calls(i := Some address); address1 = address + page_size
           in if i = 1023 \<or> address1 = stop
              then (case multicall fails calls1 i of
                      Inl f \<Rightarrow> Some (Inl f)
                    | Inr us \<Rightarrow> demolish_loop fails address1 stop page_size calls1 (0 + 1) (unmapped @ us))
              else demolish_loop fails address1 stop page_size calls1 (i + 1) unmapped)
      else Some (Inr unmapped))"

definition demolish_pagetable_vs :: "(nat \<Rightarrow> bool) \<Rightarrow> u64 \<Rightarrow> u64 \<Rightarrow> u64 \<Rightarrow> u64 list res option" where
  "demolish_pagetable_vs fails start_address end_address page_size =
     demolish_loop fails start_address end_address page_size (\<lambda>_. None) 0 []"

definition demolish_pagetable :: "(nat \<Rightarrow> bool) \<Rightarrow> u64 \<Rightarrow> u64 \<Rightarrow> u64 list res option" where
  "demolish_pagetable fails start_address end_address =
     demolish_pagetable_vs fails start_address end_address 4096"

section \<open>Start-up\<close>

text \<open>\<^verbatim>\<open>arch_init_mm\<close> without its printing: the first free frame and the number of frames, after the
  linear mapping of the memory that the boot tables do not map.  The result of
  \<^verbatim>\<open>build_pagetable\<close> is not looked at.\<close>

definition arch_init_mm :: "machine \<Rightarrow> u64 \<Rightarrow> u64 \<Rightarrow> paging \<Rightarrow> (u64 \<times> u64 \<times> paging) res option" where
  "arch_init_mm e nr_pt_frames nr_pages st =
     (let free_pfn = drop_bit 12 (pt_base e - virt_start e + 4096 - 1) + nr_pt_frames + 3;
          max_pfn = nr_pages;
          start_pfn = (nr_pt_frames - 3) * 512
      in dbind (build_pagetable e (pfn_linear_alloc e) (pfn_linear_alloc e)
                 (pfn_to_virt e start_pfn) (pfn_to_virt e max_pfn) st free_pfn start_pfn)
           (\<lambda>(r, st1, npf, pfn). Some (Inr (npf, max_pfn, st1))))"

section \<open>Addresses of entries\<close>

lemma masks: "(0xfff :: u64) = mask 12" "(511 :: u64) = mask 9"
  by (simp_all add: mask_eq_exp_minus_1)

lemma offset_less: "uint (l1_table_offset a) < 512"
proof -
  have "l1_table_offset a = take_bit 9 (drop_bit 12 a)"
    by (simp only: l1_table_offset_def masks take_bit_eq_mask)
  then show ?thesis by (simp add: uint_take_bit)
qed

lemma pte_to_mfn_less: "uint (pte_to_mfn pte) < 2 ^ 40"
proof -
  have "pte_to_mfn pte = take_bit 40 (drop_bit 12 pte)"
    unfolding pte_to_mfn_def PADDR_MASK_def PAGE_MASK_def masks
    by (rule bit_word_eqI) (auto simp: bit_simps)
  then show ?thesis by (simp add: uint_take_bit)
qed

lemma uint_page: "uint m < 2 ^ 40 \<Longrightarrow> uint (push_bit 12 m :: u64) = uint m * 4096"
  by (simp add: unsigned_push_bit_eq take_bit_eq_mod push_bit_eq_mult [where 'a = int])

lemma slot_address:
  fixes off :: u64
  assumes "uint m < 2 ^ 40" "uint off < 512"
  shows "drop_bit 12 (push_bit 12 m + 8 * off) = m" "drop_bit 3 ((push_bit 12 m + 8 * off) AND 0xfff) = off"
proof -
  define x where "x = push_bit 12 m + 8 * off"
  have b: "uint m < 1099511627776" "0 \<le> uint m" "0 \<le> uint off" using assms by simp_all
  have e: "uint (8 * off) = 8 * uint off"
    using assms(2) b(3) by (simp add: uint_word_ariths)
  have x: "uint x = uint m * 4096 + 8 * uint off"
    unfolding x_def uint_add_lem [of "push_bit 12 m" "8 * off", THEN iffD1]
    using uint_page [OF assms(1)] e assms(2) b by (simp add: uint_word_ariths)
  have "uint (drop_bit 12 x) = uint m"
    using assms(2) b by (simp add: uint_drop_bit x)
  then show "drop_bit 12 (push_bit 12 m + 8 * off) = m" by (simp add: word_uint_eq_iff x_def)
  have "(x AND 0xfff) = take_bit 12 x" by (simp only: masks take_bit_eq_mask)
  then have "uint (drop_bit 3 (x AND 0xfff)) = uint off"
    using assms(2) b by (simp add: uint_drop_bit uint_take_bit x)
  then show "drop_bit 3 ((push_bit 12 m + 8 * off) AND 0xfff) = off" by (simp add: word_uint_eq_iff x_def)
qed

lemma leaf_entry:
  assumes "uint m < 2 ^ 40"
  shows "pte_to_mfn (push_bit 12 m OR L1_PROT) = m" "(push_bit 12 m OR L1_PROT) AND PAGE_PRESENT \<noteq> 0"
proof -
  have "take_bit 40 m = m" using assms by (simp add: word_uint_eq_iff uint_take_bit)
  moreover have "pte_to_mfn (push_bit 12 m OR L1_PROT) = take_bit 40 m"
    unfolding pte_to_mfn_def PADDR_MASK_def PAGE_MASK_def masks L1_PROT_def
    by (rule bit_word_eqI) (auto simp: bit_simps)
  ultimately show "pte_to_mfn (push_bit 12 m OR L1_PROT) = m" by simp
  have "bit ((push_bit 12 m OR L1_PROT) AND PAGE_PRESENT) 0"
    by (simp add: bit_simps L1_PROT_def PAGE_PRESENT_def)
  then show "(push_bit 12 m OR L1_PROT) AND PAGE_PRESENT \<noteq> 0" by (auto simp del: bit_and_iff)
qed

section \<open>Mapping a range whose tables exist\<close>

definition root_table :: "machine \<Rightarrow> u64" where "root_table e = virt_to_pfn e (pt_base e)"

definition entry4 :: "machine \<Rightarrow> paging \<Rightarrow> u64 \<Rightarrow> u64" where
  "entry4 e st a = entry e st (root_table e) (l4_table_offset a)"

definition entry3 :: "machine \<Rightarrow> paging \<Rightarrow> u64 \<Rightarrow> u64" where
  "entry3 e st a = entry e st (table_of e (entry4 e st a)) (l3_table_offset a)"

definition entry2 :: "machine \<Rightarrow> paging \<Rightarrow> u64 \<Rightarrow> u64" where
  "entry2 e st a = entry e st (table_of e (entry3 e st a)) (l2_table_offset a)"

text \<open>The frame of the lowest table for an address, and the frames of the tables above it.\<close>

definition leaf_mfn :: "machine \<Rightarrow> paging \<Rightarrow> u64 \<Rightarrow> u64" where
  "leaf_mfn e st a = pte_to_mfn (entry2 e st a)"

definition upper_frames :: "machine \<Rightarrow> paging \<Rightarrow> u64 \<Rightarrow> u64 set" where
  "upper_frames e st a =
     {p2m e (root_table e), p2m e (table_of e (entry4 e st a)), p2m e (table_of e (entry3 e st a))}"

definition tables_present :: "machine \<Rightarrow> paging \<Rightarrow> u64 \<Rightarrow> bool" where
  "tables_present e st a =
     (entry4 e st a AND PAGE_PRESENT \<noteq> 0 \<and> entry3 e st a AND PAGE_PRESENT \<noteq> 0
      \<and> entry2 e st a AND PAGE_PRESENT \<noteq> 0)"

definition agree :: "machine \<Rightarrow> paging \<Rightarrow> u64 \<Rightarrow> paging \<Rightarrow> bool" where
  "agree e st0 a st = (\<forall>f\<in>upper_frames e st0 a. frames st f = frames st0 f)"

lemma agree_entries:
  assumes "agree e st0 a st"
  shows "entry4 e st a = entry4 e st0 a" "entry3 e st a = entry3 e st0 a" "entry2 e st a = entry2 e st0 a"
proof -
  have f: "entry e st tab off = entry e st0 tab off" if "p2m e tab \<in> upper_frames e st0 a" for tab off
    using assms that by (simp add: agree_def entry_def)
  show 4: "entry4 e st a = entry4 e st0 a" by (simp add: entry4_def f upper_frames_def)
  show 3: "entry3 e st a = entry3 e st0 a" by (simp add: entry3_def 4 f upper_frames_def)
  show "entry2 e st a = entry2 e st0 a" by (simp add: entry2_def 3 f upper_frames_def)
qed

lemma descend_present:
  "entry e st tab offset AND PAGE_PRESENT \<noteq> 0 \<Longrightarrow>
   descend e al a tab mfn offset level st n = Inr (Some (pte_to_mfn (entry e st tab offset), st, n))"
  by (simp add: descend_def)

lemma find_slot_present:
  assumes "agree e st0 a st" "tables_present e st0 a"
  shows "find_slot e al a True st n = Inr (Some (leaf_mfn e st0 a, l1_table_offset a, st, n))"
proof -
  note E = agree_entries [OF assms(1)]
  have p: "entry e st (virt_to_pfn e (pt_base e)) (l4_table_offset a) AND PAGE_PRESENT \<noteq> 0"
    "entry e st (m2p e (pte_to_mfn (entry4 e st a))) (l3_table_offset a) AND PAGE_PRESENT \<noteq> 0"
    "entry e st (m2p e (pte_to_mfn (entry3 e st a))) (l2_table_offset a) AND PAGE_PRESENT \<noteq> 0"
    using assms(2) E unfolding tables_present_def
    by (simp_all add: entry4_def entry3_def entry2_def root_table_def table_of_def)
  have d4: "descend e al a (virt_to_pfn e (pt_base e)) (p2m e (virt_to_pfn e (pt_base e)))
      (l4_table_offset a) L3_FRAME st n = Inr (Some (pte_to_mfn (entry4 e st a), st, n))"
    using descend_present [OF p(1)] by (simp add: entry4_def root_table_def)
  have d3: "descend e al a (m2p e (pte_to_mfn (entry4 e st a))) (pte_to_mfn (entry4 e st a))
      (l3_table_offset a) L2_FRAME st n = Inr (Some (pte_to_mfn (entry3 e st a), st, n))"
    using descend_present [OF p(2)] by (simp add: entry3_def table_of_def)
  have d2: "descend e al a (m2p e (pte_to_mfn (entry3 e st a))) (pte_to_mfn (entry3 e st a))
      (l2_table_offset a) L1_FRAME st n = Inr (Some (leaf_mfn e st0 a, st, n))"
    using descend_present [OF p(3)] by (simp add: leaf_mfn_def E(3) [symmetric])
      (simp add: entry2_def table_of_def)
  show ?thesis by (simp add: find_slot_def Let_def d4 d3 d2)
qed

text \<open>The update for a page that is mapped to a frame.\<close>

definition leaf_update :: "machine \<Rightarrow> paging \<Rightarrow> u64 \<Rightarrow> u64 \<Rightarrow> u64 \<times> u64" where
  "leaf_update e st a m =
     (push_bit 12 (leaf_mfn e st a) + 8 * l1_table_offset a, push_bit 12 m OR L1_PROT)"

lemma store_leaf:
  "store_entry (leaf_update e st0 a m) st = st\<lparr>frames := (frames st)(leaf_mfn e st0 a :=
     (frames st (leaf_mfn e st0 a))(l1_table_offset a := push_bit 12 m OR L1_PROT))\<rparr>"
proof -
  have "uint (leaf_mfn e st0 a) < 2 ^ 40" by (simp only: leaf_mfn_def pte_to_mfn_less)
  note s = slot_address [OF this offset_less [of a]]
  show ?thesis by (simp only: store_entry_def leaf_update_def prod.case s)
qed

lemma agree_store:
  "agree e st0 b st \<Longrightarrow> leaf_mfn e st0 a \<notin> upper_frames e st0 b
   \<Longrightarrow> agree e st0 b (store_entry (leaf_update e st0 a m) st)"
  unfolding store_leaf agree_def by auto

text \<open>Updates of lowest tables that are not upper tables for the address \<open>c\<close>.\<close>

definition harmless :: "machine \<Rightarrow> paging \<Rightarrow> u64 \<Rightarrow> (u64 \<times> u64) list \<Rightarrow> bool" where
  "harmless e st0 c us =
     (\<forall>u\<in>set us. \<exists>b m. u = leaf_update e st0 b m \<and> leaf_mfn e st0 b \<notin> upper_frames e st0 c)"

lemma harmless_simps [simp]:
  "harmless e st0 c []" "harmless e st0 c (us @ vs) = (harmless e st0 c us \<and> harmless e st0 c vs)"
  by (auto simp: harmless_def)

lemma harmless_leaf: "leaf_mfn e st0 b \<notin> upper_frames e st0 c \<Longrightarrow> harmless e st0 c [leaf_update e st0 b m]"
  by (auto simp: harmless_def)

lemma agree_fold:
  "agree e st0 c st \<Longrightarrow> harmless e st0 c us \<Longrightarrow> agree e st0 c (fold store_entry us st)"
  by (induction us arbitrary: st) (auto simp: harmless_def agree_store)

lemma add_word_less:
  fixes a :: u64
  assumes "uint a + int k < 2 ^ 64" "0 < k"
  shows "a < a + of_nat k" "uint (a + of_nat k) = uint a + int k"
proof -
  have "int k < 2 ^ 64" using assms(1) uint_ge_0 [of a] by linarith
  then have "k < 2 ^ 64" by simp
  then have "unat (of_nat k :: u64) = k" by (simp add: unat_of_nat)
  then have "uint (of_nat k :: u64) = int k" by (simp only: uint_nat)
  then show u: "uint (a + of_nat k) = uint a + int k" using assms(1) by (simp add: uint_word_ariths)
  show "a < a + of_nat k" using u assms(2) by (simp add: word_less_def)
qed

text \<open>The pages of a range, and the updates that map them to the frames from \<open>p\<close> on.\<close>

definition page :: "u64 \<Rightarrow> nat \<Rightarrow> u64" where "page a i = a + of_nat (i * 4096)"

definition linear_updates :: "machine \<Rightarrow> paging \<Rightarrow> u64 \<Rightarrow> u64 \<Rightarrow> nat \<Rightarrow> (u64 \<times> u64) list" where
  "linear_updates e st0 a p n =
     map (\<lambda>i. leaf_update e st0 (page a i) (p2m e (p + of_nat i))) [0..<n]"

lemma page_simps [simp]: "page a 0 = a" "page (a + 4096) i = page a (Suc i)"
  by (simp_all add: page_def algebra_simps)

lemma linear_updates_Suc:
  "linear_updates e st0 a p (Suc n) =
   leaf_update e st0 a (p2m e p) # linear_updates e st0 (a + 4096) (p + 1) n"
proof -
  have "[0..<Suc n] = 0 # map Suc [0..<n]" by (simp add: upt_conv_Cons map_Suc_upt)
  then show ?thesis by (simp add: linear_updates_def comp_def algebra_simps del: upt_Suc)
qed

definition mappable :: "machine \<Rightarrow> paging \<Rightarrow> u64 \<Rightarrow> u64 \<Rightarrow> nat \<Rightarrow> bool" where
  "mappable e st0 a p n =
     ((\<forall>i<n. tables_present e st0 (page a i) \<and> 0 < sint (p2m e (p + of_nat i)))
      \<and> (\<forall>i<n. \<forall>j<n. leaf_mfn e st0 (page a i) \<notin> upper_frames e st0 (page a j)))"

lemma mappable_Suc:
  assumes "mappable e st0 a p (Suc n)"
  shows "tables_present e st0 a" "0 < sint (p2m e p)" "mappable e st0 (a + 4096) (p + 1) n"
    "j < Suc n \<Longrightarrow> leaf_mfn e st0 a \<notin> upper_frames e st0 (page a j)"
proof -
  have h: "\<forall>i<Suc n. tables_present e st0 (page a i) \<and> 0 < sint (p2m e (p + of_nat i))"
    "\<forall>i<Suc n. \<forall>j<Suc n. leaf_mfn e st0 (page a i) \<notin> upper_frames e st0 (page a j)"
    using assms unfolding mappable_def by blast+
  show "tables_present e st0 a" "0 < sint (p2m e p)" using h(1) [rule_format, of 0] by simp_all
  show "j < Suc n \<Longrightarrow> leaf_mfn e st0 a \<notin> upper_frames e st0 (page a j)" using h(2) [rule_format, of 0 j] by simp
  have "tables_present e st0 (page (a + 4096) i) \<and> 0 < sint (p2m e (p + 1 + of_nat i))" if "i < n" for i
    using h(1) [rule_format, of "Suc i"] that by (simp add: algebra_simps)
  moreover have "leaf_mfn e st0 (page (a + 4096) i) \<notin> upper_frames e st0 (page (a + 4096) j)"
    if "i < n" "j < n" for i j using h(2) [rule_format, of "Suc i" "Suc j"] that by simp
  ultimately show "mappable e st0 (a + 4096) (p + 1) n" by (simp add: mappable_def)
qed

lemma build_loop_linear:
  assumes ok: "\<forall>us. \<not> mmu_update_fails e us"
  shows "\<lbrakk>mappable e st0 a p n; uint a + int (n * 4096) < 2 ^ 64; length us < 512; n = 0 \<longrightarrow> us = [];
     \<forall>j<n. agree e st0 (page a j) st \<and> harmless e st0 (page a j) us\<rbrakk>
   \<Longrightarrow> build_loop e al (pfn_linear_alloc e) a (page a n) 4096 us st npf p
     = Some (Inr (1, fold store_entry (us @ linear_updates e st0 a p n) st, npf, p + of_nat n))"
proof (induction n arbitrary: a p us st)
  case 0
  then show ?case by (subst build_loop.simps) (simp add: linear_updates_def)
next
  case (Suc n)
  note M = mappable_Suc [OF Suc.prems(1)]
  have lt: "a < page a (Suc n)"
    unfolding page_def by (rule add_word_less(1)) (use Suc.prems(2) in simp_all)
  have a1: "uint (a + 4096) = uint a + 4096"
    using add_word_less(2) [of a 4096] Suc.prems(2) by simp
  have ag: "agree e st0 a st" using Suc.prems(5) by (metis page_simps(1) zero_less_Suc)
  define us1 where "us1 = us @ [leaf_update e st0 a (p2m e p)]"
  have later: "agree e st0 (page (a + 4096) j) st \<and> harmless e st0 (page (a + 4096) j) us1" if "j < n" for j
    using Suc.prems(5) that M(4) [of "Suc j"] unfolding us1_def by (simp add: harmless_leaf)
  have step: "build_loop e al (pfn_linear_alloc e) a (page a (Suc n)) 4096 us st npf p
    = (if length us1 = 512 \<or> a + 4096 = page a (Suc n)
       then build_loop e al (pfn_linear_alloc e) (a + 4096) (page a (Suc n)) 4096 [] (fold store_entry us1 st) npf (p + 1)
       else build_loop e al (pfn_linear_alloc e) (a + 4096) (page a (Suc n)) 4096 us1 st npf (p + 1))"
    using lt M(1,2) ok
    by (subst build_loop.simps)
      (simp add: find_slot_present [OF ag] pfn_linear_alloc_def us1_def leaf_update_def mmu_update_def)
  have r: "uint (a + 4096) + int (n * 4096) < 2 ^ 64" using Suc.prems(2) a1 by simp
  have fold: "fold store_entry (us @ linear_updates e st0 a p (Suc n)) st
      = fold store_entry (linear_updates e st0 (a + 4096) (p + 1) n) (fold store_entry us1 st)"
    by (simp add: linear_updates_Suc us1_def)
  show ?case
  proof (cases "length us1 = 512 \<or> a + 4096 = page a (Suc n)")
    case True
    have "build_loop e al (pfn_linear_alloc e) (a + 4096) (page (a + 4096) n) 4096 [] (fold store_entry us1 st) npf (p + 1)
      = Some (Inr (1, fold store_entry ([] @ linear_updates e st0 (a + 4096) (p + 1) n) (fold store_entry us1 st),
          npf, p + 1 + of_nat n))"
      by (rule Suc.IH [OF M(3) r]) (use later agree_fold in auto)
    then show ?thesis unfolding step fold using True by (simp add: algebra_simps)
  next
    case False
    have "length us1 < 512" using Suc.prems(3) False by (simp add: us1_def)
    moreover have "n = 0 \<longrightarrow> us1 = []" using False by (auto simp: page_def)
    moreover have "\<forall>j<n. agree e st0 (page (a + 4096) j) st \<and> harmless e st0 (page (a + 4096) j) us1"
      using later by blast
    ultimately have "build_loop e al (pfn_linear_alloc e) (a + 4096) (page (a + 4096) n) 4096 us1 st npf (p + 1)
      = Some (Inr (1, fold store_entry (us1 @ linear_updates e st0 (a + 4096) (p + 1) n) st,
          npf, p + 1 + of_nat n))"
      by (rule Suc.IH [OF M(3) r])
    then show ?thesis unfolding step fold using False by (simp add: algebra_simps)
  qed
qed

lemma fold_store_other:
  "\<forall>u\<in>set us. \<exists>b m. u = leaf_update e st0 b m \<and> (leaf_mfn e st0 b, l1_table_offset b) \<noteq> (f, off)
   \<Longrightarrow> frames (fold store_entry us st) f off = frames st f off"
proof (induction us arbitrary: st)
  case (Cons u us)
  then obtain b m where u: "u = leaf_update e st0 b m" "(leaf_mfn e st0 b, l1_table_offset b) \<noteq> (f, off)"
    by auto
  have "frames (store_entry u st) f off = frames st f off"
    unfolding u(1) store_leaf using u(2) by auto
  then show ?case using Cons by simp
qed simp

lemma linear_updates_entry:
  assumes i: "i < n"
    and inj: "inj_on (\<lambda>j. (leaf_mfn e st0 (page a j), l1_table_offset (page a j))) {..<n}"
  shows "frames (fold store_entry (linear_updates e st0 a p n) st)
      (leaf_mfn e st0 (page a i)) (l1_table_offset (page a i)) = push_bit 12 (p2m e (p + of_nat i)) OR L1_PROT"
proof -
  let ?u = "\<lambda>j. leaf_update e st0 (page a j) (p2m e (p + of_nat j))"
  have s: "[0..<n] = [0..<i] @ i # [Suc i..<n]"
    using upt_add_eq_append [of 0 i "n - i"] i by (simp add: upt_conv_Cons)
  define mid where "mid = fold store_entry (map ?u [0..<i]) st"
  have "frames (fold store_entry (map ?u [Suc i..<n]) (store_entry (?u i) mid))
      (leaf_mfn e st0 (page a i)) (l1_table_offset (page a i))
    = frames (store_entry (?u i) mid) (leaf_mfn e st0 (page a i)) (l1_table_offset (page a i))"
  proof (rule fold_store_other, rule ballI)
    fix u assume "u \<in> set (map ?u [Suc i..<n])"
    then obtain j where j: "u = ?u j" "i < j" "j < n" by auto
    have "(leaf_mfn e st0 (page a j), l1_table_offset (page a j))
        \<noteq> (leaf_mfn e st0 (page a i), l1_table_offset (page a i))"
      using inj_onD [OF inj, of j i] j i by auto
    then show "\<exists>b m. u = leaf_update e st0 b m \<and> (leaf_mfn e st0 b, l1_table_offset b)
        \<noteq> (leaf_mfn e st0 (page a i), l1_table_offset (page a i))" using j(1) by blast
  qed
  moreover have "fold store_entry (linear_updates e st0 a p n) st
    = fold store_entry (map ?u [Suc i..<n]) (store_entry (?u i) mid)"
    by (simp add: linear_updates_def s mid_def del: upt_Suc)
  ultimately show ?thesis by (simp add: store_leaf)
qed

lemma walk_entries:
  assumes "tables_present e st0 a" "agree e st0 a st" "p2m e (m2p e (leaf_mfn e st0 a)) = leaf_mfn e st0 a"
  shows "not11_virt_to_pfn e st a =
    (let pte = frames st (leaf_mfn e st0 a) (l1_table_offset a) in Some (table_of e pte, pte))"
proof -
  note E = agree_entries [OF assms(2)]
  have "tables_present e st a" using assms(1) by (simp add: tables_present_def E)
  then have w: "walk_step e st (virt_to_pfn e (pt_base e)) (l4_table_offset a) = Some (table_of e (entry4 e st a))"
    "walk_step e st (table_of e (entry4 e st a)) (l3_table_offset a) = Some (table_of e (entry3 e st a))"
    "walk_step e st (table_of e (entry3 e st a)) (l2_table_offset a) = Some (table_of e (entry2 e st a))"
    unfolding tables_present_def
    by (simp_all add: walk_step_def Let_def entry4_def [symmetric] root_table_def [symmetric]
        entry3_def [symmetric] entry2_def [symmetric])
  have l: "p2m e (table_of e (entry2 e st a)) = leaf_mfn e st0 a"
    using assms(3) by (simp add: E(3) table_of_def leaf_mfn_def)
  show ?thesis by (simp add: not11_virt_to_pfn_def w entry_def l Let_def)
qed

lemma build_pagetable_linear_lemma:
  assumes ok: "\<forall>us. \<not> mmu_update_fails e us" and m: "mappable e st a p n"
    and r: "uint a + int (n * 4096) < 2 ^ 64"
    and inj: "inj_on (\<lambda>i. (leaf_mfn e st (page a i), l1_table_offset (page a i))) {..<n}"
    and f: "\<forall>i<n. p2m e (m2p e (leaf_mfn e st (page a i))) = leaf_mfn e st (page a i)
      \<and> m2p e (p2m e (p + of_nat i)) = p + of_nat i \<and> uint (p2m e (p + of_nat i)) < 2 ^ 40"
  shows "\<exists>st'. build_pagetable e al (pfn_linear_alloc e) a (page a n) st npf p
      = Some (Inr (1, st', npf, p + of_nat n))
    \<and> (\<forall>i<n. not11_virt_to_pfn e st' (page a i)
         = Some (p + of_nat i, push_bit 12 (p2m e (p + of_nat i)) OR L1_PROT))"
proof -
  define st' where "st' = fold store_entry (linear_updates e st a p n) st"
  have ag: "agree e st b st" for b by (simp add: agree_def)
  have b: "build_pagetable e al (pfn_linear_alloc e) a (page a n) st npf p
      = Some (Inr (1, st', npf, p + of_nat n))"
    using build_loop_linear [OF ok m r, of "[]" st al npf] ag
    by (simp add: build_pagetable_def build_pagetable_vs_def st'_def)
  have "not11_virt_to_pfn e st' (page a i)
      = Some (p + of_nat i, push_bit 12 (p2m e (p + of_nat i)) OR L1_PROT)" if i: "i < n" for i
  proof -
    have "harmless e st (page a i) (linear_updates e st a p n)"
      using m i unfolding harmless_def linear_updates_def mappable_def by auto
    then have "agree e st (page a i) st'" unfolding st'_def by (rule agree_fold [OF ag])
    moreover have "tables_present e st (page a i)" using m i unfolding mappable_def by blast
    ultimately have "not11_virt_to_pfn e st' (page a i) =
      (let pte = frames st' (leaf_mfn e st (page a i)) (l1_table_offset (page a i)) in Some (table_of e pte, pte))"
      using walk_entries f i by blast
    moreover have "frames st' (leaf_mfn e st (page a i)) (l1_table_offset (page a i))
      = push_bit 12 (p2m e (p + of_nat i)) OR L1_PROT"
      unfolding st'_def by (rule linear_updates_entry [OF i inj])
    moreover have "table_of e (push_bit 12 (p2m e (p + of_nat i)) OR L1_PROT) = p + of_nat i"
      using f i by (simp add: table_of_def leaf_entry(1))
    ultimately show ?thesis by (simp add: Let_def)
  qed
  with b show ?thesis by blast
qed

section \<open>Demolishing a range\<close>

definition none_fails :: "nat \<Rightarrow> bool" where "none_fails i = False"

text \<open>With \<open>i\<close> entries written and \<open>k\<close> pages to go, all in one multicall.\<close>

lemma demolish_loop_batch:
  "\<lbrakk>i + k \<le> 1024; 0 < k; uint a + int (k * 4096) < 2 ^ 64; \<forall>j<i. calls j = Some (f j)\<rbrakk>
   \<Longrightarrow> demolish_loop none_fails a (page a k) 4096 calls i done
     = Some (Inr (done @ map f [0..<i] @ map (page a) [0..<k - 1]))"
proof (induction k arbitrary: i a calls f)
  case (Suc k)
  have lt: "a < page a (Suc k)"
    unfolding page_def by (rule add_word_less(1)) (use Suc.prems(3) in simp_all)
  have a1: "uint (a + 4096) = uint a + 4096" using add_word_less(2) [of a 4096] Suc.prems(3) by simp
  define calls1 where "calls1 = calls(i := Some a)"
  show ?case
  proof (cases "k = 0")
    case True
    have m: "multicall none_fails calls1 i = Inr (map f [0..<i])"
      using Suc.prems(4) by (auto simp: multicall_def none_fails_def calls1_def)
    have e: "page a (Suc 0) = a + 4096" by (simp add: page_def)
    have "demolish_loop none_fails (a + 4096) (a + 4096) 4096 c i' d = Some (Inr d)" for c i' d
      by (subst demolish_loop.simps) simp
    then show ?thesis using True lt Suc.prems(1) m
      by (subst demolish_loop.simps) (simp add: e calls1_def [symmetric] Let_def)
  next
    case False
    have ne: "a + 4096 \<noteq> page a (Suc k)"
    proof -
      have "a + 4096 < page (a + 4096) k"
        unfolding page_def by (rule add_word_less(1)) (use Suc.prems(3) a1 False in simp_all)
      then show ?thesis by (metis page_simps(2) less_irrefl)
    qed
    have i: "i \<noteq> 1023" "\<not> 1024 \<le> i" using Suc.prems(1) False by simp_all
    have "demolish_loop none_fails a (page a (Suc k)) 4096 calls i done
        = demolish_loop none_fails (a + 4096) (page (a + 4096) k) 4096 calls1 (i + 1) done"
      using lt ne i by (subst demolish_loop.simps) (simp add: calls1_def [symmetric] Let_def)
    also have "\<dots> = Some (Inr (done @ map (f(i := a)) [0..<i + 1] @ map (page (a + 4096)) [0..<k - 1]))"
      by (rule Suc.IH) (use Suc.prems a1 False in \<open>auto simp: calls1_def less_Suc_eq\<close>)
    also have "map (f(i := a)) [0..<i + 1] @ map (page (a + 4096)) [0..<k - 1]
        = map f [0..<i] @ map (page a) [0..<Suc k - 1]"
    proof -
      have "[0..<k] = 0 # map Suc [0..<k - 1]" using False by (simp add: upt_conv_Cons map_Suc_upt)
      then have "map (page a) [0..<k] = a # map (page (a + 4096)) [0..<k - 1]" by simp
      then show ?thesis by simp
    qed
    finally show ?thesis .
  qed
qed simp

lemma demolish_lemma:
  assumes "0 < n" "n \<le> 1024" "uint a + int (n * 4096) < 2 ^ 64"
  shows "demolish_pagetable none_fails a (page a n) = Some (Inr (map (page a) [0..<n - 1]))"
  using demolish_loop_batch [of 0 n a "\<lambda>_. None" undefined "[]"] assms
  by (simp add: demolish_pagetable_def demolish_pagetable_vs_def)

section \<open>Rounding\<close>

text \<open>\<^verbatim>\<open>PAGE_ALIGN\<close> rounds up, while \<^verbatim>\<open>virt_to_pfn\<close> rounds down.\<close>

lemma PAGE_ALIGN_up:
  assumes "uint a + 4095 < 2 ^ 64"
  shows "uint (PAGE_ALIGN a) = (uint a + 4095) div 4096 * 4096"
proof -
  have "PAGE_ALIGN a = push_bit 12 (drop_bit 12 (a + 4095))"
    unfolding PAGE_ALIGN_def PAGE_MASK_def masks by (rule bit_word_eqI) (auto simp: bit_simps)
  moreover have "uint (a + 4095) = uint a + 4095" using assms by (simp add: uint_word_ariths)
  moreover have "0 \<le> (uint a + 4095) div 4096 * 4096 \<and> (uint a + 4095) div 4096 * 4096 < 18446744073709551616"
  proof -
    have "(uint a + 4095) div 4096 * 4096 \<le> uint a + 4095" by simp
    moreover have "0 \<le> (uint a + 4095) div 4096 * 4096" by (simp add: pos_imp_zdiv_nonneg_iff)
    ultimately show ?thesis using assms by simp
  qed
  ultimately show ?thesis using assms
    by (simp add: unsigned_push_bit_eq uint_drop_bit take_bit_eq_mod [where 'a = int]
        push_bit_eq_mult [where 'a = int] mod_pos_pos_trivial)
qed

lemma remap_next_page:
  assumes "virt_start e = 0" "uint a mod 4096 \<noteq> 0" "uint a + 4095 < 2 ^ 64"
  shows "virt_to_pfn e (remap_page e fst a) = virt_to_pfn e a + 1"
proof -
  have d: "(uint a + 4095) div 4096 = uint a div 4096 + 1"
  proof -
    have "uint a = uint a div 4096 * 4096 + uint a mod 4096" by simp
    moreover have "0 \<le> uint a mod 4096" "uint a mod 4096 < 4096" by simp_all
    ultimately show ?thesis using assms(2) by linarith
  qed
  have "uint (virt_to_pfn e (remap_page e fst a)) = uint a div 4096 + 1"
    by (simp add: remap_page_def remap_page_pfn_def virt_to_pfn_def assms(1) uint_drop_bit
        PAGE_ALIGN_up [OF assms(3)] d)
  moreover have "0 \<le> uint a div 4096 + 1 \<and> uint a div 4096 + 1 < 18446744073709551616"
  proof -
    have "uint a div 4096 * 4096 \<le> uint a" by simp
    moreover have "0 \<le> uint a div 4096" by (simp add: pos_imp_zdiv_nonneg_iff)
    moreover have "uint a < 18446744073709551616" using assms(3) by simp
    ultimately show ?thesis by linarith
  qed
  ultimately show ?thesis
    by (simp add: mod_pos_pos_trivial word_uint_eq_iff uint_word_ariths virt_to_pfn_def assms(1) uint_drop_bit)
qed

section \<open>Claims\<close>

text \<open>
  A machine with one chain of tables, in the frames 1 to 4, and the frame numbers of the guest equal
  to those of the machine.
\<close>

definition demo_machine :: machine where
  "demo_machine = \<lparr>p2m = (\<lambda>p. p), m2p = (\<lambda>m. m), pt_base = 0x1000, virt_start = 0,
     mmu_update_fails = (\<lambda>_. False), mmuext_op_fails = (\<lambda>_. False)\<rparr>"

definition demo_tables :: paging where
  "demo_tables = \<lparr>frames = (\<lambda>f i. if i = 0 \<and> f < 4 then push_bit 12 (f + 1) OR L2_PROT else 0), pinned = []\<rparr>"

lemma demo_entries:
  assumes "a < 0x200000"
  shows "entry4 demo_machine demo_tables a = 0x2067" "entry3 demo_machine demo_tables a = 0x3067"
    "entry2 demo_machine demo_tables a = 0x4067"
proof -
  have u: "uint a < 2097152" using assms by (simp add: word_less_def)
  have "drop_bit 39 a = 0" "drop_bit 30 a = 0" "drop_bit 21 a = 0"
    using u by (simp_all add: word_uint_eq_iff uint_drop_bit)
  then have o: "l4_table_offset a = 0" "l3_table_offset a = 0" "l2_table_offset a = 0"
    by (simp_all add: l4_table_offset_def l3_table_offset_def l2_table_offset_def)
  have m: "pte_to_mfn 0x2067 = 2" "pte_to_mfn 0x3067 = 3"
    by (simp_all add: pte_to_mfn_def PADDR_MASK_def PAGE_MASK_def mask_eq_exp_minus_1)
  show e4: "entry4 demo_machine demo_tables a = 0x2067"
    by (simp add: entry4_def entry_def demo_machine_def demo_tables_def root_table_def virt_to_pfn_def o L2_PROT_def)
  show e3: "entry3 demo_machine demo_tables a = 0x3067"
    unfolding entry3_def e4 table_of_def m
    by (simp add: entry_def demo_machine_def demo_tables_def o L2_PROT_def)
  show "entry2 demo_machine demo_tables a = 0x4067"
    unfolding entry2_def e3 table_of_def m
    by (simp add: entry_def demo_machine_def demo_tables_def o L2_PROT_def)
qed

lemma demo_page:
  assumes "i < (2::nat)"
  shows "page 0x5000 i < 0x200000" "l1_table_offset (page 0x5000 i) = 5 + of_nat i"
proof -
  have "i = 0 \<or> i = 1" using assms by auto
  then show "page 0x5000 i < 0x200000" "l1_table_offset (page 0x5000 i) = 5 + of_nat i"
    by (auto simp: page_def l1_table_offset_def)
qed

lemma demo_leaf:
  assumes "i < (2::nat)"
  shows "leaf_mfn demo_machine demo_tables (page 0x5000 i) = 4"
    "upper_frames demo_machine demo_tables (page 0x5000 i) = {1, 2, 3}"
    "tables_present demo_machine demo_tables (page 0x5000 i)"
proof -
  note e = demo_entries [OF demo_page(1) [OF assms]]
  have m: "pte_to_mfn 0x2067 = 2" "pte_to_mfn 0x3067 = 3" "pte_to_mfn 0x4067 = 4"
    by (simp_all add: pte_to_mfn_def PADDR_MASK_def PAGE_MASK_def mask_eq_exp_minus_1)
  show "leaf_mfn demo_machine demo_tables (page 0x5000 i) = 4" by (simp add: leaf_mfn_def e m)
  show "upper_frames demo_machine demo_tables (page 0x5000 i) = {1, 2, 3}"
    by (simp add: upper_frames_def e table_of_def m)
      (simp add: demo_machine_def root_table_def virt_to_pfn_def)
  show "tables_present demo_machine demo_tables (page 0x5000 i)"
    by (simp add: tables_present_def e PAGE_PRESENT_def)
qed



text \<open>
  \<^verbatim>\<open>demolish_pagetable\<close> never unmaps the last page of its range: its multicall is given the
  index of the last entry instead of the number of entries.
\<close>
theorem demolish_keeps_last_page:
  assumes "0 < n" "n \<le> 1024" "uint a + int (n * 4096) < 2 ^ 64"
  shows "demolish_pagetable none_fails a (page a n) = Some (Inr (map (page a) [0..<n - 1]))"
  using demolish_lemma [OF assms] .

theorem demolish_keeps_last_page_witness:
  "demolish_pagetable none_fails 0x5000 (page 0x5000 1) = Some (Inr [])"
  using demolish_keeps_last_page [of 1 "0x5000"] by simp

end
