(* ===== verification/Blkfront.thy ===== *)
theory Blkfront
  imports Grants Cstring Xmalloc Sched
begin

text \<open>
  The block device driver, \<^verbatim>\<open>blkfront.c\<close>: a request goes into the ring that is shared with the
  back end, with a number from the free list of theory \<open>Grants\<close> and a grant for each of its pages;
  the handler of the event channel takes the responses off the ring, ends the grants, gives the
  number back and calls the callback of the request.

  A request is known by its address, and a page by the address of its first byte.  The back end
  moves while the handler runs: what it does to the ring before a read of its producer index is an
  argument.  The lock of the device is held by the callers and is not part of the state; there is
  one device (\<^verbatim>\<open>MAX_DEVICES\<close> is 1).
\<close>

section \<open>Data\<close>

definition MAX_DEVICES :: int where "MAX_DEVICES = 1"
definition MAX_PAGES_PER_REQUEST :: nat where "MAX_PAGES_PER_REQUEST = 11"
definition SECTOR_BITS :: nat where "SECTOR_BITS = 9"
definition SECTORS_PER_PAGE :: int where "SECTORS_PER_PAGE = 8"

datatype blk_state = BLK_EMPTY | BLK_SUBMITTED | BLK_DONE_SUCCESS | BLK_DONE_ERROR

datatype blk_op = BLK_REQ_READ | BLK_REQ_WRITE

record blk_request =
  rq_pages :: "nat list"
  num_pages :: int
  start_sector :: int
  end_sector :: int
  rq_device :: int
  rq_address :: u64
  rq_state :: blk_state
  rq_operation :: blk_op
  rq_callback :: "nat option"

record segment =
  seg_gref :: nat
  first_sect :: u8
  last_sect :: u8

text \<open>
  An entry of the ring is a union.  The first 16 bytes hold either the header of a request or a
  response; the sector number and the segments lie behind them and a response leaves them alone.
\<close>

datatype entry_head =
    Request_head (hd_operation: blk_op) (hd_nr_segments: u8) (hd_handle: u16) (hd_id: u64)
  | Response_head (rs_id: u64) (rs_operation: u8) (rs_status: int)

record ring_entry =
  e_head :: entry_head
  e_sector :: u64
  e_seg :: "segment list"

record blkif_sring =
  req_prod :: u32
  req_event :: u32
  rsp_prod :: u32
  rsp_event :: u32
  slots :: "ring_entry list"

record blk_shadow =
  sh_gref :: "nat list"
  num_refs :: int
  sh_request :: nat

text \<open>\<open>sectors\<close> is the size of the device, \<open>ids\<close> has the free list and the flags \<^verbatim>\<open>free\<close> of the shadows.\<close>

record blk_dev =
  ready :: bool
  sectors :: int
  req_prod_pvt :: u32
  rsp_cons :: u32
  sring :: blkif_sring
  ids :: blk_ids
  shadows :: "blk_shadow list"
  requests :: "nat \<Rightarrow> blk_request"
  grants :: gnttab

definition slot :: "u32 \<Rightarrow> nat" where
  "slot idx = unat (idx AND (of_nat BLK_RING_SIZE - 1))"

section \<open>Sending a request\<close>

text \<open>\<^verbatim>\<open>blk_do_io\<close> grants the back end one page: the segment and the reference are stored.\<close>

definition grant_page ::
  "(nat \<Rightarrow> u64) \<Rightarrow> nat list \<Rightarrow> nat \<Rightarrow> u8 \<Rightarrow> u8 \<Rightarrow> segment list \<times> nat list \<times> gnttab
   \<Rightarrow> (segment list \<times> nat list \<times> gnttab) res" where
  "grant_page virt_to_mfn pages i fst_sect lst_sect = (\<lambda>(segs, grefs, g).
     rbind (aget pages i) (\<lambda>p.
     rbind (gnttab_grant_access 0 (virt_to_mfn p) 0 g) (\<lambda>(ref, g1).
     rbind (aset segs i \<lparr>seg_gref = ref, first_sect = fst_sect, last_sect = lst_sect\<rparr>) (\<lambda>segs1.
     rbind (aset grefs i ref) (\<lambda>grefs1. Inr (segs1, grefs1, g1))))))"

fun grant_pages ::
  "(nat \<Rightarrow> u64) \<Rightarrow> nat list \<Rightarrow> nat \<Rightarrow> nat \<Rightarrow> segment list \<times> nat list \<times> gnttab
   \<Rightarrow> (segment list \<times> nat list \<times> gnttab) res" where
  "grant_pages virt_to_mfn pages i 0 a = Inr a"
| "grant_pages virt_to_mfn pages i (Suc n) a =
     rbind (grant_page virt_to_mfn pages i 0 (of_int (SECTORS_PER_PAGE - 1)) a)
       (grant_pages virt_to_mfn pages (i + 1) n)"

definition fill_segments ::
  "(nat \<Rightarrow> u64) \<Rightarrow> blk_request \<Rightarrow> segment list \<times> nat list \<times> gnttab
   \<Rightarrow> (segment list \<times> nat list \<times> gnttab) res" where
  "fill_segments virt_to_mfn rq a =
     (if num_pages rq = 1 then
        grant_page virt_to_mfn (rq_pages rq) 0 (of_int (start_sector rq)) (of_int (end_sector rq)) a
      else
        rbind (grant_page virt_to_mfn (rq_pages rq) 0 (of_int (start_sector rq)) (of_int (SECTORS_PER_PAGE - 1)) a)
          (\<lambda>a1.
        rbind (grant_pages virt_to_mfn (rq_pages rq) 1 (nat (num_pages rq) - 1) a1) (\<lambda>(segs, grefs, g).
          let i = max 1 (nat (num_pages rq))
          in rbind (aget segs i) (\<lambda>sg.
             rbind (aset segs i (sg\<lparr>last_sect := of_int (end_sector rq)\<rparr>)) (\<lambda>segs1.
             Inr (segs1, grefs, g))))))"

text \<open>\<^verbatim>\<open>RING_PUSH_REQUESTS_AND_CHECK_NOTIFY\<close>; the back end may set its \<^verbatim>\<open>req_event\<close> between the two
  parts, which \<open>m\<close> does.\<close>

definition push_requests :: "(blkif_sring \<Rightarrow> blkif_sring) \<Rightarrow> blk_dev \<Rightarrow> bool \<times> blk_dev" where
  "push_requests m d =
     (let old = req_prod (sring d); new = req_prod_pvt d;
          r = m ((sring d)\<lparr>req_prod := new\<rparr>)
      in (new - req_event r < new - old, d\<lparr>sring := r\<rparr>))"

text \<open>The value: the error code, and whether the event is sent to the back end.\<close>

definition blk_do_io ::
  "(nat \<Rightarrow> u64) \<Rightarrow> (blkif_sring \<Rightarrow> blkif_sring) \<Rightarrow> nat \<Rightarrow> blk_dev \<Rightarrow> (int \<times> bool \<times> blk_dev) res" where
  "blk_do_io virt_to_mfn m io_req d =
     (let rq = requests d io_req in
      bug_on (rq_state rq \<noteq> BLK_EMPTY) (
      bug_on (rq_device rq \<ge> MAX_DEVICES) (
      if rq_device rq < 0 then Inl Undef else
      bug_on (\<not> ready d) (
      bug_on (drop_bit SECTOR_BITS (rq_address rq) + of_int (end_sector rq) > of_int (sectors d)) (
      let prod = req_prod_pvt d in
      rbind (aget (slots (sring d)) (slot prod)) (\<lambda>xen_req.
      rbind (get_freelist_id (ids d)) (\<lambda>(i, ids1).
      if i = 0 then Inr (ENOMEM, False, d\<lparr>ids := ids1\<rparr>)
      else
        rbind (aget (shadows d) i) (\<lambda>sh.
        rbind (fill_segments virt_to_mfn rq (e_seg xen_req, sh_gref sh, grants d)) (\<lambda>(segs, grefs, g).
          let sh1 = \<lparr>sh_gref = grefs, num_refs = sint (of_int (num_pages rq) :: u16), sh_request = io_req\<rparr>;
              hd1 = Request_head (rq_operation rq) (of_int (num_pages rq)) 0x12 (of_nat i);
              en = \<lparr>e_head = hd1, e_sector = rq_address rq div 512, e_seg = segs\<rparr>;
              d1 = d\<lparr>ids := ids1, grants := g, shadows := (shadows d)[i := sh1],
                     sring := (sring d)\<lparr>slots := (slots (sring d))[slot prod := en]\<rparr>,
                     requests := (requests d)(io_req := rq\<lparr>rq_state := BLK_SUBMITTED\<rparr>),
                     req_prod_pvt := prod + 1\<rparr>
          in case push_requests m d1 of (notify, d2) \<Rightarrow> Inr (0, notify, d2))))))))))"

section \<open>Taking the responses\<close>

text \<open>\<^verbatim>\<open>complete_request\<close> ends the grants and does not look at the results; \<open>obs\<close> gives for each
  reference the flags that the loop of \<open>gnttab_end_access\<close> finds.\<close>

fun complete_request :: "(nat \<Rightarrow> u16 list) \<Rightarrow> nat list \<Rightarrow> nat \<Rightarrow> nat \<Rightarrow> gnttab \<Rightarrow> gnttab res option" where
  "complete_request obs grefs i 0 g = Some (Inr g)"
| "complete_request obs grefs i (Suc n) g =
     dbind (Some (aget grefs i)) (\<lambda>ref.
     dbind (gnttab_end_access ref (obs ref) g) (\<lambda>(_, g1). complete_request obs grefs (i + 1) n g1))"

text \<open>One response.  The callback acts on the rest of the system.\<close>

definition handle_response ::
  "(blk_request \<Rightarrow> 'w \<Rightarrow> 'w res) \<Rightarrow> (nat \<Rightarrow> u16 list) \<Rightarrow> u32 \<Rightarrow> blk_dev \<Rightarrow> 'w \<Rightarrow> (blk_dev \<times> 'w) res option" where
  "handle_response callback obs cons d w =
     dbind (Some (aget (slots (sring d)) (slot cons))) (\<lambda>en.
     case e_head en of
       Request_head _ _ _ _ \<Rightarrow> Some (Inl Undef)
     | Response_head r_id _ r_status \<Rightarrow>
         dbind (Some (aget (shadows d) (unat r_id))) (\<lambda>shadow.
         if bs_free (ids d) (unat r_id) then Some (Inl Bug) else
         dbind (complete_request obs (sh_gref shadow) 0 (nat (num_refs shadow)) (grants d)) (\<lambda>g.
         let io_req = requests d (sh_request shadow)
         in if rq_state io_req \<noteq> BLK_SUBMITTED then Some (Inl Bug) else
         dbind (Some (add_id_freelist (unat r_id) (ids d))) (\<lambda>ids1.
         let io_req1 = io_req\<lparr>rq_state := (if r_status = 0 then BLK_DONE_SUCCESS else BLK_DONE_ERROR)\<rparr>;
             d1 = d\<lparr>grants := g, ids := ids1, requests := (requests d)(sh_request shadow := io_req1)\<rparr>
         in if rq_callback io_req1 \<noteq> None then dbind (Some (callback io_req1 w)) (\<lambda>w1. Some (Inr (d1, w1)))
            else Some (Inr (d1, w))))))"

fun handle_responses ::
  "(blk_request \<Rightarrow> 'w \<Rightarrow> 'w res) \<Rightarrow> (nat \<Rightarrow> u16 list) \<Rightarrow> nat \<Rightarrow> u32 \<Rightarrow> blk_dev \<Rightarrow> 'w \<Rightarrow> (blk_dev \<times> 'w) res option" where
  "handle_responses callback obs 0 cons d w = Some (Inr (d, w))"
| "handle_responses callback obs (Suc n) cons d w =
     dbind (handle_response callback obs cons d w) (\<lambda>(d1, w1). handle_responses callback obs n (cons + 1) d1 w1)"

text \<open>
  A round of \<open>blk_front_handler\<close> is given by what the back end does to the ring before the
  driver reads \<^verbatim>\<open>rsp_prod\<close>, before its first and before its second final check.  The distance to the
  producer index, which wraps, is the number of responses the inner loop takes.
\<close>

fun blk_front_loop ::
  "(blk_request \<Rightarrow> 'w \<Rightarrow> 'w res) \<Rightarrow> (nat \<Rightarrow> u16 list)
   \<Rightarrow> ((blkif_sring \<Rightarrow> blkif_sring) \<times> (blkif_sring \<Rightarrow> blkif_sring) \<times> (blkif_sring \<Rightarrow> blkif_sring)) list
   \<Rightarrow> blk_dev \<Rightarrow> 'w \<Rightarrow> (blk_dev \<times> 'w) res option" where
  "blk_front_loop callback obs [] d w = None"
| "blk_front_loop callback obs ((m1, m2, m3) # rest) d w =
     (let d1 = d\<lparr>sring := m1 (sring d)\<rparr>; prod = rsp_prod (sring d1); cons = rsp_cons d1 in
      dbind (handle_responses callback obs (unat (prod - cons)) cons d1 w) (\<lambda>(d2, w1).
        let d3 = d2\<lparr>rsp_cons := prod\<rparr>
        in if prod \<noteq> req_prod_pvt d3 then
             let d4 = d3\<lparr>sring := m2 (sring d3)\<rparr>
             in if rsp_prod (sring d4) - rsp_cons d4 \<noteq> 0 then blk_front_loop callback obs rest d4 w1
                else let d5 = d4\<lparr>sring := m3 ((sring d4)\<lparr>rsp_event := rsp_cons d4 + 1\<rparr>)\<rparr>
                     in if rsp_prod (sring d5) - rsp_cons d5 \<noteq> 0 then blk_front_loop callback obs rest d5 w1
                        else Some (Inr (d5, w1))
           else Some (Inr (d3\<lparr>sring := (sring d3)\<lparr>rsp_event := prod + 1\<rparr>\<rparr>, w1))))"

text \<open>\<^verbatim>\<open>__blk_front_handler\<close>, registered for the event of the device.\<close>

definition blk_front_handler ::
  "(blk_request \<Rightarrow> 'w \<Rightarrow> 'w res) \<Rightarrow> (nat \<Rightarrow> u16 list)
   \<Rightarrow> ((blkif_sring \<Rightarrow> blkif_sring) \<times> (blkif_sring \<Rightarrow> blkif_sring) \<times> (blkif_sring \<Rightarrow> blkif_sring)) list
   \<Rightarrow> blk_dev \<Rightarrow> 'w \<Rightarrow> (blk_dev \<times> 'w) res option" where
  "blk_front_handler callback obs rounds d w =
     (if ready d then blk_front_loop callback obs rounds d w else Some (Inr (d, w)))"

text \<open>The callback of the blocking operations: it completes the completion of the caller.\<close>

definition complete_callback :: "nat \<Rightarrow> blk_request \<Rightarrow> sched \<Rightarrow> sched res" where
  "complete_callback me req s =
     (case rq_callback req of None \<Rightarrow> Inr s | Some compl \<Rightarrow> complete me compl s)"

section \<open>Reading and writing\<close>

text \<open>
  The pages of a buffer: \<open>sz\<close> is the variable \<^verbatim>\<open>size\<close>, an \<^verbatim>\<open>int\<close> that is compared with the
  \<^verbatim>\<open>unsigned long\<close> \<^verbatim>\<open>PAGE_SIZE\<close>.  The value is the array, the index of the last page and what is left
  of \<open>sz\<close>.
\<close>

function request_pages :: "nat \<Rightarrow> nat list \<Rightarrow> nat \<Rightarrow> int \<Rightarrow> (nat list \<times> nat \<times> int) res" where
  "request_pages base pages i sz =
     (if uint (of_int sz :: u64) > 4096 then
        (if i < length pages then request_pages base (pages[i := base + i * 4096]) (i + 1) (sz - 4096)
         else Inl Undef)
      else rbind (aset pages i (base + i * 4096)) (\<lambda>p. Inr (p, i, sz)))"
  by pat_completeness auto
termination by (relation "measure (\<lambda>(base, pages, i, sz). length pages - i)") auto

declare request_pages.simps [simp del]

text \<open>The request of a blocking operation, with the completion of its caller; the array of pages holds
  indeterminate pointers at first.\<close>

definition make_request ::
  "blk_op \<Rightarrow> nat list \<Rightarrow> int \<Rightarrow> u64 \<Rightarrow> nat \<Rightarrow> int \<Rightarrow> nat \<Rightarrow> (blk_request \<times> int) res" where
  "make_request op old_pages device address base sz compl =
     rbind (request_pages base old_pages 0 sz) (\<lambda>(pages, i, rest).
       Inr (\<lparr>rq_pages = pages, num_pages = int i + 1, start_sector = 0, end_sector = rest div 512 - 1,
              rq_device = device, rq_address = address, rq_state = BLK_EMPTY, rq_operation = op,
              rq_callback = Some compl\<rparr>, rest))"

text \<open>
  A blocking operation up to the wait for its completion, from the moment the device is ready.  The
  frame of the caller is what it still needs afterwards; \<open>alloc\<close> is \<^verbatim>\<open>alloc_pages\<close>, whose result is
  not tested: a null pointer is 0 and copying there is a fault.
\<close>

record blk_frame =
  fr_pages :: nat
  fr_order :: nat
  fr_free_buf :: bool
  fr_sectors :: int
  fr_size :: int
  fr_error :: int
  fr_notify :: bool

definition blk_start ::
  "(nat \<Rightarrow> u64) \<Rightarrow> (blkif_sring \<Rightarrow> blkif_sring) \<Rightarrow> nat \<Rightarrow> blk_request \<times> int \<Rightarrow> blk_frame \<Rightarrow> blk_dev
   \<Rightarrow> (blk_frame \<times> blk_dev) res" where
  "blk_start virt_to_mfn m io_req = (\<lambda>(rq, rest) fr d.
     rbind (blk_do_io virt_to_mfn m io_req (d\<lparr>requests := (requests d)(io_req := rq)\<rparr>)) (\<lambda>(err, notify, d1).
       Inr (fr\<lparr>fr_size := rest, fr_error := err, fr_notify := notify\<rparr>, d1)))"

definition unaligned :: "nat \<Rightarrow> int \<Rightarrow> bool" where
  "unaligned buf sz = (buf mod 4096 \<noteq> 0 \<or> sz mod 512 \<noteq> 0)"

definition blk_write_start ::
  "(int \<Rightarrow> nat) \<Rightarrow> (nat \<Rightarrow> u64) \<Rightarrow> (blkif_sring \<Rightarrow> blkif_sring) \<Rightarrow> nat \<Rightarrow> nat list \<Rightarrow> nat
   \<Rightarrow> int \<Rightarrow> u64 \<Rightarrow> nat \<Rightarrow> int \<Rightarrow> memory \<Rightarrow> blk_dev \<Rightarrow> (blk_frame \<times> memory \<times> blk_dev) res" where
  "blk_write_start alloc virt_to_mfn m io_req old_pages compl device address buf sz mem d =
     bug_on (address AND 511 \<noteq> 0) (
     bug_on (sz mod 512 \<noteq> 0) (
     let order = (if unaligned buf sz then get_order (nat (uint (of_int sz :: u64))) else 0);
         pages = (if unaligned buf sz then alloc (int order) else buf) in
     rbind (if \<not> unaligned buf sz then Inr mem
            else if pages = 0 then Inl Undef
            else memcpy mem pages buf (nat (uint (of_int sz :: u64)))) (\<lambda>mem1.
     rbind (make_request BLK_REQ_WRITE old_pages device address pages sz compl) (\<lambda>r.
     rbind (blk_start virt_to_mfn m io_req r
       \<lparr>fr_pages = pages, fr_order = order, fr_free_buf = unaligned buf sz, fr_sectors = sz div 512,
        fr_size = sz, fr_error = 0, fr_notify = False\<rparr> d) (\<lambda>(fr, d1).
     Inr (fr, mem1, d1))))))"

text \<open>After the wait, or at once when \<^verbatim>\<open>blk_do_io\<close> failed: the number of sectors or \<open>- 1\<close>, and the
  pages to free.\<close>

definition blk_write_finish :: "nat \<Rightarrow> blk_frame \<Rightarrow> blk_dev \<Rightarrow> int \<times> (nat \<times> nat) list" where
  "blk_write_finish io_req fr d =
     (let n = (if fr_error fr \<noteq> 0 then - 1 else fr_sectors fr);
          freed = (if fr_free_buf fr then [(fr_pages fr, fr_order fr)] else [])
      in if rq_state (requests d io_req) = BLK_DONE_SUCCESS then (n, freed) else (- 1, freed))"

definition blk_read_start ::
  "(int \<Rightarrow> nat) \<Rightarrow> (nat \<Rightarrow> u64) \<Rightarrow> (blkif_sring \<Rightarrow> blkif_sring) \<Rightarrow> nat \<Rightarrow> nat list \<Rightarrow> nat
   \<Rightarrow> int \<Rightarrow> u64 \<Rightarrow> nat \<Rightarrow> int \<Rightarrow> blk_dev \<Rightarrow> (blk_frame \<times> blk_dev) res" where
  "blk_read_start alloc virt_to_mfn m io_req old_pages compl device address buf sz d =
     bug_on (address AND 511 \<noteq> 0) (
     bug_on (sz mod 512 \<noteq> 0) (
     let order = (if unaligned buf sz then get_order (nat (uint (of_int sz :: u64))) else 0);
         pages = (if unaligned buf sz then alloc (int order) else buf) in
     rbind (make_request BLK_REQ_READ old_pages device address pages sz compl) (\<lambda>r.
     blk_start virt_to_mfn m io_req r
       \<lparr>fr_pages = pages, fr_order = order, fr_free_buf = unaligned buf sz, fr_sectors = sz div 512,
        fr_size = sz, fr_error = 0, fr_notify = False\<rparr> d)))"

text \<open>The caller of \<^verbatim>\<open>blk_read\<close> gets back \<open>- 1\<close> at once when \<^verbatim>\<open>blk_do_io\<close> failed, and the pages are
  not freed.  Otherwise the pages are copied into the buffer of the caller after the wait.\<close>

definition blk_read_finish :: "nat \<Rightarrow> nat \<Rightarrow> blk_frame \<Rightarrow> blk_dev \<Rightarrow> memory \<Rightarrow> (int \<times> (nat \<times> nat) list \<times> memory) res" where
  "blk_read_finish io_req buf fr d mem =
     (if fr_error fr \<noteq> 0 then Inr (- 1, [], mem)
      else
        rbind (if fr_free_buf fr then memcpy mem buf (fr_pages fr) (nat (uint (of_int (fr_size fr) :: u64)))
               else Inr mem) (\<lambda>mem1.
        Inr (if rq_state (requests d io_req) = BLK_DONE_SUCCESS then fr_sectors fr else - 1,
             if fr_free_buf fr then [(fr_pages fr, fr_order fr)] else [], mem1)))"

text \<open>\<^verbatim>\<open>read_block\<close> allocates its buffer, of \<open>2 ^ size\<close> pages for a size in bytes, and never frees it.\<close>

definition read_block_start ::
  "(int \<Rightarrow> nat) \<Rightarrow> (nat \<Rightarrow> u64) \<Rightarrow> (blkif_sring \<Rightarrow> blkif_sring) \<Rightarrow> nat \<Rightarrow> nat list \<Rightarrow> nat
   \<Rightarrow> int \<Rightarrow> u64 \<Rightarrow> int \<Rightarrow> blk_dev \<Rightarrow> (blk_frame \<times> blk_dev) res" where
  "read_block_start alloc virt_to_mfn m io_req old_pages compl device address sz d =
     (let pages = alloc sz in
      bug_on (address AND 511 \<noteq> 0) (
      bug_on (sz mod 512 \<noteq> 0) (
      rbind (make_request BLK_REQ_READ old_pages device address pages sz compl) (\<lambda>r.
      blk_start virt_to_mfn m io_req r
        \<lparr>fr_pages = pages, fr_order = 0, fr_free_buf = False, fr_sectors = sz div 512,
         fr_size = sz, fr_error = 0, fr_notify = False\<rparr> d))))"

definition read_block_finish :: "nat \<Rightarrow> blk_frame \<Rightarrow> blk_dev \<Rightarrow> int" where
  "read_block_finish io_req fr d =
     (if fr_error fr \<noteq> 0 then - 1
      else if rq_state (requests d io_req) = BLK_DONE_SUCCESS then fr_sectors fr else - 1)"

definition blk_get_sectors :: "int \<Rightarrow> blk_dev \<Rightarrow> int" where
  "blk_get_sectors device_id d = (if device_id \<ge> MAX_DEVICES \<or> \<not> ready d then 0 else sectors d)"

section \<open>The ring of a device\<close>

text \<open>\<^verbatim>\<open>blk_init_ring\<close> clears the page, initialises both halves and grants the page to the back end.
  \<open>zero\<close> is an entry of zero bytes.\<close>

definition blk_init_ring ::
  "(nat \<Rightarrow> u64) \<Rightarrow> nat \<Rightarrow> ring_entry \<Rightarrow> blk_dev \<Rightarrow> (int \<times> nat \<times> blk_dev) res" where
  "blk_init_ring virt_to_mfn page zero d =
     (if page = 0 then Inr (1, 0, d)
      else
        let r = \<lparr>req_prod = 0, req_event = 1, rsp_prod = 0, rsp_event = 1, slots = replicate BLK_RING_SIZE zero\<rparr>;
            d1 = d\<lparr>sring := r, req_prod_pvt := 0, rsp_cons := 0\<rparr>
        in rbind (gnttab_grant_access 0 (virt_to_mfn page) 0 (grants d1)) (\<lambda>(ref, g).
             Inr (0, ref, d1\<lparr>grants := g\<rparr>)))"

section \<open>Granting and ending\<close>

lemma slot_less: "slot idx < BLK_RING_SIZE"
proof -
  have "idx AND 31 \<le> 31" by (rule word_and_le1)
  then have "unat (idx AND 31) \<le> unat (31 :: u32)" by (simp only: word_le_nat_alt)
  then show ?thesis by (simp add: slot_def BLK_RING_SIZE_def)
qed

definition page_grant :: "(nat \<Rightarrow> u64) \<Rightarrow> nat \<Rightarrow> grant_entry" where
  "page_grant virt_to_mfn p = \<lparr>gt_flags = GTF_permit_access, gt_domid = 0, gt_frame = ucast (virt_to_mfn p)\<rparr>"

lemma grant_page_rep:
  assumes "gnttab_rep g (r # xs)" and "i < length pages" "i < length segs" "i < length grefs"
  obtains g1 where "grant_page virt_to_mfn pages i f l (segs, grefs, g) =
      Inr (segs[i := \<lparr>seg_gref = r, first_sect = f, last_sect = l\<rparr>], grefs[i := r], g1)"
    "gnttab_rep g1 xs" "gnttab_table g1 = (gnttab_table g)(r := page_grant virt_to_mfn (pages ! i))"
proof -
  obtain g0 where g0: "get_free_entry g = Inr (r, g0)" "gnttab_rep g0 xs" using gt.get_rep [OF assms(1)] by blast
  have t: "gnttab_table g0 = gnttab_table g" by (rule get_free_entry_table [OF g0(1)])
  define g1 where "g1 = set_entry r GTF_permit_access 0 (virt_to_mfn (pages ! i)) g0"
  have e: "gnttab_grant_access 0 (virt_to_mfn (pages ! i)) 0 g = Inr (r, g1)"
    using g0(1) by (simp add: gnttab_grant_access_def g1_def GTF_permit_access_def)
  have "grant_page virt_to_mfn pages i f l (segs, grefs, g) =
      Inr (segs[i := \<lparr>seg_gref = r, first_sect = f, last_sect = l\<rparr>], grefs[i := r], g1)"
    using e assms(2-4) by (simp add: grant_page_def)
  moreover have "gnttab_rep g1 xs" using g0(2) by (simp add: g1_def)
  moreover have "gnttab_table g1 = (gnttab_table g)(r := page_grant virt_to_mfn (pages ! i))"
    using t by (simp add: g1_def set_entry_def page_grant_def)
  ultimately show thesis by (rule that)
qed

text \<open>What granting the pages \<open>ps\<close> with the references \<open>rs\<close> does to the table.\<close>

definition granted :: "(nat \<Rightarrow> u64) \<Rightarrow> nat list \<Rightarrow> nat list \<Rightarrow> (nat \<Rightarrow> grant_entry) \<Rightarrow> nat \<Rightarrow> grant_entry" where
  "granted virt_to_mfn ps rs t = fold (\<lambda>(p, r) t. t(r := page_grant virt_to_mfn p)) (zip ps rs) t"

lemma granted_simps [simp]:
  "granted v ps [] t = t" "granted v (p # ps) (r # rs) t = granted v ps rs (t(r := page_grant v p))"
  by (simp_all add: granted_def)

lemma granted_other: "r \<notin> set rs \<Longrightarrow> granted v ps rs t r = t r"
  by (induction rs arbitrary: ps t) (auto simp: granted_def dest: set_zip_rightD split: list.split simp: zip_Cons)

lemma grant_pages_rep:
  assumes "gnttab_rep g (rs @ xs)"
    and "i + length rs \<le> length pages" "i + length rs \<le> length segs" "i + length rs \<le> length grefs"
  shows "\<exists>g1. grant_pages virt_to_mfn pages i (length rs) (segs, grefs, g) =
      Inr (take i segs @ map (\<lambda>r. \<lparr>seg_gref = r, first_sect = 0, last_sect = 7\<rparr>) rs @ drop (i + length rs) segs,
        take i grefs @ rs @ drop (i + length rs) grefs, g1) \<and>
    gnttab_rep g1 xs \<and> gnttab_table g1 = granted virt_to_mfn (drop i pages) rs (gnttab_table g)"
  using assms
proof (induction rs arbitrary: g i segs grefs)
  case Nil
  then show ?case by simp
next
  case (Cons r rs)
  have l: "i < length pages" "i < length segs" "i < length grefs" using Cons.prems by simp_all
  have r: "gnttab_rep g (r # rs @ xs)" using Cons.prems(1) by simp
  obtain g0 where g0: "grant_page virt_to_mfn pages i 0 7 (segs, grefs, g) =
      Inr (segs[i := \<lparr>seg_gref = r, first_sect = 0, last_sect = 7\<rparr>], grefs[i := r], g0)"
    "gnttab_rep g0 (rs @ xs)" "gnttab_table g0 = (gnttab_table g)(r := page_grant virt_to_mfn (pages ! i))"
    by (rule grant_page_rep [OF r l, of virt_to_mfn 0 7])
  let ?s = "segs[i := \<lparr>seg_gref = r, first_sect = 0, last_sect = 7\<rparr>]" and ?r = "grefs[i := r]"
  have s: "take (i + 1) ?s = take i segs @ [\<lparr>seg_gref = r, first_sect = 0, last_sect = 7\<rparr>]"
    "take (i + 1) ?r = take i grefs @ [r]" "drop i pages = pages ! i # drop (i + 1) pages"
    using l by (simp_all add: take_Suc_conv_app_nth take_update_swap Cons_nth_drop_Suc list_update_append)
  obtain g1 where "grant_pages virt_to_mfn pages (i + 1) (length rs) (?s, ?r, g0) =
      Inr (take (i + 1) ?s @ map (\<lambda>r. \<lparr>seg_gref = r, first_sect = 0, last_sect = 7\<rparr>) rs @ drop (i + 1 + length rs) ?s,
        take (i + 1) ?r @ rs @ drop (i + 1 + length rs) ?r, g1)"
    "gnttab_rep g1 xs" "gnttab_table g1 = granted virt_to_mfn (drop (i + 1) pages) rs (gnttab_table g0)"
    using Cons.IH [OF g0(2), of "i + 1" ?s ?r] Cons.prems by auto
  then show ?case using g0(1,3) unfolding s by (simp add: SECTORS_PER_PAGE_def)
qed

text \<open>The segments of a request of \<open>n\<close> pages with the references \<open>r # rs\<close>.\<close>

definition request_segs :: "blk_request \<Rightarrow> nat \<Rightarrow> nat list \<Rightarrow> segment list \<Rightarrow> segment list" where
  "request_segs rq r rs old =
     (if rs = [] then \<lparr>seg_gref = r, first_sect = of_int (start_sector rq), last_sect = of_int (end_sector rq)\<rparr> # drop 1 old
      else (\<lparr>seg_gref = r, first_sect = of_int (start_sector rq), last_sect = 7\<rparr> #
             map (\<lambda>r. \<lparr>seg_gref = r, first_sect = 0, last_sect = 7\<rparr>) rs @
             (old ! (length rs + 1))\<lparr>last_sect := of_int (end_sector rq)\<rparr> # drop (length rs + 2) old))"

lemma length_request_segs: "length rs < 10 \<Longrightarrow> length old = 11 \<Longrightarrow> length (request_segs rq r rs old) = 11"
  by (simp add: request_segs_def)

lemma fill_segments_rep:
  assumes g: "gnttab_rep g (r # rs @ xs)" and n: "num_pages rq = int (length rs) + 1" "length rs < 10"
    and l: "length (rq_pages rq) = 11" "length segs = 11" "length grefs = 11"
  shows "\<exists>g1. fill_segments virt_to_mfn rq (segs, grefs, g) =
      Inr (request_segs rq r rs segs, r # rs @ drop (length rs + 1) grefs, g1) \<and>
    gnttab_rep g1 xs \<and> gnttab_table g1 = granted virt_to_mfn (rq_pages rq) (r # rs) (gnttab_table g)"
proof (cases "rs = []")
  case True
  have i: "0 < length (rq_pages rq)" "0 < length segs" "0 < length grefs" using l by simp_all
  obtain g0 where g0: "grant_page virt_to_mfn (rq_pages rq) 0 (of_int (start_sector rq)) (of_int (end_sector rq)) (segs, grefs, g) =
      Inr (segs[0 := \<lparr>seg_gref = r, first_sect = of_int (start_sector rq), last_sect = of_int (end_sector rq)\<rparr>], grefs[0 := r], g0)"
    "gnttab_rep g0 (rs @ xs)" "gnttab_table g0 = (gnttab_table g)(r := page_grant virt_to_mfn (rq_pages rq ! 0))"
    using grant_page_rep [OF g i] by blast
  obtain p ps where p: "rq_pages rq = p # ps" using i(1) by (cases "rq_pages rq") auto
  have u: "segs[0 := x] = x # drop 1 segs" "grefs[0 := r] = r # drop 1 grefs" for x
    using i by (cases segs; cases grefs; simp)+
  show ?thesis using g0 True n(1) p by (simp add: fill_segments_def request_segs_def u)
next
  case False
  have i: "0 < length (rq_pages rq)" "0 < length segs" "0 < length grefs" using l by simp_all
  let ?f = "of_int (start_sector rq) :: u8"
  obtain g0 where g0: "grant_page virt_to_mfn (rq_pages rq) 0 ?f 7 (segs, grefs, g) =
      Inr (segs[0 := \<lparr>seg_gref = r, first_sect = ?f, last_sect = 7\<rparr>], grefs[0 := r], g0)"
    "gnttab_rep g0 (rs @ xs)" "gnttab_table g0 = (gnttab_table g)(r := page_grant virt_to_mfn (rq_pages rq ! 0))"
    using grant_page_rep [OF g i] by blast
  obtain p ps where p: "rq_pages rq = p # ps" using i(1) by (cases "rq_pages rq") auto
  obtain s0 segs0 where s: "segs = s0 # segs0" using i(2) by (cases segs) auto
  obtain f0 grefs0 where f: "grefs = f0 # grefs0" using i(3) by (cases grefs) auto
  have ls: "length ps = 10" "length segs0 = 10" "length grefs0 = 10" using l p s f by simp_all
  let ?s0 = "\<lparr>seg_gref = r, first_sect = ?f, last_sect = 7\<rparr>"
  let ?m = "map (\<lambda>r. \<lparr>seg_gref = r, first_sect = 0, last_sect = 7\<rparr>) rs"
  obtain g1 where g1: "grant_pages virt_to_mfn (rq_pages rq) 1 (length rs) (?s0 # segs0, r # grefs0, g0) =
      Inr (?s0 # ?m @ drop (length rs) segs0, r # rs @ drop (length rs) grefs0, g1)"
    "gnttab_rep g1 xs" "gnttab_table g1 = granted virt_to_mfn ps rs (gnttab_table g0)"
    using grant_pages_rep [OF g0(2), of 1 "rq_pages rq" "?s0 # segs0" "r # grefs0" virt_to_mfn] ls n(2) p by auto
  have k: "nat (num_pages rq) = length rs + 1" "num_pages rq \<noteq> 1" using n(1) False by simp_all
  have d: "drop (length rs) segs0 = segs0 ! length rs # drop (length rs + 1) segs0"
    using ls n(2) by (simp add: Cons_nth_drop_Suc)
  have at: "aget (?s0 # ?m @ segs0 ! length rs # q) (Suc (length rs)) = Inr (segs0 ! length rs)"
    "aset (?s0 # ?m @ segs0 ! length rs # q) (Suc (length rs)) v = Inr (?s0 # ?m @ v # q)" for q v
    by (simp_all add: aget_def aset_def nth_append list_update_append)
  show ?thesis using g0 g1 False
    by (simp add: fill_segments_def request_segs_def k p s f d at SECTORS_PER_PAGE_def max_def)
qed

lemma end_access_quiet:
  assumes "gnttab_rep g xs" and "gnttab_ref r" "r \<notin> set xs"
    and "gt_flags (gnttab_table g r) AND (GTF_reading OR GTF_writing) = 0" and "obs = gt_flags (gnttab_table g r) # rest"
  obtains g1 where "gnttab_end_access r obs g = Some (Inr (True, g1))" "gnttab_rep g1 (r # xs)"
    "\<And>q. q \<noteq> r \<Longrightarrow> gnttab_table g1 q = gnttab_table g q"
proof -
  have "gnttab_rep (set_flags r 0 g) xs" using assms(1) by simp
  then obtain g1 where g1: "put_free_entry r (set_flags r 0 g) = Inr g1" "gnttab_rep g1 (r # xs)"
    using gt.put_rep assms(2,3) by blast
  have "gnttab_end_access r obs g = Some (Inr (True, g1))"
    using assms(2,4,5) g1(1) by (simp add: gnttab_end_access_def gnttab_ref_def)
  moreover have "gnttab_table g1 q = gnttab_table g q" if "q \<noteq> r" for q
    using put_free_entry_table [OF g1(1)] that by (simp add: set_flags_def)
  ultimately show thesis using g1(2) that by blast
qed

text \<open>A grant that the back end does not use: the loop of \<open>gnttab_end_access\<close> finds the flags it read.\<close>

definition quiet :: "gnttab \<Rightarrow> (nat \<Rightarrow> u16 list) \<Rightarrow> nat \<Rightarrow> bool" where
  "quiet g obs r = (gt_flags (gnttab_table g r) AND (GTF_reading OR GTF_writing) = 0 \<and>
     (\<exists>rest. obs r = gt_flags (gnttab_table g r) # rest))"

lemma complete_request_rep:
  assumes "gnttab_rep g xs" and "distinct (take n (drop i grefs) @ xs)" and "i + n \<le> length grefs"
    and "\<forall>r \<in> set (take n (drop i grefs)). gnttab_ref r \<and> quiet g obs r"
  shows "\<exists>g1. complete_request obs grefs i n g = Some (Inr g1) \<and> gnttab_rep g1 (rev (take n (drop i grefs)) @ xs) \<and>
    (\<forall>q. q \<notin> set (take n (drop i grefs)) \<longrightarrow> gnttab_table g1 q = gnttab_table g q)"
  using assms
proof (induction n arbitrary: i g xs)
  case 0
  then show ?case by simp
next
  case (Suc n)
  define r where "r = grefs ! i"
  have i: "i < length grefs" using Suc.prems(3) by simp
  have t: "take (Suc n) (drop i grefs) = r # take n (drop (i + 1) grefs)"
    using i by (simp add: r_def flip: Cons_nth_drop_Suc)
  let ?rs = "take n (drop (i + 1) grefs)"
  have r: "gnttab_ref r" "quiet g obs r" "r \<notin> set xs" "r \<notin> set ?rs" "distinct (?rs @ r # xs)"
    using Suc.prems(2,4) unfolding t by auto
  from r(2) obtain rest where q: "gt_flags (gnttab_table g r) AND (GTF_reading OR GTF_writing) = 0"
    "obs r = gt_flags (gnttab_table g r) # rest" unfolding quiet_def by blast
  obtain g1 where g1: "gnttab_end_access r (obs r) g = Some (Inr (True, g1))" "gnttab_rep g1 (r # xs)"
    "\<And>q. q \<noteq> r \<Longrightarrow> gnttab_table g1 q = gnttab_table g q"
    using end_access_quiet [OF Suc.prems(1) r(1,3) q] by blast
  have "\<forall>q \<in> set ?rs. gnttab_ref q \<and> quiet g1 obs q"
    using Suc.prems(4) r(4) g1(3) unfolding t quiet_def by (metis list.set_intros(2))
  then obtain g2 where "complete_request obs grefs (i + 1) n g1 = Some (Inr g2)"
    "gnttab_rep g2 (rev ?rs @ r # xs)" "\<forall>q. q \<notin> set ?rs \<longrightarrow> gnttab_table g2 q = gnttab_table g1 q"
    using Suc.IH [OF g1(2), of "i + 1"] r(5) Suc.prems(3) by auto
  then show ?case using i g1(1,3) unfolding t by (simp add: r_def)
qed

section \<open>The state of the driver\<close>

lemma get_id_flags: "get_freelist_id b = Inr (i, b1) \<Longrightarrow> bs_free b1 = (bs_free b)(i := False)"
  by (auto simp: get_freelist_id_def res_simps)

lemma add_id_flags: "add_id_freelist i b = Inr b1 \<Longrightarrow> bs_free b1 = (bs_free b)(i := True)"
  by (auto simp: add_id_freelist_def res_simps)

definition shadow_refs :: "blk_dev \<Rightarrow> nat \<Rightarrow> nat list" where
  "shadow_refs d i = take (nat (num_refs (shadows d ! i))) (sh_gref (shadows d ! i))"

definition request_of :: "blk_dev \<Rightarrow> nat \<Rightarrow> nat" where
  "request_of d i = sh_request (shadows d ! i)"

text \<open>The arrays have their sizes.\<close>

definition ring_ok :: "blkif_sring \<Rightarrow> bool" where
  "ring_ok r = (length (slots r) = BLK_RING_SIZE \<and> (\<forall>e \<in> set (slots r). length (e_seg e) = MAX_PAGES_PER_REQUEST))"

definition arrays_ok :: "blk_dev \<Rightarrow> bool" where
  "arrays_ok d = (ring_ok (sring d) \<and> length (shadows d) = BLK_RING_SIZE \<and>
     (\<forall>sh \<in> set (shadows d). length (sh_gref sh) = MAX_PAGES_PER_REQUEST))"

text \<open>
  The numbers \<open>pend\<close> belong to requests in flight, \<open>free\<close> is the free list, \<open>xs\<close> the list of
  free grants.  The pages of requests in flight are granted with references of their own.
\<close>

definition in_flight :: "blk_dev \<Rightarrow> nat list \<Rightarrow> nat list \<Rightarrow> nat list \<Rightarrow> bool" where
  "in_flight d pend free xs = (blk_rep (ids d) free \<and> distinct (pend @ free) \<and> (\<forall>i \<in> set pend. blk_id i) \<and>
     gnttab_rep (grants d) xs \<and> distinct (concat (map (shadow_refs d) pend) @ xs) \<and>
     (\<forall>i \<in> set pend. \<forall>r \<in> set (shadow_refs d i). gnttab_ref r) \<and>
     distinct (map (request_of d) pend) \<and>
     (\<forall>i \<in> set pend. \<not> bs_free (ids d) i \<and> rq_state (requests d (request_of d i)) = BLK_SUBMITTED \<and>
        nat (num_refs (shadows d ! i)) \<le> MAX_PAGES_PER_REQUEST))"

text \<open>The invariant between two calls: the ring holds the requests in flight.\<close>

definition blk_inv :: "blk_dev \<Rightarrow> nat list \<Rightarrow> nat list \<Rightarrow> nat list \<Rightarrow> bool" where
  "blk_inv d pend free xs = (ready d \<and> arrays_ok d \<and> in_flight d pend free xs \<and>
     unat (req_prod_pvt d - rsp_cons d) = length pend)"

lemma in_flight_few: "in_flight d pend free xs \<Longrightarrow> length pend + length free < BLK_RING_SIZE"
proof -
  assume d: "in_flight d pend free xs"
  then have "set (pend @ free) \<subseteq> {1..<BLK_RING_SIZE}" "distinct (pend @ free)"
    using blk.rep_valid unfolding in_flight_def blk_id_def by fastforce+
  then have "length (pend @ free) \<le> card {1..<BLK_RING_SIZE}"
    by (metis card_mono distinct_card finite_atLeastLessThan)
  then show ?thesis by (simp add: BLK_RING_SIZE_def)
qed

definition finished :: "int \<Rightarrow> blk_request \<Rightarrow> blk_request" where
  "finished status rq = rq\<lparr>rq_state := (if status = 0 then BLK_DONE_SUCCESS else BLK_DONE_ERROR)\<rparr>"

definition called :: "(blk_request \<Rightarrow> 'w \<Rightarrow> 'w) \<Rightarrow> blk_request \<Rightarrow> 'w \<Rightarrow> 'w" where
  "called f rq w = (if rq_callback rq \<noteq> None then f rq w else w)"

lemma finished_simps [simp]:
  "rq_callback (finished st rq) = rq_callback rq" "rq_state (finished st rq) \<noteq> BLK_SUBMITTED"
  by (simp_all add: finished_def)

lemma shadow_refs_simps [simp]:
  "shadow_refs (d\<lparr>grants := g\<rparr>) = shadow_refs d" "shadow_refs (d\<lparr>ids := a\<rparr>) = shadow_refs d"
  "shadow_refs (d\<lparr>requests := b\<rparr>) = shadow_refs d" "shadow_refs (d\<lparr>sring := c\<rparr>) = shadow_refs d"
  "shadow_refs (d\<lparr>rsp_cons := e\<rparr>) = shadow_refs d" "request_of (d\<lparr>grants := g\<rparr>) = request_of d"
  "request_of (d\<lparr>ids := a\<rparr>) = request_of d" "request_of (d\<lparr>requests := b\<rparr>) = request_of d"
  "request_of (d\<lparr>sring := c\<rparr>) = request_of d" "request_of (d\<lparr>rsp_cons := e\<rparr>) = request_of d"
  by (auto simp: shadow_refs_def request_of_def fun_eq_iff)

lemma in_flight_frame [simp]:
  "in_flight (d\<lparr>sring := c\<rparr>) = in_flight d" "in_flight (d\<lparr>rsp_cons := e\<rparr>) = in_flight d"
  by (simp_all add: in_flight_def fun_eq_iff)

lemma in_flight_done:
  assumes d: "in_flight d (ps @ i # qs) free xs"
    and g: "gnttab_rep g (rev (shadow_refs d i) @ xs)"
    and a: "add_id_freelist i (ids d) = Inr ids1" "blk_rep ids1 (i # free)"
  shows "in_flight (d\<lparr>grants := g, ids := ids1,
     requests := (requests d)(request_of d i := finished st (requests d (request_of d i)))\<rparr>)
     (ps @ qs) (i # free) (rev (shadow_refs d i) @ xs)"
proof -
  let ?d = "d\<lparr>grants := g, ids := ids1,
     requests := (requests d)(request_of d i := finished st (requests d (request_of d i)))\<rparr>"
  have D: "distinct ((ps @ i # qs) @ free)" "\<forall>j \<in> set (ps @ i # qs). blk_id j"
    "distinct (concat (map (shadow_refs d) (ps @ i # qs)) @ xs)"
    "\<forall>j \<in> set (ps @ i # qs). \<forall>r \<in> set (shadow_refs d j). gnttab_ref r"
    "distinct (map (request_of d) (ps @ i # qs))"
    "\<forall>j \<in> set (ps @ i # qs). \<not> bs_free (ids d) j \<and> rq_state (requests d (request_of d j)) = BLK_SUBMITTED \<and>
        nat (num_refs (shadows d ! j)) \<le> MAX_PAGES_PER_REQUEST"
    using d unfolding in_flight_def by blast+
  have f: "bs_free ids1 = (bs_free (ids d))(i := True)" by (rule add_id_flags [OF a(1)])
  have o: "request_of d j \<noteq> request_of d i" "j \<noteq> i" if "j \<in> set (ps @ qs)" for j
    using D(1,5) that by (auto simp: image_iff)
  have c1: "distinct ((ps @ qs) @ i # free)" "\<forall>j \<in> set (ps @ qs). blk_id j" using D(1,2) by auto
  have c2: "distinct (concat (map (shadow_refs d) (ps @ qs)) @ rev (shadow_refs d i) @ xs)"
    using D(3) by auto
  have c3: "\<forall>j \<in> set (ps @ qs). \<forall>r \<in> set (shadow_refs d j). gnttab_ref r"
    "distinct (map (request_of d) (ps @ qs))" using D(4,5) by auto
  have c4: "\<forall>j \<in> set (ps @ qs). \<not> bs_free ids1 j \<and> rq_state (requests ?d (request_of d j)) = BLK_SUBMITTED \<and>
        nat (num_refs (shadows d ! j)) \<le> MAX_PAGES_PER_REQUEST"
    using D(6) o by (auto simp: f)
  show ?thesis using c1 c2 c3 c4 g a(2) by (simp add: in_flight_def)
qed

lemma handle_response_step:
  assumes d: "arrays_ok d" "in_flight d (ps @ i # qs) free xs"
    and e: "e_head (slots (sring d) ! slot cons) = Response_head (of_nat i) op st"
    and q: "\<forall>r \<in> set (shadow_refs d i). quiet (grants d) obs r"
    and f: "\<And>rq w. callback rq w = Inr (f rq w)"
  obtains g ids1 where
    "handle_response callback obs cons d w = Some (Inr (d\<lparr>grants := g, ids := ids1,
       requests := (requests d)(request_of d i := finished st (requests d (request_of d i)))\<rparr>,
       called f (finished st (requests d (request_of d i))) w))"
    "in_flight (d\<lparr>grants := g, ids := ids1,
       requests := (requests d)(request_of d i := finished st (requests d (request_of d i)))\<rparr>)
       (ps @ qs) (i # free) (rev (shadow_refs d i) @ xs)"
    "\<And>r. r \<notin> set (shadow_refs d i) \<Longrightarrow> gnttab_table g r = gnttab_table (grants d) r"
proof -
  have D: "blk_rep (ids d) free" "blk_id i" "i \<notin> set free" "gnttab_rep (grants d) xs"
    "distinct (shadow_refs d i @ xs)" "\<forall>r \<in> set (shadow_refs d i). gnttab_ref r" "\<not> bs_free (ids d) i"
    "rq_state (requests d (request_of d i)) = BLK_SUBMITTED" "nat (num_refs (shadows d ! i)) \<le> MAX_PAGES_PER_REQUEST"
    using d(2) by (auto simp: in_flight_def)
  have i: "i < BLK_RING_SIZE" "i < length (shadows d)" "slot cons < length (slots (sring d))"
    using D(2) d(1) slot_less by (simp_all add: blk_id_def arrays_ok_def ring_ok_def)
  have u: "unat (of_nat i :: u64) = i"
    using i(1) by (simp add: BLK_RING_SIZE_def unat_of_nat take_bit_nat_eq_self)
  have l: "length (sh_gref (shadows d ! i)) = MAX_PAGES_PER_REQUEST" using d(1) i(2) by (simp add: arrays_ok_def)
  obtain g where g: "complete_request obs (sh_gref (shadows d ! i)) 0 (nat (num_refs (shadows d ! i))) (grants d) = Some (Inr g)"
    "gnttab_rep g (rev (shadow_refs d i) @ xs)"
    "\<forall>r. r \<notin> set (shadow_refs d i) \<longrightarrow> gnttab_table g r = gnttab_table (grants d) r"
    using complete_request_rep [OF D(4), of "nat (num_refs (shadows d ! i))" 0 "sh_gref (shadows d ! i)" obs] D(5,6,9) q l
    by (auto simp: shadow_refs_def)
  obtain ids1 where a: "add_id_freelist i (ids d) = Inr ids1" "blk_rep ids1 (i # free)"
    using blk.put_rep [OF D(1,2,3)] by blast
  have "handle_response callback obs cons d w = Some (Inr (d\<lparr>grants := g, ids := ids1,
       requests := (requests d)(request_of d i := finished st (requests d (request_of d i)))\<rparr>,
       called f (finished st (requests d (request_of d i))) w))"
    using i(2,3) e u D(7,8) g(1) a(1) f
    by (simp add: handle_response_def Let_def request_of_def finished_def called_def)
  then show thesis using in_flight_done [OF d(2) g(2) a] g(3) that by blast
qed

text \<open>A list of responses: the number, the operation and the status of each.\<close>

type_synonym responses = "(nat \<times> u8 \<times> int) list"

definition on_ring :: "blkif_sring \<Rightarrow> u32 \<Rightarrow> responses \<Rightarrow> bool" where
  "on_ring r cons rs = (\<forall>k < length rs. e_head (slots r ! slot (cons + of_nat k)) =
     (case rs ! k of (i, op, st) \<Rightarrow> Response_head (of_nat i) op st))"

definition finish_all :: "blk_dev \<Rightarrow> responses \<Rightarrow> nat \<Rightarrow> blk_request" where
  "finish_all d rs = fold (\<lambda>(i, op, st) q. q(request_of d i := finished st (q (request_of d i)))) rs (requests d)"

definition call_all :: "(blk_request \<Rightarrow> 'w \<Rightarrow> 'w) \<Rightarrow> blk_dev \<Rightarrow> responses \<Rightarrow> 'w \<Rightarrow> 'w" where
  "call_all f d rs w = fold (\<lambda>(i, op, st). called f (finished st (requests d (request_of d i)))) rs w"

definition returned :: "blk_dev \<Rightarrow> responses \<Rightarrow> nat list" where
  "returned d rs = rev (concat (map (\<lambda>(i, op, st). shadow_refs d i) rs))"

lemma on_ring_Cons:
  assumes "on_ring r cons ((i, op, st) # rs)"
  shows "e_head (slots r ! slot cons) = Response_head (of_nat i) op st" and "on_ring r (cons + 1) rs"
proof -
  have a: "k < Suc (length rs) \<Longrightarrow> e_head (slots r ! slot (cons + of_nat k)) =
     (case ((i, op, st) # rs) ! k of (i, op, st) \<Rightarrow> Response_head (of_nat i) op st)" for k
    using assms unfolding on_ring_def by simp
  show "e_head (slots r ! slot cons) = Response_head (of_nat i) op st" using a [of 0] by simp
  show "on_ring r (cons + 1) rs" unfolding on_ring_def
  proof (intro allI impI)
    fix k assume "k < length rs"
    then show "e_head (slots r ! slot (cons + 1 + of_nat k)) =
        (case rs ! k of (i, op, st) \<Rightarrow> Response_head (of_nat i) op st)"
      using a [of "Suc k"] by (simp add: add.assoc)
  qed
qed

lemma arrays_ok_frame [simp]: "arrays_ok (d\<lparr>grants := g, ids := a, requests := b\<rparr>) = arrays_ok d"
  by (simp add: arrays_ok_def)

lemma handle_responses_all:
  assumes "arrays_ok d" and "in_flight d pend free xs" and "on_ring (sring d) cons rs"
    and "distinct (map fst rs)" "fst ` set rs \<subseteq> set pend"
    and "\<forall>i \<in> fst ` set rs. \<forall>r \<in> set (shadow_refs d i). quiet (grants d) obs r"
    and f: "\<And>rq w. callback rq w = Inr (f rq w)"
  shows "\<exists>g a. handle_responses callback obs (length rs) cons d w =
      Some (Inr (d\<lparr>grants := g, ids := a, requests := finish_all d rs\<rparr>, call_all f d rs w)) \<and>
    in_flight (d\<lparr>grants := g, ids := a, requests := finish_all d rs\<rparr>)
      (filter (\<lambda>i. i \<notin> fst ` set rs) pend) (rev (map fst rs) @ free) (returned d rs @ xs)"
  using assms(1-6)
proof (induction rs arbitrary: d cons pend free xs w)
  case Nil
  have "d\<lparr>grants := grants d, ids := ids d, requests := requests d\<rparr> = d" by simp
  moreover have "finish_all d [] = requests d" "call_all f d [] w = w" "returned d [] = []"
    by (simp_all add: finish_all_def call_all_def returned_def)
  ultimately show ?case using Nil(2) by (intro exI [of _ "grants d"] exI [of _ "ids d"]) simp
next
  case (Cons x rs)
  obtain i op st where x: "x = (i, op, st)" by (cases x)
  note prems = Cons.prems [unfolded x]
  have "i \<in> set pend" using prems(5) by simp
  then obtain ps qs where p: "pend = ps @ i # qs" by (meson split_list)
  have e: "e_head (slots (sring d) ! slot cons) = Response_head (of_nat i) op st" "on_ring (sring d) (cons + 1) rs"
    using on_ring_Cons [OF prems(3)] by simp_all
  have q: "\<forall>r \<in> set (shadow_refs d i). quiet (grants d) obs r" using prems(6) by simp
  let ?Q = "(requests d)(request_of d i := finished st (requests d (request_of d i)))"
  obtain g a where s: "handle_response callback obs cons d w = Some (Inr (d\<lparr>grants := g, ids := a, requests := ?Q\<rparr>,
       called f (finished st (requests d (request_of d i))) w))"
    "in_flight (d\<lparr>grants := g, ids := a, requests := ?Q\<rparr>) (ps @ qs) (i # free) (rev (shadow_refs d i) @ xs)"
    "\<And>r. r \<notin> set (shadow_refs d i) \<Longrightarrow> gnttab_table g r = gnttab_table (grants d) r"
    using handle_response_step [where w = w and callback = callback and f = f,
        OF prems(1) prems(2) [unfolded p] e(1) q f] by blast
  let ?d = "d\<lparr>grants := g, ids := a, requests := ?Q\<rparr>"
  have D: "distinct pend" "distinct (concat (map (shadow_refs d) pend))" "distinct (map (request_of d) pend)"
    using prems(2) by (auto simp: in_flight_def)
  have ni: "i \<notin> fst ` set rs" "distinct (map fst rs)" using prems(4) by auto
  have sub: "fst ` set rs \<subseteq> set (ps @ qs)" using prems(5) ni(1) p by auto
  have o: "request_of d j \<noteq> request_of d i" "set (shadow_refs d j) \<inter> set (shadow_refs d i) = {}" if "j \<in> set (ps @ qs)" for j
    using D(2,3) that unfolding p by (auto simp: image_iff)
  have qr: "\<forall>j \<in> fst ` set rs. \<forall>r \<in> set (shadow_refs ?d j). quiet (grants ?d) obs r"
  proof (intro ballI)
    fix j r assume j: "j \<in> fst ` set rs" "r \<in> set (shadow_refs ?d j)"
    then have "r \<notin> set (shadow_refs d i)" "quiet (grants d) obs r" using o(2) [of j] sub prems(6) by auto
    then show "quiet (grants ?d) obs r" using s(3) by (simp add: quiet_def)
  qed
  have fin: "finish_all ?d rs = finish_all d ((i, op, st) # rs)" by (simp add: finish_all_def)
  have "fold (\<lambda>(j, op, st'). called f (finished st' (?Q (request_of d j)))) rs v =
      fold (\<lambda>(j, op, st'). called f (finished st' (requests d (request_of d j)))) rs v" for v
  proof (rule fold_cong)
    fix y assume "y \<in> set rs"
    then show "(case y of (j, op, st') \<Rightarrow> called f (finished st' (?Q (request_of d j)))) =
        (case y of (j, op, st') \<Rightarrow> called f (finished st' (requests d (request_of d j))))"
      using o(1) sub by (auto split: prod.split)
  qed simp_all
  then have cal: "call_all f ?d rs (called f (finished st (requests d (request_of d i))) w) = call_all f d ((i, op, st) # rs) w"
    by (simp add: call_all_def)
  have "returned ?d rs @ rev (shadow_refs d i) = returned d ((i, op, st) # rs)" by (simp add: returned_def)
  then have ret: "returned ?d rs @ rev (shadow_refs d i) @ xs = returned d ((i, op, st) # rs) @ xs"
    by (metis append.assoc)
  have fil: "filter (\<lambda>j. j \<notin> fst ` set rs) (ps @ qs) = filter (\<lambda>j. j \<notin> fst ` set ((i, op, st) # rs)) pend"
  proof -
    have "filter (\<lambda>j. j \<notin> fst ` set rs) l = filter (\<lambda>j. j \<notin> fst ` set ((i, op, st) # rs)) l" if "i \<notin> set l" for l
      using that by (intro filter_cong) auto
    then show ?thesis using D(1) unfolding p by simp
  qed
  have ao: "arrays_ok ?d" using prems(1) by simp
  have orr: "on_ring (sring ?d) (cons + 1) rs" using e(2) by simp
  obtain g1 a1 where h: "handle_responses callback obs (length rs) (cons + 1) ?d (called f (finished st (requests d (request_of d i))) w) =
      Some (Inr (?d\<lparr>grants := g1, ids := a1, requests := finish_all ?d rs\<rparr>,
        call_all f ?d rs (called f (finished st (requests d (request_of d i))) w)))"
    "in_flight (?d\<lparr>grants := g1, ids := a1, requests := finish_all ?d rs\<rparr>)
      (filter (\<lambda>j. j \<notin> fst ` set rs) (ps @ qs)) (rev (map fst rs) @ i # free) (returned ?d rs @ rev (shadow_refs d i) @ xs)"
    using Cons.IH [OF ao s(2) orr ni(2) sub qr] by blast
  have u: "?d\<lparr>grants := g1, ids := a1, requests := finish_all ?d rs\<rparr> =
      d\<lparr>grants := g1, ids := a1, requests := finish_all d ((i, op, st) # rs)\<rparr>" unfolding fin by simp
  show ?case unfolding x
    using s(1) h unfolding u cal ret fil by (intro exI [of _ g1] exI [of _ a1]) simp
qed

section \<open>A request\<close>

lemma length_filter_notin:
  assumes "distinct xs" and "distinct ys" and "set ys \<subseteq> set xs"
  shows "length (filter (\<lambda>x. x \<notin> set ys) xs) = length xs - length ys"
proof -
  have "length (filter (\<lambda>x. x \<notin> set ys) xs) = card (set xs - set ys)"
    using assms(1) distinct_card [of "filter (\<lambda>x. x \<notin> set ys) xs"] by (simp add: set_diff_eq)
  then show ?thesis using assms by (simp add: card_Diff_subset distinct_card)
qed

lemma distance_shrinks:
  fixes p c :: u32
  assumes "n \<le> unat (p - c)"
  shows "unat (p - (c + of_nat n)) = unat (p - c) - n"
proof -
  have "n < 2 ^ 32" using assms unat_less_pow [of "p - c"] by (simp add: le_less_trans)
  then have n: "unat (of_nat n :: u32) = n" by (simp add: unat_of_nat take_bit_nat_eq_self)
  then have "(of_nat n :: u32) \<le> p - c" using assms by (simp add: word_le_nat_alt)
  then have "unat (p - c - of_nat n) = unat (p - c) - n" using n by (simp add: unat_sub)
  then show ?thesis by (simp add: algebra_simps)
qed

lemma distance_grows:
  fixes p c :: u32
  assumes "unat (p - c) < 31"
  shows "unat (p + 1 - c) = unat (p - c) + 1"
proof -
  have e: "p + 1 - c = (p - c) + 1" by simp
  have "unat ((p - c) + 1) = unat (p - c) + 1" using assms by (simp add: unat_word_ariths)
  then show ?thesis unfolding e .
qed

text \<open>The request may be sent: its fields are in range and its end lies on the device, as far as
  \<^verbatim>\<open>blk_do_io\<close> checks it.\<close>

definition sendable :: "blk_dev \<Rightarrow> nat \<Rightarrow> bool" where
  "sendable d io_req = (let rq = requests d io_req in
     rq_state rq = BLK_EMPTY \<and> rq_device rq = 0 \<and> length (rq_pages rq) = MAX_PAGES_PER_REQUEST \<and>
     \<not> drop_bit SECTOR_BITS (rq_address rq) + of_int (end_sector rq) > of_int (sectors d))"

definition sent_entry :: "blk_request \<Rightarrow> nat \<Rightarrow> nat list \<Rightarrow> segment list \<Rightarrow> ring_entry" where
  "sent_entry rq i rs old =
     \<lparr>e_head = Request_head (rq_operation rq) (of_int (num_pages rq)) 0x12 (of_nat i),
      e_sector = rq_address rq div 512, e_seg = request_segs rq (hd rs) (tl rs) old\<rparr>"

lemma do_io_lemma:
  assumes d: "blk_inv d pend (i # free) (rs @ xs)" and s: "sendable d io_req"
    and n: "num_pages (requests d io_req) = int (length rs)" "rs \<noteq> []" "length rs \<le> 10"
    and m: "\<And>r. slots (m r) = slots r"
  obtains d1 notify where "blk_do_io v m io_req d = Inr (0, notify, d1)" "blk_inv d1 (i # pend) free xs"
    "requests d1 = (requests d)(io_req := (requests d io_req)\<lparr>rq_state := BLK_SUBMITTED\<rparr>)"
    "shadow_refs d1 i = rs" "request_of d1 i = io_req"
    "gnttab_table (grants d1) = granted v (rq_pages (requests d io_req)) rs (gnttab_table (grants d))"
    "slots (sring d1) = (slots (sring d))[slot (req_prod_pvt d) :=
       sent_entry (requests d io_req) i rs (e_seg (slots (sring d) ! slot (req_prod_pvt d)))]"
    "req_prod_pvt d1 = req_prod_pvt d + 1" "rsp_cons d1 = rsp_cons d"
proof -
  let ?rq = "requests d io_req" and ?k = "slot (req_prod_pvt d)"
  obtain r rs' where rs: "rs = r # rs'" using n(2) by (cases rs) auto
  have D: "ready d" "arrays_ok d" "in_flight d pend (i # free) (rs @ xs)"
    "unat (req_prod_pvt d - rsp_cons d) = length pend" using d by (simp_all add: blk_inv_def)
  have I: "blk_rep (ids d) (i # free)" "distinct (pend @ i # free)" "\<forall>j \<in> set pend. blk_id j"
    "gnttab_rep (grants d) (r # rs' @ xs)" "distinct (concat (map (shadow_refs d) pend) @ rs @ xs)"
    "\<forall>j \<in> set pend. \<forall>q \<in> set (shadow_refs d j). gnttab_ref q" "distinct (map (request_of d) pend)"
    "\<forall>j \<in> set pend. \<not> bs_free (ids d) j \<and> rq_state (requests d (request_of d j)) = BLK_SUBMITTED \<and>
        nat (num_refs (shadows d ! j)) \<le> MAX_PAGES_PER_REQUEST"
    using D(3) unfolding in_flight_def rs by auto
  have i: "blk_id i" "i < BLK_RING_SIZE" "i \<noteq> 0" using blk.rep_valid [OF I(1)] by (auto simp: blk_id_def)
  have A: "length (slots (sring d)) = BLK_RING_SIZE" "\<forall>e \<in> set (slots (sring d)). length (e_seg e) = 11"
    "length (shadows d) = BLK_RING_SIZE" "\<forall>sh \<in> set (shadows d). length (sh_gref sh) = 11"
    using D(2) by (simp_all add: arrays_ok_def ring_ok_def MAX_PAGES_PER_REQUEST_def)
  have k: "?k < length (slots (sring d))" "i < length (shadows d)" using A slot_less i(2) by simp_all
  have l: "length (rq_pages ?rq) = 11" "length (e_seg (slots (sring d) ! ?k)) = 11" "length (sh_gref (shadows d ! i)) = 11"
    using A k s by (simp_all add: sendable_def Let_def MAX_PAGES_PER_REQUEST_def)
  obtain a where a: "get_freelist_id (ids d) = Inr (i, a)" "blk_rep a free" using blk.get_rep [OF I(1)] by blast
  have fl: "bs_free a = (bs_free (ids d))(i := False)" by (rule get_id_flags [OF a(1)])
  have n': "num_pages ?rq = int (length rs') + 1" "length rs' < 10" using n rs by simp_all
  obtain g where g: "fill_segments v ?rq (e_seg (slots (sring d) ! ?k), sh_gref (shadows d ! i), grants d) =
      Inr (request_segs ?rq r rs' (e_seg (slots (sring d) ! ?k)), r # rs' @ drop (length rs' + 1) (sh_gref (shadows d ! i)), g)"
    "gnttab_rep g xs" "gnttab_table g = granted v (rq_pages ?rq) (r # rs') (gnttab_table (grants d))"
    using fill_segments_rep [OF I(4) n' l, of v] by blast
  have short: "sint (of_int (num_pages ?rq) :: u16) = int (length rs)"
    using n by (simp add: signed_of_nat signed_take_bit_int_eq_self)
  define sh where "sh = \<lparr>sh_gref = r # rs' @ drop (length rs' + 1) (sh_gref (shadows d ! i)),
    num_refs = int (length rs), sh_request = io_req\<rparr>"
  define en where "en = sent_entry ?rq i rs (e_seg (slots (sring d) ! ?k))"
  define d0 where "d0 = d\<lparr>ids := a, grants := g, shadows := (shadows d)[i := sh],
      sring := (sring d)\<lparr>slots := (slots (sring d))[?k := en]\<rparr>,
      requests := (requests d)(io_req := ?rq\<lparr>rq_state := BLK_SUBMITTED\<rparr>), req_prod_pvt := req_prod_pvt d + 1\<rparr>"
  define d1 where "d1 = snd (push_requests m d0)"
  have run: "blk_do_io v m io_req d = Inr (0, fst (push_requests m d0), d1)"
    using s D(1) k a(1) g(1) i(3)
    by (simp add: blk_do_io_def Let_def sendable_def bug_on_def MAX_DEVICES_def d1_def d0_def sh_def en_def
        sent_entry_def rs short split: prod.split)
  have p: "slots (sring d1) = (slots (sring d))[?k := en]" "shadows d1 = (shadows d)[i := sh]" "ids d1 = a"
    "grants d1 = g" "requests d1 = (requests d)(io_req := ?rq\<lparr>rq_state := BLK_SUBMITTED\<rparr>)" "ready d1 = ready d"
    "req_prod_pvt d1 = req_prod_pvt d + 1" "rsp_cons d1 = rsp_cons d"
    using m by (simp_all add: d1_def d0_def push_requests_def Let_def)
  have nn: "nat (1 + int (length rs')) = Suc (length rs')" by arith
  have new: "shadow_refs d1 i = rs" "request_of d1 i = io_req"
    using k(2) rs by (simp_all add: shadow_refs_def request_of_def p sh_def nn)
  have old: "shadow_refs d1 j = shadow_refs d j" "request_of d1 j = request_of d j" "shadows d1 ! j = shadows d ! j"
    if "j \<in> set pend" for j
  proof -
    have "j \<noteq> i" using that I(2) by auto
    then show "shadow_refs d1 j = shadow_refs d j" "request_of d1 j = request_of d j" "shadows d1 ! j = shadows d ! j"
      by (simp_all add: shadow_refs_def request_of_def p)
  qed
  have fresh: "request_of d j \<noteq> io_req" if "j \<in> set pend" for j
    using that I(8) s by (auto simp: sendable_def Let_def)
  have c1: "map (shadow_refs d1) pend = map (shadow_refs d) pend" "map (request_of d1) pend = map (request_of d) pend"
    using old by auto
  have ra: "\<forall>q \<in> set rs. gnttab_ref q" using gt.rep_valid [OF I(4)] rs by auto
  have "in_flight d1 (i # pend) free xs"
    unfolding in_flight_def
  proof (intro conjI)
    show "blk_rep (ids d1) free" "gnttab_rep (grants d1) xs" using a(2) g(2) by (simp_all add: p)
    show "distinct ((i # pend) @ free)" "\<forall>j \<in> set (i # pend). blk_id j" using I(2,3) i(1) by auto
    show "distinct (concat (map (shadow_refs d1) (i # pend)) @ xs)" using I(5) new(1) by (auto simp: c1(1))
    show "\<forall>j \<in> set (i # pend). \<forall>q \<in> set (shadow_refs d1 j). gnttab_ref q" using I(6) ra new(1) old(1) by auto
    show "distinct (map (request_of d1) (i # pend))" 
    proof -
      have "io_req \<notin> set (map (request_of d) pend)" using fresh by auto
      then show ?thesis using I(7) by (simp only: list.map distinct.simps c1(2) new(2) simp_thms)
    qed
    show "\<forall>j \<in> set (i # pend). \<not> bs_free (ids d1) j \<and> rq_state (requests d1 (request_of d1 j)) = BLK_SUBMITTED \<and>
        nat (num_refs (shadows d1 ! j)) \<le> MAX_PAGES_PER_REQUEST"
    proof (intro ballI)
      fix j assume j: "j \<in> set (i # pend)"
      show "\<not> bs_free (ids d1) j \<and> rq_state (requests d1 (request_of d1 j)) = BLK_SUBMITTED \<and>
        nat (num_refs (shadows d1 ! j)) \<le> MAX_PAGES_PER_REQUEST"
      proof (cases "j = i")
        case True
        then show ?thesis using new(2) n(3) k(2) by (simp add: p fl sh_def MAX_PAGES_PER_REQUEST_def)
      next
        case False
        then have "j \<in> set pend" using j by simp
        then show ?thesis using I(8) False old(2,3) fresh by (simp add: p(3,5) fl)
      qed
    qed
  qed
  moreover have "arrays_ok d1"
    using A k l n' rs
    by (auto simp: arrays_ok_def ring_ok_def p MAX_PAGES_PER_REQUEST_def en_def sent_entry_def sh_def
        length_request_segs dest!: set_update_subset_insert [THEN subsetD])
  moreover have "unat (req_prod_pvt d1 - rsp_cons d1) = length (i # pend)"
    using distance_grows [of "req_prod_pvt d" "rsp_cons d"] D(4) in_flight_few [OF D(3)]
    by (simp add: p BLK_RING_SIZE_def)
  ultimately have "blk_inv d1 (i # pend) free xs" using D(1) by (simp add: blk_inv_def p)
  then show thesis using run new p g(3) rs that unfolding en_def by metis
qed

lemma in_flight_eq:
  assumes "ids a = ids b" "grants a = grants b" "shadows a = shadows b" "requests a = requests b"
  shows "in_flight a = in_flight b"
proof -
  have "shadow_refs a = shadow_refs b" "request_of a = request_of b"
    using assms(3) by (simp_all add: shadow_refs_def request_of_def fun_eq_iff)
  then show ?thesis using assms by (intro ext) (simp add: in_flight_def)
qed

text \<open>The back end answers requests in flight; the handler takes the answers.\<close>

lemma handler_lemma:
  assumes d: "blk_inv d pend free xs"
    and r: "ring_ok (m1 (sring d))" "rsp_prod (m1 (sring d)) = rsp_cons d + of_nat (length rs)"
      "on_ring (m1 (sring d)) (rsp_cons d) rs"
    and i: "distinct (map fst rs)" "fst ` set rs \<subseteq> set pend"
    and q: "\<forall>i \<in> fst ` set rs. \<forall>r \<in> set (shadow_refs d i). quiet (grants d) obs r"
    and m: "\<And>r. rsp_prod (m2 r) = rsp_prod r \<and> (ring_ok r \<longrightarrow> ring_ok (m2 r))"
      "\<And>r. rsp_prod (m3 r) = rsp_prod r \<and> (ring_ok r \<longrightarrow> ring_ok (m3 r))"
    and f: "\<And>rq w. callback rq w = Inr (f rq w)"
  shows "\<exists>d1. blk_front_handler callback obs [(m1, m2, m3)] d w = Some (Inr (d1, call_all f d rs w)) \<and>
    blk_inv d1 (filter (\<lambda>i. i \<notin> fst ` set rs) pend) (rev (map fst rs) @ free) (returned d rs @ xs) \<and>
    requests d1 = finish_all d rs \<and> rsp_cons d1 = rsp_cons d + of_nat (length rs) \<and> req_prod_pvt d1 = req_prod_pvt d"
proof -
  let ?d = "d\<lparr>sring := m1 (sring d)\<rparr>"
  have D: "ready d" "arrays_ok d" "in_flight d pend free xs" "unat (req_prod_pvt d - rsp_cons d) = length pend"
    using d by (simp_all add: blk_inv_def)
  have sub: "set (map fst rs) \<subseteq> set pend" using i(2) by simp
  have dp: "distinct pend" using D(3) by (simp add: in_flight_def)
  have len: "length rs \<le> length pend"
    using card_mono [OF finite_set sub] distinct_card [OF i(1)] distinct_card [OF dp] by simp
  have few: "length rs < 2 ^ 32" using len in_flight_few [OF D(3)] by (simp add: BLK_RING_SIZE_def)
  have n: "unat (rsp_prod (sring ?d) - rsp_cons ?d) = length rs"
    using few r(2) by (simp add: unat_of_nat take_bit_nat_eq_self)
  have a: "arrays_ok ?d" "in_flight ?d pend free xs" "on_ring (sring ?d) (rsp_cons d) rs"
    "\<forall>i \<in> fst ` set rs. \<forall>r \<in> set (shadow_refs ?d i). quiet (grants ?d) obs r"
    using D(2,3) r q by (simp_all add: arrays_ok_def)
  obtain g b where h: "handle_responses callback obs (length rs) (rsp_cons d) ?d w =
      Some (Inr (?d\<lparr>grants := g, ids := b, requests := finish_all ?d rs\<rparr>, call_all f ?d rs w))"
    "in_flight (?d\<lparr>grants := g, ids := b, requests := finish_all ?d rs\<rparr>)
      (filter (\<lambda>i. i \<notin> fst ` set rs) pend) (rev (map fst rs) @ free) (returned ?d rs @ xs)"
    using handle_responses_all [where callback = callback and f = f and w = w, OF a(1,2,3) i a(4) f] by blast
  have s: "finish_all ?d rs = finish_all d rs" "call_all f ?d rs w = call_all f d rs w" "returned ?d rs = returned d rs"
    by (simp_all add: finish_all_def call_all_def returned_def)
  define d2 where "d2 = ?d\<lparr>grants := g, ids := b, requests := finish_all d rs, rsp_cons := rsp_prod (m1 (sring d))\<rparr>"
  define d1 where "d1 = (if rsp_prod (m1 (sring d)) \<noteq> req_prod_pvt d
    then d2\<lparr>sring := m3 ((m2 (m1 (sring d)))\<lparr>rsp_event := rsp_prod (m1 (sring d)) + 1\<rparr>)\<rparr>
    else d2\<lparr>sring := (m1 (sring d))\<lparr>rsp_event := rsp_prod (m1 (sring d)) + 1\<rparr>\<rparr>)"
  have run: "blk_front_handler callback obs [(m1, m2, m3)] d w = Some (Inr (d1, call_all f d rs w))"
    using D(1) h(1) n m by (simp add: blk_front_handler_def Let_def s d1_def d2_def)
  have ro: "ring_ok (r\<lparr>rsp_event := e\<rparr>) = ring_ok r" for r e by (simp add: ring_ok_def)
  have p: "ids d1 = b" "grants d1 = g" "requests d1 = finish_all d rs" "shadows d1 = shadows d" "ready d1"
    "rsp_cons d1 = rsp_cons d + of_nat (length rs)" "req_prod_pvt d1 = req_prod_pvt d" "ring_ok (sring d1)"
    using D(1) r(1,2) m by (simp_all add: d1_def d2_def ro)
  have "in_flight d1 (filter (\<lambda>i. i \<notin> fst ` set rs) pend) (rev (map fst rs) @ free) (returned d rs @ xs)"
    using h(2) in_flight_eq [of d1 "?d\<lparr>grants := g, ids := b, requests := finish_all d rs\<rparr>"] p unfolding s by simp
  moreover have "arrays_ok d1" using D(2) p by (simp add: arrays_ok_def)
  moreover have "unat (req_prod_pvt d1 - rsp_cons d1) = length (filter (\<lambda>i. i \<notin> fst ` set rs) pend)"
    using distance_shrinks [of "length rs" "req_prod_pvt d" "rsp_cons d"] D(4) len p(6,7)
      length_filter_notin [OF dp i(1) sub] by simp
  ultimately show ?thesis using run p by (intro exI [of _ d1]) (simp add: blk_inv_def)
qed

text \<open>Without a free number a request is refused and nothing is sent.\<close>

lemma do_io_no_number:
  assumes d: "blk_inv d pend [] xs" and s: "sendable d io_req"
  shows "\<exists>a. blk_do_io v m io_req d = Inr (ENOMEM, False, d\<lparr>ids := a\<rparr>) \<and> blk_rep a []"
proof -
  have "blk_rep (ids d) []" "slot (req_prod_pvt d) < length (slots (sring d))" "ready d"
    using d slot_less by (simp_all add: blk_inv_def in_flight_def arrays_ok_def ring_ok_def)
  then show ?thesis using get_id_zero [of "ids d"] s
    by (auto simp: blk_do_io_def Let_def sendable_def bug_on_def MAX_DEVICES_def)
qed

section \<open>The buffer of a read\<close>

lemma uint_int64: "0 \<le> x \<Longrightarrow> x < 2 ^ 64 \<Longrightarrow> uint (of_int x :: u64) = x"
  by (simp add: unsigned_of_int take_bit_int_eq_self)

lemma request_pages_rest:
  "request_pages base pages i sz = Inr (p, j, rest) \<Longrightarrow> 0 < sz \<Longrightarrow> sz < 2 ^ 31 \<Longrightarrow> rest = (sz - 1) mod 4096 + 1"
proof (induction base pages i sz arbitrary: p j rest rule: request_pages.induct)
  case (1 base pages i sz)
  have u: "uint (of_int sz :: u64) = sz" using "1.prems" by (intro uint_int64) simp_all
  note e = "1.prems"(1) [unfolded request_pages.simps [of base pages i sz] u]
  show ?case
  proof (cases "sz > 4096")
    case True
    then have "request_pages base (pages[i := base + i * 4096]) (i + 1) (sz - 4096) = Inr (p, j, rest)" "i < length pages"
      using e by (simp_all split: if_splits)
    then have "rest = (sz - 4096 - 1) mod 4096 + 1" using "1.IH" True u "1.prems"(3) by simp
    then show ?thesis using mod_add_self2 [of "sz - 4096 - 1" "4096 :: int"] by simp
  next
    case False
    then have "rest = sz" using e by (auto simp: res_simps)
    then show ?thesis using False "1.prems"(2) by (simp add: mod_pos_pos_trivial)
  qed
qed

text \<open>
  \<^verbatim>\<open>blk_read\<close> into a buffer that is not aligned copies only as many bytes as the last page holds,
  from the first page: \<^verbatim>\<open>size\<close> was counted down while the pages were listed.  It reports success.
\<close>

lemma unaligned_read_truncated:
  assumes r: "blk_read_start alloc v m io_req old compl device address buf sz d = Inr (fr, d1)" "fr_error fr = 0"
    and b: "unaligned buf sz" "0 < sz" "sz < 2 ^ 31"
    and e: "rq_state (requests d2 io_req) = BLK_DONE_SUCCESS"
    and a: "buf + nat sz \<le> length mem" "fr_pages fr + nat sz \<le> length mem" "buf + nat sz \<le> fr_pages fr"
  shows "\<exists>mem1. blk_read_finish io_req buf fr d2 mem = Inr (sz div 512, [(fr_pages fr, fr_order fr)], mem1) \<and>
    (\<forall>k. nat ((sz - 1) mod 4096 + 1) \<le> k \<and> k < nat sz \<longrightarrow> mem1 ! (buf + k) = mem ! (buf + k))"
proof -
  let ?n = "nat ((sz - 1) mod 4096 + 1)"
  have n: "?n \<le> nat sz" "(sz - 1) mod 4096 + 1 < 2 ^ 64" "0 \<le> (sz - 1) mod 4096 + 1"
    using b(2) zmod_le_nonneg_dividend [of "sz - 1" 4096] pos_mod_bound [of 4096 "sz - 1"] by (simp_all add: nat_le_iff)
  obtain p j rest where q: "request_pages (fr_pages fr) old 0 sz = Inr (p, j, rest)" "fr_size fr = rest"
    "fr_sectors fr = sz div 512" "fr_free_buf fr"
    using r(1) b(1)
    by (auto simp: blk_read_start_def make_request_def blk_start_def Let_def res_simps split: prod.splits)
  have s: "fr_size fr = (sz - 1) mod 4096 + 1" using request_pages_rest [OF q(1) b(2,3)] q(2) by simp
  then have u: "uint (of_int (fr_size fr) :: u64) = (sz - 1) mod 4096 + 1"
    unfolding s by (intro uint_int64 n)
  obtain mem1 where c: "memcpy mem buf (fr_pages fr) ?n = Inr mem1" "length mem1 = length mem"
    "\<forall>i < length mem. mem1 ! i = (if buf \<le> i \<and> i < buf + ?n then mem ! (fr_pages fr + (i - buf)) else mem ! i)"
    using memcpy_spec [of buf ?n mem "fr_pages fr"] a n(1) by force
  have "mem1 ! (buf + k) = mem ! (buf + k)" if "?n \<le> k \<and> k < nat sz" for k
    using c(3) that a(1) by auto
  then show ?thesis using c(1) u r(2) e q(3,4) by (simp add: blk_read_finish_def)
qed

section \<open>Properties\<close>

text \<open>
  C13: \<^verbatim>\<open>blk_do_io\<close> puts a request with the first free number, the operation, the sector and a
  grant for each of its pages into the next entry of the ring, and it is then in flight.  The ring
  never overflows: the numbers run out before its entries.
\<close>
theorem request_sent:
  assumes "blk_inv d pend (i # free) (rs @ xs)" and "sendable d io_req"
    and "num_pages (requests d io_req) = int (length rs)" "rs \<noteq> []" "length rs \<le> 10"
    and "\<And>r. slots (m r) = slots r"
  shows "\<exists>d1 notify. blk_do_io v m io_req d = Inr (0, notify, d1) \<and> blk_inv d1 (i # pend) free xs \<and>
    slots (sring d1) = (slots (sring d))[slot (req_prod_pvt d) :=
       sent_entry (requests d io_req) i rs (e_seg (slots (sring d) ! slot (req_prod_pvt d)))] \<and>
    shadow_refs d1 i = rs \<and> request_of d1 i = io_req \<and>
    gnttab_table (grants d1) = granted v (rq_pages (requests d io_req)) rs (gnttab_table (grants d)) \<and>
    requests d1 = (requests d)(io_req := (requests d io_req)\<lparr>rq_state := BLK_SUBMITTED\<rparr>) \<and>
    req_prod_pvt d1 = req_prod_pvt d + 1 \<and> unat (req_prod_pvt d1 - rsp_cons d1) < BLK_RING_SIZE"
proof -
  obtain d1 notify where d1: "blk_do_io v m io_req d = Inr (0, notify, d1)" "blk_inv d1 (i # pend) free xs"
    "requests d1 = (requests d)(io_req := (requests d io_req)\<lparr>rq_state := BLK_SUBMITTED\<rparr>)"
    "shadow_refs d1 i = rs" "request_of d1 i = io_req"
    "gnttab_table (grants d1) = granted v (rq_pages (requests d io_req)) rs (gnttab_table (grants d))"
    "slots (sring d1) = (slots (sring d))[slot (req_prod_pvt d) :=
       sent_entry (requests d io_req) i rs (e_seg (slots (sring d) ! slot (req_prod_pvt d)))]"
    "req_prod_pvt d1 = req_prod_pvt d + 1" "rsp_cons d1 = rsp_cons d"
    using do_io_lemma [where v = v, OF assms] .
  have "unat (req_prod_pvt d1 - rsp_cons d1) = length (i # pend)" "in_flight d1 (i # pend) free xs"
    using d1(2) unfolding blk_inv_def by blast+
  then have "unat (req_prod_pvt d1 - rsp_cons d1) < BLK_RING_SIZE" using in_flight_few by fastforce
  then show ?thesis using d1 by blast
qed

definition demo_request :: blk_request where
  "demo_request = \<lparr>rq_pages = replicate 11 0x7000, num_pages = 2, start_sector = 0, end_sector = 0, rq_device = 0,
     rq_address = 0x1000, rq_state = BLK_EMPTY, rq_operation = BLK_REQ_WRITE, rq_callback = Some 5\<rparr>"

definition demo_blk :: blk_dev where
  "demo_blk = \<lparr>ready = True, sectors = 64, req_prod_pvt = 0, rsp_cons = 0,
     sring = \<lparr>req_prod = 0, req_event = 1, rsp_prod = 0, rsp_event = 1, slots = replicate 32
       \<lparr>e_head = Response_head 0 0 0, e_sector = 0, e_seg = replicate 11 \<lparr>seg_gref = 0, first_sect = 0, last_sect = 0\<rparr>\<rparr>\<rparr>,
     ids = \<lparr>blk_ids.freelist = (replicate 32 0)[0 := 1], bs_free = (\<lambda>_. True)\<rparr>,
     shadows = replicate 32 \<lparr>sh_gref = replicate 11 0, num_refs = 0, sh_request = 0\<rparr>,
     requests = (\<lambda>_. demo_request),
     grants = demo_gnttab\<lparr>gnttab_list := (replicate NR_GRANT_ENTRIES 0)[0 := 8, 8 := 9]\<rparr>\<rparr>"

lemma demo_blk_inv: "blk_inv demo_blk [] [1] [8, 9]"
proof -
  have "length (replicate NR_GRANT_ENTRIES (0 :: nat)) = 2048" by (simp add: gnttab_limits)
  then have "gnttab_rep (grants demo_blk) [8, 9]"
    by (simp add: demo_blk_def gnttab_rep_def chained_def NR_RESERVED_ENTRIES_def nth_list_update)
  moreover have "blk_rep (ids demo_blk) [1]" by (simp add: demo_blk_def blk_rep_def chained_def BLK_RING_SIZE_def)
  ultimately show ?thesis
    by (simp add: blk_inv_def in_flight_def)
      (simp add: demo_blk_def arrays_ok_def ring_ok_def BLK_RING_SIZE_def MAX_PAGES_PER_REQUEST_def)
qed

lemma demo_blk_sendable: "sendable demo_blk 5"
  by (simp add: demo_blk_def sendable_def demo_request_def MAX_PAGES_PER_REQUEST_def SECTOR_BITS_def Let_def)

lemma demo_blk_parts:
  "requests demo_blk p = demo_request" "num_pages demo_request = int (length [8 :: nat, 9])" "start_sector demo_request = 0"
  "rsp_cons demo_blk = 0" "slot (req_prod_pvt demo_blk) = 0" "slot (rsp_cons demo_blk) = 0"
  by (simp_all add: demo_blk_def demo_request_def slot_def BLK_RING_SIZE_def)

theorem request_sent_witness:
  "\<exists>d1 notify. blk_do_io (\<lambda>_. 77) id 5 demo_blk = Inr (0, notify, d1) \<and> blk_inv d1 [1] [] []"
  using request_sent [of demo_blk "[]" 1 "[]" "[8, 9]" "[]" 5 id "\<lambda>_. 77"] demo_blk_inv demo_blk_sendable
  by (simp add: demo_blk_parts(1,2)) blast


text \<open>The demonstration request, sent and answered.\<close>

definition demo_answer :: "blkif_sring \<Rightarrow> blkif_sring" where
  "demo_answer r = r\<lparr>rsp_prod := 1, slots := (slots r)[0 := (slots r ! 0)\<lparr>e_head := Response_head 1 1 0\<rparr>]\<rparr>"


text \<open>
  C14: The end of a request of several pages is lost.  \<^verbatim>\<open>blk_do_io\<close> stores it in the segment behind
  the last one, so the request asks for every sector of every page: a write of 4608 bytes overwrites
  8192 bytes of the disk.
\<close>
theorem multi_page_request_overruns:
  assumes "blk_inv d pend (i # free) (rs @ xs)" and "sendable d io_req"
    and "num_pages (requests d io_req) = int (length rs)" "2 \<le> length rs" "length rs \<le> 10"
    and "start_sector (requests d io_req) = 0" and "\<And>r. slots (m r) = slots r"
  shows "\<exists>d1 notify. blk_do_io v m io_req d = Inr (0, notify, d1) \<and>
    map (\<lambda>s. (first_sect s, last_sect s)) (take (length rs) (e_seg (slots (sring d1) ! slot (req_prod_pvt d)))) =
      replicate (length rs) (0, 7)"
proof -
  have ne: "rs \<noteq> []" using assms(4) by auto
  obtain d1 notify where d1: "blk_do_io v m io_req d = Inr (0, notify, d1)"
    "slots (sring d1) = (slots (sring d))[slot (req_prod_pvt d) :=
       sent_entry (requests d io_req) i rs (e_seg (slots (sring d) ! slot (req_prod_pvt d)))]"
    using do_io_lemma [where v = v, OF assms(1,2,3) ne assms(5,7)] .
  obtain r rs' where rs: "rs = r # rs'" "rs' \<noteq> []" using assms(4) by (cases rs; cases "tl rs") auto
  have "slot (req_prod_pvt d) < length (slots (sring d))"
    using assms(1) slot_less by (simp add: blk_inv_def arrays_ok_def ring_ok_def)
  then show ?thesis using d1 rs(2) assms(6)
    by (simp add: sent_entry_def rs(1) request_segs_def comp_def map_replicate_const)
qed

theorem multi_page_request_overruns_witness:
  "\<exists>d1 notify. blk_do_io (\<lambda>_. 77) id 5 demo_blk = Inr (0, notify, d1) \<and> end_sector (requests demo_blk 5) = 0 \<and>
     map (\<lambda>s. (first_sect s, last_sect s)) (take 2 (e_seg (slots (sring d1) ! 0))) = [(0, 7), (0, 7)]"
proof -
  have "end_sector (requests demo_blk 5) = 0" by (simp add: demo_blk_parts(1)) (simp add: demo_request_def)
  then show ?thesis
    using multi_page_request_overruns [of demo_blk "[]" 1 "[]" "[8, 9]" "[]" 5 id "\<lambda>_. 77"] demo_blk_inv demo_blk_sendable
    by (simp add: demo_blk_parts(1,2,3,5) numeral_2_eq_2)
qed

end
