(* ===== verification/Spec2Isabelle.thy ===== *)
theory Spec2Isabelle
  imports Klist Page_Alloc Xmalloc Cstring Numconv Printf Sched_Props Sync Events Grants
    Console Wait_Queues Xenbus_Call Xenstore Pte Clock Paging Blkfront
begin

text \<open>
  Stardust: a unikernel for Xen, written in C for x86-64.  This library models its kernel under
  \<^verbatim>\<open>src/\<close> and proves what makes its parts correct, and where they are not.

  \<^bold>\<open>The parts of the program and how they interact.\<close>  At start-up \<^verbatim>\<open>arch/mm.c\<close> maps the memory of
  the domain and \<^verbatim>\<open>mm.c\<close> sets up the bitmap of its pages.  The heap \<^verbatim>\<open>lib/xmalloc.c\<close> cuts pages into
  blocks.  \<^verbatim>\<open>sched.c\<close> runs threads on several processors; spin locks, mutexes, semaphores, wait
  queues and completions make threads wait and wake them through it.  Xen reports events through
  \<^verbatim>\<open>hypervisor.c\<close>, which finds the pending ports, and \<^verbatim>\<open>events.c\<close>, which calls their handlers.
  The drivers share pages with other domains, by grants (\<^verbatim>\<open>gnttab.c\<close>, \<^verbatim>\<open>gntmap.c\<close>) or by pages
  that Xen provides: the console, the Xenstore (\<^verbatim>\<open>xenbus/xenbus.c\<close> with its own thread, and the polling
  client \<^verbatim>\<open>xenstore.c\<close>) and the block device (\<^verbatim>\<open>blkfront.c\<close>).  \<^verbatim>\<open>arch/time.c\<close> derives the time
  from the records that Xen publishes.  \<^verbatim>\<open>lib/lib.c\<close> and \<^verbatim>\<open>lib/printf.c\<close> are the C library; the
  adapters in \<^verbatim>\<open>lib/pte/platform\<close> carry a POSIX threads library on top of the scheduler.

  \<^bold>\<open>Conventions.\<close>  The theory \<open>Prelude\<close> has the machine words, the results of routines that may
  stop in a fault (\<open>Bug\<close>, \<open>Crash\<close>, \<open>Undef\<close>) and the bounded array accesses.  State is a record that
  an operation returns updated.  A routine that calls \<^verbatim>\<open>schedule()\<close> in its middle is cut there into
  a part before and a part \<open>_resumed\<close> after.  What other domains, Xen and other processors do is an
  argument: the results of hypercalls, the values found in shared memory at each read, the moments
  of reads, the bytes that a daemon takes between two polls.  A loop with such an argument has the
  value \<open>None\<close> when the argument ends before the loop does.

  \<^bold>\<open>Theories and sources.\<close>

    \<^item> \<open>Klist\<close>: \<^verbatim>\<open>include/os/list.h\<close>, each operation as its pointer writes over a store of links.
      \<open>rings\<close> says that a family of heads has disjoint lists; each operation acts on the family
      as a list operation.  The traversal carries fuel, and a list of \<open>n\<close> nodes needs \<open>n\<close> steps.

    \<^item> \<open>Page_Alloc\<close>: \<^verbatim>\<open>mm.c\<close>.  \<open>mm_ok\<close> is the invariant, \<open>owned\<close> the pages handed out.
      The lemmas show that a run handed out was free and in range, that the search finds the lowest
      run, that growth into the memory holes keeps everything, and that every call returns: the fuel
      of \<open>allocate_pages\<close> is the number of pages left in the holes plus 3, and each round takes at
      least one of them or ends.  The locale \<open>page_provider\<close> is the contract with the heap.

    \<^item> \<open>Xmalloc\<close>: \<^verbatim>\<open>lib/xmalloc.c\<close> over any \<open>page_provider\<close>, instantiated with \<open>Page_Alloc\<close>.
      Blocks are disjoint and large enough, free neighbours in a page are merged, \<open>xrealloc\<close> keeps
      the contents.

    \<^item> \<open>Sched\<close>, \<open>Sched_Inv\<close>, \<open>Sched_Props\<close>: \<^verbatim>\<open>sched.c\<close> and \<^verbatim>\<open>arch/sched.c\<close>.  The second theory has
      the invariant and the refinement to a \<open>view\<close> of plain lists, the third the runs of the
      scheduler: an inductive relation with a step for each operation, and the invariant of every
      reachable state.

    \<^item> \<open>Sync\<close>: \<^verbatim>\<open>spinlock.c\<close>, also as interleaved steps of any number of threads, \<^verbatim>\<open>mutexes.c\<close>,
      \<^verbatim>\<open>semaphores.c\<close> with a refinement to a counter and a queue.  \<open>Wait_Queues\<close>: \<^verbatim>\<open>include/os/wait.h\<close>
      and completions.

    \<^item> \<open>Events\<close>: \<^verbatim>\<open>events.c\<close> and \<^verbatim>\<open>hypervisor.c\<close>.  A fuel of 35 suffices when only ports
      below 32 are pending: 32 ports and the ends of three loops.  A pending port of 64 or more in the
      lower half of its word makes the callback run for ever, which is proved for every fuel.

    \<^item> \<open>Grants\<close>: \<^verbatim>\<open>gnttab.c\<close>, \<^verbatim>\<open>gntmap.c\<close> and the request numbers of \<^verbatim>\<open>blkfront.c\<close>.  Both free
      lists implement the locale \<open>free_ids\<close>.

    \<^item> \<open>Byte_Ring\<close>, \<open>Console\<close>: rings of bytes with free-running indices and the locale \<open>fifo\<close>;
      \<^verbatim>\<open>console.c\<close>, whose ring implements it.

    \<^item> \<open>Xs_Wire\<close>, \<open>Xenbus\<close>, \<open>Xenbus_Props\<close>, \<open>Xenbus_Call\<close>, \<open>Xenstore\<close>: the messages of the Xenstore,
      \<^verbatim>\<open>xenbus/xenbus.c\<close>, its properties, a whole call with its answer, and \<^verbatim>\<open>xenstore.c\<close>.  The
      search for a request number visits 32 slots, the number there are.

    \<^item> \<open>Blkfront\<close>: \<^verbatim>\<open>blkfront.c\<close> with the ring of \<^verbatim>\<open>include/public/io/ring.h\<close>.  \<open>blk_inv\<close> relates
      the requests in flight, the free numbers and the free grants.

    \<^item> \<open>Clock\<close>: \<^verbatim>\<open>arch/time.c\<close>.  \<open>published\<close> is the rule of \<^verbatim>\<open>include/public/xen.h\<close> by which Xen
      writes its records; under it a copy that the version loops accept is a record that was current.

    \<^item> \<open>Paging\<close>: \<^verbatim>\<open>arch/mm.c\<close> on the macros of \<^verbatim>\<open>include/os/mm.h\<close>.  The loops are partial functions;
      that building returns is part of its property.

    \<^item> \<open>Tls\<close>, \<open>Pte\<close>: \<^verbatim>\<open>lib/pte/platform\<close>.  The tree of keys implements the locale \<open>key_store\<close>;
      \<open>Pte\<close> composes semaphores, scheduler and thread-local storage.

    \<^item> \<open>Cstring\<close>, \<open>Numconv\<close>, \<open>Printf\<close>: \<^verbatim>\<open>lib/lib.c\<close>, \<^verbatim>\<open>include/ctype.h\<close> and \<^verbatim>\<open>lib/printf.c\<close> over one memory
      of bytes in which leaving the memory is a fault.

  \<^bold>\<open>Properties.\<close>  Each is marked C1 to C40 in front of its theorem: allocation (C1 to C5), scheduling
  (C6, C7, C25 to C27), the Xenstore (C8, C9, C24), the console (C10, C11), the block device (C12 to
  C14), time (C15 to C17), page tables (C18), the POSIX adapters (C19 to C23), locks and semaphores
  (C28 to C30), events (C31, C32), grants (C33, C34), the heap's \<open>xrealloc\<close> (C35), completions (C36),
  lists (C37) and the C library (C38 to C40).  Every property with hypotheses has a witness that
  applies it to a concrete state.  Some of them state what the code does wrong.

  \<^bold>\<open>Not modelled.\<close>
    \<^item> \<^verbatim>\<open>lib/pte/posix\<close> and the rest of \<^verbatim>\<open>lib/pte\<close> outside \<^verbatim>\<open>platform\<close>: a copy of the library
      pthreads-embedded, written elsewhere, and its tests.
    \<^item> \<^verbatim>\<open>arch/traps.c\<close>, the context switch of \<^verbatim>\<open>arch/sched.c\<close>, \<^verbatim>\<open>smp.c\<close>, \<^verbatim>\<open>startup.c\<close>, \<^verbatim>\<open>kernel.c\<close>,
      \<^verbatim>\<open>poweroff.c\<close>: register frames, assembly, one-off initialisation and output.
    \<^item> \<^verbatim>\<open>suspension.c\<close>: a fixed sequence of hypercalls and of calls that save and restore registers.
    \<^item> \<^verbatim>\<open>atomic.c\<close>: single instructions in inline assembly.
    \<^item> \<^verbatim>\<open>lib/math.c\<close>: the division of 64-bit numbers on machines without one.
    \<^item> In \<^verbatim>\<open>mm.c\<close> the resizing of the frame table and the demand-mapped area; in \<^verbatim>\<open>lib/lib.c\<close>
      \<^verbatim>\<open>strtod\<close>, \<^verbatim>\<open>quicksort\<close>, the environment and the stubs of file operations; in \<^verbatim>\<open>blkfront.c\<close> the
      discovery of devices through the Xenstore.
    \<^item> \<^verbatim>\<open>include/public\<close>: declarations of Xen's interface, except the constants and layouts that the
      models use.
    \<^item> Floating-point state, the stacks of threads, the printing of debug text.
\<close>

end
